(* ===== verification/Prelude.thy ===== *)
theory Prelude
  imports Main "HOL-Library.Word" "HOL-Library.Multiset" "HOL-Library.Product_Lexorder"
begin

text \<open>
  Shared vocabulary of the development: the machine integer types, the Rust integer
  operations the sources use (saturating arithmetic, narrowing casts, big-endian bytes),
  the slice operations (\<open>swap\<close>, \<open>swap_remove\<close>, \<open>partition_point\<close>) and the generic list
  and multiset lemmas the component theories build on.  A \<open>usize\<close> is a \<^typ>\<open>nat\<close> with its
  saturation or truncation written out where the source asks for one; fixed-width fields
  whose wrap-around matters (clock ticks, sequence numbers, generations) are words.
\<close>

unbundle bit_operations_syntax

type_synonym u8 = "8 word"
type_synonym u16 = "16 word"
type_synonym u32 = "32 word"
type_synonym u64 = "64 word"
type_synonym ticks = "64 word"

text \<open>Facts that unfold one operation of a component, and facts that keep an invariant.\<close>

named_theorems op_defs
named_theorems inv_keep

section \<open>Integer operations\<close>

definition usize_max :: nat where
  "usize_max = 2 ^ 64 - 1"

definition saturating_add :: "nat \<Rightarrow> nat \<Rightarrow> nat" where
  "saturating_add a b = min (a + b) usize_max"

definition as_u32 :: "nat \<Rightarrow> nat" where
  "as_u32 n = n mod 2 ^ 32"

lemma as_u32_id [simp]: "n < 2 ^ 32 \<Longrightarrow> as_u32 n = n"
  by (simp add: as_u32_def)

definition word_saturating_sub :: "'a::len word \<Rightarrow> 'a word \<Rightarrow> 'a word" where
  "word_saturating_sub a b = (if a \<le> b then 0 else a - b)"

lemma unat_word_saturating_sub [simp]:
  "unat (word_saturating_sub a b) = unat a - unat b"
  by (auto simp: word_saturating_sub_def word_le_nat_alt unat_sub)

section \<open>Bytes\<close>

text \<open>\<open>u16::to_be_bytes\<close>, \<open>u32::to_be_bytes\<close> and \<open>u64::to_be_bytes\<close>, and their inverses.\<close>

definition be_bytes :: "nat \<Rightarrow> nat \<Rightarrow> u8 list" where
  "be_bytes k n = map (\<lambda>i. word_of_nat (n div 256 ^ (k - 1 - i))) [0..<k]"

definition of_be_bytes :: "u8 list \<Rightarrow> nat" where
  "of_be_bytes bs = foldl (\<lambda>acc b. acc * 256 + unat b) 0 bs"

lemma length_be_bytes [simp]: "length (be_bytes k n) = k"
  by (simp add: be_bytes_def)

lemma of_be_bytes_append: "of_be_bytes (bs @ [b]) = of_be_bytes bs * 256 + unat b"
  by (simp add: of_be_bytes_def)

lemma be_bytes_Suc: "be_bytes (Suc k) n = be_bytes k (n div 256) @ [word_of_nat n]"
  by (auto simp: be_bytes_def div_mult2_eq [symmetric] simp flip: power_Suc intro!: nth_equalityI)
    (metis Suc_diff_Suc diff_Suc_eq_diff_pred diff_diff_left plus_1_eq_Suc)

lemma of_be_bytes_be_bytes: "of_be_bytes (be_bytes k n) = n mod 256 ^ k"
proof (induction k arbitrary: n)
  case 0
  show ?case by (simp add: be_bytes_def of_be_bytes_def)
next
  case (Suc k)
  have "n mod 256 ^ Suc k = (n div 256) mod 256 ^ k * 256 + n mod 256"
    by (simp add: mod_mult2_eq)
  then show ?case
    by (simp add: be_bytes_Suc of_be_bytes_append Suc.IH unat_of_nat)
qed

lemma of_be_bytes_bound: "of_be_bytes bs < 256 ^ length bs"
proof (induction bs rule: rev_induct)
  case Nil
  show ?case by (simp add: of_be_bytes_def)
next
  case (snoc b bs)
  have "unat b < 2 ^ LENGTH(8)" by (rule unsigned_less)
  then have "of_be_bytes bs * 256 + unat b < (of_be_bytes bs + 1) * 256"
    by simp
  also have "\<dots> \<le> 256 ^ length bs * 256"
    using snoc by (intro mult_right_mono) simp_all
  finally show ?case by (simp add: of_be_bytes_append)
qed

section \<open>Slices\<close>

text \<open>\<open>slice::swap\<close>; both indices are in range wherever the sources call it.\<close>

definition list_swap :: "'a list \<Rightarrow> nat \<Rightarrow> nat \<Rightarrow> 'a list" where
  "list_swap xs i j = xs[i := xs ! j, j := xs ! i]"

lemma length_list_swap [simp]: "length (list_swap xs i j) = length xs"
  by (simp add: list_swap_def)

lemma nth_list_swap:
  assumes "i < length xs" "j < length xs" "k < length xs"
  shows "list_swap xs i j ! k = (if k = j then xs ! i else if k = i then xs ! j else xs ! k)"
  using assms by (simp add: list_swap_def nth_list_update)

lemma mset_list_swap [simp]:
  "i < length xs \<Longrightarrow> j < length xs \<Longrightarrow> mset (list_swap xs i j) = mset xs"
  by (simp add: list_swap_def mset_swap)

lemma set_list_swap [simp]:
  "i < length xs \<Longrightarrow> j < length xs \<Longrightarrow> set (list_swap xs i j) = set xs"
  by (metis mset_list_swap set_mset_mset)

text \<open>\<open>Vec::swap_remove(0)\<close> of a non-empty vector: the removed head and the rest.\<close>

definition swap_remove0 :: "'a list \<Rightarrow> 'a \<times> 'a list" where
  "swap_remove0 xs =
     (hd xs, if length xs = 1 then [] else (butlast xs)[0 := last xs])"

lemma mset_swap_remove0:
  "xs \<noteq> [] \<Longrightarrow> mset xs = add_mset (fst (swap_remove0 xs)) (mset (snd (swap_remove0 xs)))"
proof (cases xs)
  case (Cons x ys)
  then show ?thesis
  proof (cases ys rule: rev_cases)
    case (snoc zs z)
    with Cons show ?thesis by (cases zs) (auto simp: swap_remove0_def)
  qed (auto simp: swap_remove0_def)
qed simp

lemma length_swap_remove0 [simp]:
  "xs \<noteq> [] \<Longrightarrow> length (snd (swap_remove0 xs)) = length xs - 1"
  by (auto simp: swap_remove0_def)

lemma fst_swap_remove0 [simp]: "fst (swap_remove0 xs) = hd xs"
  by (simp add: swap_remove0_def)

lemma nth_swap_remove0:
  assumes "0 < j" "j < length xs - 1"
  shows "snd (swap_remove0 xs) ! j = xs ! j"
  using assms by (auto simp: swap_remove0_def nth_butlast)

text \<open>
  \<open>slice::partition_point\<close>: the library contracts it only for slices on which the
  predicate holds for a prefix, and there it is the length of that prefix.
\<close>

definition partition_point :: "('a \<Rightarrow> bool) \<Rightarrow> 'a list \<Rightarrow> nat" where
  "partition_point P xs = length (takeWhile P xs)"

lemma partition_point_le [simp]: "partition_point P xs \<le> length xs"
  by (simp add: partition_point_def length_takeWhile_le)

lemma partition_point_before: "i < partition_point P xs \<Longrightarrow> P (xs ! i)"
  by (metis nth_mem partition_point_def set_takeWhileD takeWhile_nth)

lemma partition_point_at:
  "partition_point P xs < length xs \<Longrightarrow> \<not> P (xs ! partition_point P xs)"
  by (simp add: nth_length_takeWhile partition_point_def)

text \<open>\<open>Vec::insert\<close>.\<close>

definition list_insert_at :: "nat \<Rightarrow> 'a \<Rightarrow> 'a list \<Rightarrow> 'a list" where
  "list_insert_at i x xs = take i xs @ x # drop i xs"

lemma length_list_insert_at [simp]: "length (list_insert_at i x xs) = Suc (length xs)"
  by (simp add: list_insert_at_def)

lemma set_list_insert_at [simp]: "set (list_insert_at i x xs) = insert x (set xs)"
  by (metis append_take_drop_id insert_is_Un list.simps(15) list_insert_at_def set_append
      sup_assoc sup_commute)

lemma mset_list_insert_at [simp]: "mset (list_insert_at i x xs) = add_mset x (mset xs)"
  by (simp add: list_insert_at_def) (metis append_take_drop_id mset_append)

section \<open>Lists and multisets\<close>

lemma size_filter_mset_list: "size (filter_mset P (mset xs)) = length (filter P xs)"
  by (metis mset_filter size_mset)

lemma filter_cong_mset: "mset xs = mset ys \<Longrightarrow> mset (filter P xs) = mset (filter P ys)"
  by (simp add: mset_filter)

lemma mset_filter_split: "mset (filter (\<lambda>x. \<not> P x) xs) + mset (filter P xs) = mset xs"
  by (induction xs) auto

lemma distinct_map_mset:
  "mset xs = mset ys \<Longrightarrow> distinct (map f xs) \<longleftrightarrow> distinct (map f ys)"
  by (metis mset_eq_imp_distinct_iff mset_map)

lemma length_filter_update:
  assumes "i < length xs"
  shows "length (filter P (xs[i := x])) + of_bool (P (xs ! i)) =
    length (filter P xs) + of_bool (P x)"
proof -
  have "xs = take i xs @ xs ! i # drop (Suc i) xs"
    using assms by (simp add: id_take_nth_drop)
  then have "filter P xs = filter P (take i xs) @ filter P [xs ! i] @ filter P (drop (Suc i) xs)"
    by (metis append_Cons append_Nil filter_append)
  moreover have "filter P (xs[i := x]) =
      filter P (take i xs) @ filter P [x] @ filter P (drop (Suc i) xs)"
    using assms by (simp add: upd_conv_take_nth_drop)
  ultimately show ?thesis by simp
qed

end
