(* ===== verification/Handles.thy ===== *)
theory Handles
  imports Prelude
begin

text \<open>
  The scheduled-callback handles of \<open>crates/pyshim/src/handles.rs\<close>, as far as the reactor
  sees them: the shared flags of a \<open>Handle\<close> (\<open>cancelled\<close>, \<open>scheduled\<close>, whether it still
  holds its callback and context) and the loop's tombstone counter that
  \<open>TimerHandle.cancel\<close> bumps.  A handle is a Python object shared between the application
  and the loop, so the flags live in a store keyed by the handle's identity: the timer heap
  reads \<open>is_cancelled\<close> off the payload at the moment it looks, not at scheduling time.
\<close>

record 'a hstore =
  cancelled :: "'a \<Rightarrow> bool"
  scheduled :: "'a \<Rightarrow> bool"
  refs_held :: "'a \<Rightarrow> bool"
  cancel_counter :: nat

section \<open>\<open>Handle\<close>\<close>

text \<open>\<open>Handle::do_cancel\<close>: true when this call newly cancelled the handle.\<close>

definition do_cancel :: "'a \<Rightarrow> 'a hstore \<Rightarrow> bool \<times> 'a hstore" where
  "do_cancel t st =
     (if cancelled st t then (False, st)
      else (True, st\<lparr>cancelled := (cancelled st)(t := True)\<rparr>))"

definition is_cancelled :: "'a \<Rightarrow> 'a hstore \<Rightarrow> bool" where
  "is_cancelled t st = cancelled st t"

definition mark_scheduled :: "'a \<Rightarrow> 'a hstore \<Rightarrow> 'a hstore" where
  "mark_scheduled t st = st\<lparr>scheduled := (scheduled st)(t := True)\<rparr>"

definition is_scheduled :: "'a \<Rightarrow> 'a hstore \<Rightarrow> bool" where
  "is_scheduled t st = scheduled st t"

definition release :: "'a \<Rightarrow> 'a hstore \<Rightarrow> 'a hstore" where
  "release t st = st\<lparr>refs_held := (refs_held st)(t := False)\<rparr>"

definition handle_cancel :: "'a \<Rightarrow> 'a hstore \<Rightarrow> 'a hstore" where
  "handle_cancel t st =
     (let (fresh, st') = do_cancel t st in if fresh then release t st' else st')"

section \<open>\<open>TimerPayload\<close> for \<open>HandleRef\<close>, and \<open>TimerHandle.cancel\<close>\<close>

definition mark_unscheduled :: "'a \<Rightarrow> 'a hstore \<Rightarrow> 'a hstore" where
  "mark_unscheduled t st = st\<lparr>scheduled := (scheduled st)(t := False)\<rparr>"

definition timer_cancel :: "'a \<Rightarrow> 'a hstore \<Rightarrow> 'a hstore" where
  "timer_cancel t st =
     (let (fresh, st1) = do_cancel t st in
      if fresh
      then release t (if is_scheduled t st1
                      then st1\<lparr>cancel_counter := cancel_counter st1 + 1\<rparr> else st1)
      else st1)"

section \<open>\<open>run_handle\<close>: does a dispatched handle call its callback?\<close>

text \<open>
  \<open>run_handle\<close> returns without calling anything for a cancelled or a released handle; the
  call itself is Python.
\<close>

definition run_handle_calls :: "'a \<Rightarrow> 'a hstore \<Rightarrow> bool" where
  "run_handle_calls t st = (\<not> is_cancelled t st \<and> refs_held st t)"

section \<open>Facts\<close>

lemma mark_unscheduled_simps [simp]:
  "cancelled (mark_unscheduled t st) = cancelled st"
  "scheduled (mark_unscheduled t st) = (scheduled st)(t := False)"
  "refs_held (mark_unscheduled t st) = refs_held st"
  "cancel_counter (mark_unscheduled t st) = cancel_counter st"
  by (simp_all add: mark_unscheduled_def)

lemma mark_scheduled_simps [simp]:
  "cancelled (mark_scheduled t st) = cancelled st"
  "scheduled (mark_scheduled t st) = (scheduled st)(t := True)"
  "refs_held (mark_scheduled t st) = refs_held st"
  "cancel_counter (mark_scheduled t st) = cancel_counter st"
  by (simp_all add: mark_scheduled_def)

lemma timer_cancel_cancelled [simp]:
  "cancelled (timer_cancel t st) = (cancelled st)(t := True)"
  by (auto simp: timer_cancel_def do_cancel_def release_def is_scheduled_def fun_eq_iff)

lemma timer_cancel_scheduled [simp]: "scheduled (timer_cancel t st) = scheduled st"
  by (auto simp: timer_cancel_def do_cancel_def release_def is_scheduled_def)

lemma timer_cancel_counter:
  "cancel_counter (timer_cancel t st) =
     cancel_counter st + of_bool (\<not> cancelled st t \<and> scheduled st t)"
  by (auto simp: timer_cancel_def do_cancel_def release_def is_scheduled_def)

lemma handle_cancel_idem: "handle_cancel t (handle_cancel t st) = handle_cancel t st"
  by (auto simp: handle_cancel_def do_cancel_def release_def)

lemma timer_cancel_idem: "timer_cancel t (timer_cancel t st) = timer_cancel t st"
  by (auto simp: timer_cancel_def do_cancel_def release_def is_scheduled_def)

lemma cancelled_never_called: "\<not> run_handle_calls t (timer_cancel t st)"
  by (simp add: run_handle_calls_def is_cancelled_def)

lemma foldr_mark_unscheduled [simp]:
  "cancelled (fold mark_unscheduled ts st) = cancelled st"
  "scheduled (fold mark_unscheduled ts st) = (\<lambda>t. scheduled st t \<and> t \<notin> set ts)"
  "refs_held (fold mark_unscheduled ts st) = refs_held st"
  "cancel_counter (fold mark_unscheduled ts st) = cancel_counter st"
  by (induction ts arbitrary: st) auto

end
