(* ===== verification/Timer_Heap.thy ===== *)
theory Timer_Heap
  imports Handles
begin

text \<open>
  The native timer heap of \<open>crates/core/src/timer.rs\<close>: a 4-ary array heap keyed on
  (deadline, sequence number), with cancelled entries left in place as tombstones until they
  surface or compaction removes them.  The payload's trait (\<open>TimerPayload\<close>) is the handle
  store of \<open>Handles\<close>: an operation that reads \<open>is_cancelled\<close> or calls
  \<open>mark_unscheduled\<close> takes the store and hands it back.
\<close>

record 'a entry =
  deadline :: ticks
  eseq :: u64
  payload :: 'a

definition ARITY :: nat where
  "ARITY = 4"

record 'a timer_heap =
  entries :: "'a entry list"
  hseq :: u64
  tombstones :: nat
  graveyard :: "'a list"

section \<open>The code\<close>

definition key :: "'a entry \<Rightarrow> ticks \<times> u64" where
  "key e = (deadline e, eseq e)"

definition heap_new :: "'a timer_heap" where
  "heap_new = \<lparr>entries = [], hseq = 0, tombstones = 0, graveyard = []\<rparr>"

definition take_graveyard :: "'a timer_heap \<Rightarrow> 'a list \<times> 'a timer_heap" where
  "take_graveyard h = (graveyard h, h\<lparr>graveyard := []\<rparr>)"

definition has_graveyard :: "'a timer_heap \<Rightarrow> bool" where
  "has_graveyard h = (graveyard h \<noteq> [])"

definition heap_len :: "'a timer_heap \<Rightarrow> nat" where
  "heap_len h = length (entries h)"

definition less_at :: "'a entry list \<Rightarrow> nat \<Rightarrow> nat \<Rightarrow> bool" where
  "less_at es a b = (key (es ! a) < key (es ! b))"

definition parent :: "nat \<Rightarrow> nat" where
  "parent i = (i - 1) div ARITY"

lemma parent_less [simp]: "0 < i \<Longrightarrow> parent i < i"
  by (simp add: parent_def ARITY_def)

lemma parent_less_bound [simp]: "0 < i \<Longrightarrow> i < n \<Longrightarrow> parent i < n"
  using parent_less [of i] by linarith

function sift_up :: "'a entry list \<Rightarrow> nat \<Rightarrow> 'a entry list" where
  "sift_up es i =
     (if 0 < i \<and> less_at es i (parent i)
      then sift_up (list_swap es i (parent i)) (parent i) else es)"
  by pat_completeness auto
termination
  by (relation "measure snd") auto

declare sift_up.simps [simp del]

text \<open>The inner \<open>for c in first_child..last_child\<close> loop: the least of \<open>i\<close> and its children.\<close>

definition min_child :: "'a entry list \<Rightarrow> nat \<Rightarrow> nat" where
  "min_child es i =
     (let first_child = i * ARITY + 1;
          last_child = min (first_child + ARITY) (length es)
      in fold (\<lambda>c m. if less_at es c m then c else m) [first_child..<last_child] i)"

lemma fold_min_in:
  "fold (\<lambda>c m. if less_at es c m then c else m) cs i \<in> insert i (set cs)"
proof (induction cs arbitrary: i)
  case (Cons c cs)
  show ?case using Cons.IH [of c] Cons.IH [of i] by auto
qed simp

lemma min_child_cases:
  "min_child es i = i \<or> i < min_child es i \<and> min_child es i < length es
     \<and> parent (min_child es i) = i"
  using fold_min_in [of es "[i * ARITY + 1..<min (i * ARITY + 1 + ARITY) (length es)]" i]
  by (auto simp: min_child_def Let_def parent_def ARITY_def)

function sift_down :: "'a entry list \<Rightarrow> nat \<Rightarrow> 'a entry list" where
  "sift_down es i =
     (if i * ARITY + 1 \<ge> length es then es
      else if min_child es i = i then es
      else sift_down (list_swap es i (min_child es i)) (min_child es i))"
  by pat_completeness auto
termination
proof (relation "measure (\<lambda>(es, i). length es - i)", goal_cases)
  case (2 es i)
  then show ?case using min_child_cases [of es i] by auto
qed simp

declare sift_down.simps [simp del]

definition pop_top :: "'a entry list \<Rightarrow> 'a entry \<times> 'a entry list" where
  "pop_top es =
     (let (entry, rest) = swap_remove0 es
      in (entry, if length rest > 1 then sift_down rest 0 else rest))"

definition schedule :: "ticks \<Rightarrow> 'a \<Rightarrow> 'a timer_heap \<Rightarrow> 'a timer_heap" where
  "schedule d p h =
     (let es = entries h @ [\<lparr>deadline = d, eseq = hseq h, payload = p\<rparr>]
      in h\<lparr>hseq := hseq h + 1, entries := sift_up es (length es - 1)\<rparr>)"

text \<open>\<open>compact\<close>: the in-place partition, then Floyd's construction from the last parent.\<close>

definition partition_step ::
  "('a \<Rightarrow> bool) \<Rightarrow> nat \<Rightarrow> 'a entry list \<times> nat \<Rightarrow> 'a entry list \<times> nat" where
  "partition_step canc i s =
     (let (es, live) = s in
      if canc (payload (es ! i)) then (es, live) else (list_swap es live i, live + 1))"

definition partition_live :: "('a \<Rightarrow> bool) \<Rightarrow> 'a entry list \<Rightarrow> 'a entry list \<times> nat" where
  "partition_live canc es = fold (partition_step canc) [0..<length es] (es, 0)"

definition floyd :: "'a entry list \<Rightarrow> 'a entry list" where
  "floyd es =
     (if length es > 1
      then fold (\<lambda>i es. sift_down es i) (rev [0..<(length es - 2) div ARITY + 1]) es
      else es)"

definition compact :: "'a timer_heap \<times> 'a hstore \<Rightarrow> 'a timer_heap \<times> 'a hstore" where
  "compact s =
     (let (h, st) = s;
          (es, live) = partition_live (\<lambda>p. is_cancelled p st) (entries h);
          dead = map payload (drop live es)
      in (h\<lparr>entries := floyd (take live es), tombstones := 0,
             graveyard := graveyard h @ dead\<rparr>,
          fold mark_unscheduled dead st))"

definition note_cancelled :: "nat \<Rightarrow> 'a timer_heap \<times> 'a hstore \<Rightarrow> 'a timer_heap \<times> 'a hstore" where
  "note_cancelled n s =
     (let (h, st) = s; h' = h\<lparr>tombstones := saturating_add (tombstones h) n\<rparr>
      in if tombstones h' * 2 > length (entries h') then compact (h', st) else (h', st))"

text \<open>Removing a surfaced tombstone: to the graveyard, one tombstone fewer (saturating).\<close>

definition bury :: "'a \<Rightarrow> 'a timer_heap \<Rightarrow> 'a timer_heap" where
  "bury p h = h\<lparr>graveyard := graveyard h @ [p], tombstones := tombstones h - 1\<rparr>"

definition remove_top :: "'a timer_heap \<times> 'a hstore \<Rightarrow> 'a \<times> 'a timer_heap \<times> 'a hstore" where
  "remove_top s =
     (let (h, st) = s; (e, es) = pop_top (entries h)
      in (payload e, h\<lparr>entries := es\<rparr>, mark_unscheduled (payload e) st))"

lemma length_sift_down [simp]: "length (sift_down es i) = length es"
  by (induction es i rule: sift_down.induct) (simp add: sift_down.simps)

lemma length_sift_up [simp]: "length (sift_up es i) = length es"
  by (induction es i rule: sift_up.induct) (simp add: sift_up.simps)

lemma length_pop_top: "es \<noteq> [] \<Longrightarrow> length (snd (pop_top es)) = length es - 1"
  by (simp add: pop_top_def split_beta)

function drop_cancelled_top :: "'a timer_heap \<times> 'a hstore \<Rightarrow> 'a timer_heap \<times> 'a hstore" where
  "drop_cancelled_top (h, st) =
     (case entries h of
        [] \<Rightarrow> (h, st)
      | first # _ \<Rightarrow>
          if \<not> is_cancelled (payload first) st then (h, st)
          else (let (p, h', st') = remove_top (h, st) in drop_cancelled_top (bury p h', st')))"
  by pat_completeness auto
termination
proof (relation "measure (\<lambda>(h, st). length (entries h))", goal_cases)
  case (2 h st x2 x1 x y z)
  then show ?case
    using length_pop_top [of "entries h"] by (auto simp: remove_top_def bury_def split_beta)
qed simp

declare drop_cancelled_top.simps [simp del]

definition next_deadline ::
  "'a timer_heap \<times> 'a hstore \<Rightarrow> ticks option \<times> 'a timer_heap \<times> 'a hstore" where
  "next_deadline s =
     (let (h, st) = drop_cancelled_top s
      in (case entries h of [] \<Rightarrow> None | e # _ \<Rightarrow> Some (deadline e), h, st))"

definition peek_deadline :: "'a timer_heap \<Rightarrow> ticks option" where
  "peek_deadline h = (case entries h of [] \<Rightarrow> None | e # _ \<Rightarrow> Some (deadline e))"

function pop_expired ::
  "ticks \<Rightarrow> 'a timer_heap \<times> 'a hstore \<Rightarrow> 'a option \<times> 'a timer_heap \<times> 'a hstore" where
  "pop_expired now (h, st) =
     (case entries h of
        [] \<Rightarrow> (None, h, st)
      | first # _ \<Rightarrow>
          if deadline first > now then (None, h, st)
          else (let (p, h', st') = remove_top (h, st) in
                if \<not> is_cancelled p st' then (Some p, h', st')
                else pop_expired now (bury p h', st')))"
  by pat_completeness auto
termination
proof (relation "measure (\<lambda>(now, h, st). length (entries h))", goal_cases)
  case (2 now h st x2 x1 x y z)
  then show ?case
    using length_pop_top [of "entries h"] by (auto simp: remove_top_def bury_def split_beta)
qed simp

declare pop_expired.simps [simp del]

definition drain_all :: "'a timer_heap \<times> 'a hstore \<Rightarrow> 'a list \<times> 'a timer_heap \<times> 'a hstore" where
  "drain_all s =
     (let (h, st) = s; out = map payload (entries h)
      in (out @ graveyard h, h\<lparr>entries := [], graveyard := [], tombstones := 0\<rparr>,
          fold mark_unscheduled out st))"

end
