(* ===== verification/Contracts.thy ===== *)
theory Contracts
  imports Prelude
begin

text \<open>
  The interfaces between the components, as locales.  A client proves its lemmas once inside
  the locale, from the laws alone; the component that provides the operations interprets the
  locale on its own definitions.
\<close>

section \<open>A queue of deadlines\<close>

text \<open>
  What the reactor relies on when it fires timers: a pop up to \<open>now\<close> hands out the least
  pending element that is due, or says that none is due, and forgets nothing else.
\<close>

locale timer_queue =
  fixes ok :: "'s \<Rightarrow> bool"
    and pending :: "'s \<Rightarrow> ((ticks \<times> u64) \<times> 'a) multiset"
    and pop :: "ticks \<Rightarrow> 's \<Rightarrow> 'a option \<times> 's"
  assumes pop_None: "ok s \<Longrightarrow> pop now s = (None, s') \<Longrightarrow>
      ok s' \<and> pending s' = pending s \<and> (\<forall>x\<in>#pending s. now < fst (fst x))"
    and pop_Some: "ok s \<Longrightarrow> pop now s = (Some a, s') \<Longrightarrow>
      ok s' \<and> (\<exists>k. pending s = add_mset (k, a) (pending s') \<and> fst k \<le> now \<and>
        (\<forall>x\<in>#pending s'. k \<le> fst x))"
begin

text \<open>The client's loop: pop until nothing is due.\<close>

inductive drains :: "ticks \<Rightarrow> 's \<Rightarrow> 'a list \<Rightarrow> 's \<Rightarrow> bool" where
  drain_stop: "pop now s = (None, s') \<Longrightarrow> drains now s [] s'"
| drain_step: "pop now s = (Some a, s1) \<Longrightarrow> drains now s1 as s' \<Longrightarrow> drains now s (a # as) s'"

lemma drains_spec:
  assumes "drains now s as s'" "ok s"
  shows "ok s' \<and> (\<exists>ks. length ks = length as \<and> sorted ks \<and>
    pending s = mset (zip ks as) + pending s' \<and>
    (\<forall>k\<in>set ks. fst k \<le> now) \<and> (\<forall>x\<in>#pending s'. now < fst (fst x)))"
  using assms
proof (induction rule: drains.induct)
  case (drain_stop now s s')
  then show ?case using pop_None [OF drain_stop.prems drain_stop.hyps] by (auto intro: exI [of _ "[]"])
next
  case (drain_step now s a s1 as s')
  from pop_Some [OF drain_step.prems drain_step.hyps(1)] obtain k where
    "ok s1" and k: "pending s = add_mset (k, a) (pending s1)" "fst k \<le> now"
      "\<forall>x\<in>#pending s1. k \<le> fst x" by blast
  with drain_step.IH obtain ks where "ok s'" and ks: "length ks = length as" "sorted ks"
    "pending s1 = mset (zip ks as) + pending s'" "\<forall>k\<in>set ks. fst k \<le> now"
    "\<forall>x\<in>#pending s'. now < fst (fst x)" by blast
  have "k \<le> k'" if "k' \<in> set ks" for k'
  proof -
    from that ks(1) obtain b where "(k', b) \<in> set (zip ks as)"
      by (metis in_set_impl_in_set_zip1)
    then have "(k', b) \<in># pending s1" by (simp add: ks(3))
    with k(3) have "k \<le> fst (k', b)" by blast
    then show ?thesis by simp
  qed
  with k ks \<open>ok s'\<close> show ?case by (intro conjI exI [of _ "k # ks"]) auto
qed

lemma drains_order:
  assumes "drains now s as s'" "ok s"
  obtains ks where "length ks = length as" "sorted ks"
    "mset (zip ks as) = filter_mset (\<lambda>x. fst (fst x) \<le> now) (pending s)"
    "pending s' = filter_mset (\<lambda>x. \<not> fst (fst x) \<le> now) (pending s)" "ok s'"
proof -
  from drains_spec [OF assms] obtain ks where "ok s'" and ks: "length ks = length as" "sorted ks"
    "pending s = mset (zip ks as) + pending s'" "\<forall>k\<in>set ks. fst k \<le> now"
    "\<forall>x\<in>#pending s'. now < fst (fst x)" by blast
  have "filter_mset (\<lambda>x. fst (fst x) \<le> now) (mset (zip ks as)) = mset (zip ks as)"
    "filter_mset (\<lambda>x. \<not> fst (fst x) \<le> now) (mset (zip ks as)) = {#}"
    using ks(4)
    by (fastforce simp: filter_mset_eq_conv filter_mset_eq_mempty_iff dest: set_zip_leftD)+
  moreover have "filter_mset (\<lambda>x. fst (fst x) \<le> now) (pending s') = {#}"
    "filter_mset (\<lambda>x. \<not> fst (fst x) \<le> now) (pending s') = pending s'"
    using ks(5) by (auto simp: filter_mset_eq_conv filter_mset_eq_mempty_iff not_le)
  ultimately show thesis using ks \<open>ok s'\<close> by (intro that [of ks]) auto
qed

end

section \<open>Identifiers that are handed out and taken back\<close>

text \<open>
  The contract the op slab, the buffer pool and the send-staging ledger share: an allocation
  never returns an identifier that is still live, and freeing one by its sole owner leaves
  the others live.
\<close>

locale id_allocator =
  fixes ok :: "'s \<Rightarrow> bool"
    and live :: "'s \<Rightarrow> 'i set"
    and alloc :: "'s \<Rightarrow> ('i \<times> 's) option"
    and sole :: "'i \<Rightarrow> 's \<Rightarrow> bool"
    and free :: "'i \<Rightarrow> 's \<Rightarrow> 's"
  assumes alloc_fresh: "ok s \<Longrightarrow> alloc s = Some (i, s') \<Longrightarrow>
      ok s' \<and> i \<notin> live s \<and> live s' = insert i (live s)"
    and free_live: "ok s \<Longrightarrow> i \<in> live s \<Longrightarrow> sole i s \<Longrightarrow>
      ok (free i s) \<and> live (free i s) = live s - {i}"
begin

text \<open>A run of allocations and frees by owners that free only what they hold.\<close>

inductive holds :: "'s \<Rightarrow> 'i list \<Rightarrow> 's \<Rightarrow> 'i list \<Rightarrow> bool" where
  refl: "holds s is s is"
| alloc: "holds s is s1 js \<Longrightarrow> alloc s1 = Some (i, s2) \<Longrightarrow> holds s is s2 (i # js)"
| free: "holds s is s1 js \<Longrightarrow> i \<in> set js \<Longrightarrow> sole i s1 \<Longrightarrow>
    holds s is (free i s1) (removeAll i js)"

text \<open>No identifier ever has two holders, and every held identifier is live.\<close>

lemma holds_distinct:
  assumes "holds s is s' js" "ok s" "distinct is" "set is = live s"
  shows "ok s' \<and> distinct js \<and> set js = live s'"
  using assms
proof (induction rule: holds.induct)
  case (alloc s "is" s1 js i s2)
  then show ?case using alloc_fresh [of s1 i s2] by auto
next
  case (free s "is" s1 js i)
  then show ?case using free_live [of s1 i] by (auto simp: distinct_removeAll)
qed simp

end

end
