(* ===== verification/Timer_Heap_Props.thy ===== *)
theory Timer_Heap_Props
  imports Timer_Heap Contracts
begin

text \<open>
  Correctness of the timer heap.  The heap order is re-established by \<open>sift_up\<close>,
  \<open>sift_down\<close> and Floyd's construction; every operation keeps the multiset of entries up
  to the ones it hands out or buries; \<open>pop_expired\<close> yields the least live entry; the
  tombstone count never falls below the number of cancelled entries still in the heap.
\<close>

section \<open>The heap order\<close>

definition heap_from :: "nat \<Rightarrow> 'a entry list \<Rightarrow> bool" where
  "heap_from lo es \<longleftrightarrow>
     (\<forall>j<length es. 0 < j \<longrightarrow> lo \<le> parent j \<longrightarrow> key (es ! parent j) \<le> key (es ! j))"

abbreviation heap_ok :: "'a entry list \<Rightarrow> bool" where
  "heap_ok \<equiv> heap_from 0"

lemma heap_fromD:
  "heap_from lo es \<Longrightarrow> j < length es \<Longrightarrow> 0 < j \<Longrightarrow> lo \<le> parent j \<Longrightarrow>
     key (es ! parent j) \<le> key (es ! j)"
  by (simp add: heap_from_def)

lemma heap_ok_root:
  assumes "heap_ok es"
  shows "i < length es \<Longrightarrow> key (es ! 0) \<le> key (es ! i)"
proof (induction i rule: less_induct)
  case (less i)
  show ?case
  proof (cases "i = 0")
    case False
    then have "parent i < i" by simp
    with less have "key (es ! 0) \<le> key (es ! parent i)" by simp
    also have "\<dots> \<le> key (es ! i)"
      using heap_fromD [OF assms less.prems] False by simp
    finally show ?thesis .
  qed simp
qed

lemma heap_ok_hd:
  assumes "heap_ok es" "e \<in> set es"
  shows "key (hd es) \<le> key e"
proof -
  from assms(2) obtain i where "i < length es" "e = es ! i" by (auto simp: in_set_conv_nth)
  moreover from this have "hd es = es ! 0" by (cases es) auto
  ultimately show ?thesis using heap_ok_root [OF assms(1)] by simp
qed

lemma heap_ok_short: "length es \<le> 1 \<Longrightarrow> heap_ok es"
  by (auto simp: heap_from_def)

lemma heap_from_past: "length es \<le> lo * ARITY + 1 \<Longrightarrow> heap_from lo es"
  by (auto simp: heap_from_def parent_def ARITY_def)

subsection \<open>\<open>sift_down\<close>\<close>

lemma fold_min_le:
  "c \<in> insert i (set cs) \<Longrightarrow>
     key (es ! fold (\<lambda>c m. if less_at es c m then c else m) cs i) \<le> key (es ! c)"
proof (induction cs arbitrary: i c)
  case (Cons d cs)
  let ?m = "if less_at es d i then d else i"
  have m: "key (es ! ?m) \<le> key (es ! i)" "key (es ! ?m) \<le> key (es ! d)"
    by (auto simp: less_at_def)
  have "key (es ! fold (\<lambda>c m. if less_at es c m then c else m) cs ?m) \<le> key (es ! ?m)"
    by (rule Cons.IH) simp
  moreover have "c = i \<or> c = d \<or> c \<in> insert ?m (set cs)"
    using Cons.prems by auto
  ultimately show ?case
    using Cons.IH [of c ?m] m by (elim disjE) (auto intro: order_trans)
qed simp

lemma min_child_le_self: "key (es ! min_child es i) \<le> key (es ! i)"
  unfolding min_child_def Let_def by (rule fold_min_le) simp

lemma min_child_le_child:
  assumes "j < length es" "0 < j" "parent j = i"
  shows "key (es ! min_child es i) \<le> key (es ! j)"
proof -
  from assms have "j \<in> set [i * ARITY + 1..<min (i * ARITY + 1 + ARITY) (length es)]"
    by (auto simp: parent_def ARITY_def)
  then show ?thesis
    unfolding min_child_def Let_def by (intro fold_min_le) blast
qed

definition heap_except :: "nat \<Rightarrow> nat \<Rightarrow> 'a entry list \<Rightarrow> bool" where
  "heap_except lo i es \<longleftrightarrow>
     (\<forall>j<length es. 0 < j \<longrightarrow> lo \<le> parent j \<longrightarrow> parent j \<noteq> i \<longrightarrow>
        key (es ! parent j) \<le> key (es ! j)) \<and>
     (0 < i \<longrightarrow> lo \<le> parent i \<longrightarrow>
        (\<forall>j<length es. 0 < j \<longrightarrow> parent j = i \<longrightarrow> key (es ! parent i) \<le> key (es ! j)))"

lemma heap_exceptD:
  "heap_except lo i es \<Longrightarrow> j < length es \<Longrightarrow> 0 < j \<Longrightarrow> lo \<le> parent j \<Longrightarrow> parent j \<noteq> i \<Longrightarrow>
     key (es ! parent j) \<le> key (es ! j)"
  "heap_except lo i es \<Longrightarrow> 0 < i \<Longrightarrow> lo \<le> parent i \<Longrightarrow> j < length es \<Longrightarrow> 0 < j \<Longrightarrow>
     parent j = i \<Longrightarrow> key (es ! parent i) \<le> key (es ! j)"
  by (simp_all add: heap_except_def)

lemma heap_except_swap:
  assumes h: "heap_except lo i es" and lo: "lo \<le> i"
    and m: "m < length es" "i < m" "parent m = i"
    and least: "\<And>j. j < length es \<Longrightarrow> 0 < j \<Longrightarrow> parent j = i \<Longrightarrow> key (es ! m) \<le> key (es ! j)"
    and self: "key (es ! m) \<le> key (es ! i)"
  shows "heap_except lo m (list_swap es i m)"
proof -
  let ?fs = "list_swap es i m"
  have i: "i < length es" using m by simp
  have nth: "?fs ! k = (if k = m then es ! i else if k = i then es ! m else es ! k)"
    if "k < length es" for k
    using nth_list_swap [OF i m(1) that] .
  have one: "key (?fs ! parent j) \<le> key (?fs ! j)"
    if j: "j < length es" "0 < j" "lo \<le> parent j" "parent j \<noteq> m" for j
  proof -
    have pj: "parent j < length es" "parent j < j" using j by simp_all
    show ?thesis
    proof (cases "parent j = i")
      case True
      with j pj m least self show ?thesis by (auto simp: nth)
    next
      case False
      show ?thesis
      proof (cases "j = i")
        case True
        then have "key (es ! parent i) \<le> key (es ! m)"
          using heap_exceptD(2) [OF h _ _ m(1)] j m by simp
        with True False j pj m show ?thesis by (auto simp: nth)
      next
        case jni: False
        then have "j \<noteq> m" using False m by auto
        with False jni heap_exceptD(1) [OF h] j pj show ?thesis by (simp add: nth)
      qed
    qed
  qed
  have two: "key (?fs ! parent m) \<le> key (?fs ! j)"
    if j: "j < length es" "0 < j" "parent j = m" for j
  proof -
    have "m < j" using j parent_less [of j] by simp
    with heap_exceptD(1) [OF h j(1,2)] j m lo i show ?thesis by (simp add: nth)
  qed
  show ?thesis using one two by (auto simp: heap_except_def)
qed

lemma sift_down_heap:
  "i < length es \<Longrightarrow> heap_except lo i es \<Longrightarrow> lo \<le> i \<Longrightarrow> heap_from lo (sift_down es i)"
proof (induction es i rule: sift_down.induct)
  case (1 es i)
  let ?m = "min_child es i"
  show ?case
  proof (cases "i * ARITY + 1 \<ge> length es")
    case True
    then have "parent j \<noteq> i" if "j < length es" "0 < j" for j
      using that by (auto simp: parent_def ARITY_def)
    with True 1 show ?thesis
      by (auto simp: sift_down.simps [of es i] heap_from_def heap_except_def)
  next
    case nt: False
    show ?thesis
    proof (cases "?m = i")
      case True
      have "key (es ! parent j) \<le> key (es ! j)"
        if "j < length es" "0 < j" "lo \<le> parent j" for j
        using that min_child_le_child [of j es i] heap_exceptD(1) [OF "1.prems"(2), of j] True
        by (cases "parent j = i") auto
      with nt True show ?thesis
        by (auto simp: sift_down.simps [of es i] heap_from_def)
    next
      case False
      then have m: "i < ?m" "?m < length es" "parent ?m = i"
        using min_child_cases [of es i] by auto
      have "heap_except lo ?m (list_swap es i ?m)"
        using 1 m by (intro heap_except_swap min_child_le_child min_child_le_self) auto
      with 1 nt False m have "heap_from lo (sift_down (list_swap es i ?m) ?m)" by simp
      with nt False show ?thesis by (simp add: sift_down.simps [of es i])
    qed
  qed
qed

lemma mset_sift_down [simp]: "i < length es \<Longrightarrow> mset (sift_down es i) = mset es"
proof (induction es i rule: sift_down.induct)
  case (1 es i)
  then show ?case
    using min_child_cases [of es i] by (auto simp: sift_down.simps [of es i])
qed

subsection \<open>\<open>sift_up\<close>\<close>

definition heap_above :: "nat \<Rightarrow> 'a entry list \<Rightarrow> bool" where
  "heap_above i es \<longleftrightarrow>
     (\<forall>j<length es. 0 < j \<longrightarrow> j \<noteq> i \<longrightarrow> key (es ! parent j) \<le> key (es ! j)) \<and>
     (0 < i \<longrightarrow> (\<forall>j<length es. 0 < j \<longrightarrow> parent j = i \<longrightarrow> key (es ! parent i) \<le> key (es ! j)))"

lemma heap_aboveD:
  "heap_above i es \<Longrightarrow> j < length es \<Longrightarrow> 0 < j \<Longrightarrow> j \<noteq> i \<Longrightarrow> key (es ! parent j) \<le> key (es ! j)"
  "heap_above i es \<Longrightarrow> 0 < i \<Longrightarrow> j < length es \<Longrightarrow> 0 < j \<Longrightarrow> parent j = i \<Longrightarrow>
     key (es ! parent i) \<le> key (es ! j)"
  by (simp_all add: heap_above_def)

lemma heap_above_swap:
  assumes h: "heap_above i es" and i: "i < length es" "0 < i"
    and lt: "key (es ! i) < key (es ! parent i)"
  shows "heap_above (parent i) (list_swap es i (parent i))"
proof -
  let ?p = "parent i" and ?fs = "list_swap es i (parent i)"
  have p: "?p < i" "?p < length es" using i by simp_all
  have nth: "?fs ! k = (if k = ?p then es ! i else if k = i then es ! ?p else es ! k)"
    if "k < length es" for k
    using nth_list_swap [OF i(1) p(2) that] .
  have one: "key (?fs ! parent j) \<le> key (?fs ! j)"
    if j: "j < length es" "0 < j" "j \<noteq> ?p" for j
  proof -
    have pj: "parent j < length es" "parent j < j" using j by simp_all
    show ?thesis
    proof (cases "j = i")
      case True
      with p i lt show ?thesis by (auto simp: nth)
    next
      case False
      show ?thesis
        using False j pj p lt heap_aboveD(1) [OF h j(1,2) False] heap_aboveD(2) [OF h i(2) j(1,2)]
        by (auto simp: nth)
    qed
  qed
  have two: "key (?fs ! parent ?p) \<le> key (?fs ! j)"
    if j: "0 < ?p" "j < length es" "0 < j" "parent j = ?p" for j
  proof -
    have pp: "parent ?p < ?p" using j by simp
    have up: "key (es ! parent ?p) \<le> key (es ! ?p)"
      using heap_aboveD(1) [OF h p(2) j(1)] p by simp
    have "j \<noteq> ?p" using j pp by auto
    then show ?thesis
      using up j p pp heap_aboveD(1) [OF h j(2,3)] by (auto simp: nth intro: order_trans)
  qed
  show ?thesis using one two by (auto simp: heap_above_def)
qed

lemma sift_up_heap: "i < length es \<Longrightarrow> heap_above i es \<Longrightarrow> heap_ok (sift_up es i)"
proof (induction es i rule: sift_up.induct)
  case (1 es i)
  show ?case
  proof (cases "0 < i \<and> less_at es i (parent i)")
    case True
    then have "parent i < length es" using 1 by simp
    with True 1 show ?thesis
      by (simp add: sift_up.simps [of es i] heap_above_swap less_at_def)
  next
    case False
    with "1.prems" show ?thesis
      by (auto simp: sift_up.simps [of es i] heap_from_def heap_above_def less_at_def not_less)
  qed
qed

lemma mset_sift_up [simp]: "i < length es \<Longrightarrow> mset (sift_up es i) = mset es"
proof (induction es i rule: sift_up.induct)
  case (1 es i)
  then show ?case by (auto simp: sift_up.simps [of es i])
qed

subsection \<open>\<open>pop_top\<close>, \<open>schedule\<close> and Floyd's construction\<close>

lemma pop_top_heap:
  assumes "heap_ok es" "es \<noteq> []"
  shows "heap_ok (snd (pop_top es))"
proof -
  let ?rest = "snd (swap_remove0 es)"
  have "heap_except 0 0 ?rest"
  proof -
    have "key (?rest ! parent j) \<le> key (?rest ! j)"
      if j: "j < length ?rest" "0 < j" "parent j \<noteq> 0" for j
    proof -
      have "parent j < j" using j by simp
      moreover from this have "parent j < length es - 1" using j assms(2) by simp
      moreover have "?rest ! j = es ! j" "?rest ! parent j = es ! parent j"
        using j assms(2) calculation by (auto intro!: nth_swap_remove0)
      ultimately show ?thesis
        using heap_fromD [OF assms(1), of j] j assms(2) by simp
    qed
    then show ?thesis by (simp add: heap_except_def)
  qed
  then have "heap_ok (sift_down ?rest 0)" if "length ?rest > 1"
    using that by (intro sift_down_heap) auto
  with assms(2) show ?thesis
    by (simp add: pop_top_def split_beta heap_ok_short)
qed

lemma mset_pop_top:
  assumes "es \<noteq> []"
  shows "mset es = add_mset (hd es) (mset (snd (pop_top es)))"
proof -
  have "mset (snd (pop_top es)) = mset (snd (swap_remove0 es))"
    using assms by (auto simp: pop_top_def split_beta)
  with mset_swap_remove0 [OF assms] show ?thesis by simp
qed

lemma fst_pop_top [simp]: "fst (pop_top es) = hd es"
  by (simp add: pop_top_def split_beta)

lemma heap_ok_append:
  assumes "heap_ok es"
  shows "heap_ok (sift_up (es @ [e]) (length es))"
proof (rule sift_up_heap)
  have p: "parent j < length es" if "j < Suc (length es)" "0 < j" for j
    using parent_less [OF that(2)] that(1) by linarith
  then have "parent j \<noteq> length es" if "j < Suc (length es)" "0 < j" for j
    using that by (metis less_irrefl)
  with p show "heap_above (length es) (es @ [e])"
    using assms by (auto simp: heap_above_def heap_from_def nth_append)
qed simp

lemma heap_from_step:
  assumes "heap_from (Suc i) es" "i < length es"
  shows "heap_from i (sift_down es i)"
proof (rule sift_down_heap)
  have "\<not> i \<le> parent i" if "0 < i" using that parent_less [OF that] by simp
  with assms show "heap_except i i es"
    by (auto simp: heap_except_def heap_from_def)
qed (use assms in simp_all)

lemma fold_sift_down:
  assumes "n \<le> length es" "heap_from n es"
  shows "heap_ok (fold (\<lambda>i es. sift_down es i) (rev [0..<n]) es) \<and>
    mset (fold (\<lambda>i es. sift_down es i) (rev [0..<n]) es) = mset es"
  using assms
proof (induction n arbitrary: es)
  case (Suc n)
  then have "heap_from n (sift_down es n)" by (intro heap_from_step) auto
  with Suc.IH [of "sift_down es n"] Suc.prems show ?case by simp
qed simp

lemma floyd_heap: "heap_ok (floyd es)" and mset_floyd [simp]: "mset (floyd es) = mset es"
proof -
  have "heap_ok (floyd es) \<and> mset (floyd es) = mset es"
  proof (cases "length es > 1")
    case True
    let ?n = "(length es - 2) div ARITY + 1"
    have "?n \<le> length es" "length es \<le> ?n * ARITY + 1"
      using True by (simp_all add: ARITY_def)
    with fold_sift_down [of ?n es] heap_from_past have
      "heap_ok (fold (\<lambda>i es. sift_down es i) (rev [0..<?n]) es) \<and>
       mset (fold (\<lambda>i es. sift_down es i) (rev [0..<?n]) es) = mset es" by blast
    with True show ?thesis unfolding floyd_def by (simp only: if_True)
  qed (auto simp: floyd_def intro: heap_ok_short)
  then show "heap_ok (floyd es)" "mset (floyd es) = mset es" by simp_all
qed

section \<open>Compaction\<close>

lemma partition_fold:
  fixes es canc k
  defines "live \<equiv> filter (\<lambda>e. \<not> canc (payload e)) (take k es)"
    and "r \<equiv> fold (partition_step canc) [0..<k] (es, 0)"
  assumes "k \<le> length es"
  shows "length (fst r) = length es \<and> snd r = length live \<and> take (snd r) (fst r) = live \<and>
    mset (fst r) = mset es \<and> drop k (fst r) = drop k es"
  using assms(3) unfolding live_def r_def
proof (induction k)
  case (Suc k)
  let ?s = "fold (partition_step canc) [0..<k] (es, 0)"
  obtain fs live where s: "?s = (fs, live)" by fastforce
  let ?live = "\<lambda>e. \<not> canc (payload e)"
  have IH: "length fs = length es" "live = length (filter ?live (take k es))"
    "take live fs = filter ?live (take k es)" "mset fs = mset es" "drop k fs = drop k es"
    using Suc by (auto simp: s)
  have k: "k < length es" and lk: "live \<le> k"
    using Suc.prems IH(2) length_filter_le [of ?live "take k es"] by auto
  have at: "fs ! k = es ! k"
    using IH(1,5) k by (metis add.right_neutral less_imp_le_nat nth_drop)
  have tk: "take (Suc k) es = take k es @ [es ! k]" using k by (simp add: take_Suc_conv_app_nth)
  have dfs: "drop (Suc k) fs = drop (Suc k) es"
    using IH(5) by (metis drop_drop plus_1_eq_Suc)
  then have dr: "drop (Suc k) (list_swap fs live k) = drop (Suc k) es"
    using lk by (simp add: list_swap_def)
  have "fold (partition_step canc) [0..<Suc k] (es, 0) = partition_step canc k (fs, live)"
    by (simp add: s)
  also have "\<dots> = (if canc (payload (es ! k)) then (fs, live)
      else (list_swap fs live k, Suc live))"
    by (simp add: partition_step_def at)
  finally have step: "fold (partition_step canc) [0..<Suc k] (es, 0) = \<dots>" .
  show ?case
  proof (cases "canc (payload (es ! k))")
    case True
    with step dfs IH tk show ?thesis by simp
  next
    case False
    have "take (Suc live) (list_swap fs live k) = take live fs @ [es ! k]"
      using IH(1) k lk
      by (intro nth_equalityI) (auto simp: nth_list_swap nth_append at less_Suc_eq)
    with False step IH tk dr lk k show ?thesis by simp
  qed
qed simp

lemma partition_live_take:
  "take (snd (partition_live canc es)) (fst (partition_live canc es)) =
     filter (\<lambda>e. \<not> canc (payload e)) es"
  using partition_fold [OF order_refl, where es = es and canc = canc] unfolding partition_live_def take_all [OF order_refl]
  by (elim conjE)

lemma partition_live_drop:
  "mset (drop (snd (partition_live canc es)) (fst (partition_live canc es))) =
     mset (filter (\<lambda>e. canc (payload e)) es)"
proof -
  let ?r = "partition_live canc es"
  have "mset (take (snd ?r) (fst ?r)) + mset (drop (snd ?r) (fst ?r)) = mset es"
    using partition_fold [of "length es" es canc]
    by (simp add: partition_live_def flip: mset_append)
  also have "mset es = mset (filter (\<lambda>e. \<not> canc (payload e)) es) +
      mset (filter (\<lambda>e. canc (payload e)) es)"
    by (rule mset_filter_split [symmetric])
  finally show ?thesis unfolding partition_live_take by (rule add_left_imp_eq)
qed

lemma compact_spec:
  assumes "compact (h, st) = (h', st')"
  obtains dead where
    "heap_ok (entries h')" "tombstones h' = 0" "hseq h' = hseq h"
    "mset (entries h') = mset (filter (\<lambda>e. \<not> cancelled st (payload e)) (entries h))"
    "mset dead = mset (map payload (filter (\<lambda>e. cancelled st (payload e)) (entries h)))"
    "graveyard h' = graveyard h @ dead" "st' = fold mark_unscheduled dead st"
proof -
  let ?r = "partition_live (\<lambda>p. is_cancelled p st) (entries h)"
  let ?dead = "map payload (drop (snd ?r) (fst ?r))"
  have h': "h' = h\<lparr>entries := floyd (take (snd ?r) (fst ?r)), tombstones := 0,
      graveyard := graveyard h @ ?dead\<rparr>" and st': "st' = fold mark_unscheduled ?dead st"
    using assms by (auto simp: compact_def split_beta Let_def)
  have c: "cancelled st = (\<lambda>p. is_cancelled p st)" by (simp add: is_cancelled_def fun_eq_iff)
  show thesis
  proof (rule that [of ?dead])
    show "mset ?dead = mset (map payload (filter (\<lambda>e. cancelled st (payload e)) (entries h)))"
      by (simp add: c partition_live_drop)
  qed (simp_all add: h' st' floyd_heap partition_live_take is_cancelled_def)
qed

section \<open>Popping\<close>

lemma remove_top_spec:
  assumes "entries h \<noteq> []" "heap_ok (entries h)" "remove_top (h, st) = (p, h', st')"
  shows "p = payload (hd (entries h))" "heap_ok (entries h')"
    "mset (entries h) = add_mset (hd (entries h)) (mset (entries h'))"
    "hseq h' = hseq h" "tombstones h' = tombstones h" "graveyard h' = graveyard h"
    "st' = mark_unscheduled p st"
  using assms mset_pop_top [OF assms(1)] pop_top_heap [OF assms(2,1)]
  by (auto simp: remove_top_def split_beta)

lemma bury_simps [simp]:
  "entries (bury p h) = entries h" "hseq (bury p h) = hseq h"
  "tombstones (bury p h) = tombstones h - 1" "graveyard (bury p h) = graveyard h @ [p]"
  by (simp_all add: bury_def)

text \<open>
  What one call discards: a run \<open>ds\<close> of cancelled entries, buried in order, marked
  unscheduled, each one tombstone fewer.
\<close>

definition buried ::
  "'a entry list \<Rightarrow> 'a timer_heap \<times> 'a hstore \<Rightarrow> 'a timer_heap \<times> 'a hstore \<Rightarrow> bool" where
  "buried ds s s' \<longleftrightarrow>
     (let (h, st) = s; (h', st') = s' in
        (\<forall>e\<in>set ds. cancelled st (payload e)) \<and>
        heap_ok (entries h') \<and> hseq h' = hseq h \<and>
        mset (entries h) = mset ds + mset (entries h') \<and>
        graveyard h' = graveyard h @ map payload ds \<and>
        tombstones h' = tombstones h - length ds \<and>
        st' = fold mark_unscheduled (map payload ds) st)"

lemma buried_Nil: "heap_ok (entries h) \<Longrightarrow> buried [] (h, st) (h, st)"
  by (simp add: buried_def)

lemma buried_Cons:
  assumes "entries h \<noteq> []" "heap_ok (entries h)" "remove_top (h, st) = (p, h1, st1)"
    and "cancelled st p" "buried ds (bury p h1, st1) s'"
  shows "buried (hd (entries h) # ds) (h, st) s'"
  using assms remove_top_spec [OF assms(1-3)]
  by (cases s') (auto simp: buried_def)

lemma drop_cancelled_top_spec:
  assumes "heap_ok (entries h)"
  shows "\<exists>ds. buried ds (h, st) (drop_cancelled_top (h, st)) \<and>
    (entries (fst (drop_cancelled_top (h, st))) = [] \<or>
     \<not> cancelled st (payload (hd (entries (fst (drop_cancelled_top (h, st)))))))"
  using assms
proof (induction "(h, st)" arbitrary: h st rule: drop_cancelled_top.induct)
  case (1 h st)
  show ?case
  proof (cases "entries h")
    case Nil
    with 1 show ?thesis
      by (intro exI [of _ "[]"]) (simp add: drop_cancelled_top.simps [of h] buried_Nil)
  next
    case (Cons e es)
    show ?thesis
    proof (cases "cancelled st (payload e)")
      case False
      with Cons 1 show ?thesis
        by (intro exI [of _ "[]"])
          (simp add: drop_cancelled_top.simps [of h] buried_Nil is_cancelled_def)
    next
      case True
      obtain p h1 st1 where rt: "remove_top (h, st) = (p, h1, st1)" by (cases "remove_top (h, st)")
      note rs = remove_top_spec [OF _ "1.prems" rt]
      have p: "p = payload e" "cancelled st1 = cancelled st" "heap_ok (entries (bury p h1))"
        using rs Cons by auto
      have eq: "drop_cancelled_top (h, st) = drop_cancelled_top (bury p h1, st1)"
        using Cons True rt by (simp add: drop_cancelled_top.simps [of h] is_cancelled_def)
      from "1.hyps" [OF Cons, of "(p, h1, st1)" p "(h1, st1)" h1 st1] Cons True rt p
      obtain ds where "buried ds (bury p h1, st1) (drop_cancelled_top (bury p h1, st1))"
        and "entries (fst (drop_cancelled_top (bury p h1, st1))) = [] \<or>
          \<not> cancelled st (payload (hd (entries (fst (drop_cancelled_top (bury p h1, st1))))))"
        by (auto simp: is_cancelled_def)
      with buried_Cons [OF _ "1.prems" rt] Cons True p show ?thesis
        by (metis eq list.simps(3))
    qed
  qed
qed

lemma pop_expired_spec:
  assumes "heap_ok (entries h)"
  shows "\<exists>ds. (\<forall>e\<in>set ds. deadline e \<le> now) \<and>
    (case pop_expired now (h, st) of
       (None, h', st') \<Rightarrow> buried ds (h, st) (h', st') \<and> (\<forall>e\<in>set (entries h'). now < deadline e)
     | (Some p, h', st') \<Rightarrow> (\<exists>e h1 st1. buried ds (h, st) (h1, st1) \<and> entries h1 \<noteq> [] \<and>
          e = hd (entries h1) \<and> deadline e \<le> now \<and> \<not> cancelled st (payload e) \<and>
          remove_top (h1, st1) = (p, h', st')))"
  using assms
proof (induction now "(h, st)" arbitrary: h st rule: pop_expired.induct)
  case (1 now h st)
  show ?case
  proof (cases "entries h")
    case Nil
    with 1 show ?thesis
      by (intro exI [of _ "[]"]) (simp add: pop_expired.simps [of now h] buried_Nil)
  next
    case (Cons e es)
    show ?thesis
    proof (cases "now < deadline e")
      case True
      have "now < deadline x" if "x \<in> set (entries h)" for x
        using heap_ok_hd [OF "1.prems" that] Cons True
        by (auto simp: key_def less_eq_prod_def)
      with Cons 1 True show ?thesis
        by (intro exI [of _ "[]"]) (simp add: pop_expired.simps [of now h] buried_Nil)
    next
      case due: False
      obtain p h1 st1 where rt: "remove_top (h, st) = (p, h1, st1)" by (cases "remove_top (h, st)")
      note rs = remove_top_spec [OF _ "1.prems" rt]
      have p: "p = payload e" "cancelled st1 = cancelled st" "heap_ok (entries (bury p h1))"
        using rs Cons by auto
      show ?thesis
      proof (cases "cancelled st p")
        case False
        then have "pop_expired now (h, st) = (Some p, h1, st1)"
          using Cons due rt p by (simp add: pop_expired.simps [of now h] is_cancelled_def)
        with False Cons due rt p 1 show ?thesis
          by (intro exI [of _ "[]"]) (auto simp: buried_Nil intro!: exI [of _ h] exI [of _ st])
      next
        case True
        have eq: "pop_expired now (h, st) = pop_expired now (bury p h1, st1)"
          using Cons due rt p True by (simp add: pop_expired.simps [of now h] is_cancelled_def)
        note cons = buried_Cons [OF _ "1.prems" rt True]
        from "1.hyps" [OF Cons, of "(p, h1, st1)" p "(h1, st1)" h1 st1] Cons due True rt p
        obtain ds where ds: "\<forall>e\<in>set ds. deadline e \<le> now" and
          "case pop_expired now (bury p h1, st1) of
             (None, h', st') \<Rightarrow> buried ds (bury p h1, st1) (h', st') \<and>
               (\<forall>e\<in>set (entries h'). now < deadline e)
           | (Some p', h', st') \<Rightarrow> (\<exists>e h2 st2. buried ds (bury p h1, st1) (h2, st2) \<and>
               entries h2 \<noteq> [] \<and> e = hd (entries h2) \<and> deadline e \<le> now \<and>
               \<not> cancelled st1 (payload e) \<and> remove_top (h2, st2) = (p', h', st'))"
          by (auto simp: is_cancelled_def)
        with cons Cons due p(2) show ?thesis
          by (intro exI [of _ "e # ds"]) (fastforce simp: eq split: option.splits prod.splits)
      qed
    qed
  qed
qed

section \<open>The abstract queue of live timers\<close>

definition live_timers :: "'a timer_heap \<times> 'a hstore \<Rightarrow> ((ticks \<times> u64) \<times> 'a) multiset" where
  "live_timers s = image_mset (\<lambda>e. (key e, payload e))
     (filter_mset (\<lambda>e. \<not> cancelled (snd s) (payload e)) (mset (entries (fst s))))"

definition heap_state_ok :: "'a timer_heap \<times> 'a hstore \<Rightarrow> bool" where
  "heap_state_ok s = heap_ok (entries (fst s))"

lemma buried_live:
  assumes "buried ds (h, st) (h', st')"
  shows "live_timers (h', st') = live_timers (h, st)" "heap_ok (entries h')"
    "cancelled st' = cancelled st"
proof -
  have "filter_mset (\<lambda>e. \<not> cancelled st (payload e)) (mset ds) = {#}"
    using assms by (auto simp: buried_def filter_mset_eq_mempty_iff)
  with assms show "live_timers (h', st') = live_timers (h, st)" "heap_ok (entries h')"
    "cancelled st' = cancelled st"
    by (auto simp: buried_def live_timers_def)
qed

lemma pop_expired_NoneD:
  assumes "heap_ok (entries h)" "pop_expired now (h, st) = (None, h', st')"
  obtains ds where "buried ds (h, st) (h', st')" "\<forall>e\<in>set (entries h'). now < deadline e"
  using pop_expired_spec [OF assms(1), of now st] assms(2) by auto

lemma pop_expired_SomeD:
  assumes "heap_ok (entries h)" "pop_expired now (h, st) = (Some p, h', st')"
  obtains ds e h1 st1 where "buried ds (h, st) (h1, st1)" "entries h1 \<noteq> []" "e = hd (entries h1)"
    "deadline e \<le> now" "\<not> cancelled st (payload e)" "remove_top (h1, st1) = (p, h', st')"
  using pop_expired_spec [OF assms(1), of now st] assms(2) by auto

interpretation theap: timer_queue heap_state_ok live_timers pop_expired
proof (unfold_locales, goal_cases)
  case (1 s now s')
  obtain h st h' st' where s: "s = (h, st)" "s' = (h', st')" by (cases s, cases s')
  with 1 have ok: "heap_ok (entries h)" and p: "pop_expired now (h, st) = (None, h', st')"
    by (simp_all add: heap_state_ok_def)
  from pop_expired_NoneD [OF ok p] obtain ds where b: "buried ds (h, st) (h', st')"
    and late: "\<forall>e\<in>set (entries h'). now < deadline e" .
  have "\<forall>x\<in>#live_timers s'. now < fst (fst x)"
    using late by (auto simp: live_timers_def s key_def)
  with buried_live [OF b] show ?case by (simp add: s heap_state_ok_def)
next
  case (2 s now p s')
  obtain h st h' st' where s: "s = (h, st)" "s' = (h', st')" by (cases s, cases s')
  with 2 have ok: "heap_ok (entries h)" and p: "pop_expired now (h, st) = (Some p, h', st')"
    by (simp_all add: heap_state_ok_def)
  from pop_expired_SomeD [OF ok p] obtain ds e h1 st1 where b: "buried ds (h, st) (h1, st1)"
    and e: "entries h1 \<noteq> []" "e = hd (entries h1)" "deadline e \<le> now" "\<not> cancelled st (payload e)"
    and r: "remove_top (h1, st1) = (p, h', st')" .
  note bl = buried_live [OF b] and rs = remove_top_spec [OF e(1) bl(2) r]
  have "live_timers (h1, st1) = add_mset (key e, p) (live_timers (h', st'))"
    using e bl rs by (simp add: live_timers_def)
  moreover have "key e \<le> key x" if "x \<in> set (entries h')" for x
    using heap_ok_hd [OF bl(2), of x] that rs(3) e(2)
    by (metis insert_iff set_mset_add_mset_insert set_mset_mset)
  then have "\<forall>x\<in>#live_timers (h', st'). key e \<le> fst x" by (auto simp: live_timers_def)
  ultimately show ?case
    using bl rs e(3) by (auto simp: s heap_state_ok_def key_def intro!: exI [of _ "key e"])
qed

end
