(* ===== verification/Timer_Lifecycle.thy ===== *)
theory Timer_Lifecycle
  imports Timer_Heap_Props
begin

text \<open>
  The life of a timer, as the binding layer drives the heap: scheduling marks the handle and
  inserts it (\<open>CoreLoop::schedule_timer\<close>), the application cancels handles at any moment
  (\<open>TimerHandle.cancel\<close> bumps the loop's counter while the heap still holds the handle), the
  reactor absorbs the counter (\<open>absorb_cancellations\<close>), asks for the next deadline, pops what
  expired and collects the graveyard.  The runs of this machine are the interleavings of those
  calls; the label of a step records what it took in or handed out.
\<close>

section \<open>The machine\<close>

datatype 'a timer_act =
    Sched ticks 'a
  | Cancel 'a
  | Absorb
  | Pop ticks "'a option"
  | Peek "ticks option"
  | Collect "'a list"

definition loop_schedule_timer ::
  "ticks \<Rightarrow> 'a \<Rightarrow> 'a timer_heap \<times> 'a hstore \<Rightarrow> 'a timer_heap \<times> 'a hstore" where
  "loop_schedule_timer d p s = (schedule d p (fst s), mark_scheduled p (snd s))"

definition absorb_cancellations ::
  "'a timer_heap \<times> 'a hstore \<Rightarrow> 'a timer_heap \<times> 'a hstore" where
  "absorb_cancellations s =
     (let (h, st) = s in
      if cancel_counter st = 0 then (h, st)
      else note_cancelled (cancel_counter st) (h, st\<lparr>cancel_counter := 0\<rparr>))"

text \<open>
  A handle is built for one scheduling (\<open>Py::new\<close>), so the one scheduled is neither scheduled
  nor cancelled yet; the sequence counter has not wrapped (\<open>2 ^ 64 - 1\<close> timers).
\<close>

inductive timer_step ::
  "'a timer_heap \<times> 'a hstore \<Rightarrow> 'a timer_act \<Rightarrow> 'a timer_heap \<times> 'a hstore \<Rightarrow> bool" where
  t_sched: "\<not> scheduled st p \<Longrightarrow> \<not> cancelled st p \<Longrightarrow> hseq h < - 1 \<Longrightarrow>
     timer_step (h, st) (Sched d p) (loop_schedule_timer d p (h, st))"
| t_cancel: "timer_step (h, st) (Cancel p) (h, timer_cancel p st)"
| t_absorb: "timer_step s Absorb (absorb_cancellations s)"
| t_pop: "pop_expired now s = (r, s') \<Longrightarrow> timer_step s (Pop now r) s'"
| t_peek: "next_deadline s = (r, s') \<Longrightarrow> timer_step s (Peek r) s'"
| t_collect: "take_graveyard h = (ps, h') \<Longrightarrow> timer_step (h, st) (Collect ps) (h', st)"

inductive_cases timer_step_CancelE: "timer_step s (Cancel p) s'"
inductive_cases timer_step_PopE: "timer_step s (Pop now r) s'"

inductive timer_run ::
  "'a timer_heap \<times> 'a hstore \<Rightarrow> 'a timer_act list \<Rightarrow> 'a timer_heap \<times> 'a hstore \<Rightarrow> bool" where
  run_nil: "timer_run s [] s"
| run_snoc: "timer_run s as s1 \<Longrightarrow> timer_step s1 a s2 \<Longrightarrow> timer_run s (as @ [a]) s2"

definition store_new :: "'a hstore" where
  "store_new = \<lparr>cancelled = (\<lambda>_. False), scheduled = (\<lambda>_. False), refs_held = (\<lambda>_. True),
     cancel_counter = 0\<rparr>"

section \<open>The invariant\<close>

definition dead_count :: "'a timer_heap \<times> 'a hstore \<Rightarrow> nat" where
  "dead_count s = length (filter (\<lambda>e. cancelled (snd s) (payload e)) (entries (fst s)))"

definition timers_inv :: "'a timer_heap \<times> 'a hstore \<Rightarrow> bool" where
  "timers_inv s \<longleftrightarrow>
     (let (h, st) = s in
        heap_ok (entries h) \<and>
        distinct (map payload (entries h)) \<and>
        (\<forall>p. scheduled st p \<longleftrightarrow> p \<in> payload ` set (entries h)) \<and>
        distinct (map eseq (entries h)) \<and> (\<forall>e\<in>set (entries h). eseq e < hseq h) \<and>
        dead_count s \<le> tombstones h + cancel_counter st)"

lemma timers_inv_new: "timers_inv (heap_new, store_new)"
  by (simp add: timers_inv_def heap_new_def store_new_def dead_count_def heap_ok_short)

lemma entries_schedule:
  "mset (entries (schedule d p h)) =
     add_mset \<lparr>deadline = d, eseq = hseq h, payload = p\<rparr> (mset (entries h))"
  by (simp add: schedule_def Let_def)

lemma schedule_simps [simp]:
  "hseq (schedule d p h) = hseq h + 1" "tombstones (schedule d p h) = tombstones h"
  "graveyard (schedule d p h) = graveyard h"
  by (simp_all add: schedule_def Let_def)

lemma heap_ok_schedule: "heap_ok (entries h) \<Longrightarrow> heap_ok (entries (schedule d p h))"
  by (simp add: schedule_def Let_def heap_ok_append)

text \<open>The multiset of entries decides all but the heap order.\<close>

lemma mset_entries_cong:
  assumes "mset es = mset fs"
  shows "distinct (map f es) \<longleftrightarrow> distinct (map f fs)" "set es = set fs"
    "length (filter P es) = length (filter P fs)" "length es = length fs"
  using assms
  by (auto simp: distinct_map_mset [OF assms] dest: mset_eq_setD mset_eq_length)
    (metis mset_filter size_mset)

lemma word_less_Suc:
  fixes y :: "'a::len word"
  assumes "y < - 1"
  shows "y < y + 1" "x < y \<Longrightarrow> x < y + 1"
proof -
  have "1 + y \<noteq> 0" using assms by (metis add.inverse_unique order_less_irrefl)
  then have "unat (y + 1) = Suc (unat y)" using unatSuc [of y] by (simp add: add.commute)
  then show "y < y + 1" "x < y \<Longrightarrow> x < y + 1" by (simp_all add: word_less_nat_alt)
qed

lemma timers_inv_sched [inv_keep]:
  assumes "timers_inv (h, st)" "\<not> scheduled st p" "\<not> cancelled st p" "hseq h < - 1"
  shows "timers_inv (loop_schedule_timer d p (h, st))"
proof -
  let ?e = "\<lparr>deadline = d, eseq = hseq h, payload = p\<rparr>"
  have "mset (entries (schedule d p h)) = mset (?e # entries h)"
    by (simp add: entries_schedule)
  note m = mset_entries_cong [OF this]
  from assms show ?thesis
    unfolding timers_inv_def loop_schedule_timer_def dead_count_def
    by (auto simp: m heap_ok_schedule intro: word_less_Suc)
qed

lemma dead_count_cancel:
  "distinct (map payload es) \<Longrightarrow> \<not> c p \<Longrightarrow>
     length (filter (\<lambda>e. (c(p := True)) (payload e)) es) =
     length (filter (\<lambda>e. c (payload e)) es) + of_bool (p \<in> payload ` set es)"
proof (induction es)
  case (Cons e es)
  then show ?case by (cases "payload e = p") (auto split: if_splits)
qed simp

lemma timers_inv_cancel [inv_keep]:
  assumes "timers_inv (h, st)"
  shows "timers_inv (h, timer_cancel p st)"
proof (cases "cancelled st p")
  case True
  then have "(cancelled st)(p := True) = cancelled st" by (intro fun_upd_idem) simp
  with True assms show ?thesis
    by (simp add: timers_inv_def dead_count_def timer_cancel_counter)
next
  case False
  with assms dead_count_cancel [of "entries h" "cancelled st" p] show ?thesis
    by (auto simp: timers_inv_def dead_count_def timer_cancel_counter)
qed

lemma timers_inv_buried [inv_keep]:
  assumes "timers_inv (h, st)" "buried ds (h, st) (h', st')"
  shows "timers_inv (h', st')"
proof -
  from assms(2) have b: "\<forall>e\<in>set ds. cancelled st (payload e)" "heap_ok (entries h')" "hseq h' = hseq h"
    "mset (entries h) = mset (ds @ entries h')" "tombstones h' = tombstones h - length ds"
    "st' = fold mark_unscheduled (map payload ds) st"
    by (auto simp: buried_def)
  note m = mset_entries_cong [OF b(4)]
  have "filter (\<lambda>e. cancelled st (payload e)) ds = ds" using b(1) by (simp add: filter_id_conv)
  then have "dead_count (h, st) = length ds + dead_count (h', st')"
    by (simp add: dead_count_def m b(6))
  with assms(1) b show ?thesis
    by (auto simp: timers_inv_def m b(6))
qed

lemma timers_inv_remove_live [inv_keep]:
  assumes "timers_inv (h, st)" "entries h \<noteq> []" "\<not> cancelled st (payload (hd (entries h)))"
    and "remove_top (h, st) = (p, h', st')"
  shows "timers_inv (h', st')"
proof -
  have "heap_ok (entries h)" using assms(1) by (simp add: timers_inv_def)
  note r = remove_top_spec [OF assms(2) this assms(4)]
  have "mset (entries h) = mset (hd (entries h) # entries h')" using r(3) by simp
  note m = mset_entries_cong [OF this]
  from assms(1,3) r show ?thesis
    by (auto simp: timers_inv_def m dead_count_def)
qed

lemma timers_inv_pop [inv_keep]:
  assumes "timers_inv (h, st)" "pop_expired now (h, st) = (r, h', st')"
  shows "timers_inv (h', st')"
proof -
  have ok: "heap_ok (entries h)" using assms(1) by (simp add: timers_inv_def)
  show ?thesis
  proof (cases r)
    case None
    with pop_expired_NoneD [OF ok] assms show ?thesis
      by (metis timers_inv_buried)
  next
    case (Some p)
    with pop_expired_SomeD [OF ok] assms obtain ds e h1 st1 where
      "buried ds (h, st) (h1, st1)" "entries h1 \<noteq> []" "e = hd (entries h1)"
      "\<not> cancelled st (payload e)" "remove_top (h1, st1) = (p, h', st')" by metis
    with assms(1) show ?thesis
      by (metis buried_live(3) timers_inv_buried timers_inv_remove_live)
  qed
qed

lemma timers_inv_peek [inv_keep]:
  assumes "timers_inv (h, st)" "next_deadline (h, st) = (r, h', st')"
  shows "timers_inv (h', st')"
proof -
  have ok: "heap_ok (entries h)" using assms(1) by (simp add: timers_inv_def)
  have "drop_cancelled_top (h, st) = (h', st')"
    using assms(2) by (auto simp: next_deadline_def split_beta prod_eq_iff)
  with drop_cancelled_top_spec [OF ok, of st] assms(1) show ?thesis
    by (metis timers_inv_buried)
qed

text \<open>Distinct sequence numbers below a 64-bit counter: the heap cannot outgrow a \<open>usize\<close>.\<close>

lemma timers_inv_size:
  assumes "timers_inv (h, st)"
  shows "length (entries h) \<le> usize_max"
proof -
  have "length (entries h) = card (unat ` eseq ` set (entries h))"
    using assms
    by (simp add: timers_inv_def card_image inj_on_def flip: distinct_card)
      (metis card_image distinct_card length_map list.set_map inj_on_def word_unat_eq_iff)
  also have "\<dots> \<le> card {..<unat (hseq h)}"
    using assms by (intro card_mono) (auto simp: timers_inv_def word_less_nat_alt)
  also have "\<dots> \<le> usize_max"
  proof -
    have "unat (hseq h) < 2 ^ LENGTH(64)" by (rule unsigned_less)
    then show ?thesis by (simp add: usize_max_def)
  qed
  finally show ?thesis .
qed

lemma timers_inv_compact:
  assumes "timers_inv (h, st)" "compact (h, st) = (h', st')"
  shows "timers_inv (h', st')" "dead_count (h', st') = 0"
proof -
  from assms(2) obtain dead where c: "heap_ok (entries h')" "tombstones h' = 0" "hseq h' = hseq h"
    "mset (entries h') = mset (filter (\<lambda>e. \<not> cancelled st (payload e)) (entries h))"
    "mset dead = mset (map payload (filter (\<lambda>e. cancelled st (payload e)) (entries h)))"
    "st' = fold mark_unscheduled dead st" by (rule compact_spec)
  note m = mset_entries_cong [OF c(4)]
  have dead: "set dead = payload ` {e\<in>set (entries h). cancelled st (payload e)}"
    using mset_eq_setD [OF c(5)] by auto
  have zero: "dead_count (h', st') = 0" by (simp add: dead_count_def m c(6) filter_empty_conv)
  show "dead_count (h', st') = 0" by (rule zero)
  have "distinct (map payload (entries h'))" "distinct (map eseq (entries h'))"
    using assms(1) by (simp_all add: timers_inv_def m(1) distinct_map_filter)
  moreover have "scheduled st' p \<longleftrightarrow> p \<in> payload ` set (entries h')" for p
    using assms(1) by (auto simp: timers_inv_def m(2) c(6) dead)
  moreover have "\<forall>e\<in>set (entries h'). eseq e < hseq h'"
    using assms(1) by (simp add: timers_inv_def m(2) c(3))
  ultimately show "timers_inv (h', st')"
    using c(1) zero by (simp add: timers_inv_def)
qed

lemma note_cancelled_inv:
  assumes "timers_inv (h, st)" "cancel_counter st = n"
    and "note_cancelled n (h, st\<lparr>cancel_counter := 0\<rparr>) = (h', st')"
  shows "timers_inv (h', st') \<and> 2 * dead_count (h', st') \<le> length (entries h')"
proof -
  let ?t = "saturating_add (tombstones h) n"
  let ?h = "h\<lparr>tombstones := ?t\<rparr>" and ?st = "st\<lparr>cancel_counter := 0\<rparr>"
  have "dead_count (h, st) \<le> usize_max"
    unfolding dead_count_def fst_conv snd_conv
    by (rule le_trans [OF length_filter_le timers_inv_size [OF assms(1)]])
  then have d: "dead_count (?h, ?st) \<le> ?t"
    using assms(1,2) by (simp add: timers_inv_def dead_count_def saturating_add_def)
  then have inv: "timers_inv (?h, ?st)"
    using assms(1) by (simp add: timers_inv_def dead_count_def)
  show ?thesis
  proof (cases "?t * 2 > length (entries h)")
    case True
    with assms(3) have "compact (?h, ?st) = (h', st')" by (simp add: note_cancelled_def)
    from timers_inv_compact [OF inv this] show ?thesis by simp
  next
    case False
    with assms(3) have "(h', st') = (?h, ?st)" by (simp add: note_cancelled_def)
    with inv d False show ?thesis by (auto simp: dead_count_def)
  qed
qed

lemma timers_inv_absorb [inv_keep]:
  "timers_inv s \<Longrightarrow> timers_inv (absorb_cancellations s)"
  using note_cancelled_inv [OF _ refl prod.collapse [symmetric]]
  by (cases s) (auto simp: absorb_cancellations_def)

lemma timers_inv_step: "timer_step s a s' \<Longrightarrow> timers_inv s \<Longrightarrow> timers_inv s'"
proof (induction rule: timer_step.induct)
  case (t_collect h ps h' st)
  then show ?case by (auto simp: take_graveyard_def timers_inv_def dead_count_def)
next
  case (t_pop now s r s')
  then show ?case by (cases s, cases s') (auto intro: timers_inv_pop)
next
  case (t_peek s r s')
  then show ?case by (cases s, cases s') (auto intro: timers_inv_peek)
qed (auto intro: timers_inv_sched timers_inv_cancel timers_inv_absorb)

lemma timer_run_inv: "timer_run s as s' \<Longrightarrow> timers_inv s \<Longrightarrow> timers_inv s'"
  by (induction rule: timer_run.induct) (auto intro: timers_inv_step)

section \<open>What a run hands out\<close>

fun act_sched :: "'a timer_act \<Rightarrow> 'a list" where
  "act_sched (Sched d p) = [p]"
| "act_sched _ = []"

fun act_fired :: "'a timer_act \<Rightarrow> 'a list" where
  "act_fired (Pop now (Some p)) = [p]"
| "act_fired _ = []"

fun act_collected :: "'a timer_act \<Rightarrow> 'a list" where
  "act_collected (Collect ps) = ps"
| "act_collected _ = []"

definition scheds :: "'a timer_act list \<Rightarrow> 'a list" where
  "scheds as = concat (map act_sched as)"

definition fireds :: "'a timer_act list \<Rightarrow> 'a list" where
  "fireds as = concat (map act_fired as)"

definition collecteds :: "'a timer_act list \<Rightarrow> 'a list" where
  "collecteds as = concat (map act_collected as)"

lemmas trace_defs = scheds_def fireds_def collecteds_def

lemma act_fired_nil [simp]: "act_fired (Pop now None) = []"
  by simp

text \<open>The payloads the heap still owns: scheduled entries and the graveyard.\<close>

definition owned :: "'a timer_heap \<Rightarrow> 'a multiset" where
  "owned h = mset (graveyard h) + image_mset payload (mset (entries h))"

lemma owned_buried: "buried ds (h, st) (h', st') \<Longrightarrow> owned h' = owned h"
  by (auto simp: buried_def owned_def)

lemma owned_remove_top:
  assumes "entries h \<noteq> []" "heap_ok (entries h)" "remove_top (h, st) = (p, h', st')"
  shows "owned h = add_mset p (owned h')"
  using remove_top_spec [OF assms] by (simp add: owned_def)

lemma owned_compact:
  assumes "compact (h, st) = (h', st')"
  shows "owned h' = owned h"
proof -
  from assms obtain dead where c:
    "mset (entries h') = mset (filter (\<lambda>e. \<not> cancelled st (payload e)) (entries h))"
    "mset dead = mset (map payload (filter (\<lambda>e. cancelled st (payload e)) (entries h)))"
    "graveyard h' = graveyard h @ dead" by (rule compact_spec)
  have "owned h' = mset (graveyard h) + image_mset payload
      (mset (filter (\<lambda>e. \<not> cancelled st (payload e)) (entries h)) +
       mset (filter (\<lambda>e. cancelled st (payload e)) (entries h)))"
    by (simp only: owned_def c mset_append mset_map image_mset_union ac_simps)
  then show ?thesis unfolding mset_filter_split owned_def .
qed

lemma owned_note_cancelled:
  assumes "note_cancelled n (h, st) = (h', st')"
  shows "owned h' = owned h"
proof -
  have "owned (h\<lparr>tombstones := saturating_add (tombstones h) n\<rparr>) = owned h"
    by (simp add: owned_def)
  with assms owned_compact show ?thesis
    by (fastforce simp: note_cancelled_def Let_def split: if_splits)
qed

lemma timer_step_owned:
  assumes "timer_step s a s'" "timers_inv s"
  shows "owned (fst s') + mset (act_fired a) + mset (act_collected a) =
    owned (fst s) + mset (act_sched a)"
  using assms
proof (induction rule: timer_step.induct)
  case (t_sched st p h d)
  then show ?case by (simp add: loop_schedule_timer_def owned_def entries_schedule)
next
  case (t_absorb s)
  then show ?case
    by (cases s) (auto simp: absorb_cancellations_def owned_note_cancelled [OF prod.collapse [symmetric]])
next
  case (t_pop now s r s')
  obtain h st h' st' where s: "s = (h, st)" "s' = (h', st')" by (cases s, cases s')
  with t_pop have ok: "heap_ok (entries h)" by (simp add: timers_inv_def)
  show ?case
  proof (cases r)
    case None
    with t_pop s obtain ds where "buried ds (h, st) (h', st')"
      by (auto elim: pop_expired_NoneD [OF ok])
    from owned_buried [OF this] s None show ?thesis by simp
  next
    case (Some p)
    with t_pop s have "pop_expired now (h, st) = (Some p, h', st')" by simp
    from pop_expired_SomeD [OF ok this] obtain ds h1 st1 where
      b: "buried ds (h, st) (h1, st1)" "entries h1 \<noteq> []" "remove_top (h1, st1) = (p, h', st')" .
    from owned_remove_top [OF b(2) buried_live(2) [OF b(1)] b(3)] owned_buried [OF b(1)] Some s
    show ?thesis by simp
  qed
next
  case (t_peek s r s')
  obtain h st h' st' where s: "s = (h, st)" "s' = (h', st')" by (cases s, cases s')
  with t_peek have ok: "heap_ok (entries h)" by (simp add: timers_inv_def)
  have "drop_cancelled_top (h, st) = (h', st')"
    using t_peek s by (auto simp: next_deadline_def split_beta prod_eq_iff)
  with drop_cancelled_top_spec [OF ok, of st] s show ?case by (auto dest: owned_buried)
qed (auto simp: take_graveyard_def owned_def)

lemma timer_run_snocE:
  assumes "timer_run s (as @ [a]) s'"
  obtains s1 where "timer_run s as s1" "timer_step s1 a s'"
  using assms by (auto elim: timer_run.cases)

lemma timer_step_cancelled: "timer_step s a s' \<Longrightarrow> timers_inv s \<Longrightarrow> cancelled (snd s) p \<Longrightarrow> cancelled (snd s') p"
proof (induction rule: timer_step.induct)
  case (t_absorb s)
  then show ?case
    by (cases s) (auto simp: absorb_cancellations_def note_cancelled_def compact_def split_beta Let_def)
next
  case (t_pop now s r s')
  obtain h st h' st' where s: "s = (h, st)" "s' = (h', st')" by (cases s, cases s')
  with t_pop have ok: "heap_ok (entries h)" by (simp add: timers_inv_def)
  show ?case
  proof (cases r)
    case None
    with t_pop s obtain ds where "buried ds (h, st) (h', st')"
      by (auto elim: pop_expired_NoneD [OF ok])
    from buried_live(3) [OF this] s t_pop show ?thesis by simp
  next
    case (Some q)
    with t_pop s have "pop_expired now (h, st) = (Some q, h', st')" by simp
    from pop_expired_SomeD [OF ok this] obtain ds h1 st1 where
      b: "buried ds (h, st) (h1, st1)" "entries h1 \<noteq> []" "remove_top (h1, st1) = (q, h', st')" .
    from remove_top_spec(7) [OF b(2) buried_live(2) [OF b(1)] b(3)] buried_live(3) [OF b(1)] s t_pop
    show ?thesis by simp
  qed
next
  case (t_peek s r s')
  obtain h st h' st' where s: "s = (h, st)" "s' = (h', st')" by (cases s, cases s')
  with t_peek have ok: "heap_ok (entries h)" by (simp add: timers_inv_def)
  have "drop_cancelled_top (h, st) = (h', st')"
    using t_peek s by (auto simp: next_deadline_def split_beta prod_eq_iff)
  with drop_cancelled_top_spec [OF ok, of st] s t_peek show ?case by (auto dest: buried_live(3))
qed (auto simp: loop_schedule_timer_def)

lemma timer_step_fired_live:
  assumes "timer_step s a s'" "timers_inv s" "p \<in> set (act_fired a)"
  shows "\<not> cancelled (snd s) p"
  using assms
proof (induction rule: timer_step.induct)
  case (t_pop now s r s')
  obtain h st h' st' where s: "s = (h, st)" "s' = (h', st')" by (cases s, cases s')
  with t_pop have ok: "heap_ok (entries h)" by (simp add: timers_inv_def)
  from t_pop have r: "r = Some p" by (cases r) auto
  with t_pop s have "pop_expired now (h, st) = (Some p, h', st')" by simp
  from pop_expired_SomeD [OF ok this] obtain ds e h1 st1 where
    b: "buried ds (h, st) (h1, st1)" "entries h1 \<noteq> []" "remove_top (h1, st1) = (p, h', st')"
      "e = hd (entries h1)" "\<not> cancelled st (payload e)" by metis
  with remove_top_spec(1) [OF b(2) buried_live(2) [OF b(1)] b(3)] s show ?case by simp
qed auto

lemma compact_mset:
  assumes "compact (h, st) = (h', st')"
  shows "set (entries h') \<subseteq> set (entries h)"
proof -
  from compact_spec [OF assms] have
    "mset (entries h') = mset (filter (\<lambda>e. \<not> cancelled st (payload e)) (entries h))" .
  from mset_eq_setD [OF this] show ?thesis by auto
qed

lemma scheds_entries:
  assumes "timer_run (heap_new, store_new) as s" "e \<in> set (entries (fst s))"
  shows "Sched (deadline e) (payload e) \<in> set as"
  using assms
proof (induction "(heap_new, store_new) :: 'a timer_heap \<times> 'a hstore" as s arbitrary: e
    rule: timer_run.induct)
  case run_nil
  then show ?case by (simp add: heap_new_def)
next
  case (run_snoc as s1 a s2)
  have inv: "timers_inv s1" using run_snoc(1) timer_run_inv timers_inv_new by blast
  have "e \<in> set (entries (fst s1)) \<or> a = Sched (deadline e) (payload e)"
    using run_snoc(3,4) inv
  proof (induction rule: timer_step.induct)
    case (t_sched st p h d)
    have "set (entries (schedule d p h)) = set_mset (mset (entries (schedule d p h)))" by simp
    with t_sched show ?case by (auto simp: loop_schedule_timer_def entries_schedule)
  next
    case (t_absorb s)
    obtain h st where s: "s = (h, st)" by (cases s)
    obtain h' st' where a: "absorb_cancellations (h, st) = (h', st')" by fastforce
    have "set (entries h') \<subseteq> set (entries h)"
    proof (cases "cancel_counter st = 0 \<or> saturating_add (tombstones h) (cancel_counter st) * 2
        \<le> length (entries h)")
      case True
      with a show ?thesis
        by (auto simp: absorb_cancellations_def note_cancelled_def split: if_splits)
    next
      case False
      with a have "compact (h\<lparr>tombstones := saturating_add (tombstones h) (cancel_counter st)\<rparr>,
          st\<lparr>cancel_counter := 0\<rparr>) = (h', st')"
        by (simp add: absorb_cancellations_def note_cancelled_def)
      from compact_mset [OF this] show ?thesis by simp
    qed
    with t_absorb s a show ?case by auto
  next
    case (t_pop now s r s')
    obtain h st h' st' where s: "s = (h, st)" "s' = (h', st')" by (cases s, cases s')
    with t_pop have ok: "heap_ok (entries h)" by (simp add: timers_inv_def)
    show ?case
    proof (cases r)
      case None
      with t_pop s obtain ds where "buried ds (h, st) (h', st')"
        by (auto elim: pop_expired_NoneD [OF ok])
      then have "set_mset (mset (entries h)) = set ds \<union> set (entries h')" by (simp add: buried_def)
      with t_pop s show ?thesis by simp
    next
      case (Some p)
      with t_pop s have "pop_expired now (h, st) = (Some p, h', st')" by simp
      from pop_expired_SomeD [OF ok this] obtain ds h1 st1 where
        b: "buried ds (h, st) (h1, st1)" "entries h1 \<noteq> []" "remove_top (h1, st1) = (p, h', st')" .
      from b(1) have "set_mset (mset (entries h)) = set ds \<union> set (entries h1)"
        by (simp add: buried_def)
      moreover from remove_top_spec(3) [OF b(2) buried_live(2) [OF b(1)] b(3)]
      have "set_mset (mset (entries h1)) = insert (hd (entries h1)) (set (entries h'))" by simp
      ultimately show ?thesis using t_pop s by simp
    qed
  next
    case (t_peek s r s')
    obtain h st h' st' where s: "s = (h, st)" "s' = (h', st')" by (cases s, cases s')
    with t_peek have ok: "heap_ok (entries h)" by (simp add: timers_inv_def)
    have "drop_cancelled_top (h, st) = (h', st')"
      using t_peek s by (auto simp: next_deadline_def split_beta prod_eq_iff)
    with drop_cancelled_top_spec [OF ok, of st] obtain ds where "buried ds (h, st) (h', st')" by auto
    then have "set_mset (mset (entries h)) = set ds \<union> set (entries h')" by (simp add: buried_def)
    with t_peek s show ?case by simp
  qed (auto simp: take_graveyard_def)
  with run_snoc(2) show ?case by auto
qed

lemma pop_expired_facts:
  assumes "timers_inv (h, st)" and "pop_expired now (h, st) = (Some p, h', st')"
  obtains e where "e \<in> set (entries h)" "payload e = p" "deadline e \<le> now" "\<not> cancelled st p"
    "\<forall>x\<in>set (entries h). \<not> cancelled st (payload x) \<longrightarrow> key e \<le> key x"
    "p \<notin> payload ` set (entries h')" "\<not> scheduled st' p"
proof -
  have ok: "heap_ok (entries h)" using assms(1) by (simp add: timers_inv_def)
  from pop_expired_SomeD [OF ok assms(2)] obtain ds e h1 st1 where
    b: "buried ds (h, st) (h1, st1)" and e: "entries h1 \<noteq> []" "e = hd (entries h1)"
      "deadline e \<le> now" "\<not> cancelled st (payload e)"
    and r: "remove_top (h1, st1) = (p, h', st')" .
  note ok1 = buried_live(2) [OF b] and rt = remove_top_spec [OF e(1) buried_live(2) [OF b] r]
  have "set_mset (mset (entries h)) = set ds \<union> set (entries h1)"
    and dead: "\<forall>e\<in>set ds. cancelled st (payload e)" using b by (simp_all add: buried_def)
  then have m: "set (entries h) = set ds \<union> set (entries h1)" by simp
  have sch: "scheduled st' p \<longleftrightarrow> p \<in> payload ` set (entries h')"
    using timers_inv_pop [OF assms] by (simp add: timers_inv_def)
  have p: "payload e = p" using rt(1) e(2) by simp
  have "scheduled st' p = False" by (simp add: rt(7))
  with sch have fresh: "p \<notin> payload ` set (entries h')" "\<not> scheduled st' p" by simp_all
  have mem: "e \<in> set (entries h)" using e(1,2) m by simp
  have least: "\<forall>x\<in>set (entries h). \<not> cancelled st (payload x) \<longrightarrow> key e \<le> key x"
    using m dead heap_ok_hd [OF ok1] e(2) by blast
  show thesis by (rule that [OF mem p e(3) _ least fresh]) (use e(4) p in simp_all)
qed

lemma compact_live:
  assumes "compact (h, st) = (h', st')"
  shows "live_timers (h', st') = live_timers (h, st) \<and> cancel_counter st' = cancel_counter st"
proof -
  from assms obtain dead where
    m: "mset (entries h') = mset (filter (\<lambda>e. \<not> cancelled st (payload e)) (entries h))"
    and st': "st' = fold mark_unscheduled dead st" by (rule compact_spec)
  then show ?thesis by (simp add: live_timers_def filter_filter_mset)
qed

lemma note_cancelled_live:
  assumes "note_cancelled n (h, st\<lparr>cancel_counter := 0\<rparr>) = (h', st')"
  shows "live_timers (h', st') = live_timers (h, st) \<and> cancel_counter st' = 0"
proof -
  let ?h = "h\<lparr>tombstones := saturating_add (tombstones h) n\<rparr>" and ?st = "st\<lparr>cancel_counter := 0\<rparr>"
  have eq: "live_timers (?h, ?st) = live_timers (h, st)" by (simp add: live_timers_def)
  show ?thesis
  proof (cases "saturating_add (tombstones h) n * 2 > length (entries h)")
    case True
    with assms have "compact (?h, ?st) = (h', st')" by (simp add: note_cancelled_def)
    from compact_live [OF this] eq show ?thesis by simp
  next
    case False
    with assms have "(h', st') = (?h, ?st)" by (simp add: note_cancelled_def)
    with eq show ?thesis by simp
  qed
qed

section \<open>Properties\<close>

text \<open>A concrete run for the witnesses: two timers, the earlier one cancelled.\<close>

definition two_timers :: "nat timer_heap \<times> nat hstore" where
  "two_timers = loop_schedule_timer 3 2 (loop_schedule_timer 7 1 (heap_new, store_new))"

definition one_cancelled :: "nat timer_heap \<times> nat hstore" where
  "one_cancelled = (fst two_timers, timer_cancel 2 (snd two_timers))"

lemma seq_room: "(0::u64) < - 1" "(1::u64) < - 1"
  by (simp_all add: word_less_nat_alt unsigned_minus_1_eq_mask mask_eq_exp_minus_1)

lemma run_two: "timer_run (heap_new, store_new) [Sched 7 1, Sched 3 2] two_timers"
proof -
  have "timer_run (heap_new, store_new) ([] @ [Sched 7 1])
      (loop_schedule_timer 7 (1::nat) (heap_new, store_new))"
    by (rule run_snoc [OF run_nil t_sched]) (simp_all add: store_new_def heap_new_def seq_room)
  from run_snoc [OF this, of "Sched 3 2" two_timers] show ?thesis
    unfolding two_timers_def loop_schedule_timer_def fst_conv snd_conv
    by (simp add: timer_step.simps loop_schedule_timer_def store_new_def mark_scheduled_def
        heap_new_def seq_room)
qed

lemma run_cancelled:
  "timer_run (heap_new, store_new) [Sched 7 1, Sched 3 2, Cancel 2] one_cancelled"
  using run_snoc [OF run_two, of "Cancel 2" one_cancelled]
    t_cancel [of "fst two_timers" "snd two_timers" 2] by (simp add: one_cancelled_def)

lemma run_pop:
  "timer_run (heap_new, store_new) ([Sched 7 1, Sched 3 2] @ Cancel 2 # [Pop 9 (Some 1)])
     (snd (pop_expired 9 one_cancelled))"
proof -
  have "fst (pop_expired 9 one_cancelled) = Some 1" by code_simp
  then have "timer_step one_cancelled (Pop 9 (Some 1)) (snd (pop_expired 9 one_cancelled))"
    by (metis prod.collapse t_pop)
  from run_snoc [OF run_cancelled this] show ?thesis by simp
qed

text \<open>
  C25: in every state the binding layer can reach, \<open>pop_expired\<close> hands out a live timer that is
  due and whose (deadline, insertion number) is least among all live timers; the popped timer
  leaves the heap and its handle is no longer marked scheduled.
\<close>

theorem pop_expired_least:
  assumes "timer_run (heap_new, store_new) as (h, st)"
    and "pop_expired now (h, st) = (Some p, h', st')"
  shows "\<exists>e\<in>set (entries h). payload e = p \<and> deadline e \<le> now \<and> \<not> cancelled st p \<and>
      (\<forall>x\<in>set (entries h). \<not> cancelled st (payload x) \<longrightarrow> key e \<le> key x) \<and>
      p \<notin> payload ` set (entries h') \<and> \<not> scheduled st' p"
proof -
  have "timers_inv (h, st)" using timer_run_inv [OF assms(1) timers_inv_new] .
  from pop_expired_facts [OF this assms(2)] obtain e where e: "e \<in> set (entries h)"
    "payload e = p" "deadline e \<le> now" "\<not> cancelled st p"
    "\<forall>x\<in>set (entries h). \<not> cancelled st (payload x) \<longrightarrow> key e \<le> key x"
    "p \<notin> payload ` set (entries h')" "\<not> scheduled st' p" .
  then show ?thesis by (intro bexI [OF _ e(1)]) simp
qed

theorem pop_expired_least_witness:
  "\<exists>e\<in>set (entries (fst two_timers)). payload e = 2 \<and> deadline e \<le> 5"
proof -
  have "fst (pop_expired 5 two_timers) = Some 2" by code_simp
  then obtain h' st' where p: "pop_expired 5 (fst two_timers, snd two_timers) = (Some 2, h', st')"
    by (metis prod.collapse)
  have "timer_run (heap_new, store_new) [Sched 7 1, Sched 3 2] (fst two_timers, snd two_timers)"
    using run_two by simp
  from pop_expired_least [OF this p] show ?thesis by blast
qed

text \<open>
  C26: no payload is silently dropped.  Over any run, the handles scheduled are, as multisets,
  those fired, those collected from the graveyard, and those the heap still owns (scheduled
  or awaiting collection).
\<close>

theorem timer_payloads_conserved:
  assumes "timer_run (heap_new, store_new) as (h, st)"
  shows "mset (scheds as) = mset (fireds as) + mset (collecteds as) + mset (graveyard h) +
    mset (map payload (entries h))"
proof -
  have "mset (scheds as) = mset (fireds as) + mset (collecteds as) + owned (fst s)"
    if "timer_run (heap_new, store_new) as s" for s
    using that
  proof (induction "(heap_new, store_new) :: 'a timer_heap \<times> 'a hstore" as s rule: timer_run.induct)
    case run_nil
    show ?case by (simp add: trace_defs owned_def heap_new_def)
  next
    case (run_snoc as s1 a s2)
    from timer_step_owned [OF run_snoc(3)] timer_run_inv [OF run_snoc(1) timers_inv_new] run_snoc(2)
    show ?case by (simp add: trace_defs ac_simps)
  qed
  from this [OF assms] show ?thesis by (simp add: owned_def ac_simps)
qed

theorem timer_payloads_conserved_witness:
  "mset (scheds [Sched 7 1, Sched 3 (2::nat)]) =
     mset (graveyard (fst two_timers)) + mset (map payload (entries (fst two_timers)))"
proof -
  have "timer_run (heap_new, store_new) [Sched 7 1, Sched 3 2] (fst two_timers, snd two_timers)"
    using run_two by simp
  from timer_payloads_conserved [OF this] show ?thesis by (simp add: trace_defs)
qed

text \<open>
  C27: a cancelled timer never fires, however the cancellation interleaves with compaction,
  pops and peeks; and a timer that fires was scheduled with a deadline that has passed.
\<close>

theorem cancelled_timer_never_fires:
  assumes "timer_run (heap_new, store_new) (as @ Cancel p # bs) s"
  shows "p \<notin> set (fireds bs) \<and>
    (\<forall>now q. Pop now (Some q) \<in> set (as @ Cancel p # bs) \<longrightarrow>
       (\<exists>d\<le>now. Sched d q \<in> set (as @ Cancel p # bs)))"
proof
  have "p \<notin> set (fireds bs) \<and> cancelled (snd s) p"
    using assms
  proof (induction bs arbitrary: s rule: rev_induct)
    case Nil
    then obtain s1 where "timer_step s1 (Cancel p) s" by (rule timer_run_snocE)
    then have "cancelled (snd s) p" by (rule timer_step_CancelE) simp
    then show ?case by (simp add: trace_defs)
  next
    case (snoc b bs)
    from snoc.prems have "timer_run (heap_new, store_new) ((as @ Cancel p # bs) @ [b]) s" by simp
    then obtain s1 where s1: "timer_run (heap_new, store_new) (as @ Cancel p # bs) s1"
      "timer_step s1 b s" by (rule timer_run_snocE)
    note inv = timer_run_inv [OF s1(1) timers_inv_new]
    from snoc.IH [OF s1(1)] timer_step_cancelled [OF s1(2) inv, of p]
      timer_step_fired_live [OF s1(2) inv, of p]
    show ?case by (auto simp: trace_defs)
  qed
  then show "p \<notin> set (fireds bs)" by simp
  have ex: "\<exists>d\<le>now. Sched d q \<in> set cs"
    if "timer_run (heap_new, store_new) cs s'" "Pop now (Some q) \<in> set cs" for cs s' now q
    using that
  proof (induction cs arbitrary: s' rule: rev_induct)
    case (snoc c cs)
    then obtain s1 where s1: "timer_run (heap_new, store_new) cs s1" "timer_step s1 c s'"
      by (auto elim: timer_run_snocE)
    show ?case
    proof (cases "c = Pop now (Some q)")
      case True
      with s1(2) have "pop_expired now (fst s1, snd s1) = (Some q, fst s', snd s')"
        by (auto elim: timer_step_PopE)
      moreover have "timers_inv (fst s1, snd s1)"
        using timer_run_inv [OF s1(1) timers_inv_new] by simp
      ultimately obtain e where e: "e \<in> set (entries (fst s1))" "payload e = q" "deadline e \<le> now"
        using pop_expired_facts [of "fst s1" "snd s1" now q "fst s'" "snd s'"] by blast
      have "Sched (deadline e) (payload e) \<in> set cs" using scheds_entries [OF s1(1) e(1)] .
      with e show ?thesis by auto
    next
      case False
      with snoc.prems(2) have "Pop now (Some q) \<in> set cs" by simp
      from snoc.IH [OF s1(1) this] show ?thesis by auto
    qed
  qed simp
  show "\<forall>now q. Pop now (Some q) \<in> set (as @ Cancel p # bs) \<longrightarrow>
       (\<exists>d\<le>now. Sched d q \<in> set (as @ Cancel p # bs))"
    by (intro allI impI ex [OF assms])
qed

theorem cancelled_timer_never_fires_witness:
  "(2::nat) \<notin> set (fireds [Pop 9 (Some 1)])"
  using cancelled_timer_never_fires [OF run_pop] by blast

text \<open>
  The deadline the reactor sleeps for is exact.  \<open>next_deadline\<close> says None precisely when
  no live timer is left, and otherwise the deadline of the live timer that fires first; it
  loses no live timer on the way.
\<close>

theorem next_deadline_exact:
  assumes "timer_run (heap_new, store_new) as s" "next_deadline s = (r, s')"
  shows "live_timers s' = live_timers s \<and>
    (case r of
       None \<Rightarrow> live_timers s = {#}
     | Some d \<Rightarrow> \<exists>x\<in>#live_timers s. fst (fst x) = d \<and> (\<forall>y\<in>#live_timers s. fst x \<le> fst y))"
proof -
  obtain h st where s: "s = (h, st)" by (cases s)
  have "timers_inv s" using timer_run_inv [OF assms(1) timers_inv_new] .
  then have ok: "heap_ok (entries h)" by (simp add: timers_inv_def s)
  obtain h1 st1 where d: "drop_cancelled_top (h, st) = (h1, st1)" by fastforce
  with drop_cancelled_top_spec [OF ok, of st] obtain ds where b: "buried ds (h, st) (h1, st1)"
    and top: "entries h1 = [] \<or> \<not> cancelled st (payload (hd (entries h1)))" by auto
  have r: "r = (case entries h1 of [] \<Rightarrow> None | e # _ \<Rightarrow> Some (deadline e))" "s' = (h1, st1)"
    using assms(2) s d by (auto simp: next_deadline_def)
  note l = buried_live [OF b]
  show ?thesis
  proof (cases "entries h1")
    case Nil
    then have "live_timers (h1, st1) = {#}" by (simp add: live_timers_def)
    with r l(1) Nil s show ?thesis by simp
  next
    case (Cons e es)
    let ?x = "(key e, payload e)"
    have "?x \<in># live_timers (h1, st1)"
      using top Cons l(3) by (simp add: live_timers_def)
    moreover have "fst ?x \<le> fst y" if "y \<in># live_timers (h1, st1)" for y
      using that heap_ok_hd [OF l(2)] Cons by (auto simp: live_timers_def split: if_splits)
    ultimately show ?thesis using r l(1) Cons s by (auto simp: key_def intro!: bexI [of _ ?x])
  qed
qed

theorem next_deadline_exact_witness:
  "\<exists>x\<in>#live_timers one_cancelled. fst (fst x) = 7 \<and> (\<forall>y\<in>#live_timers one_cancelled. fst x \<le> fst y)"
proof -
  have "fst (next_deadline one_cancelled) = Some 7" by code_simp
  then obtain s' where "next_deadline one_cancelled = (Some 7, s')" by (metis prod.collapse)
  from next_deadline_exact [OF run_cancelled this] show ?thesis by simp
qed

text \<open>
  Cancelled timers do not pile up.  Whenever the reactor absorbs a nonzero cancellation
  count, at most half of the entries the heap keeps are cancelled (it compacts otherwise), and
  the live timers are untouched.
\<close>

theorem absorb_bounds_tombstones:
  assumes "timer_run (heap_new, store_new) as s" "cancel_counter (snd s) \<noteq> 0"
  shows "2 * dead_count (absorb_cancellations s) \<le> length (entries (fst (absorb_cancellations s))) \<and>
    live_timers (absorb_cancellations s) = live_timers s \<and>
    cancel_counter (snd (absorb_cancellations s)) = 0"
proof -
  obtain h st where s: "s = (h, st)" by (cases s)
  obtain h' st' where n: "note_cancelled (cancel_counter st) (h, st\<lparr>cancel_counter := 0\<rparr>) = (h', st')"
    by fastforce
  have "timers_inv (h, st)" using timer_run_inv [OF assms(1) timers_inv_new] s by simp
  from note_cancelled_inv [OF this refl n]
  have "2 * dead_count (h', st') \<le> length (entries h')" by simp
  moreover from n have "live_timers (h', st') = live_timers (h, st) \<and> cancel_counter st' = 0"
    by (rule note_cancelled_live)
  ultimately show ?thesis using assms(2) s n by (simp add: absorb_cancellations_def)
qed

theorem absorb_bounds_tombstones_witness:
  "2 * dead_count (absorb_cancellations one_cancelled) \<le>
     length (entries (fst (absorb_cancellations one_cancelled)))"
proof -
  have "cancel_counter (snd one_cancelled) \<noteq> 0" by code_simp
  from absorb_bounds_tombstones [OF run_cancelled this] show ?thesis by blast
qed

end
