(* ===== verification/Op_Slab.thy ===== *)
theory Op_Slab
  imports Contracts
begin

text \<open>
  The slab of in-flight kernel operations (\<open>opslab.rs\<close>): slots in pinned chunks of 256, a
  freelist, generation counters and the state machine Free, Posted, Cancelled, Completed.  The
  address the allocator gives a new chunk, the layout of a slot (its stride and the offset of its
  \<open>data\<close> field) and the default payload are arguments.  The \<open>debug_assert\<close>s are not part of the
  model: it is the release build, in which a stale or premature call is ignored.
\<close>

datatype op_state = Free | Posted | Completed | Cancelled

datatype op_kind =
    Accept | Recv | Send | Connect | Disconnect | Wakeup | RecvFrom | SendTo | PipeRead
  | PipeWrite | Poll

record op_id =
  op_index :: nat
  op_gen :: u32

record 'd slot =
  ostate :: op_state
  generation :: u32
  okind :: op_kind
  odata :: 'd

definition CHUNK :: nat where
  "CHUNK = 256"

text \<open>The freelist is a stack; its top (the end of the \<open>Vec\<close>) is the head of the list.\<close>

record 'd slab =
  chunks :: "'d slot list list"
  by_addr :: "(nat \<times> nat) list"
  freelist :: "nat list"
  in_flight :: nat

definition slab_new :: "'d slab" where
  "slab_new = \<lparr>chunks = [], by_addr = [], freelist = [], in_flight = 0\<rparr>"

definition slab_capacity :: "'d slab \<Rightarrow> nat" where
  "slab_capacity s = length (chunks s) * CHUNK"

definition slab_grow :: "nat \<Rightarrow> 'd \<Rightarrow> 'd slab \<Rightarrow> 'd slab" where
  "slab_grow addr mk s =
     (let base = as_u32 (slab_capacity s);
          chunk = replicate CHUNK \<lparr>ostate = Free, generation = 0, okind = Wakeup, odata = mk\<rparr>;
          at = partition_point (\<lambda>(a, _). a < addr) (by_addr s)
      in s\<lparr>by_addr := list_insert_at at (addr, length (chunks s)) (by_addr s),
           chunks := chunks s @ [chunk],
           freelist := fold (\<lambda>i fl. (base + i) # fl) (rev [0..<CHUNK]) (freelist s)\<rparr>)"

definition slab_slot :: "'d slab \<Rightarrow> nat \<Rightarrow> 'd slot option" where
  "slab_slot s i =
     (if i div CHUNK < length (chunks s) then Some (chunks s ! (i div CHUNK) ! (i mod CHUNK))
      else None)"

text \<open>A write through \<open>slot_mut\<close>.\<close>

definition slab_set :: "nat \<Rightarrow> 'd slot \<Rightarrow> 'd slab \<Rightarrow> 'd slab" where
  "slab_set i x s =
     s\<lparr>chunks := (chunks s)[i div CHUNK := (chunks s ! (i div CHUNK))[i mod CHUNK := x]]\<rparr>"

definition slab_post :: "nat \<Rightarrow> 'd \<Rightarrow> op_kind \<Rightarrow> 'd slab \<Rightarrow> op_id \<times> 'd slab" where
  "slab_post addr mk k s =
     (let s = (if freelist s = [] then slab_grow addr mk s else s);
          i = hd (freelist s);
          s = s\<lparr>freelist := tl (freelist s), in_flight := in_flight s + 1\<rparr>;
          sl = the (slab_slot s i)
      in (\<lparr>op_index = i, op_gen = generation sl\<rparr>,
          slab_set i (sl\<lparr>ostate := Posted, okind := k\<rparr>) s))"

definition slab_get :: "'d slab \<Rightarrow> op_id \<Rightarrow> 'd slot option" where
  "slab_get s oid =
     (case slab_slot s (op_index oid) of
        None \<Rightarrow> None
      | Some sl \<Rightarrow> if generation sl = op_gen oid \<and> ostate sl \<noteq> Free then Some sl else None)"

text \<open>A caller's write to the payload, through \<open>get_mut\<close>.\<close>

definition slab_write :: "op_id \<Rightarrow> ('d \<Rightarrow> 'd) \<Rightarrow> 'd slab \<Rightarrow> 'd slab" where
  "slab_write oid f s =
     (case slab_get s oid of None \<Rightarrow> s
      | Some sl \<Rightarrow> slab_set (op_index oid) (sl\<lparr>odata := f (odata sl)\<rparr>) s)"

definition mark_cancelled :: "op_id \<Rightarrow> 'd slab \<Rightarrow> bool \<times> 'd slab" where
  "mark_cancelled oid s =
     (case slab_get s oid of
        None \<Rightarrow> (False, s)
      | Some sl \<Rightarrow>
          (case ostate sl of
             Posted \<Rightarrow> (True, slab_set (op_index oid) (sl\<lparr>ostate := Cancelled\<rparr>) s)
           | _ \<Rightarrow> (False, s)))"

definition slab_complete :: "op_id \<Rightarrow> 'd slab \<Rightarrow> (op_kind \<times> bool) option \<times> 'd slab" where
  "slab_complete oid s =
     (case slab_slot s (op_index oid) of
        None \<Rightarrow> (None, s)
      | Some sl \<Rightarrow>
          if generation sl \<noteq> op_gen oid then (None, s)
          else if ostate sl = Free \<or> ostate sl = Completed then (None, s)
          else (Some (okind sl, ostate sl = Cancelled),
                (slab_set (op_index oid) (sl\<lparr>ostate := Completed\<rparr>) s)\<lparr>in_flight := in_flight s - 1\<rparr>))"

definition slab_release :: "op_id \<Rightarrow> 'd slab \<Rightarrow> 'd slab" where
  "slab_release oid s =
     (case slab_slot s (op_index oid) of
        None \<Rightarrow> s
      | Some sl \<Rightarrow>
          if generation sl = op_gen oid \<and> ostate sl = Completed
          then (slab_set (op_index oid) (sl\<lparr>ostate := Free, generation := generation sl + 1\<rparr>) s)
                 \<lparr>freelist := op_index oid # freelist s\<rparr>
          else s)"

definition slab_state :: "'d slab \<Rightarrow> op_id \<Rightarrow> op_state option" where
  "slab_state s oid =
     (case slab_slot s (op_index oid) of
        None \<Rightarrow> None
      | Some sl \<Rightarrow> if generation sl = op_gen oid then Some (ostate sl) else None)"

definition flying :: "op_state \<Rightarrow> bool" where
  "flying st \<longleftrightarrow> st = Posted \<or> st = Cancelled"

definition in_flight_ids :: "'d slab \<Rightarrow> op_id list" where
  "in_flight_ids s =
     concat (map (\<lambda>(ci, chunk).
       concat (map (\<lambda>(si, sl). if flying (ostate sl)
           then [\<lparr>op_index = as_u32 (ci * CHUNK + si), op_gen = generation sl\<rparr>] else [])
         (zip [0..<length chunk] chunk)))
       (zip [0..<length (chunks s)] (chunks s)))"

text \<open>
  The pointer screen.  \<open>stride\<close> is the size of a slot, \<open>data_off\<close> the offset of its payload.
\<close>

definition contains_data_ptr :: "nat \<Rightarrow> nat \<Rightarrow> 'd slab \<Rightarrow> nat \<Rightarrow> bool" where
  "contains_data_ptr stride data_off s addr =
     (if stride = 0 then False
      else
        (let at = partition_point (\<lambda>(base, _). base \<le> addr) (by_addr s)
         in if at = 0 then False
            else (let (base, ci) = by_addr s ! (at - 1); off = addr - base
                  in if off \<ge> stride * CHUNK then False else off mod stride = data_off)))"

section \<open>Slots as a map\<close>

definition slot_chunks_ok :: "'d slab \<Rightarrow> bool" where
  "slot_chunks_ok s \<longleftrightarrow> (\<forall>c\<in>set (chunks s). length c = CHUNK)"

lemma CHUNK_pos [simp]: "0 < CHUNK"
  by (simp add: CHUNK_def)

lemma slab_slot_Some_iff: "(\<exists>sl. slab_slot s i = Some sl) \<longleftrightarrow> i < slab_capacity s"
  by (auto simp: slab_slot_def slab_capacity_def less_mult_imp_div_less div_less_iff_less_mult)

lemma slab_slot_None_iff: "slab_slot s i = None \<longleftrightarrow> slab_capacity s \<le> i"
  using slab_slot_Some_iff [of s i] by (cases "slab_slot s i") auto

lemma slab_slot_lt: "slab_slot s i = Some sl \<Longrightarrow> i < slab_capacity s"
  using slab_slot_Some_iff [of s i] by blast

lemma slab_set_simps [simp]:
  "freelist (slab_set i x s) = freelist s" "in_flight (slab_set i x s) = in_flight s"
  "by_addr (slab_set i x s) = by_addr s" "slab_capacity (slab_set i x s) = slab_capacity s"
  "slab_capacity (s\<lparr>freelist := fl\<rparr>) = slab_capacity s"
  "slab_capacity (s\<lparr>in_flight := n\<rparr>) = slab_capacity s"
  "slab_slot (s\<lparr>freelist := fl\<rparr>) = slab_slot s" "slab_slot (s\<lparr>in_flight := n\<rparr>) = slab_slot s"
  by (simp_all add: slab_set_def slab_capacity_def slab_slot_def fun_eq_iff)

lemma slot_chunks_ok_set:
  "slot_chunks_ok s \<Longrightarrow> i < slab_capacity s \<Longrightarrow> slot_chunks_ok (slab_set i x s)"
  by (auto simp: slot_chunks_ok_def slab_set_def slab_capacity_def div_less_iff_less_mult
      dest!: set_update_subset_insert [THEN subsetD])

lemma slab_slot_set:
  assumes "slot_chunks_ok s" "i < slab_capacity s"
  shows "slab_slot (slab_set i x s) j = (if j = i then Some x else slab_slot s j)"
proof -
  have i: "i div CHUNK < length (chunks s)"
    using assms(2) by (simp add: slab_capacity_def div_less_iff_less_mult)
  with assms(1) have len: "length (chunks s ! (i div CHUNK)) = CHUNK"
    by (simp add: slot_chunks_ok_def)
  have "j = i" if "j div CHUNK = i div CHUNK" "j mod CHUNK = i mod CHUNK"
    using that by (metis div_mult_mod_eq)
  with i len show ?thesis
    by (auto simp: slab_slot_def slab_set_def nth_list_update)
qed

lemma fold_push: "fold (\<lambda>i fl. (base + i) # fl) (rev xs) fl = map ((+) base) xs @ fl" for base :: nat
  by (induction xs) auto

lemma grow_simps:
  "slab_capacity (slab_grow addr mk s) = slab_capacity s + CHUNK"
  "in_flight (slab_grow addr mk s) = in_flight s"
  by (simp_all add: slab_grow_def slab_capacity_def Let_def)

lemma grow_freelist:
  "slab_capacity s < 2 ^ 32 \<Longrightarrow> freelist (slab_grow addr mk s) =
     [slab_capacity s..<slab_capacity s + CHUNK] @ freelist s"
proof -
  assume "slab_capacity s < 2 ^ 32"
  moreover have "map ((+) b) [0..<n] = [b..<b + n]" for b n :: nat
    by (induction n) auto
  ultimately show ?thesis by (simp add: slab_grow_def Let_def fold_push)
qed

lemma grow_slot:
  "slab_slot (slab_grow addr mk s) i =
     (if i < slab_capacity s then slab_slot s i
      else if i < slab_capacity s + CHUNK
           then Some \<lparr>ostate = Free, generation = 0, okind = Wakeup, odata = mk\<rparr> else None)"
proof -
  have lt: "i div CHUNK < n \<longleftrightarrow> i < n * CHUNK" for n by (simp add: div_less_iff_less_mult)
  have "i div CHUNK < Suc (length (chunks s)) \<longleftrightarrow> i < slab_capacity s + CHUNK"
    unfolding lt by (simp add: slab_capacity_def add.commute)
  moreover have "i div CHUNK < length (chunks s) \<longleftrightarrow> i < slab_capacity s"
    unfolding lt by (simp add: slab_capacity_def)
  moreover have "i mod CHUNK < CHUNK" by simp
  ultimately show ?thesis
    by (auto simp: slab_slot_def slab_grow_def Let_def nth_append)
qed

lemma slot_chunks_ok_grow: "slot_chunks_ok s \<Longrightarrow> slot_chunks_ok (slab_grow addr mk s)"
  by (auto simp: slot_chunks_ok_def slab_grow_def Let_def)

section \<open>The invariant\<close>

definition flying_set :: "'d slab \<Rightarrow> nat set" where
  "flying_set s = {i. \<exists>sl. slab_slot s i = Some sl \<and> flying (ostate sl)}"

definition slab_ok :: "'d slab \<Rightarrow> bool" where
  "slab_ok s \<longleftrightarrow>
     slot_chunks_ok s \<and> slab_capacity s \<le> 2 ^ 32 \<and>
     distinct (freelist s) \<and>
     (\<forall>i. i \<in> set (freelist s) \<longleftrightarrow> (\<exists>sl. slab_slot s i = Some sl \<and> ostate sl = Free)) \<and>
     in_flight s = card (flying_set s)"

lemma finite_flying_set [simp]: "finite (flying_set s)"
  by (rule finite_subset [of _ "{..<slab_capacity s}"]) (auto simp: flying_set_def dest: slab_slot_lt)

lemma slab_ok_new: "slab_ok slab_new"
  by (simp add: slab_ok_def slab_new_def slot_chunks_ok_def slab_capacity_def slab_slot_def
      flying_set_def)

lemma slab_ok_set:
  assumes "slab_ok s" "slab_slot s i = Some sl" "ostate x \<noteq> Free" "ostate sl \<noteq> Free"
  shows "slab_ok ((slab_set i x s)\<lparr>in_flight := card (flying_set (slab_set i x s))\<rparr>)"
proof -
  note i = slab_slot_lt [OF assms(2)]
  have c: "slot_chunks_ok s" using assms(1) by (simp add: slab_ok_def)
  have "slot_chunks_ok ((slab_set i x s)\<lparr>in_flight := n\<rparr>)" for n
    using slot_chunks_ok_set [OF c i] by (simp add: slot_chunks_ok_def)
  moreover have "flying_set (t\<lparr>in_flight := n\<rparr>) = flying_set t" for t :: "'a slab" and n
    by (simp add: flying_set_def)
  ultimately show ?thesis
    using assms by (auto simp: slab_ok_def slab_slot_set [OF c i])
qed

lemma flying_set_set:
  assumes "slab_ok s" "slab_slot s i = Some sl"
  shows "flying_set (slab_set i x s) =
    (if flying (ostate x) then insert i (flying_set s) else flying_set s - {i})"
  using assms slab_slot_set [OF _ slab_slot_lt [OF assms(2)], of x]
  by (auto simp: flying_set_def slab_ok_def)

text \<open>Room for another operation: a free slot, or a chunk below the \<open>u32\<close> index range.\<close>

definition slab_room :: "'d slab \<Rightarrow> bool" where
  "slab_room s \<longleftrightarrow> freelist s \<noteq> [] \<or> slab_capacity s + CHUNK \<le> 2 ^ 32"

lemma slab_ok_grow:
  assumes "slab_ok s" "freelist s = []" "slab_capacity s + CHUNK \<le> 2 ^ 32"
  shows "slab_ok (slab_grow addr mk s)"
proof -
  let ?g = "slab_grow addr mk s"
  have lt: "slab_capacity s < 2 ^ 32" using assms(3) CHUNK_pos by linarith
  have "flying_set ?g = flying_set s"
    by (auto simp: flying_set_def grow_slot flying_def dest: slab_slot_lt)
  moreover have "i \<in> set (freelist ?g) \<longleftrightarrow> (\<exists>sl. slab_slot ?g i = Some sl \<and> ostate sl = Free)" for i
    using assms(1,2) by (auto simp: grow_freelist [OF lt] grow_slot slab_ok_def)
  ultimately show ?thesis
    using assms by (auto simp: slab_ok_def slot_chunks_ok_grow grow_simps grow_freelist [OF lt])
qed

end
