(* ===== verification/Backend.thy ===== *)
theory Backend
  imports Op_Slab
begin

text \<open>
  The backend interface (\<open>backend/mod.rs\<close>): completions, error classification, the send-length
  cap, poll timeouts in milliseconds, backend selection; the operations the reactor calls on a
  backend, as a record of functions; and the portable backend (\<open>backend/portable.rs\<close>).  A
  \<open>Duration\<close> is its nanoseconds.
\<close>

type_synonym raw_socket = nat
type_synonym duration = nat

datatype completion =
    WakeupC
  | Io op_id nat nat
  | Ready raw_socket bool bool

datatype io_error = Unsupported string | Os_error nat | Would_block | Not_found string | Invalid_data string

datatype target = On_windows | On_linux | On_other

definition is_cancelled_error :: "target \<Rightarrow> nat \<Rightarrow> bool" where
  "is_cancelled_error tg code = (if tg = On_windows then code = 995 else code = 125)"

text \<open>The Linux errno values of \<open>libc\<close>, in the order the source lists them.\<close>

definition transient_errnos :: "nat list" where
  "transient_errnos = [103, 71, 104, 100, 92, 112, 64, 113, 95, 101, 4]"

definition is_transient_accept_error :: "target \<Rightarrow> nat \<Rightarrow> bool" where
  "is_transient_accept_error tg code =
     (case tg of
        On_windows \<Rightarrow> code \<in> set [64, 1236, 10053, 10054]
      | On_linux \<Rightarrow> code \<in> set transient_errnos
      | On_other \<Rightarrow> False)"

definition MAX_GATHER :: nat where
  "MAX_GATHER = 16"

definition MAX_SEND_BYTES :: nat where
  "MAX_SEND_BYTES = 2 ^ 30"

definition io_len :: "nat \<Rightarrow> nat" where
  "io_len len = as_u32 (min len MAX_SEND_BYTES)"

definition NANOS_PER_MILLI :: nat where
  "NANOS_PER_MILLI = 1000000"

definition wait_millis :: "duration \<Rightarrow> nat" where
  "wait_millis t = (if t = 0 then 0 else max (t div NANOS_PER_MILLI) 1)"

datatype backend_kind = Auto | Iocp | Rio | Epoll

definition parse_backend_kind :: "string \<Rightarrow> backend_kind option" where
  "parse_backend_kind s =
     (if s = ''auto'' then Some Auto else if s = ''iocp'' then Some Iocp
      else if s = ''rio'' then Some Rio else if s = ''epoll'' then Some Epoll else None)"

record backend_options =
  rio_cq_size :: nat
  rio_rq_recv :: nat
  rio_rq_send :: nat

definition default_backend_options :: backend_options where
  "default_backend_options = \<lparr>rio_cq_size = 65536, rio_rq_recv = 32, rio_rq_send = 32\<rparr>"

text \<open>Which backend \<open>create\<close> builds; its constructor may still fail.\<close>

datatype backend_impl = Iocp_backend | Rio_backend nat nat nat | Epoll_backend | Portable_backend

definition create_backend :: "target \<Rightarrow> backend_kind \<Rightarrow> backend_options \<Rightarrow> io_error + backend_impl" where
  "create_backend tg kind opts =
     (case tg of
        On_windows \<Rightarrow>
          (case kind of
             Iocp \<Rightarrow> Inr Iocp_backend
           | Auto \<Rightarrow> Inr Iocp_backend
           | Rio \<Rightarrow> Inr (Rio_backend (rio_cq_size opts) (rio_rq_recv opts) (rio_rq_send opts))
           | Epoll \<Rightarrow> Inl (Unsupported ''epoll backend is Linux-only (use auto, iocp or rio)''))
      | On_linux \<Rightarrow> Inr Epoll_backend
      | On_other \<Rightarrow> Inr Portable_backend)"

section \<open>The operations the reactor calls\<close>

text \<open>
  A backend state \<open>'b\<close> holds what the backend keeps and what the kernel will answer.  A poll
  appends completions and either counts them or fails.
\<close>

record 'b backend_ops =
  bk_poll :: "duration option \<Rightarrow> 'b \<Rightarrow> (io_error + nat) \<times> completion list \<times> 'b"
  bk_poll_precise :: "duration option \<Rightarrow> bool \<Rightarrow> 'b \<Rightarrow> (io_error + nat) \<times> completion list \<times> 'b"
  bk_precise_parks :: "'b \<Rightarrow> bool"
  bk_take_staged :: "'b \<Rightarrow> completion list \<times> 'b"
  bk_has_io_interest :: "'b \<Rightarrow> bool"

definition bk_try_poll :: "'b backend_ops \<Rightarrow> 'b \<Rightarrow> (io_error + nat) \<times> completion list \<times> 'b" where
  "bk_try_poll ops = bk_poll ops (Some 0)"

text \<open>The trait's default methods over a given \<open>poll\<close>.\<close>

definition default_ops ::
  "(duration option \<Rightarrow> 'b \<Rightarrow> (io_error + nat) \<times> completion list \<times> 'b) \<Rightarrow> 'b backend_ops" where
  "default_ops p = \<lparr>bk_poll = p, bk_poll_precise = (\<lambda>t _. p t), bk_precise_parks = (\<lambda>_. False),
     bk_take_staged = (\<lambda>b. ([], b)), bk_has_io_interest = (\<lambda>_. True)\<rparr>"

text \<open>
  The contract poll elision rests on.  A backend that reports no I/O interest has staged nothing,
  and a zero-timeout poll would have given no operation's completion: at most wakeups, or
  readiness of the signal-wakeup descriptor, which exist to end parks.
\<close>

fun wakes_only :: "raw_socket option \<Rightarrow> completion \<Rightarrow> bool" where
  "wakes_only sig WakeupC = True"
| "wakes_only sig (Ready fd r w) = (sig = Some fd)"
| "wakes_only sig (Io oid bytes err) = False"

locale io_backend =
  fixes ops :: "'b backend_ops" and ok :: "'b \<Rightarrow> bool" and signal :: "'b \<Rightarrow> raw_socket option"
  assumes no_interest_poll: "ok b \<Longrightarrow> \<not> bk_has_io_interest ops b \<Longrightarrow>
      bk_try_poll ops b = (r, cs, b') \<Longrightarrow> c \<in> set cs \<Longrightarrow> wakes_only (signal b) c"
    and no_interest_staged: "ok b \<Longrightarrow> \<not> bk_has_io_interest ops b \<Longrightarrow> fst (bk_take_staged ops b) = []"

section \<open>The portable backend\<close>

record portable =
  pending_wakeups :: nat
  posted_wakeups :: nat

definition portable_new :: portable where
  "portable_new = \<lparr>pending_wakeups = 0, posted_wakeups = 0\<rparr>"

definition portable_wake :: "portable \<Rightarrow> portable" where
  "portable_wake b = b\<lparr>pending_wakeups := pending_wakeups b + 1, posted_wakeups := posted_wakeups b + 1\<rparr>"

text \<open>\<open>arrive\<close> is the number of wakeups other threads post while the condvar waits.\<close>

definition portable_poll ::
  "nat \<Rightarrow> duration option \<Rightarrow> portable \<Rightarrow> (io_error + nat) \<times> completion list \<times> portable" where
  "portable_poll arrive timeout b =
     (let b = (if pending_wakeups b = 0
               then (case timeout of
                       None \<Rightarrow> b
                     | Some t \<Rightarrow> if t = 0 then b else (portable_wake ^^ arrive) b)
               else b)
      in if pending_wakeups b > 0 then (Inr 1, [WakeupC], b\<lparr>pending_wakeups := 0\<rparr>)
         else (Inr 0, [], b))"

definition portable_unsupported :: "string \<Rightarrow> io_error + op_id" where
  "portable_unsupported what = Inl (Unsupported (what @
     '': socket I/O is not available on the portable dev backend (Windows-only feature)''))"

section \<open>Properties\<close>

lemma io_len_bounds: "io_len n \<le> n" "io_len n \<le> MAX_SEND_BYTES" "0 < n \<Longrightarrow> 0 < io_len n"
proof -
  have "min n MAX_SEND_BYTES < 2 ^ 32" by (simp add: MAX_SEND_BYTES_def min_def)
  then have e: "io_len n = min n MAX_SEND_BYTES" by (simp add: io_len_def)
  show "io_len n \<le> n" "io_len n \<le> MAX_SEND_BYTES" "0 < n \<Longrightarrow> 0 < io_len n"
    by (simp_all add: e MAX_SEND_BYTES_def)
qed

lemma gather_sum: "length xs \<le> k \<Longrightarrow> (\<forall>x\<in>set xs. x \<le> m) \<Longrightarrow> sum_list xs \<le> k * (m :: nat)"
proof -
  assume a: "length xs \<le> k" "\<forall>x\<in>set xs. x \<le> m"
  have "sum_list xs \<le> length xs * m" using a(2) by (induction xs) auto
  also have "\<dots> \<le> k * m" using a(1) by (intro mult_right_mono) auto
  finally show ?thesis .
qed

text \<open>
  A send length is never truncated to nothing, and a positive wait never becomes a spin.
  \<open>io_len\<close> of a non-empty buffer is positive and at most its length and the per-post cap; a
  positive timeout waits at least a millisecond, at most a millisecond or the timeout, and
  within one millisecond below it; zero stays zero.
\<close>

theorem lengths_and_waits:
  "(0 < n \<longrightarrow> 0 < io_len n) \<and> io_len n \<le> n \<and> io_len n \<le> MAX_SEND_BYTES \<and>
   (n \<le> MAX_SEND_BYTES \<longrightarrow> io_len n = n) \<and>
   (wait_millis t = 0 \<longleftrightarrow> t = 0) \<and> wait_millis t * NANOS_PER_MILLI \<le> max t NANOS_PER_MILLI \<and>
   t < (wait_millis t + 1) * NANOS_PER_MILLI"
proof -
  have "n \<le> MAX_SEND_BYTES \<longrightarrow> io_len n = n"
    by (auto simp: io_len_def min_def MAX_SEND_BYTES_def)
  moreover have "wait_millis t * NANOS_PER_MILLI \<le> max t NANOS_PER_MILLI \<and>
      t < (wait_millis t + 1) * NANOS_PER_MILLI"
  proof (cases "t < NANOS_PER_MILLI")
    case True
    then show ?thesis by (simp add: wait_millis_def NANOS_PER_MILLI_def)
  next
    case False
    then have "t div NANOS_PER_MILLI \<ge> 1" by (simp add: NANOS_PER_MILLI_def div_greater_zero_iff Suc_leI)
    then have "wait_millis t = t div NANOS_PER_MILLI"
      using False by (auto simp: wait_millis_def max_def NANOS_PER_MILLI_def)
    moreover have "t < (t div NANOS_PER_MILLI + 1) * NANOS_PER_MILLI"
      using dividend_less_div_times [of NANOS_PER_MILLI t] by (simp add: NANOS_PER_MILLI_def)
    moreover have "max t NANOS_PER_MILLI = t" "t div NANOS_PER_MILLI * NANOS_PER_MILLI \<le> t"
      using False by (auto simp: max_def)
    ultimately show ?thesis by (simp only:)
  qed
  moreover have "wait_millis t = 0 \<longleftrightarrow> t = 0" by (simp add: wait_millis_def)
  ultimately show ?thesis using io_len_bounds by blast
qed

theorem lengths_and_waits_witness:
  "0 < io_len (2 ^ 32) \<and> wait_millis 1500000 = 1"
proof -
  have "wait_millis 1500000 = 1" by (simp add: wait_millis_def NANOS_PER_MILLI_def)
  with lengths_and_waits [of "2 ^ 32" 1500000] show ?thesis by simp
qed

text \<open>A wakeup posted before or during a park of the portable backend ends it; posts collapse.\<close>

lemma portable_wake_pow:
  "pending_wakeups ((portable_wake ^^ n) b) = pending_wakeups b + n"
  "posted_wakeups ((portable_wake ^^ n) b) = posted_wakeups b + n"
  by (induction n) (simp_all add: portable_wake_def)

lemma portable_poll_spec:
  assumes "portable_poll arrive timeout b = (r, out, b')"
  shows "pending_wakeups b' = 0" "r = Inr (length out)" "out = [] \<or> out = [WakeupC]"
    "pending_wakeups b > 0 \<or> arrive > 0 \<and> (\<exists>t>0. timeout = Some t) \<longleftrightarrow> out = [WakeupC]"
  using assms
  by (auto simp: portable_poll_def Let_def portable_wake_pow split: if_splits option.splits)

interpretation portable: io_backend "default_ops (portable_poll arrive)" "\<lambda>_. True" "\<lambda>_. None"
  for arrive
  by unfold_locales (simp_all add: default_ops_def)

end
