(* ===== verification/Ready_Queues.thy ===== *)
theory Ready_Queues
  imports Prelude
begin

text \<open>
  The callback queues (\<open>ready.rs\<close>).  \<open>ReadyQueue\<close> is the loop thread's FIFO, a list.
  \<open>CrossThreadQueue\<close> is the handoff from other threads: a FIFO of callbacks, a FIFO of timers and
  the flag that collapses the producers' wakeups into one.  The sequential operations come first;
  the second half is the interleaved machine, in which a producer's push and its swap of the flag
  are two atomic actions, the consumer's drain is one atomic action per queue access, and the loop
  thread parks between drains.  (\<open>SegQueue\<close> operations and the flag are linearizable: the release
  sequences on the flag make every interleaving one of these.)
\<close>

section \<open>The loop thread's queue\<close>

type_synonym 'a ready_queue = "'a list"

definition rq_new :: "'a ready_queue" where
  "rq_new = []"

definition rq_push :: "'a \<Rightarrow> 'a ready_queue \<Rightarrow> 'a ready_queue" where
  "rq_push x q = q @ [x]"

definition rq_pop :: "'a ready_queue \<Rightarrow> 'a option \<times> 'a ready_queue" where
  "rq_pop q = (case q of [] \<Rightarrow> (None, []) | x # xs \<Rightarrow> (Some x, xs))"

definition rq_push_front :: "'a \<Rightarrow> 'a ready_queue \<Rightarrow> 'a ready_queue" where
  "rq_push_front x q = x # q"

text \<open>\<open>swap_with\<close>: the queue and the other, which the caller passes empty.\<close>

definition rq_swap_with :: "'a ready_queue \<Rightarrow> 'a list \<Rightarrow> 'a ready_queue \<times> 'a list" where
  "rq_swap_with q other = (other, q)"

lemmas rq_defs [op_defs] = rq_new_def rq_push_def rq_pop_def rq_push_front_def rq_swap_with_def

lemma rq_push_front_pop: "rq_pop q = (Some x, q') \<Longrightarrow> rq_push_front x q' = q"
  by (auto simp: op_defs split: list.splits)

section \<open>The cross-thread queue\<close>

record 'a xthread =
  xcalls :: "'a list"
  xtimers :: "(ticks \<times> 'a) list"
  wake_pending :: bool

definition xt_new :: "'a xthread" where
  "xt_new = \<lparr>xcalls = [], xtimers = [], wake_pending = False\<rparr>"

text \<open>\<open>!self.wake_pending.swap(true, ..)\<close>: whether the producer must wake the backend.\<close>

definition xt_announce :: "'a xthread \<Rightarrow> bool \<times> 'a xthread" where
  "xt_announce q = (\<not> wake_pending q, q\<lparr>wake_pending := True\<rparr>)"

definition xt_push :: "'a \<Rightarrow> 'a xthread \<Rightarrow> bool \<times> 'a xthread" where
  "xt_push x q = xt_announce (q\<lparr>xcalls := xcalls q @ [x]\<rparr>)"

definition xt_push_timer :: "ticks \<Rightarrow> 'a \<Rightarrow> 'a xthread \<Rightarrow> bool \<times> 'a xthread" where
  "xt_push_timer d x q = xt_announce (q\<lparr>xtimers := xtimers q @ [(d, x)]\<rparr>)"

text \<open>Pop at most \<open>n\<close> elements, stopping at the first empty pop.\<close>

fun pop_bounded :: "nat \<Rightarrow> 'b list \<Rightarrow> 'b list \<times> 'b list" where
  "pop_bounded 0 q = ([], q)"
| "pop_bounded (Suc n) [] = ([], [])"
| "pop_bounded (Suc n) (x # q) = (let (xs, rest) = pop_bounded n q in (x # xs, rest))"

lemma pop_bounded_take: "pop_bounded n q = (take n q, drop n q)"
  by (induction n q rule: pop_bounded.induct) auto

definition xt_drain_into ::
  "(ticks \<Rightarrow> 'a \<Rightarrow> 's \<Rightarrow> 's) \<Rightarrow> 'a ready_queue \<times> 's \<times> 'a xthread \<Rightarrow>
     nat \<times> 'a ready_queue \<times> 's \<times> 'a xthread" where
  "xt_drain_into schedule state =
     (let (ready, s, q) = state in
      if \<not> wake_pending q then (0, ready, s, q)
      else
        (let q = q\<lparr>wake_pending := False\<rparr>;
             (cs, crest) = pop_bounded (length (xcalls q)) (xcalls q);
             ready = fold rq_push cs ready;
             (ts, trest) =
               (if xtimers q \<noteq> [] then pop_bounded (length (xtimers q)) (xtimers q)
                else ([], xtimers q));
             s = fold (\<lambda>(d, x) s. schedule d x s) ts s
         in (length cs + length ts, ready, s, q\<lparr>xcalls := crest, xtimers := trest\<rparr>)))"

definition xt_is_empty :: "'a xthread \<Rightarrow> bool" where
  "xt_is_empty q \<longleftrightarrow> xcalls q = [] \<and> xtimers q = []"

lemma fold_rq_push [simp]: "fold rq_push xs q = q @ xs"
  by (induction xs arbitrary: q) (simp_all add: rq_push_def)

lemma xt_drain_into_pending:
  assumes "wake_pending q"
  shows "xt_drain_into schedule (ready, s, q) =
    (length (xcalls q) + length (xtimers q), ready @ xcalls q,
     fold (\<lambda>(d, x) s. schedule d x s) (xtimers q) s, xt_new)"
  using assms by (auto simp: xt_drain_into_def pop_bounded_take xt_new_def Let_def)

lemma xt_drain_into_idle:
  "\<not> wake_pending q \<Longrightarrow> xt_drain_into schedule (ready, s, q) = (0, ready, s, q)"
  by (simp add: xt_drain_into_def)

section \<open>The interleaved machine\<close>

text \<open>
  Where the loop thread is: running user code after a drain, parked in the backend, woken and
  about to drain, or at one of the queue accesses of \<open>drain_into\<close>.
\<close>

datatype consumer_pc =
    Running | Parked | Woken
  | Swapping | Bounding | Popping nat | Checking_timers | Popping_timers nat

text \<open>
  \<open>unannounced\<close> producers have pushed and not yet swapped the flag, \<open>waking\<close> ones have to post
  the wakeup; \<open>wakeups\<close> are posted and not consumed by an unpark.  The rest is history: what was
  pushed, what was drained, the wakeups ever posted and the flag's clears.
\<close>

record 'a xmachine =
  mq :: "'a xthread"
  cpc :: consumer_pc
  unannounced :: nat
  waking :: nat
  wakeups :: nat
  calls_in :: "'a list"
  calls_out :: "'a list"
  timers_in :: "(ticks \<times> 'a) list"
  timers_out :: "(ticks \<times> 'a) list"
  posted :: nat
  clears :: nat

definition xm_new :: "'a xmachine" where
  "xm_new = \<lparr>mq = xt_new, cpc = Running, unannounced = 0, waking = 0, wakeups = 0,
     calls_in = [], calls_out = [], timers_in = [], timers_out = [], posted = 0, clears = 0\<rparr>"

inductive xstep :: "'a xmachine \<Rightarrow> 'a xmachine \<Rightarrow> bool" where
  p_push: "xstep m (m\<lparr>mq := (mq m)\<lparr>xcalls := xcalls (mq m) @ [x]\<rparr>,
     calls_in := calls_in m @ [x], unannounced := Suc (unannounced m)\<rparr>)"
| p_push_timer: "xstep m (m\<lparr>mq := (mq m)\<lparr>xtimers := xtimers (mq m) @ [(d, x)]\<rparr>,
     timers_in := timers_in m @ [(d, x)], unannounced := Suc (unannounced m)\<rparr>)"
| p_announce: "unannounced m = Suc n \<Longrightarrow> xt_announce (mq m) = (wake, q) \<Longrightarrow>
     xstep m (m\<lparr>mq := q, unannounced := n, waking := waking m + of_bool wake\<rparr>)"
| p_wake: "waking m = Suc n \<Longrightarrow>
     xstep m (m\<lparr>waking := n, wakeups := Suc (wakeups m), posted := Suc (posted m)\<rparr>)"
| c_park: "cpc m = Running \<Longrightarrow> xstep m (m\<lparr>cpc := Parked\<rparr>)"
| c_unpark: "cpc m = Parked \<Longrightarrow> xstep m (m\<lparr>cpc := Woken, wakeups := 0\<rparr>)"
| c_load_clear: "cpc m = Woken \<or> cpc m = Running \<Longrightarrow> \<not> wake_pending (mq m) \<Longrightarrow>
     xstep m (m\<lparr>cpc := Running\<rparr>)"
| c_load_set: "cpc m = Woken \<or> cpc m = Running \<Longrightarrow> wake_pending (mq m) \<Longrightarrow>
     xstep m (m\<lparr>cpc := Swapping\<rparr>)"
| c_swap: "cpc m = Swapping \<Longrightarrow>
     xstep m (m\<lparr>mq := (mq m)\<lparr>wake_pending := False\<rparr>, cpc := Bounding,
       clears := Suc (clears m)\<rparr>)"
| c_bound: "cpc m = Bounding \<Longrightarrow> xstep m (m\<lparr>cpc := Popping (length (xcalls (mq m)))\<rparr>)"
| c_pop: "cpc m = Popping (Suc n) \<Longrightarrow> xcalls (mq m) = x # xs \<Longrightarrow>
     xstep m (m\<lparr>mq := (mq m)\<lparr>xcalls := xs\<rparr>, cpc := Popping n, calls_out := calls_out m @ [x]\<rparr>)"
| c_pop_empty: "cpc m = Popping (Suc n) \<Longrightarrow> xcalls (mq m) = [] \<Longrightarrow>
     xstep m (m\<lparr>cpc := Checking_timers\<rparr>)"
| c_popped: "cpc m = Popping 0 \<Longrightarrow> xstep m (m\<lparr>cpc := Checking_timers\<rparr>)"
| c_no_timers: "cpc m = Checking_timers \<Longrightarrow> xtimers (mq m) = [] \<Longrightarrow> xstep m (m\<lparr>cpc := Running\<rparr>)"
| c_timers: "cpc m = Checking_timers \<Longrightarrow> xtimers (mq m) \<noteq> [] \<Longrightarrow>
     xstep m (m\<lparr>cpc := Popping_timers (length (xtimers (mq m)))\<rparr>)"
| c_pop_timer: "cpc m = Popping_timers (Suc n) \<Longrightarrow> xtimers (mq m) = t # ts \<Longrightarrow>
     xstep m (m\<lparr>mq := (mq m)\<lparr>xtimers := ts\<rparr>, cpc := Popping_timers n,
       timers_out := timers_out m @ [t]\<rparr>)"
| c_pop_timer_empty: "cpc m = Popping_timers (Suc n) \<Longrightarrow> xtimers (mq m) = [] \<Longrightarrow>
     xstep m (m\<lparr>cpc := Running\<rparr>)"
| c_drained: "cpc m = Popping_timers 0 \<Longrightarrow> xstep m (m\<lparr>cpc := Running\<rparr>)"

definition xreach :: "'a xmachine \<Rightarrow> bool" where
  "xreach = xstep\<^sup>*\<^sup>* xm_new"

text \<open>
  Items the drain in progress will not take: everything when no drain is past its bounds,
  else what lies beyond the bound it read.
\<close>

fun calls_beyond :: "consumer_pc \<Rightarrow> 'a list \<Rightarrow> bool" where
  "calls_beyond Swapping q = False"
| "calls_beyond Bounding q = False"
| "calls_beyond (Popping n) q = (n < length q)"
| "calls_beyond _ q = (q \<noteq> [])"

fun timers_beyond :: "consumer_pc \<Rightarrow> 'b list \<Rightarrow> bool" where
  "timers_beyond Running q = (q \<noteq> [])"
| "timers_beyond Parked q = (q \<noteq> [])"
| "timers_beyond Woken q = (q \<noteq> [])"
| "timers_beyond (Popping_timers n) q = (n < length q)"
| "timers_beyond _ q = False"

definition xinv :: "'a xmachine \<Rightarrow> bool" where
  "xinv m \<longleftrightarrow>
     (calls_beyond (cpc m) (xcalls (mq m)) \<or> timers_beyond (cpc m) (xtimers (mq m)) \<longrightarrow>
        unannounced m > 0 \<or> wake_pending (mq m)) \<and>
     (wake_pending (mq m) \<longrightarrow> waking m > 0 \<or> wakeups m > 0 \<or> cpc m \<in> {Woken, Swapping}) \<and>
     (cpc m = Swapping \<longrightarrow> wake_pending (mq m)) \<and>
     posted m + waking m = clears m + of_bool (wake_pending (mq m)) \<and>
     calls_out m @ xcalls (mq m) = calls_in m \<and> timers_out m @ xtimers (mq m) = timers_in m"

lemma xinv_new: "xinv xm_new"
  by (simp add: xinv_def xm_new_def xt_new_def)

lemma xinv_step: "xstep m m' \<Longrightarrow> xinv m \<Longrightarrow> xinv m'"
proof (induction rule: xstep.induct)
  case (p_push m x)
  then show ?case by (auto simp: xinv_def)
next
  case (p_announce m n wake q)
  then show ?case by (auto simp: xinv_def xt_announce_def)
next
  case (c_load_clear m)
  then show ?case by (auto simp: xinv_def)
next
  case (c_load_set m)
  then show ?case by (auto simp: xinv_def)
qed (auto simp: xinv_def)

lemma xreach_inv: "xreach m \<Longrightarrow> xinv m"
  unfolding xreach_def
  by (induction rule: rtranclp_induct) (auto intro: xinv_new xinv_step)

text \<open>A drain that no producer interrupts is the sequential \<open>drain_into\<close>.\<close>

lemma pops_run:
  assumes "cpc m = Popping n" "n \<le> length (xcalls (mq m))"
  shows "xstep\<^sup>*\<^sup>* m (m\<lparr>mq := (mq m)\<lparr>xcalls := drop n (xcalls (mq m))\<rparr>, cpc := Checking_timers,
    calls_out := calls_out m @ take n (xcalls (mq m))\<rparr>)"
  using assms
proof (induction n arbitrary: m)
  case 0
  from c_popped [OF 0(1)] show ?case by simp
next
  case (Suc n)
  then obtain x xs where q: "xcalls (mq m) = x # xs" by (cases "xcalls (mq m)") auto
  note c_pop [OF Suc.prems(1) q]
  also have "xstep\<^sup>*\<^sup>* (m\<lparr>mq := (mq m)\<lparr>xcalls := xs\<rparr>, cpc := Popping n, calls_out := calls_out m @ [x]\<rparr>)
      (m\<lparr>mq := (mq m)\<lparr>xcalls := drop n xs\<rparr>, cpc := Checking_timers,
         calls_out := calls_out m @ x # take n xs\<rparr>)"
    using Suc.IH [of "m\<lparr>mq := (mq m)\<lparr>xcalls := xs\<rparr>, cpc := Popping n, calls_out := calls_out m @ [x]\<rparr>"]
      Suc.prems(2) q by simp
  finally show ?case using q by simp
qed

lemma timer_pops_run:
  assumes "cpc m = Popping_timers n" "n \<le> length (xtimers (mq m))"
  shows "xstep\<^sup>*\<^sup>* m (m\<lparr>mq := (mq m)\<lparr>xtimers := drop n (xtimers (mq m))\<rparr>, cpc := Running,
    timers_out := timers_out m @ take n (xtimers (mq m))\<rparr>)"
  using assms
proof (induction n arbitrary: m)
  case 0
  from c_drained [OF 0(1)] show ?case by simp
next
  case (Suc n)
  then obtain x xs where q: "xtimers (mq m) = x # xs" by (cases "xtimers (mq m)") auto
  note c_pop_timer [OF Suc.prems(1) q]
  also have "xstep\<^sup>*\<^sup>* (m\<lparr>mq := (mq m)\<lparr>xtimers := xs\<rparr>, cpc := Popping_timers n,
        timers_out := timers_out m @ [x]\<rparr>)
      (m\<lparr>mq := (mq m)\<lparr>xtimers := drop n xs\<rparr>, cpc := Running,
         timers_out := timers_out m @ x # take n xs\<rparr>)"
    using Suc.IH [of "m\<lparr>mq := (mq m)\<lparr>xtimers := xs\<rparr>, cpc := Popping_timers n,
      timers_out := timers_out m @ [x]\<rparr>"] Suc.prems(2) q by simp
  finally show ?case using q by simp
qed

lemma collect_timers [simp]: "fold (\<lambda>(d, x) s. s @ [(d, x)]) ts s = s @ ts"
  by (induction ts arbitrary: s) auto

lemma drain_pending_run:
  assumes "cpc m = Woken \<or> cpc m = Running" "wake_pending (mq m)"
  shows "xstep\<^sup>*\<^sup>* m (m\<lparr>mq := xt_new, cpc := Running, calls_out := calls_out m @ xcalls (mq m),
    timers_out := timers_out m @ xtimers (mq m), clears := Suc (clears m)\<rparr>)"
proof -
  let ?q = "(mq m)\<lparr>wake_pending := False\<rparr>"
  let ?m1 = "m\<lparr>cpc := Swapping\<rparr>"
  let ?m2 = "m\<lparr>mq := ?q, cpc := Bounding, clears := Suc (clears m)\<rparr>"
  let ?m3 = "m\<lparr>mq := ?q, cpc := Popping (length (xcalls (mq m))), clears := Suc (clears m)\<rparr>"
  let ?m4 = "m\<lparr>mq := ?q\<lparr>xcalls := []\<rparr>, cpc := Checking_timers, clears := Suc (clears m),
    calls_out := calls_out m @ xcalls (mq m)\<rparr>"
  let ?m5 = "m\<lparr>mq := xt_new, cpc := Running, clears := Suc (clears m),
    calls_out := calls_out m @ xcalls (mq m), timers_out := timers_out m @ xtimers (mq m)\<rparr>"
  have "xstep\<^sup>*\<^sup>* m m" by simp
  also have "xstep m ?m1" by (rule c_load_set [OF assms])
  also have "xstep ?m1 ?m2" using c_swap [of ?m1] by simp
  also have "xstep ?m2 ?m3" using c_bound [of ?m2] by (cases m) simp
  also have "xstep\<^sup>*\<^sup>* ?m3 ?m4" using pops_run [of ?m3] by (cases m) simp
  also have "xstep\<^sup>*\<^sup>* ?m4 ?m5"
  proof (cases "xtimers (mq m)")
    case Nil
    then have q: "?q\<lparr>xcalls := []\<rparr> = xt_new" by (simp add: xt_new_def)
    have "xstep ?m4 (?m4\<lparr>cpc := Running\<rparr>)" using Nil by (intro c_no_timers) simp_all
    also have "?m4\<lparr>cpc := Running\<rparr> = ?m5" using Nil q by (cases m) simp
    finally show ?thesis by (rule r_into_rtranclp)
  next
    case (Cons t ts)
    let ?m = "m\<lparr>mq := ?q\<lparr>xcalls := []\<rparr>, cpc := Popping_timers (length (xtimers (mq m))),
      clears := Suc (clears m), calls_out := calls_out m @ xcalls (mq m)\<rparr>"
    have "xstep\<^sup>*\<^sup>* ?m4 ?m4" by simp
    also have "xstep ?m4 ?m" using c_timers [of ?m4] Cons by (cases m) simp
    also have "xstep\<^sup>*\<^sup>* ?m ?m5" using timer_pops_run [of ?m] by (cases m, cases "mq m") (simp add: xt_new_def)
    finally show ?thesis .
  qed
  finally show ?thesis by (cases m) simp
qed

section \<open>Properties\<close>

text \<open>
  C28: no wakeup is lost.  In every interleaving of producers and the loop thread, if the loop
  is parked while a callback or a timer sits in the queue and no producer is still between its
  push and its wakeup, then a wakeup has been posted that the park has not consumed.
\<close>

theorem no_lost_wakeup:
  assumes "xreach m" "cpc m = Parked" "\<not> xt_is_empty (mq m)" "unannounced m = 0" "waking m = 0"
  shows "wakeups m > 0"
  using xreach_inv [OF assms(1)] assms(2-) by (auto simp: xinv_def xt_is_empty_def)

definition parked_with_work :: "nat xmachine" where
  "parked_with_work = xm_new\<lparr>mq := \<lparr>xcalls = [7], xtimers = [], wake_pending = True\<rparr>, cpc := Parked,
     wakeups := 1, calls_in := [7], posted := 1\<rparr>"

lemma xreach_parked: "xreach parked_with_work"
proof -
  let ?m1 = "xm_new\<lparr>cpc := Parked\<rparr> :: nat xmachine"
  let ?m2 = "?m1\<lparr>mq := xt_new\<lparr>xcalls := [7]\<rparr>, calls_in := [7], unannounced := 1\<rparr>"
  let ?m3 = "?m2\<lparr>mq := \<lparr>xcalls = [7], xtimers = [], wake_pending = True\<rparr>, unannounced := 0,
    waking := 1\<rparr>"
  have "xstep\<^sup>*\<^sup>* xm_new (xm_new :: nat xmachine)" by simp
  also have "xstep xm_new ?m1" using c_park [of xm_new] by (simp add: xm_new_def)
  also have "xstep ?m1 ?m2" using p_push [of ?m1 7] by (simp add: xm_new_def xt_new_def)
  also have "xstep ?m2 ?m3"
    using p_announce [of ?m2 0] by (simp add: xm_new_def xt_new_def xt_announce_def)
  also have "xstep ?m3 parked_with_work"
    using p_wake [of ?m3 0] by (simp add: xm_new_def parked_with_work_def)
  finally show ?thesis by (simp add: xreach_def)
qed

theorem no_lost_wakeup_witness: "wakeups parked_with_work > 0"
  by (rule no_lost_wakeup [OF xreach_parked])
    (simp_all add: parked_with_work_def xm_new_def xt_is_empty_def)

text \<open>
  C29: the handoff loses, duplicates and reorders nothing, and the flag collapses wakeups: in
  every reachable state the callbacks pushed are those drained followed by those queued, in
  order, likewise the timers, and at most one wakeup was posted per drain that cleared the
  flag, plus one.
\<close>

theorem handoff_fifo:
  assumes "xreach m"
  shows "calls_in m = calls_out m @ xcalls (mq m) \<and> timers_in m = timers_out m @ xtimers (mq m) \<and>
    posted m \<le> clears m + 1"
  using xreach_inv [OF assms] by (cases "wake_pending (mq m)") (simp_all add: xinv_def)

theorem handoff_fifo_witness: "posted parked_with_work \<le> clears parked_with_work + 1"
  using handoff_fifo [OF xreach_parked] by simp

text \<open>
  Run without interruption, the queue accesses of a drain compute the sequential
  \<open>drain_into\<close>: the same callbacks moved to the ready queue, the same timers scheduled, in
  order, and the flag clear.
\<close>

theorem drain_refines:
  assumes "cpc m = Woken \<or> cpc m = Running"
    and "xt_drain_into (\<lambda>d x s. s @ [(d, x)]) (calls_out m, timers_out m, mq m) = (n, ready, ts, q)"
  shows "\<exists>m'. xstep\<^sup>*\<^sup>* m m' \<and> cpc m' = Running \<and> mq m' = q \<and> calls_out m' = ready \<and>
    timers_out m' = ts \<and> n = length ready + length ts - length (calls_out m) - length (timers_out m)"
proof (cases "wake_pending (mq m)")
  case True
  show ?thesis
    by (rule exI, rule conjI, rule drain_pending_run [OF assms(1) True])
      (use assms(2) True in \<open>auto simp: xt_drain_into_pending\<close>)
next
  case False
  from r_into_rtranclp [of xstep, OF c_load_clear [OF assms(1) False]] False assms(2) show ?thesis
    by (intro exI conjI) (auto simp: xt_drain_into_idle)
qed

theorem drain_refines_witness:
  "\<exists>m'. xstep\<^sup>*\<^sup>* (parked_with_work\<lparr>cpc := Woken\<rparr>) m' \<and> cpc m' = Running \<and> calls_out m' = [7]"
proof -
  have "xt_drain_into (\<lambda>d x s. s @ [(d, x)]) ([], [], mq (parked_with_work\<lparr>cpc := Woken\<rparr>)) =
      (1, [7], [], xt_new)"
    by code_simp
  then have e: "xt_drain_into (\<lambda>d x s. s @ [(d, x)]) (calls_out (parked_with_work\<lparr>cpc := Woken\<rparr>),
      timers_out (parked_with_work\<lparr>cpc := Woken\<rparr>), mq (parked_with_work\<lparr>cpc := Woken\<rparr>)) =
      (1, [7], [], xt_new)"
    by (simp add: parked_with_work_def xm_new_def)
  from drain_refines [OF _ e] show ?thesis by auto
qed

end
