(* ===== verification/Spin_Gate.thy ===== *)
theory Spin_Gate
  imports Prelude
begin

text \<open>
  Adaptive spin-then-park (\<open>spin_gate.rs\<close>): the credit that decides whether a park spins first.
  Both fields are \<open>u8\<close>; the invariant shows that neither addition wraps.
\<close>

definition HIT_CREDIT :: u8 where
  "HIT_CREDIT = 3"

definition MAX_CREDIT :: u8 where
  "MAX_CREDIT = 12"

definition PROBE_EVERY :: u8 where
  "PROBE_EVERY = 8"

lemmas gate_consts = HIT_CREDIT_def MAX_CREDIT_def PROBE_EVERY_def

record spin_gate =
  credit :: u8
  since_probe :: u8

definition gate_new :: spin_gate where
  "gate_new = \<lparr>credit = MAX_CREDIT, since_probe = 0\<rparr>"

definition should_spin :: "spin_gate \<Rightarrow> bool \<times> spin_gate" where
  "should_spin g =
     (if credit g > 0 \<or> since_probe g + 1 \<ge> PROBE_EVERY then (True, g)
      else (False, g\<lparr>since_probe := since_probe g + 1\<rparr>))"

definition gate_record :: "bool \<Rightarrow> spin_gate \<Rightarrow> spin_gate" where
  "gate_record hit g =
     g\<lparr>since_probe := 0,
       credit := (if hit then min (credit g + HIT_CREDIT) MAX_CREDIT
                  else word_saturating_sub (credit g) 1)\<rparr>"

definition gate_ok :: "spin_gate \<Rightarrow> bool" where
  "gate_ok g \<longleftrightarrow> credit g \<le> MAX_CREDIT \<and> since_probe g < PROBE_EVERY"

lemma gate_ok_nat: "gate_ok g \<longleftrightarrow> unat (credit g) \<le> 12 \<and> unat (since_probe g) < 8"
  by (simp add: gate_ok_def gate_consts word_le_nat_alt word_less_nat_alt)

lemma gate_ok_new: "gate_ok gate_new"
  by (simp add: gate_ok_def gate_new_def gate_consts)

text \<open>The operations over natural numbers, once the fields are known not to wrap.\<close>

lemma unat_plus_small:
  fixes a :: u8
  assumes "unat a + unat b < 256"
  shows "unat (a + b) = unat a + unat b"
  using assms by (simp add: unat_plus_if')

lemma record_hit:
  assumes "gate_ok g"
  shows "unat (credit (gate_record True g)) = min (unat (credit g) + 3) 12"
proof -
  have "unat (credit g + 3) = unat (credit g) + 3"
    using assms unat_plus_small [of "credit g" 3] by (simp add: gate_ok_nat)
  then show ?thesis by (simp add: gate_record_def gate_consts min_def word_le_nat_alt)
qed

lemma record_miss: "unat (credit (gate_record False g)) = unat (credit g) - 1"
  by (simp add: gate_record_def)

lemma since_probe_record [simp]: "since_probe (gate_record hit g) = 0"
  by (simp add: gate_record_def)

lemma should_spin_nat:
  assumes "gate_ok g"
  shows "should_spin g =
    (if unat (credit g) > 0 \<or> unat (since_probe g) = 7 then (True, g)
     else (False, g\<lparr>since_probe := since_probe g + 1\<rparr>))"
    and "unat (credit g) = 0 \<Longrightarrow> unat (since_probe g) \<noteq> 7 \<Longrightarrow>
      unat (since_probe g + 1) = Suc (unat (since_probe g))"
proof -
  have "unat (since_probe g + 1) = Suc (unat (since_probe g))"
    using assms unat_plus_small [of "since_probe g" 1] by (simp add: gate_ok_nat)
  with assms show "should_spin g =
    (if unat (credit g) > 0 \<or> unat (since_probe g) = 7 then (True, g)
     else (False, g\<lparr>since_probe := since_probe g + 1\<rparr>))"
    by (auto simp: should_spin_def gate_consts gate_ok_nat word_less_nat_alt word_le_nat_alt)
  show "unat (since_probe g + 1) = Suc (unat (since_probe g))" by fact
qed

lemma gate_ok_record [inv_keep]: "gate_ok g \<Longrightarrow> gate_ok (gate_record hit g)"
  using record_hit [of g] record_miss [of g] by (cases hit) (auto simp: gate_ok_nat)

lemma gate_ok_should_spin [inv_keep]:
  assumes "gate_ok g"
  shows "gate_ok (snd (should_spin g))"
  using assms should_spin_nat(2) [OF assms] by (auto simp: should_spin_nat(1) [OF assms] gate_ok_nat)

section \<open>Runs of parks\<close>

text \<open>
  What a spin that was made found: work that arrived, nothing in its whole window, or an early
  end that is not recorded (work already waiting, or a due timer).
\<close>

datatype spin_outcome = Hit | Miss | Unrecorded

text \<open>One park: whether it spun, and the gate after it.\<close>

definition gate_park :: "spin_outcome \<Rightarrow> spin_gate \<Rightarrow> bool \<times> spin_gate" where
  "gate_park out g =
     (let (spin, g) = should_spin g
      in (spin, if spin then (case out of Hit \<Rightarrow> gate_record True g
                                | Miss \<Rightarrow> gate_record False g
                                | Unrecorded \<Rightarrow> g)
                else g))"

fun gate_parks :: "spin_outcome list \<Rightarrow> spin_gate \<Rightarrow> bool list \<times> spin_gate" where
  "gate_parks [] g = ([], g)"
| "gate_parks (out # outs) g =
     (let (spin, g) = gate_park out g; (spins, g) = gate_parks outs g in (spin # spins, g))"

lemma gate_ok_park [inv_keep]: "gate_ok g \<Longrightarrow> gate_ok (snd (gate_park out g))"
  using gate_ok_should_spin [of g]
  by (auto simp: gate_park_def split_beta Let_def intro: gate_ok_record split: spin_outcome.split)

lemma gate_parks_ok: "gate_ok g \<Longrightarrow> gate_ok (snd (gate_parks outs g))"
  by (induction outs arbitrary: g) (auto simp: split_beta Let_def dest: gate_ok_park)

lemma length_gate_parks [simp]: "length (fst (gate_parks outs g)) = length outs"
  by (induction outs arbitrary: g) (auto simp: split_beta Let_def)

text \<open>The outcomes the gate recorded over a run: those of the parks that spun.\<close>

definition recorded :: "spin_outcome list \<Rightarrow> spin_gate \<Rightarrow> bool list" where
  "recorded outs g = concat (map (\<lambda>(out, spin). if spin \<and> out \<noteq> Unrecorded then [out = Hit] else [])
     (zip outs (fst (gate_parks outs g))))"

lemma recorded_Nil [simp]: "recorded [] g = []"
  by (simp add: recorded_def)

lemma recorded_Cons:
  "recorded (out # outs) g =
    (if fst (gate_park out g) \<and> out \<noteq> Unrecorded then [out = Hit] else []) @
    recorded outs (snd (gate_park out g))"
  by (simp add: recorded_def split_beta Let_def)

text \<open>Only what is recorded moves the credit.\<close>

lemma credit_recorded:
  "credit (snd (gate_parks outs g)) = credit (fold gate_record (recorded outs g) g)"
proof -
  have c: "credit (gate_record hit x) = credit (gate_record hit y)" if "credit x = credit y" for hit x y
    using that by (simp add: gate_record_def)
  have cf: "credit (fold gate_record hs x) = credit (fold gate_record hs y)"
    if "credit x = credit y" for hs x y
    using that
  proof (induction hs arbitrary: x y)
    case (Cons h hs)
    from Cons.IH [OF c [OF Cons.prems]] show ?case by simp
  qed simp
  have step: "credit (snd (gate_park out g)) =
      credit (fold gate_record (if fst (gate_park out g) \<and> out \<noteq> Unrecorded then [out = Hit] else []) g)"
    for out g
    by (auto simp: gate_park_def should_spin_def Let_def gate_record_def split: spin_outcome.split)
  show ?thesis
  proof (induction outs arbitrary: g)
    case (Cons out outs)
    let ?g = "snd (gate_park out g)"
    have "credit (snd (gate_parks (out # outs) g)) = credit (fold gate_record (recorded outs ?g) ?g)"
      using Cons.IH [of ?g] by (simp add: split_beta Let_def)
    also have "\<dots> = credit (fold gate_record (recorded (out # outs) g) g)"
      unfolding recorded_Cons fold_append comp_apply by (rule cf [OF step])
    finally show ?case .
  qed simp
qed

lemma credit_suffix:
  assumes "gate_ok g" "unat (credit g) = 12"
  shows "\<exists>xs ys. hs = xs @ ys \<and>
    12 + 3 * count_list ys True \<le> unat (credit (fold gate_record hs g)) + count_list ys False"
proof -
  have "gate_ok (fold gate_record hs g) \<and> (\<exists>xs ys. hs = xs @ ys \<and>
    12 + 3 * count_list ys True \<le> unat (credit (fold gate_record hs g)) + count_list ys False)"
  proof (induction hs rule: rev_induct)
    case Nil
    with assms show ?case by simp
  next
    case (snoc h hs)
    let ?g = "fold gate_record hs g"
    from snoc obtain xs ys where hs: "hs = xs @ ys" and ok: "gate_ok ?g"
      and c: "12 + 3 * count_list ys True \<le> unat (credit ?g) + count_list ys False" by blast
    have ex: "\<exists>xs ys. hs @ [h] = xs @ ys \<and>
        12 + 3 * count_list ys True \<le> unat (credit (gate_record h ?g)) + count_list ys False"
    proof (cases "h \<and> unat (credit ?g) + 3 > 12")
      case True
      with record_hit [OF ok] show ?thesis by (intro exI [of _ "hs @ [h]"] exI [of _ "[]"]) simp
    next
      case False
      with c hs record_hit [OF ok] record_miss [of ?g] show ?thesis
        by (intro exI [of _ xs] exI [of _ "ys @ [h]"]) (cases h, simp_all)
    qed
    have "fold gate_record (hs @ [h]) g = gate_record h ?g" by simp
    with gate_ok_record [OF ok, of h] ex show ?case by (simp only: simp_thms)
  qed
  then show ?thesis by blast
qed

section \<open>Properties\<close>

text \<open>
  The gate's arithmetic never wraps: from a new gate, over any sequence of parks and
  whatever their spins find, the credit stays at most 12 and the probe counter below 8, and
  when the gate ends shut (credit 0) the spins it recorded since some point missed at least
  12 times more than three times as often as they hit.
\<close>

theorem gate_shuts_on_misses:
  assumes "gate_parks outs gate_new = (spins, g)"
  shows "gate_ok g \<and> (credit g = 0 \<longrightarrow> (\<exists>xs ys. recorded outs gate_new = xs @ ys \<and>
    12 + 3 * count_list ys True \<le> count_list ys False))"
proof -
  have "gate_ok g" using gate_parks_ok [OF gate_ok_new, of outs] assms by simp
  moreover have "unat (credit gate_new) = 12" by (simp add: gate_new_def gate_consts)
  moreover have "credit g = credit (fold gate_record (recorded outs gate_new) gate_new)"
    using credit_recorded [of outs gate_new] assms by simp
  ultimately show ?thesis
    using credit_suffix [OF gate_ok_new, of "recorded outs gate_new"]
    by (metis add_0 unsigned_0)
qed

theorem gate_shuts_on_misses_witness:
  "credit (snd (gate_parks (replicate 12 Miss) gate_new)) = 0 \<and>
   (\<exists>xs ys. recorded (replicate 12 Miss) gate_new = xs @ ys \<and>
    12 + 3 * count_list ys True \<le> count_list ys False)"
proof -
  have z: "credit (snd (gate_parks (replicate 12 Miss) gate_new)) = 0" by code_simp
  from gate_shuts_on_misses [OF prod.collapse [symmetric], of "replicate 12 Miss"] z
  show ?thesis by blast
qed

lemma spins_when_missing:
  assumes "gate_ok g"
  shows "8 * length (filter id (fst (gate_parks (replicate n Miss) g))) \<le>
    7 * unat (credit g) + n + unat (since_probe g)"
  using assms
proof (induction n arbitrary: g)
  case (Suc n)
  let ?g = "snd (gate_park Miss g)"
  note ok = gate_ok_park [OF Suc.prems, of Miss]
  note IH = Suc.IH [OF ok]
  consider (spin) "unat (credit g) > 0 \<or> unat (since_probe g) = 7"
    | (park) "unat (credit g) = 0" "unat (since_probe g) \<noteq> 7" by auto
  then show ?case
  proof cases
    case spin
    then have p: "gate_park Miss g = (True, gate_record False g)"
      using should_spin_nat(1) [OF Suc.prems] by (auto simp: gate_park_def)
    with IH record_miss [of g] spin show ?thesis by (auto simp: split_beta Let_def)
  next
    case park
    then have p: "gate_park Miss g = (False, g\<lparr>since_probe := since_probe g + 1\<rparr>)"
      using should_spin_nat(1) [OF Suc.prems] by (auto simp: gate_park_def)
    with IH should_spin_nat(2) [OF Suc.prems park] park show ?thesis
      by (auto simp: split_beta Let_def)
  qed
qed simp

text \<open>
  What a quiet loop pays: if every spin misses, at most \<open>(n + 91) / 8\<close> of the next \<open>n\<close>
  parks spin (the credit, then one probe in eight), from any state the gate can be in.
\<close>

theorem quiet_gate_bound:
  assumes "gate_ok g"
  shows "length (filter id (fst (gate_parks (replicate n Miss) g))) \<le> (n + 91) div 8"
proof -
  have "8 * length (filter id (fst (gate_parks (replicate n Miss) g))) \<le> n + 91"
    using spins_when_missing [OF assms, of n] assms by (simp add: gate_ok_nat)
  then show ?thesis by linarith
qed

theorem quiet_gate_bound_witness:
  "length (filter id (fst (gate_parks (replicate 100 Miss) gate_new))) \<le> 23"
  using quiet_gate_bound [OF gate_ok_new, of 100] by simp

end
