(* ===== verification/Clock.thy ===== *)
theory Clock
  imports Prelude
begin

text \<open>
  The loop clock (\<open>time.rs\<close>): a platform reading plus a signed offset, saturating, and one
  reading cached per tick, taken on the tick's first use.  A platform reading
  (\<open>clock_gettime\<close>, or \<open>Instant\<close> elsewhere) is an argument of every operation that
  makes one.  The conversions between ticks and float seconds are not modelled.
\<close>

text \<open>\<open>raw_now\<close> on Linux, from the \<open>timespec\<close> the kernel filled.\<close>

definition raw_now :: "int \<Rightarrow> int \<Rightarrow> ticks" where
  "raw_now tv_sec tv_nsec = word_of_int tv_sec * 1000000000 + word_of_int tv_nsec"

text \<open>\<open>u64::saturating_add_signed\<close>, the offset an \<open>i64\<close>.\<close>

definition saturating_add_signed :: "u64 \<Rightarrow> 64 word \<Rightarrow> u64" where
  "saturating_add_signed t k = word_of_int (max 0 (min (2 ^ 64 - 1) (uint t + sint k)))"

record clock =
  offset :: "64 word"
  cached_ticks :: ticks
  stale :: bool

definition clock_now :: "ticks \<Rightarrow> clock \<Rightarrow> ticks" where
  "clock_now raw c = saturating_add_signed raw (offset c)"

definition clock_refresh :: "ticks \<Rightarrow> clock \<Rightarrow> ticks \<times> clock" where
  "clock_refresh raw c =
     (let t = clock_now raw c in (t, c\<lparr>cached_ticks := t, stale := False\<rparr>))"

definition clock_with_offset :: "ticks \<Rightarrow> 64 word \<Rightarrow> clock" where
  "clock_with_offset raw k =
     snd (clock_refresh raw \<lparr>offset = k, cached_ticks = 0, stale = True\<rparr>)"

definition clock_new :: "ticks \<Rightarrow> clock" where
  "clock_new raw = clock_with_offset raw 0"

definition clock_invalidate :: "clock \<Rightarrow> clock" where
  "clock_invalidate c = c\<lparr>stale := True\<rparr>"

text \<open>The platform is read only when the cached reading is stale.\<close>

definition clock_cached :: "ticks \<Rightarrow> clock \<Rightarrow> ticks \<times> clock" where
  "clock_cached raw c = (if stale c then clock_refresh raw c else (cached_ticks c, c))"

lemmas clock_defs [op_defs] =
  clock_now_def clock_refresh_def clock_with_offset_def clock_new_def clock_invalidate_def
  clock_cached_def

lemma uint_saturating_add_signed:
  "uint (saturating_add_signed t k) = max 0 (min (2 ^ 64 - 1) (uint t + sint k))"
proof -
  have "uint (word_of_int x :: u64) = x" if "0 \<le> x" "x < 2 ^ 64" for x
    using that by (simp add: uint_word_of_int)
  then show ?thesis by (simp add: saturating_add_signed_def)
qed

lemma saturating_add_signed_mono:
  "t \<le> u \<Longrightarrow> saturating_add_signed t k \<le> saturating_add_signed u k"
  unfolding word_le_def uint_saturating_add_signed by linarith

lemma saturating_add_signed_0: "saturating_add_signed t 0 = t"
proof -
  have "uint t < 2 ^ LENGTH(64)" by (rule uint_lt2p)
  then have "uint (saturating_add_signed t 0) = uint t" by (simp add: uint_saturating_add_signed)
  then show ?thesis by (simp only: word_uint_eq_iff)
qed

lemma raw_now_exact:
  assumes "0 \<le> s" "0 \<le> n" "s * 1000000000 + n < 2 ^ 64"
  shows "uint (raw_now s n) = s * 1000000000 + n"
proof -
  have "raw_now s n = word_of_int (s * 1000000000 + n)"
    by (simp add: raw_now_def wi_hom_syms)
  moreover have "uint (word_of_int (s * 1000000000 + n) :: ticks) = s * 1000000000 + n"
    using assms unfolding uint_word_of_int by (intro mod_pos_pos_trivial) simp_all
  ultimately show ?thesis by (simp only:)
qed

section \<open>A tick of readings\<close>

text \<open>The reactor's uses of the clock, with the platform reading each one would take.\<close>

datatype clock_use = Now ticks | Refresh ticks | Invalidate | Cached ticks

fun clock_run :: "clock_use list \<Rightarrow> clock \<Rightarrow> ticks list \<times> clock" where
  "clock_run [] c = ([], c)"
| "clock_run (Now r # us) c = (let (ts, c) = clock_run us c in (clock_now r c # ts, c))"
| "clock_run (Refresh r # us) c =
     (let (t, c) = clock_refresh r c; (ts, c) = clock_run us c in (t # ts, c))"
| "clock_run (Invalidate # us) c = clock_run us (clock_invalidate c)"
| "clock_run (Cached r # us) c =
     (let (t, c) = clock_cached r c; (ts, c) = clock_run us c in (t # ts, c))"

lemma offset_cached [simp]: "offset (snd (clock_cached r c)) = offset c"
  by (simp add: op_defs Let_def)

lemma stale_cached [simp]: "\<not> stale (snd (clock_cached r c))"
  by (simp add: op_defs Let_def)

lemma clock_cached_fresh: "\<not> stale c \<Longrightarrow> clock_cached r c = (cached_ticks c, c)"
  by (simp add: clock_cached_def)

lemma clock_run_cached:
  "\<not> stale c \<Longrightarrow> clock_run (map Cached rs) c = (replicate (length rs) (cached_ticks c), c)"
  by (induction rs) (auto simp: clock_cached_fresh)

section \<open>Properties\<close>

text \<open>
  One reading per tick.  However often a tick asks for its time after the last
  invalidation, and whatever the platform clock reads by then, it gets one value: the reading
  of the first use, offset and saturated, which no later reading of a monotonic platform
  clock precedes.
\<close>

theorem tick_time_frozen:
  assumes "\<forall>x\<in>set rs. r \<le> x"
  shows "fst (clock_run (Invalidate # map Cached (r # rs)) c) =
      replicate (Suc (length rs)) (clock_now r c) \<and>
    (\<forall>x\<in>set rs. clock_now r c \<le> clock_now x (snd (clock_run (Invalidate # map Cached (r # rs)) c)))"
proof -
  have c: "clock_cached r (clock_invalidate c) =
      (clock_now r c, c\<lparr>cached_ticks := clock_now r c, stale := False\<rparr>)"
    by (simp add: op_defs Let_def)
  have "clock_run (Invalidate # map Cached (r # rs)) c =
      (replicate (Suc (length rs)) (clock_now r c), c\<lparr>cached_ticks := clock_now r c, stale := False\<rparr>)"
    by (simp add: c clock_run_cached)
  with assms show ?thesis by (auto simp: clock_now_def intro: saturating_add_signed_mono)
qed

theorem tick_time_frozen_witness:
  "fst (clock_run (Invalidate # map Cached [5, 6, 9]) (clock_new 1)) = [5, 5, 5]"
  using tick_time_frozen [of "[6, 9]" 5 "clock_new 1"]
  by (simp add: clock_now_def clock_new_def clock_with_offset_def clock_refresh_def Let_def
      saturating_add_signed_0)

end
