(* ===== verification/Reactor.thy ===== *)
theory Reactor
  imports Backend Timer_Lifecycle Ready_Queues Spin_Gate Clock
begin

text \<open>
  The reactor (\<open>reactor.rs\<close>): one tick's clock, timers, ready queue, cross-thread drain and backend
  poll, in the order the binding layer calls them.  A token is the timer payload type \<open>'a\<close>; the
  handles' cancellation flags and the shared cancel counter are the store of \<open>Handles\<close>.  What the
  platform answers during an operation is an argument: a clock reading \<open>raw\<close>, and for a poll the
  elapsed times of the spin and the cross-thread queue as the producers leave it.  Buffer
  capacities (\<open>take_spare\<close>, \<open>put_spare\<close>) are not modelled.
\<close>

definition MAX_PARK :: duration where
  "MAX_PARK = 100 * 1000000"

definition POLL_SKIP_NS :: ticks where
  "POLL_SKIP_NS = 250000"

record reactor_config =
  spin_us :: nat
  adaptive_spin :: bool

definition default_reactor_config :: reactor_config where
  "default_reactor_config = \<lparr>spin_us = 20, adaptive_spin = False\<rparr>"

record stats =
  st_ticks :: nat
  st_completions :: nat
  st_dispatched :: nat
  st_timers_fired :: nat
  st_xthread :: nat
  st_spins :: nat
  st_spin_hits :: nat
  st_elided :: nat
  st_polls :: nat
  st_precise :: nat

definition stats_new :: stats where
  "stats_new = \<lparr>st_ticks = 0, st_completions = 0, st_dispatched = 0, st_timers_fired = 0,
     st_xthread = 0, st_spins = 0, st_spin_hits = 0, st_elided = 0, st_polls = 0, st_precise = 0\<rparr>"

record ('a, 'b) reactor =
  rclock :: clock
  rtimers :: "'a timer_heap"
  rstore :: "'a hstore"
  rready :: "'a ready_queue"
  rxthread :: "'a xthread"
  rbackend :: 'b
  rcompletions :: "completion list"
  rstats :: stats
  rcfg :: reactor_config
  batch_left :: nat
  last_poll_ns :: ticks
  ready_snapshot :: nat
  expired :: "'a list"
  deadline_bound :: bool
  rgate :: spin_gate

definition reactor_new ::
  "reactor_config \<Rightarrow> 'b \<Rightarrow> ticks \<Rightarrow> 64 word \<Rightarrow> 'a hstore \<Rightarrow> ('a, 'b) reactor" where
  "reactor_new cfg b raw k st = \<lparr>rclock = clock_with_offset raw k, rtimers = heap_new, rstore = st,
     rready = rq_new, rxthread = xt_new, rbackend = b, rcompletions = [], rstats = stats_new,
     rcfg = cfg, batch_left = 0, last_poll_ns = 0, ready_snapshot = 0, expired = [],
     deadline_bound = False, rgate = gate_new\<rparr>"

definition set_timers :: "'a timer_heap \<times> 'a hstore \<Rightarrow> ('a, 'b) reactor \<Rightarrow> ('a, 'b) reactor" where
  "set_timers s r = r\<lparr>rtimers := fst s, rstore := snd s\<rparr>"

definition bump :: "(stats \<Rightarrow> stats) \<Rightarrow> ('a, 'b) reactor \<Rightarrow> ('a, 'b) reactor" where
  "bump f r = r\<lparr>rstats := f (rstats r)\<rparr>"

section \<open>Scheduling\<close>

definition push_ready :: "'a \<Rightarrow> ('a, 'b) reactor \<Rightarrow> ('a, 'b) reactor" where
  "push_ready t r = r\<lparr>rready := rq_push t (rready r)\<rparr>"

definition unpop_ready :: "'a \<Rightarrow> ('a, 'b) reactor \<Rightarrow> ('a, 'b) reactor" where
  "unpop_ready t r = bump (\<lambda>s. s\<lparr>st_dispatched := st_dispatched s - 1\<rparr>)
     (r\<lparr>rready := rq_push_front t (rready r), batch_left := batch_left r + 1\<rparr>)"

definition unpop_expired :: "'a \<Rightarrow> ('a, 'b) reactor \<Rightarrow> ('a, 'b) reactor" where
  "unpop_expired t r = r\<lparr>expired := t # expired r\<rparr>"

definition r_schedule_timer :: "ticks \<Rightarrow> 'a \<Rightarrow> ('a, 'b) reactor \<Rightarrow> ('a, 'b) reactor" where
  "r_schedule_timer d t r = r\<lparr>rtimers := schedule d t (rtimers r)\<rparr>"

definition r_take_graveyard :: "('a, 'b) reactor \<Rightarrow> 'a list \<times> ('a, 'b) reactor" where
  "r_take_graveyard r = (let (ps, h) = take_graveyard (rtimers r) in (ps, r\<lparr>rtimers := h\<rparr>))"

section \<open>The tick\<close>

definition snapshot_batch :: "('a, 'b) reactor \<Rightarrow> ('a, 'b) reactor" where
  "snapshot_batch r = r\<lparr>ready_snapshot := length (rready r), batch_left := length (rready r)\<rparr>"

definition absorb_into_batch :: "('a, 'b) reactor \<Rightarrow> ('a, 'b) reactor" where
  "absorb_into_batch r = snapshot_batch r"

definition r_absorb_cancellations :: "('a, 'b) reactor \<Rightarrow> ('a, 'b) reactor" where
  "r_absorb_cancellations r = set_timers (absorb_cancellations (rtimers r, rstore r)) r"

definition drain_xthread :: "('a, 'b) reactor \<Rightarrow> ('a, 'b) reactor" where
  "drain_xthread r =
     (let (n, ready, h, q) = xt_drain_into schedule (rready r, rtimers r, rxthread r)
      in bump (\<lambda>s. s\<lparr>st_xthread := st_xthread s + n\<rparr>)
           (r\<lparr>rready := ready, rtimers := h, rxthread := q\<rparr>))"

lemma length_bury [simp]: "entries (bury p h) = entries h"
  by (simp add: bury_def)

lemma pop_expired_shrinks:
  "pop_expired now (h, st) = (Some p, s') \<Longrightarrow> length (entries (fst s')) < length (entries h)"
proof (induction "now" "(h, st)" arbitrary: h st rule: pop_expired.induct)
  case (1 now h st)
  show ?case
  proof (cases "entries h")
    case Nil
    with 1(2) show ?thesis by (simp add: pop_expired.simps)
  next
    case (Cons e es)
    obtain q h' st' where r: "remove_top (h, st) = (q, h', st')" by (cases "remove_top (h, st)") auto
    have len: "length (entries h') < length (entries h)"
      using r length_pop_top [of "entries h"] Cons by (auto simp: remove_top_def split_beta)
    show ?thesis
    proof (cases "deadline e > now \<or> \<not> is_cancelled q st'")
      case True
      with 1(2) Cons r len show ?thesis by (auto simp: pop_expired.simps split: if_splits)
    next
      case False
      with 1(2) Cons r have "pop_expired now (bury q h', st') = (Some p, s')"
        by (simp add: pop_expired.simps)
      from "1.hyps" [OF Cons _ r [symmetric] refl refl _ this] False len show ?thesis by simp
    qed
  qed
qed

function fire_loop ::
  "ticks \<Rightarrow> 'a timer_heap \<times> 'a hstore \<Rightarrow> 'a list \<Rightarrow> nat \<Rightarrow> ('a timer_heap \<times> 'a hstore) \<times> 'a list \<times> nat" where
  "fire_loop now s exp n =
     (case pop_expired now s of
        (Some t, s') \<Rightarrow> fire_loop now s' (exp @ [t]) (n + 1)
      | (None, s') \<Rightarrow> (s', exp, n))"
  by pat_completeness auto
termination
  by (relation "measure (\<lambda>(now, s, exp, n). length (entries (fst s)))")
    (auto dest!: pop_expired_shrinks [OF sym])

declare fire_loop.simps [simp del]

definition fire_expired_timers :: "ticks \<Rightarrow> ('a, 'b) reactor \<Rightarrow> ('a, 'b) reactor" where
  "fire_expired_timers raw r =
     (case peek_deadline (rtimers r) of
        None \<Rightarrow> r
      | Some first \<Rightarrow>
          (let (now, c) = clock_cached raw (rclock r); r = r\<lparr>rclock := c\<rparr>
           in if first > now then r
              else (let (s, exp, n) = fire_loop now (rtimers r, rstore r) (expired r) 0
                    in bump (\<lambda>s. s\<lparr>st_timers_fired := st_timers_fired s + n\<rparr>)
                         (set_timers s (r\<lparr>expired := exp\<rparr>)))))"

definition prepare_tick :: "ticks \<Rightarrow> ('a, 'b) reactor \<Rightarrow> ('a, 'b) reactor" where
  "prepare_tick raw r =
     (let r = bump (\<lambda>s. s\<lparr>st_ticks := st_ticks s + 1\<rparr>) r;
          r = r\<lparr>rclock := clock_invalidate (rclock r)\<rparr>;
          r = r_absorb_cancellations r;
          r = drain_xthread r;
          r = fire_expired_timers raw r
      in snapshot_batch r)"

definition take_expired :: "'a list \<Rightarrow> ('a, 'b) reactor \<Rightarrow> nat \<times> 'a list \<times> ('a, 'b) reactor" where
  "take_expired out r =
     (let n = length (expired r)
      in if n > 0 then (n, out @ expired r, r\<lparr>expired := []\<rparr>) else (n, out, r))"

definition poll_timeout :: "ticks \<Rightarrow> ('a, 'b) reactor \<Rightarrow> duration \<times> ('a, 'b) reactor" where
  "poll_timeout raw r =
     (let r = r\<lparr>deadline_bound := False\<rparr>
      in if rready r \<noteq> [] \<or> expired r \<noteq> [] then (0, r)
         else (let (nd, s) = next_deadline (rtimers r, rstore r); r = set_timers s r
               in case nd of
                    Some d \<Rightarrow>
                      (let (now, c) = clock_cached raw (rclock r); r = r\<lparr>rclock := c\<rparr>
                       in if d \<le> now then (0, r)
                          else (let left = unat (d - now)
                                in (min left MAX_PARK, r\<lparr>deadline_bound := left \<le> MAX_PARK\<rparr>)))
                  | None \<Rightarrow> (MAX_PARK, r)))"

text \<open>
  The spin.  Each look is the elapsed time its check reads and the cross-thread queue it then
  finds; when the looks run out the window has elapsed.
\<close>

datatype spin_result = Spin_error io_error | Spin_found | Spin_over

fun spin_looks ::
  "'b backend_ops \<Rightarrow> duration \<Rightarrow> bool \<Rightarrow> (duration \<times> 'a xthread) list \<Rightarrow> ('a, 'b) reactor \<Rightarrow>
     spin_result \<times> ('a, 'b) reactor" where
  "spin_looks ops budget first_look [] r = (Spin_over, r)"
| "spin_looks ops budget first_look ((elapsed, xq) # looks) r =
     (if elapsed < budget then
        (let (res, cs, b) = bk_try_poll ops (rbackend r);
             r = r\<lparr>rcompletions := rcompletions r @ cs, rbackend := b, rxthread := xq\<rparr>
         in case res of
              Inl e \<Rightarrow> (Spin_error e, r)
            | Inr n \<Rightarrow>
                if n > 0 \<or> \<not> xt_is_empty xq then
                  (Spin_found,
                   if \<not> first_look
                   then bump (\<lambda>s. s\<lparr>st_spin_hits := st_spin_hits s + 1\<rparr>)
                          (r\<lparr>rgate := gate_record True (rgate r)\<rparr>)
                   else r)
                else spin_looks ops budget False looks r)
      else (Spin_over, r))"

text \<open>What the environment contributes to one poll.\<close>

record 'a poll_env =
  env_raw :: ticks
  env_looks :: "(duration \<times> 'a xthread) list"
  env_spun :: duration
  env_xthread :: "'a xthread"
  env_raw_after :: ticks

definition poll_zero ::
  "'b backend_ops \<Rightarrow> 'a poll_env \<Rightarrow> ('a, 'b) reactor \<Rightarrow> (io_error + unit) \<times> ('a, 'b) reactor" where
  "poll_zero ops env r =
     (if \<not> bk_has_io_interest ops (rbackend r)
      then (Inr (), bump (\<lambda>s. s\<lparr>st_elided := st_elided s + 1\<rparr>) r)
      else
        (let (now, c) = clock_cached (env_raw env) (rclock r); r = r\<lparr>rclock := c\<rparr>
         in if word_saturating_sub now (last_poll_ns r) < POLL_SKIP_NS then
              (let (cs, b) = bk_take_staged ops (rbackend r)
               in (Inr (), r\<lparr>rcompletions := rcompletions r @ cs, rbackend := b\<rparr>))
            else
              (let r = bump (\<lambda>s. s\<lparr>st_polls := st_polls s + 1\<rparr>) r;
                   (res, cs, b) = bk_try_poll ops (rbackend r);
                   r = r\<lparr>rcompletions := rcompletions r @ cs, rbackend := b\<rparr>
               in case res of Inl e \<Rightarrow> (Inl e, r) | Inr _ \<Rightarrow> (Inr (), r\<lparr>last_poll_ns := now\<rparr>))))"

definition poll_park ::
  "'b backend_ops \<Rightarrow> 'a poll_env \<Rightarrow> duration \<Rightarrow> ('a, 'b) reactor \<Rightarrow> (io_error + unit) \<times> ('a, 'b) reactor" where
  "poll_park ops env timeout r =
     (let precise = (deadline_bound r \<and> bk_precise_parks ops (rbackend r));
          r = (if precise then bump (\<lambda>s. s\<lparr>st_precise := st_precise s + 1\<rparr>) r else r);
          (res, cs, b) = bk_poll_precise ops (Some timeout) (deadline_bound r) (rbackend r);
          r = r\<lparr>rcompletions := rcompletions r @ cs, rbackend := b, rxthread := env_xthread env\<rparr>
      in case res of
           Inl e \<Rightarrow> (Inl e, r)
         | Inr _ \<Rightarrow> (Inr (), r\<lparr>last_poll_ns := clock_now (env_raw_after env) (rclock r)\<rparr>))"

definition r_poll ::
  "'b backend_ops \<Rightarrow> 'a poll_env \<Rightarrow> duration \<Rightarrow> ('a, 'b) reactor \<Rightarrow> (io_error + unit) \<times> ('a, 'b) reactor" where
  "r_poll ops env timeout r =
     (let r = r\<lparr>rcompletions := []\<rparr>
      in if timeout = 0 then poll_zero ops env r
         else
           (let r = bump (\<lambda>s. s\<lparr>st_polls := st_polls s + 1\<rparr>) r;
                (spin, g) = (if spin_us (rcfg r) > 0 then
                               if \<not> adaptive_spin (rcfg r) then (True, rgate r)
                               else should_spin (rgate r)
                             else (False, rgate r));
                r = r\<lparr>rgate := g\<rparr>
            in if \<not> spin then poll_park ops env timeout r
               else
                 (let r = bump (\<lambda>s. s\<lparr>st_spins := st_spins s + 1\<rparr>) r;
                      window = spin_us (rcfg r) * 1000;
                      budget = min window timeout;
                      (res, r) = spin_looks ops budget True (env_looks env) r
                  in case res of
                       Spin_error e \<Rightarrow> (Inl e, r)
                     | Spin_found \<Rightarrow> (Inr (), r)
                     | Spin_over \<Rightarrow>
                         poll_park ops env (timeout - env_spun env)
                           (if budget = window then r\<lparr>rgate := gate_record False (rgate r)\<rparr> else r))))"

definition finish_poll_after ::
  "ticks \<Rightarrow> bool \<Rightarrow> ('a, 'b) reactor \<Rightarrow> completion list \<times> ('a, 'b) reactor" where
  "finish_poll_after raw parked r =
     (let r = bump (\<lambda>s. s\<lparr>st_completions := st_completions s + length (rcompletions r)\<rparr>) r;
          r = (if parked
               then (let r = r\<lparr>rclock := clock_invalidate (rclock r)\<rparr>;
                         r = r_absorb_cancellations r;
                         r = drain_xthread r;
                         r = fire_expired_timers raw r
                     in snapshot_batch r)
               else r)
      in (rcompletions r, r))"

definition drain_completions ::
  "completion list \<Rightarrow> ('a, 'b) reactor \<Rightarrow> completion list \<times> ('a, 'b) reactor" where
  "drain_completions out r = (out @ rcompletions r, r\<lparr>rcompletions := []\<rparr>)"

text \<open>Give back what was queued behind the snapshot: from the end of \<open>out\<close> to the queue's front.\<close>

function give_back :: "nat \<Rightarrow> 'a list \<Rightarrow> 'a ready_queue \<Rightarrow> 'a list \<times> 'a ready_queue" where
  "give_back n out q =
     (if length out > n then give_back n (butlast out) (rq_push_front (last out) q) else (out, q))"
  by auto
termination
  by (relation "measure (\<lambda>(n, out, q). length out)") auto

declare give_back.simps [simp del]

definition take_batch :: "'a list \<Rightarrow> ('a, 'b) reactor \<Rightarrow> 'a list \<times> ('a, 'b) reactor" where
  "take_batch out r =
     (let n = batch_left r; r = r\<lparr>batch_left := 0\<rparr>
      in if n = 0 then (out, r)
         else
           (let (q, out) = rq_swap_with (rready r) out;
                (out, q) = give_back n out q
            in (out, bump (\<lambda>s. s\<lparr>st_dispatched := st_dispatched s + length out\<rparr>) (r\<lparr>rready := q\<rparr>))))"

definition pop_ready_batched :: "('a, 'b) reactor \<Rightarrow> 'a option \<times> ('a, 'b) reactor" where
  "pop_ready_batched r =
     (if batch_left r = 0 then (None, r)
      else
        (let (t, q) = rq_pop (rready r);
             r = r\<lparr>batch_left := batch_left r - 1, rready := q\<rparr>
         in (t, if t \<noteq> None then bump (\<lambda>s. s\<lparr>st_dispatched := st_dispatched s + 1\<rparr>) r else r)))"

definition ready_len :: "('a, 'b) reactor \<Rightarrow> nat" where
  "ready_len r = length (rready r) + length (expired r)"

definition pending_tokens :: "('a, 'b) reactor \<Rightarrow> 'a list" where
  "pending_tokens r = rready r @ expired r @ map payload (entries (rtimers r))"

function pop_all :: "'a list \<Rightarrow> 'a ready_queue \<Rightarrow> 'a list \<times> 'a ready_queue" where
  "pop_all out q =
     (case rq_pop q of (Some t, q) \<Rightarrow> pop_all (out @ [t]) q | (None, q) \<Rightarrow> (out, q))"
  by pat_completeness auto
termination
  by (relation "measure (\<lambda>(out, q). length q)") (auto simp: rq_pop_def split: list.splits)

declare pop_all.simps [simp del]

definition clear_pending :: "('a, 'b) reactor \<Rightarrow> 'a list \<times> ('a, 'b) reactor" where
  "clear_pending r =
     (let (out, ready) = pop_all [] (rready r);
          out = out @ expired r;
          (n, scratch, h, xq) = xt_drain_into schedule (rq_new, rtimers r, rxthread r);
          (out, _) = pop_all out scratch;
          (ts, s) = drain_all (h, rstore r)
      in (out @ ts, set_timers s (r\<lparr>rready := ready, expired := [], rxthread := xq\<rparr>)))"

end
