(* ===== verification/Op_Slab_Props.thy ===== *)
theory Op_Slab_Props
  imports Op_Slab
begin

text \<open>
  The slab's state machine proved: each operation on each branch, the invariant, runs of
  operations, and the slab as an instance of the identifier contract.
\<close>

section \<open>Each operation\<close>

lemma post_spec:
  assumes ok: "slab_ok s" and room: "slab_room s" and p: "slab_post addr mk k s = (oid, s')"
  obtains s1 sl where "s1 = (if freelist s = [] then slab_grow addr mk s else s)"
    "slab_ok s1" "slab_slot s1 (op_index oid) = Some sl" "ostate sl = Free"
    "op_gen oid = generation sl"
    "slab_slot s' = (slab_slot s1)(op_index oid := Some (sl\<lparr>ostate := Posted, okind := k\<rparr>))"
    "in_flight s' = in_flight s + 1" "slab_ok s'" "freelist s' = tl (freelist s1)"
    "slab_capacity s' = slab_capacity s1" "freelist s1 \<noteq> []" "op_index oid = hd (freelist s1)"
proof -
  define s1 where "s1 = (if freelist s = [] then slab_grow addr mk s else s)"
  define i where "i = hd (freelist s1)"
  have ok1: "slab_ok s1" using ok room by (auto simp: s1_def slab_room_def slab_ok_grow)
  have ne: "freelist s1 \<noteq> []"
  proof (cases "freelist s = []")
    case True
    with room have "slab_capacity s < 2 ^ 32" using CHUNK_pos unfolding slab_room_def by linarith
    from grow_freelist [OF this] show ?thesis by (simp add: s1_def CHUNK_def)
  qed (simp add: s1_def)
  with ok1 obtain sl where sl: "slab_slot s1 i = Some sl" "ostate sl = Free"
    by (metis slab_ok_def i_def list.set_sel(1))
  let ?x = "sl\<lparr>ostate := Posted, okind := k\<rparr>"
  let ?t = "s1\<lparr>freelist := tl (freelist s1), in_flight := in_flight s1 + 1\<rparr>"
  have e: "oid = \<lparr>op_index = i, op_gen = generation sl\<rparr>" "s' = slab_set i ?x ?t"
    using p sl by (simp_all add: slab_post_def Let_def s1_def i_def)
  note i = slab_slot_lt [OF sl(1)]
  have ct: "slot_chunks_ok ?t" using ok1 by (simp add: slab_ok_def slot_chunks_ok_def)
  have slots: "slab_slot s' = (slab_slot s1)(i := Some ?x)"
    using slab_slot_set [OF ct, of i ?x] i by (auto simp: e)
  have infl: "in_flight s' = in_flight s + 1" by (simp add: e s1_def grow_simps)
  have "flying_set s' = insert i (flying_set s1)" "i \<notin> flying_set s1"
    using sl by (auto simp: flying_set_def slots flying_def)
  then have card: "card (flying_set s') = card (flying_set s1) + 1" by simp
  have dist: "distinct (freelist s1)" using ok1 by (simp add: slab_ok_def)
  then have fl: "distinct (tl (freelist s1))" "j \<in> set (tl (freelist s1)) \<longleftrightarrow> j \<in> set (freelist s1) \<and> j \<noteq> i" for j
    using ne by (cases "freelist s1"; auto simp: i_def)+
  have "slot_chunks_ok s'" using slot_chunks_ok_set [OF ct, of i ?x] i by (simp add: e)
  moreover have "in_flight s1 = in_flight s" by (simp add: s1_def grow_simps)
  ultimately have "slab_ok s'"
    using ok1 card fl infl by (auto simp: slab_ok_def slots) (simp_all add: e)
  with that [of s1 sl] show thesis
    using ok1 sl slots infl ne e by (simp add: s1_def i_def)
qed

lemma complete_spec:
  assumes ok: "slab_ok s" and sl: "slab_slot s (op_index oid) = Some sl" "generation sl = op_gen oid"
    "flying (ostate sl)"
  shows "slab_complete oid s = (Some (okind sl, ostate sl = Cancelled), s') \<Longrightarrow>
      slab_ok s' \<and> slab_slot s' = (slab_slot s)(op_index oid := Some (sl\<lparr>ostate := Completed\<rparr>)) \<and>
      in_flight s' + 1 = in_flight s"
proof -
  let ?i = "op_index oid" and ?x = "sl\<lparr>ostate := Completed\<rparr>"
  assume "slab_complete oid s = (Some (okind sl, ostate sl = Cancelled), s')"
  then have s': "s' = (slab_set ?i ?x s)\<lparr>in_flight := in_flight s - 1\<rparr>"
    using sl by (auto simp: slab_complete_def flying_def split: if_splits)
  have c: "slot_chunks_ok s" using ok by (simp add: slab_ok_def)
  have mem: "?i \<in> flying_set s" using sl by (auto simp: flying_set_def)
  have fs: "flying_set (slab_set ?i ?x s) = flying_set s - {?i}"
    using flying_set_set [OF ok sl(1), of ?x] by (simp add: flying_def)
  have "card (flying_set s) > 0" using mem by (auto simp: card_gt_0_iff)
  moreover have "in_flight s = card (flying_set s)" using ok by (simp add: slab_ok_def)
  moreover have "card (flying_set (slab_set ?i ?x s)) = card (flying_set s) - 1"
    using fs mem by simp
  moreover have "ostate sl \<noteq> Free" using sl(3) by (auto simp: flying_def)
  ultimately show ?thesis
    using slab_ok_set [OF ok sl(1), of ?x] slab_slot_set [OF c slab_slot_lt [OF sl(1)], of ?x] s'
    by (auto simp: fun_eq_iff)
qed

lemma complete_flying:
  "slab_slot s (op_index oid) = Some sl \<Longrightarrow> generation sl = op_gen oid \<Longrightarrow> flying (ostate sl) \<Longrightarrow>
     fst (slab_complete oid s) = Some (okind sl, ostate sl = Cancelled)"
  by (auto simp: slab_complete_def flying_def)

lemma complete_None:
  "slab_complete oid s = (None, s') \<Longrightarrow> s' = s"
  by (auto simp: slab_complete_def split: option.splits if_splits)

lemma complete_Some:
  assumes "slab_complete oid s = (Some r, s')"
  obtains sl where "slab_slot s (op_index oid) = Some sl" "generation sl = op_gen oid"
    "flying (ostate sl)" "r = (okind sl, ostate sl = Cancelled)"
  using assms
  by (auto simp: slab_complete_def flying_def split: option.splits if_splits)
    (metis op_state.exhaust)

lemma cancel_spec:
  assumes ok: "slab_ok s" and m: "mark_cancelled oid s = (True, s')"
  obtains sl where "slab_slot s (op_index oid) = Some sl" "generation sl = op_gen oid"
    "ostate sl = Posted" "slab_ok s'" "in_flight s' = in_flight s"
    "slab_slot s' = (slab_slot s)(op_index oid := Some (sl\<lparr>ostate := Cancelled\<rparr>))"
proof -
  from m obtain sl where sl: "slab_slot s (op_index oid) = Some sl" "generation sl = op_gen oid"
    "ostate sl = Posted" and s': "s' = slab_set (op_index oid) (sl\<lparr>ostate := Cancelled\<rparr>) s"
    by (auto simp: mark_cancelled_def slab_get_def split: option.splits if_splits op_state.splits)
  let ?x = "sl\<lparr>ostate := Cancelled\<rparr>"
  have c: "slot_chunks_ok s" using ok by (simp add: slab_ok_def)
  have "op_index oid \<in> flying_set s" using sl by (auto simp: flying_set_def flying_def)
  then have "flying_set (slab_set (op_index oid) ?x s) = flying_set s"
    using flying_set_set [OF ok sl(1), of ?x] by (auto simp: flying_def)
  with slab_ok_set [OF ok sl(1), of ?x] sl ok have "slab_ok s'"
    by (auto simp: s' slab_ok_def slot_chunks_ok_def)
  with that [OF sl] slab_slot_set [OF c slab_slot_lt [OF sl(1)], of ?x] show thesis
    by (auto simp: s' fun_eq_iff)
qed

lemma cancel_False: "mark_cancelled oid s = (False, s') \<Longrightarrow> s' = s"
  by (auto simp: mark_cancelled_def split: option.splits op_state.splits)

lemma release_spec:
  assumes ok: "slab_ok s"
  shows "slab_release oid s = s \<or> (\<exists>sl. slab_slot s (op_index oid) = Some sl \<and>
    generation sl = op_gen oid \<and> ostate sl = Completed \<and> slab_ok (slab_release oid s) \<and>
    in_flight (slab_release oid s) = in_flight s \<and>
    freelist (slab_release oid s) = op_index oid # freelist s \<and>
    slab_slot (slab_release oid s) = (slab_slot s)(op_index oid :=
      Some (sl\<lparr>ostate := Free, generation := generation sl + 1\<rparr>)))"
proof (cases "\<exists>sl. slab_slot s (op_index oid) = Some sl \<and> generation sl = op_gen oid \<and> ostate sl = Completed")
  case True
  then obtain sl where sl: "slab_slot s (op_index oid) = Some sl" "generation sl = op_gen oid"
    "ostate sl = Completed" by blast
  let ?i = "op_index oid" and ?x = "sl\<lparr>ostate := Free, generation := generation sl + 1\<rparr>"
  have s': "slab_release oid s = (slab_set ?i ?x s)\<lparr>freelist := ?i # freelist s\<rparr>"
    using sl by (simp add: slab_release_def)
  have c: "slot_chunks_ok s" using ok by (simp add: slab_ok_def)
  note i = slab_slot_lt [OF sl(1)]
  have slots: "slab_slot (slab_release oid s) = (slab_slot s)(?i := Some ?x)"
    using slab_slot_set [OF c i, of ?x] by (auto simp: s' fun_eq_iff)
  have "flying_set (slab_release oid s) = flying_set s"
    using sl by (auto simp: flying_set_def slots flying_def)
  moreover have "slot_chunks_ok (slab_release oid s)"
    using slot_chunks_ok_set [OF c i, of ?x] by (simp add: s' slot_chunks_ok_def)
  moreover have "?i \<notin> set (freelist s)" using ok sl by (auto simp: slab_ok_def)
  ultimately have "slab_ok (slab_release oid s)"
    using ok by (auto simp: slab_ok_def slots) (simp_all add: s')
  with sl slots show ?thesis by (auto simp: s')
qed (auto simp: slab_release_def split: option.splits)

section \<open>Runs of operations\<close>

datatype slab_call =
    S_post nat op_kind op_id | S_cancel op_id | S_complete op_id | S_release op_id

inductive slab_step :: "'d \<Rightarrow> 'd slab \<Rightarrow> slab_call \<Rightarrow> 'd slab \<Rightarrow> bool" for mk :: 'd where
  s_post: "slab_room s \<Longrightarrow> slab_post addr mk k s = (oid, s') \<Longrightarrow> slab_step mk s (S_post addr k oid) s'"
| s_cancel: "mark_cancelled oid s = (b, s') \<Longrightarrow> slab_step mk s (S_cancel oid) s'"
| s_complete: "slab_complete oid s = (r, s') \<Longrightarrow> slab_step mk s (S_complete oid) s'"
| s_release: "slab_step mk s (S_release oid) (slab_release oid s)"

inductive slab_run :: "'d \<Rightarrow> 'd slab \<Rightarrow> slab_call list \<Rightarrow> 'd slab \<Rightarrow> bool" for mk :: 'd where
  run_done: "slab_run mk s [] s"
| run_call: "slab_step mk s c s1 \<Longrightarrow> slab_run mk s1 cs s2 \<Longrightarrow> slab_run mk s (c # cs) s2"

lemma slab_step_ok: "slab_step mk s c s' \<Longrightarrow> slab_ok s \<Longrightarrow> slab_ok s'"
proof (induction rule: slab_step.induct)
  case (s_post s addr k oid s')
  show ?case by (rule post_spec [OF s_post(3,1,2)])
next
  case (s_cancel oid s b s')
  then show ?case by (cases b) (auto elim: cancel_spec dest: cancel_False)
next
  case (s_complete oid s r s')
  show ?case
  proof (cases r)
    case None
    with s_complete complete_None show ?thesis by blast
  next
    case (Some r')
    with s_complete(1) obtain sl where "slab_slot s (op_index oid) = Some sl"
      "generation sl = op_gen oid" "flying (ostate sl)" "r' = (okind sl, ostate sl = Cancelled)"
      by (auto elim: complete_Some)
    with complete_spec [OF s_complete(2)] s_complete(1) Some show ?thesis by blast
  qed
next
  case (s_release s oid)
  with release_spec [OF s_release, of oid] show ?case by auto
qed

lemma slab_run_ok: "slab_run mk s cs s' \<Longrightarrow> slab_ok s \<Longrightarrow> slab_ok s'"
  by (induction rule: slab_run.induct) (auto dest: slab_step_ok)

text \<open>How a slot moves in one step: the state machine.\<close>

lemma slab_step_slot:
  assumes "slab_step mk s c s'" "slab_ok s" "slab_slot s i = Some sl"
  shows "\<exists>sl'. slab_slot s' i = Some sl' \<and>
    (sl' = sl \<or>
     (ostate sl = Free \<and> ostate sl' = Posted \<and> generation sl' = generation sl \<and>
        (\<exists>addr k oid. c = S_post addr k oid \<and> op_index oid = i \<and> op_gen oid = generation sl)) \<or>
     (ostate sl = Posted \<and> sl' = sl\<lparr>ostate := Cancelled\<rparr> \<and>
        (\<exists>oid. c = S_cancel oid \<and> op_index oid = i \<and> op_gen oid = generation sl)) \<or>
     (flying (ostate sl) \<and> sl' = sl\<lparr>ostate := Completed\<rparr> \<and>
        (\<exists>oid. c = S_complete oid \<and> op_index oid = i \<and> op_gen oid = generation sl)) \<or>
     (ostate sl = Completed \<and> sl' = sl\<lparr>ostate := Free, generation := generation sl + 1\<rparr> \<and>
        (\<exists>oid. c = S_release oid \<and> op_index oid = i \<and> op_gen oid = generation sl)))"
  using assms
proof (induction rule: slab_step.induct)
  case (s_post s addr k oid s')
  from post_spec [OF s_post(3,1,2)] obtain s1 sl1 where
    p: "s1 = (if freelist s = [] then slab_grow addr mk s else s)"
    "slab_slot s1 (op_index oid) = Some sl1" "ostate sl1 = Free" "op_gen oid = generation sl1"
    "slab_slot s' = (slab_slot s1)(op_index oid := Some (sl1\<lparr>ostate := Posted, okind := k\<rparr>))" by metis
  have "slab_slot s1 i = Some sl"
    using s_post(4) p(1) slab_slot_lt [OF s_post(4)] by (simp add: grow_slot)
  with p show ?case by (cases "i = op_index oid") auto
next
  case (s_cancel oid s b s')
  show ?case
  proof (cases b)
    case True
    with s_cancel(1) have "mark_cancelled oid s = (True, s')" by simp
    from cancel_spec [OF s_cancel(2) this] obtain sl1 where "slab_slot s (op_index oid) = Some sl1"
      "generation sl1 = op_gen oid" "ostate sl1 = Posted"
      "slab_slot s' = (slab_slot s)(op_index oid := Some (sl1\<lparr>ostate := Cancelled\<rparr>))" by metis
    with s_cancel(3) show ?thesis by (cases "i = op_index oid") auto
  next
    case False
    with s_cancel(1) cancel_False [of oid s s'] have "s' = s" by simp
    with s_cancel(3) show ?thesis by simp
  qed
next
  case (s_complete oid s r s')
  show ?case
  proof (cases r)
    case None
    with s_complete complete_None show ?thesis by blast
  next
    case (Some r')
    with s_complete(1) obtain sl1 where sl1: "slab_slot s (op_index oid) = Some sl1"
      "generation sl1 = op_gen oid" "flying (ostate sl1)" "r' = (okind sl1, ostate sl1 = Cancelled)"
      by (auto elim: complete_Some)
    with complete_spec [OF s_complete(2) sl1(1-3)] s_complete(1) Some
    have "slab_slot s' = (slab_slot s)(op_index oid := Some (sl1\<lparr>ostate := Completed\<rparr>))" by blast
    with sl1 s_complete(3) show ?thesis by (cases "i = op_index oid") auto
  qed
next
  case (s_release s oid)
  show ?case
  proof (cases "slab_release oid s = s")
    case False
    with release_spec [OF s_release(1), of oid] obtain sl1 where
      "slab_slot s (op_index oid) = Some sl1" "generation sl1 = op_gen oid" "ostate sl1 = Completed"
      "slab_slot (slab_release oid s) = (slab_slot s)(op_index oid :=
        Some (sl1\<lparr>ostate := Free, generation := generation sl1 + 1\<rparr>))" by blast
    with s_release(2) show ?thesis by (cases "i = op_index oid") auto
  qed (use s_release in simp)
qed

section \<open>Identifiers\<close>

definition live_ids :: "'d slab \<Rightarrow> op_id set" where
  "live_ids s = {oid. slab_get s oid \<noteq> None}"

lemma live_ids_iff:
  "oid \<in> live_ids s \<longleftrightarrow> (\<exists>sl. slab_slot s (op_index oid) = Some sl \<and> generation sl = op_gen oid \<and>
     ostate sl \<noteq> Free)"
  by (auto simp: live_ids_def slab_get_def split: option.splits if_splits)

lemma live_ids_post:
  assumes "slab_ok s" "slab_room s" "slab_post addr mk k s = (oid, s')"
  shows "oid \<notin> live_ids s" "live_ids s' = insert oid (live_ids s)"
proof -
  from post_spec [OF assms] obtain s1 sl where
    p: "s1 = (if freelist s = [] then slab_grow addr mk s else s)"
    "slab_slot s1 (op_index oid) = Some sl" "ostate sl = Free" "op_gen oid = generation sl"
    "slab_slot s' = (slab_slot s1)(op_index oid := Some (sl\<lparr>ostate := Posted, okind := k\<rparr>))" by metis
  have "slab_slot s1 j = Some x \<and> ostate x \<noteq> Free \<longleftrightarrow> slab_slot s j = Some x \<and> ostate x \<noteq> Free" for j x
    using slab_slot_None_iff [of s j] by (auto simp: p(1) grow_slot)
  then have l: "live_ids s1 = live_ids s" by (fastforce simp: live_ids_iff)
  have "oid \<notin> live_ids s1" using p(2,3) by (simp add: live_ids_iff)
  with l show "oid \<notin> live_ids s" by simp
  have "x \<in> live_ids s' \<longleftrightarrow> x = oid \<or> x \<in> live_ids s1" for x
    using p by (cases "op_index x = op_index oid") (auto simp: live_ids_iff)
  with l show "live_ids s' = insert oid (live_ids s)" by auto
qed

text \<open>Reap and recycle: what a backend does with every completion.\<close>

definition slab_reap :: "op_id \<Rightarrow> 'd slab \<Rightarrow> 'd slab" where
  "slab_reap oid s = slab_release oid (snd (slab_complete oid s))"

definition slab_alloc :: "nat \<Rightarrow> 'd \<Rightarrow> op_kind \<Rightarrow> 'd slab \<Rightarrow> (op_id \<times> 'd slab) option" where
  "slab_alloc addr mk k s = (if slab_room s then Some (slab_post addr mk k s) else None)"

lemma live_ids_reap:
  assumes ok: "slab_ok s" and l: "oid \<in> live_ids s"
  shows "slab_ok (slab_reap oid s) \<and> live_ids (slab_reap oid s) = live_ids s - {oid}"
proof -
  from l obtain sl where sl: "slab_slot s (op_index oid) = Some sl" "generation sl = op_gen oid"
    "ostate sl \<noteq> Free" by (auto simp: live_ids_iff)
  obtain r s1 where c: "slab_complete oid s = (r, s1)" by fastforce
  have "slab_ok s1 \<and> slab_slot s1 = (slab_slot s)(op_index oid := Some (sl\<lparr>ostate := Completed\<rparr>))"
  proof (cases "flying (ostate sl)")
    case True
    with complete_flying [OF sl(1,2)] c complete_spec [OF ok sl(1,2) True, of s1] show ?thesis by simp
  next
    case False
    with sl have st: "ostate sl = Completed" by (cases "ostate sl") (auto simp: flying_def)
    with c sl have "s1 = s" by (simp add: slab_complete_def)
    with ok sl st show ?thesis by (auto simp: fun_eq_iff)
  qed
  then have s1: "slab_ok s1"
    "slab_slot s1 = (slab_slot s)(op_index oid := Some (sl\<lparr>ostate := Completed\<rparr>))" by auto
  have "slab_release oid s1 \<noteq> s1"
  proof
    assume "slab_release oid s1 = s1"
    then have "freelist (slab_release oid s1) = freelist s1" by simp
    with s1(2) sl(2) show False by (simp add: slab_release_def)
  qed
  with release_spec [OF s1(1), of oid] s1(2) have
    r: "slab_ok (slab_release oid s1)" "slab_slot (slab_release oid s1) =
      (slab_slot s)(op_index oid := Some (sl\<lparr>ostate := Free, generation := generation sl + 1\<rparr>))"
    by auto
  have "x \<in> live_ids (slab_release oid s1) \<longleftrightarrow> x \<in> live_ids s \<and> x \<noteq> oid" for x
    using sl by (cases "op_index x = op_index oid") (auto simp: live_ids_iff r(2) op_id.equality)
  with r(1) show ?thesis by (auto simp: slab_reap_def c)
qed

interpretation slab: id_allocator slab_ok live_ids "slab_alloc addr mk k" "\<lambda>_ _. True" slab_reap
  for addr mk k
proof (unfold_locales, goal_cases)
  case (1 s i s')
  then have "slab_room s" "slab_post addr mk k s = (i, s')" by (auto simp: slab_alloc_def split: if_splits)
  with live_ids_post [OF 1(1) this] post_spec [OF 1(1) this] show ?case by metis
next
  case (2 s i)
  show ?case by (rule live_ids_reap [OF 2(1,2)])
qed

section \<open>In-flight accounting\<close>

definition slot_at :: "'d slot list list \<Rightarrow> nat \<Rightarrow> 'd slot" where
  "slot_at cs i = cs ! (i div CHUNK) ! (i mod CHUNK)"

definition id_at :: "'d slot list list \<Rightarrow> nat \<Rightarrow> op_id" where
  "id_at cs i = \<lparr>op_index = i, op_gen = generation (slot_at cs i)\<rparr>"

lemma chunk_ids:
  "concat (map (\<lambda>(si, sl). if P sl
      then [\<lparr>op_index = b + si, op_gen = generation sl\<rparr>] else []) (zip [0..<length c] c)) =
   map (\<lambda>i. \<lparr>op_index = i, op_gen = generation (c ! (i - b))\<rparr>)
     (filter (\<lambda>i. P (c ! (i - b))) [b..<b + length c])"
proof (induction c rule: rev_induct)
  case (snoc x c)
  have f: "filter (\<lambda>i. P ((c @ [x]) ! (i - b))) [b..<b + length c] =
      filter (\<lambda>i. P (c ! (i - b))) [b..<b + length c]"
    by (rule filter_cong) (auto simp: nth_append)
  have m: "map (\<lambda>i. \<lparr>op_index = i, op_gen = generation ((c @ [x]) ! (i - b))\<rparr>)
      (filter Q [b..<b + length c]) = map (\<lambda>i. \<lparr>op_index = i, op_gen = generation (c ! (i - b))\<rparr>)
      (filter Q [b..<b + length c])" for Q
    by (rule map_cong) (auto simp: nth_append)
  show ?case using snoc by (simp add: zip_append f m)
qed simp

text \<open>The in-flight ids are those of the flying slots, in index order.\<close>

lemma in_flight_ids_eq:
  assumes "slab_ok s"
  shows "in_flight_ids s = map (id_at (chunks s))
    (filter (\<lambda>i. flying (ostate (slot_at (chunks s) i))) [0..<slab_capacity s])"
proof -
  define ids where "ids = (\<lambda>cs :: 'a slot list list. concat (map (\<lambda>(ci, chunk).
       concat (map (\<lambda>(si, sl). if flying (ostate sl)
           then [\<lparr>op_index = as_u32 (ci * CHUNK + si), op_gen = generation sl\<rparr>] else [])
         (zip [0..<length chunk] chunk))) (zip [0..<length cs] cs)))"
  have "ids cs = map (id_at cs) (filter (\<lambda>i. flying (ostate (slot_at cs i))) [0..<length cs * CHUNK])"
    if "\<forall>c\<in>set cs. length c = CHUNK" "length cs * CHUNK \<le> 2 ^ 32" for cs
    using that
  proof (induction cs rule: rev_induct)
    case Nil
    show ?case by (simp add: ids_def)
  next
    case (snoc c cs)
    let ?b = "length cs * CHUNK"
    have c: "length c = CHUNK" using snoc.prems by simp
    have b: "?b + CHUNK \<le> 2 ^ 32" using snoc.prems(2) by simp
    have chunk: "map (\<lambda>(si, sl). if flying (ostate sl)
        then [\<lparr>op_index = as_u32 (?b + si), op_gen = generation sl\<rparr>] else []) (zip [0..<length c] c) =
      map (\<lambda>(si, sl). if flying (ostate sl)
        then [\<lparr>op_index = ?b + si, op_gen = generation sl\<rparr>] else []) (zip [0..<length c] c)"
      using c b by (auto dest!: set_zip_leftD)
    have old: "slot_at (cs @ [c]) i = slot_at cs i" if "i < ?b" for i
      using that by (simp add: slot_at_def nth_append div_less_iff_less_mult)
    have new: "slot_at (cs @ [c]) i = c ! (i - ?b)" if "?b \<le> i" "i < ?b + length c" for i
    proof -
      from that obtain j where j: "i = ?b + j" by (auto dest: le_Suc_ex)
      with that c have "j < CHUNK" by simp
      then have "i div CHUNK = length cs" "i mod CHUNK = j"
        using j by (simp_all add: div_mult_self3)
      with j show ?thesis by (simp add: slot_at_def)
    qed
    have "ids (cs @ [c]) = ids cs @ concat (map (\<lambda>(si, sl). if flying (ostate sl)
        then [\<lparr>op_index = ?b + si, op_gen = generation sl\<rparr>] else []) (zip [0..<length c] c))"
      unfolding chunk [symmetric] by (simp add: ids_def)
    also have "\<dots> = ids cs @ map (\<lambda>i. \<lparr>op_index = i, op_gen = generation (c ! (i - ?b))\<rparr>)
        (filter (\<lambda>i. flying (ostate (c ! (i - ?b)))) [?b..<?b + length c])"
      by (simp only: chunk_ids)
    also have "filter (\<lambda>i. flying (ostate (c ! (i - ?b)))) [?b..<?b + length c] =
        filter (\<lambda>i. flying (ostate (slot_at (cs @ [c]) i))) [?b..<?b + length c]"
      by (rule filter_cong) (simp_all add: new)
    also have "map (\<lambda>i. \<lparr>op_index = i, op_gen = generation (c ! (i - ?b))\<rparr>) \<dots> =
        map (id_at (cs @ [c])) \<dots>"
      by (rule map_cong) (auto simp: id_at_def new)
    also have "ids cs = map (id_at cs) (filter (\<lambda>i. flying (ostate (slot_at cs i))) [0..<?b])"
      using snoc by simp
    also have "filter (\<lambda>i. flying (ostate (slot_at cs i))) [0..<?b] =
        filter (\<lambda>i. flying (ostate (slot_at (cs @ [c]) i))) [0..<?b]"
      by (rule filter_cong) (simp_all add: old)
    also have "map (id_at cs) \<dots> = map (id_at (cs @ [c])) \<dots>"
      by (rule map_cong) (auto simp: id_at_def old)
    finally have "ids (cs @ [c]) = map (id_at (cs @ [c]))
        (filter (\<lambda>i. flying (ostate (slot_at (cs @ [c]) i))) ([0..<?b] @ [?b..<?b + length c]))"
      by simp
    moreover have "[0..<length (cs @ [c]) * CHUNK] = [0..<?b] @ [?b..<?b + length c]"
      using upt_add_eq_append [of 0 ?b CHUNK] c by (simp add: add.commute [of CHUNK])
    ultimately show ?case by simp
  qed
  from this [of "chunks s"] assms show ?thesis
    by (simp add: slab_ok_def slot_chunks_ok_def slab_capacity_def in_flight_ids_def ids_def)
qed

lemma slab_slot_at: "slab_slot s i = Some sl \<longleftrightarrow> i < slab_capacity s \<and> slot_at (chunks s) i = sl"
  using slab_slot_Some_iff [of s i]
  by (cases "slab_slot s i") (auto simp: slab_slot_def slot_at_def split: if_splits)

lemma in_flight_ids_spec:
  assumes "slab_ok s"
  shows "distinct (in_flight_ids s)" "length (in_flight_ids s) = in_flight s"
    "oid \<in> set (in_flight_ids s) \<longleftrightarrow> (\<exists>st. slab_state s oid = Some st \<and> flying st)"
proof -
  note e = in_flight_ids_eq [OF assms]
  show d: "distinct (in_flight_ids s)"
    by (simp add: e distinct_map inj_on_def id_at_def)
  have "length (in_flight_ids s) =
      card (set (filter (\<lambda>i. flying (ostate (slot_at (chunks s) i))) [0..<slab_capacity s]))"
    by (simp add: e distinct_card flip: distinct_card)
  also have "set (filter (\<lambda>i. flying (ostate (slot_at (chunks s) i))) [0..<slab_capacity s]) = flying_set s"
    by (auto simp: flying_set_def slab_slot_at)
  finally show "length (in_flight_ids s) = in_flight s" using assms by (simp add: slab_ok_def)
  show "oid \<in> set (in_flight_ids s) \<longleftrightarrow> (\<exists>st. slab_state s oid = Some st \<and> flying st)"
  proof -
    have "slab_slot s i = (if i < slab_capacity s then Some (slot_at (chunks s) i) else None)" for i
      using slab_slot_at [of s i] slab_slot_None_iff [of s i] by auto
    then show ?thesis
      by (cases oid) (auto simp: e id_at_def slab_state_def image_iff split: if_splits)
  qed
qed

section \<open>Pinning and staleness\<close>

lemma op_id_eqI: "op_index x = op_index y \<Longrightarrow> op_gen x = op_gen y \<Longrightarrow> x = (y :: op_id)"
  by (cases x, cases y) simp

lemma flying_step:
  assumes "slab_step mk s c s'" "slab_ok s" "slab_state s oid = Some st" "flying st" "c \<noteq> S_complete oid"
  shows "(\<exists>st'. slab_state s' oid = Some st' \<and> flying st') \<and>
    (\<forall>addr k oid'. c = S_post addr k oid' \<longrightarrow> op_index oid' \<noteq> op_index oid)"
proof -
  from assms(3,4) obtain sl where sl: "slab_slot s (op_index oid) = Some sl" "generation sl = op_gen oid"
    "flying (ostate sl)" by (auto simp: slab_state_def split: option.splits if_splits)
  from slab_step_slot [OF assms(1,2) sl(1)] obtain sl' where
    sl': "slab_slot s' (op_index oid) = Some sl'" and
    moved: "sl' = sl \<or> sl' = sl\<lparr>ostate := Cancelled\<rparr>"
    using sl(2,3) assms(5) by (auto simp: flying_def dest: op_id_eqI)
  have "op_index oid' \<noteq> op_index oid" if c: "c = S_post addr k oid'" for addr k oid'
  proof
    assume same: "op_index oid' = op_index oid"
    from assms(1) c have "slab_room s" "slab_post addr mk k s = (oid', s')"
      by (auto elim: slab_step.cases)
    from post_spec [OF assms(2) this] obtain s1 sl1 where
      "s1 = (if freelist s = [] then slab_grow addr mk s else s)"
      "slab_slot s1 (op_index oid') = Some sl1" "ostate sl1 = Free" by metis
    with same sl slab_slot_lt [OF sl(1)] show False by (auto simp: grow_slot flying_def split: if_splits)
  qed
  with sl' moved sl show ?thesis by (auto simp: slab_state_def flying_def)
qed

lemma flying_run:
  assumes "slab_run mk s ds s'" "slab_ok s" "slab_state s oid = Some st" "flying st"
    "S_complete oid \<notin> set ds"
  shows "(\<exists>st'. slab_state s' oid = Some st' \<and> flying st') \<and>
    (\<forall>addr k oid'. S_post addr k oid' \<in> set ds \<longrightarrow> op_index oid' \<noteq> op_index oid)"
  using assms
proof (induction arbitrary: st rule: slab_run.induct)
  case (run_call s c s1 cs s2)
  have "c \<noteq> S_complete oid" using run_call.prems by auto
  note f = flying_step [OF run_call.hyps(1) run_call.prems(1-3) this]
  then obtain st1 where "slab_state s1 oid = Some st1" "flying st1" by blast
  from run_call.IH [OF slab_step_ok [OF run_call.hyps(1) run_call.prems(1)] this] run_call.prems(4) f
  show ?case by auto
qed auto

definition releases_of :: "nat \<Rightarrow> slab_call list \<Rightarrow> nat" where
  "releases_of i cs = length (filter (\<lambda>c. case c of S_release oid \<Rightarrow> op_index oid = i | _ \<Rightarrow> False) cs)"

lemma generation_run:
  assumes "slab_run mk s cs s'" "slab_ok s" "slab_slot s i = Some sl"
  shows "\<exists>sl' n. slab_slot s' i = Some sl' \<and> generation sl' = generation sl + word_of_nat n \<and>
    n \<le> releases_of i cs"
  using assms
proof (induction arbitrary: sl rule: slab_run.induct)
  case (run_done s)
  then show ?case by (intro exI [of _ sl] exI [of _ 0]) simp
next
  case (run_call s c s1 cs s2)
  from slab_step_slot [OF run_call.hyps(1) run_call.prems] obtain sl1 m where
    sl1: "slab_slot s1 i = Some sl1" "generation sl1 = generation sl + word_of_nat m"
    and m: "m \<le> releases_of i [c]"
  proof -
    from slab_step_slot [OF run_call.hyps(1) run_call.prems] obtain sl1 where
      "slab_slot s1 i = Some sl1" "generation sl1 = generation sl \<or>
        generation sl1 = generation sl + 1 \<and> (\<exists>oid. c = S_release oid \<and> op_index oid = i)" by auto
    then show thesis
      by (elim disjE conjE exE)
        (rule that [of sl1 0], simp_all, rule that [of sl1 1], simp_all add: releases_of_def)
  qed
  from run_call.IH [OF slab_step_ok [OF run_call.hyps(1) run_call.prems(1)] sl1(1)] obtain sl' n where
    "slab_slot s2 i = Some sl'" "generation sl' = generation sl1 + word_of_nat n"
    "n \<le> releases_of i cs" by blast
  with sl1 m show ?case
    by (intro exI [of _ sl'] exI [of _ "m + n"]) (auto simp: releases_of_def split: if_splits)
qed

lemma add_small_neq:
  assumes "0 < n" "n < 2 ^ 32"
  shows "g + word_of_nat n \<noteq> (g :: u32)"
proof
  assume "g + word_of_nat n = g"
  then have "word_of_nat n = (0 :: u32)" by simp
  then have "unat (word_of_nat n :: u32) = 0" by simp
  with assms show False by (simp add: unat_of_nat)
qed

section \<open>The pointer screen\<close>

text \<open>Chunks lie at ascending, disjoint addresses; \<open>w\<close> is the size of one.\<close>

definition addr_ok :: "nat \<Rightarrow> 'd slab \<Rightarrow> bool" where
  "addr_ok w s \<longleftrightarrow> sorted_wrt (\<lambda>x y. fst x + w \<le> fst y) (by_addr s) \<and>
     mset (map snd (by_addr s)) = mset [0..<length (chunks s)]"

lemma addr_ok_new: "addr_ok w slab_new"
  by (simp add: addr_ok_def slab_new_def)

definition fresh_chunk :: "nat \<Rightarrow> nat \<Rightarrow> 'd slab \<Rightarrow> bool" where
  "fresh_chunk w addr s \<longleftrightarrow> (\<forall>(a, _)\<in>set (by_addr s). addr + w \<le> a \<or> a + w \<le> addr)"

lemma addr_ok_grow:
  assumes "addr_ok w s" "fresh_chunk w addr s" "0 < w"
  shows "addr_ok w (slab_grow addr mk s)"
proof -
  let ?P = "\<lambda>(a, _ :: nat). a < addr" and ?xs = "by_addr s"
  let ?at = "partition_point ?P ?xs"
  have srt: "sorted_wrt (\<lambda>x y. fst x + w \<le> fst y) ?xs" using assms(1) by (simp add: addr_ok_def)
  have lo: "fst x + w \<le> addr" if "x \<in> set (take ?at ?xs)" for x
  proof -
    from that obtain i where i: "i < ?at" "x = ?xs ! i" by (auto simp: in_set_conv_nth)
    with partition_point_before [of i ?P ?xs] have "fst x < addr" by (auto simp: split_beta)
    moreover have "x \<in> set ?xs" using that by (rule in_set_takeD)
    ultimately show ?thesis using assms(2) by (auto simp: fresh_chunk_def)
  qed
  have hi: "addr + w \<le> fst x" if "x \<in> set (drop ?at ?xs)" for x
  proof -
    from that obtain i where "i < length ?xs - ?at" "x = ?xs ! (?at + i)"
      by (auto simp: in_set_conv_nth)
    then have i: "?at + i < length ?xs" "x = ?xs ! (?at + i)" by linarith+
    then have "\<not> ?P (?xs ! ?at)" by (intro partition_point_at) simp
    then have "addr \<le> fst (?xs ! ?at)" by (simp add: split_beta)
    also have "\<dots> \<le> fst x"
      using sorted_wrt_nth_less [OF srt, of ?at "?at + i"] i by (cases i) auto
    finally have "addr \<le> fst x" .
    moreover have "x \<in> set ?xs" using that by (rule in_set_dropD)
    ultimately show ?thesis using assms(2,3) by (auto simp: fresh_chunk_def)
  qed
  have "sorted_wrt (\<lambda>x y. fst x + w \<le> fst y) (take ?at ?xs @ drop ?at ?xs)" using srt by simp
  then have "sorted_wrt (\<lambda>x y. fst x + w \<le> fst y) (list_insert_at ?at (addr, length (chunks s)) ?xs)"
    unfolding list_insert_at_def sorted_wrt_append sorted_wrt.simps using lo hi by auto
  moreover have "mset (map snd (list_insert_at ?at (addr, length (chunks s)) ?xs)) =
      mset [0..<Suc (length (chunks s))]"
    using assms(1) by (simp add: addr_ok_def)
  ultimately show ?thesis by (simp add: addr_ok_def slab_grow_def Let_def)
qed

lemma addr_ok_cong: "by_addr s' = by_addr s \<Longrightarrow> length (chunks s') = length (chunks s) \<Longrightarrow>
    addr_ok w s' = addr_ok w s"
  by (simp add: addr_ok_def)

lemma addr_ok_post:
  assumes "addr_ok w s" "fresh_chunk w addr s" "0 < w"
  shows "addr_ok w (snd (slab_post addr mk k s))"
proof -
  let ?s1 = "if freelist s = [] then slab_grow addr mk s else s"
  have "addr_ok w ?s1" using assms addr_ok_grow [OF assms, of mk] by simp
  then show ?thesis by (auto simp: slab_post_def Let_def addr_ok_def slab_set_def)
qed

lemma contains_data_ptr_iff:
  assumes ok: "addr_ok (stride * CHUNK) s" and off: "data_off < stride"
  shows "contains_data_ptr stride data_off s p \<longleftrightarrow>
    (\<exists>(base, ci)\<in>set (by_addr s). \<exists>k<CHUNK. p = base + k * stride + data_off)"
proof -
  let ?P = "\<lambda>(base, _ :: nat). base \<le> p" and ?xs = "by_addr s"
  let ?at = "partition_point ?P ?xs"
  have srt: "sorted_wrt (\<lambda>x y. fst x + stride * CHUNK \<le> fst y) ?xs" using ok by (simp add: addr_ok_def)
  have inside: "x = ?xs ! (?at - 1) \<and> ?at \<noteq> 0"
    if x: "x \<in> set ?xs" "fst x \<le> p" "p < fst x + stride * CHUNK" for x
  proof -
    from x(1) obtain i where i: "i < length ?xs" "?xs ! i = x" by (auto simp: in_set_conv_nth)
    have "i < ?at"
    proof (rule ccontr)
      assume "\<not> i < ?at"
      then have "?at \<le> i" by simp
      with i have "\<not> ?P (?xs ! ?at)" by (intro partition_point_at) simp
      moreover have "fst (?xs ! ?at) \<le> fst x"
        using sorted_wrt_nth_less [OF srt, of ?at i] \<open>?at \<le> i\<close> i by (cases "?at = i") auto
      ultimately show False using x(2) by (simp add: split_beta)
    qed
    moreover have "?at \<le> Suc i"
    proof (rule ccontr)
      assume "\<not> ?at \<le> Suc i"
      then have lt: "Suc i < ?at" by simp
      then have "Suc i < length ?xs" using partition_point_le [of ?P ?xs] by linarith
      with sorted_wrt_nth_less [OF srt, of i "Suc i"] i have "p < fst (?xs ! Suc i)" using x(3) by simp
      with partition_point_before [OF lt] show False by (simp add: split_beta)
    qed
    ultimately have "?at = Suc i" by simp
    with i show ?thesis by simp
  qed
  have s0: "stride \<noteq> 0" using off by simp
  show ?thesis
  proof
    assume c: "contains_data_ptr stride data_off s p"
    let ?x = "?xs ! (?at - 1)"
    from c s0 have at: "?at \<noteq> 0" and lt: "p - fst ?x < stride * CHUNK"
      and m: "(p - fst ?x) mod stride = data_off"
      by (auto simp: contains_data_ptr_def Let_def split_beta split: if_splits)
    from at partition_point_before [of "?at - 1" ?P ?xs] have le: "fst ?x \<le> p" by (simp add: split_beta)
    from at partition_point_le [of ?P ?xs] have "?at - 1 < length ?xs" by linarith
    then have mem: "?x \<in> set ?xs" by (rule nth_mem)
    let ?k = "(p - fst ?x) div stride"
    have "p = fst ?x + ?k * stride + data_off" using le m div_mult_mod_eq [of "p - fst ?x" stride] by linarith
    moreover have "?k < CHUNK" using lt s0 by (simp add: div_less_iff_less_mult mult.commute)
    ultimately show "\<exists>(base, ci)\<in>set ?xs. \<exists>k<CHUNK. p = base + k * stride + data_off"
      using mem by (intro bexI [of _ ?x]) (auto simp: split_beta)
  next
    assume "\<exists>(base, ci)\<in>set ?xs. \<exists>k<CHUNK. p = base + k * stride + data_off"
    then obtain x k where x: "x \<in> set ?xs" "k < CHUNK" "p = fst x + k * stride + data_off"
      by (auto simp: split_beta)
    have "k * stride + data_off < Suc k * stride" using off by simp
    also have "\<dots> \<le> stride * CHUNK" using x(2) by (metis Suc_leI mult.commute mult_le_mono2)
    finally have lt: "k * stride + data_off < stride * CHUNK" .
    with inside [OF x(1)] x(3) have at: "x = ?xs ! (?at - 1)" "?at \<noteq> 0" by simp_all
    have "(k * stride + data_off) mod stride = data_off" using off by simp
    with at lt x(3) s0 show "contains_data_ptr stride data_off s p"
      by (simp add: contains_data_ptr_def Let_def split_beta)
  qed
qed

section \<open>Properties\<close>

text \<open>
  C30: memory the kernel may still write is pinned.  In any run of the slab, an operation that is
  in flight stays in flight, its slot off the freelist and never handed to another operation,
  until its own completion is reaped, however it is cancelled, released or raced meanwhile.
\<close>

theorem in_flight_pinned:
  assumes "slab_run mk slab_new cs s" "slab_state s oid = Some st" "flying st"
    and "slab_run mk s ds s'" "S_complete oid \<notin> set ds"
  shows "(\<exists>st'. slab_state s' oid = Some st' \<and> flying st') \<and> op_index oid \<notin> set (freelist s') \<and>
    (\<forall>addr k oid'. S_post addr k oid' \<in> set ds \<longrightarrow> op_index oid' \<noteq> op_index oid)"
proof -
  have ok: "slab_ok s" by (rule slab_run_ok [OF assms(1) slab_ok_new])
  have ok': "slab_ok s'" by (rule slab_run_ok [OF assms(4) ok])
  note f = flying_run [OF assms(4) ok assms(2,3,5)]
  then obtain sl where "slab_slot s' (op_index oid) = Some sl" "flying (ostate sl)"
    by (auto simp: slab_state_def split: option.splits if_splits)
  with ok' have "op_index oid \<notin> set (freelist s')" by (auto simp: slab_ok_def flying_def)
  with f show ?thesis by blast
qed

text \<open>A posted and cancelled operation, for the witnesses.\<close>

definition op0 :: op_id where
  "op0 = \<lparr>op_index = 0, op_gen = 0\<rparr>"

abbreviation posted_slab :: "nat slab" where
  "posted_slab \<equiv> snd (slab_post 4096 0 Recv slab_new)"

lemma room_new: "slab_room slab_new"
  by (simp add: slab_room_def slab_capacity_def slab_new_def CHUNK_def)

lemma post_first: "slab_post 4096 (0::nat) Recv slab_new = (op0, posted_slab)"
proof -
  have f: "freelist (slab_grow 4096 (0::nat) slab_new) = 0 # [1..<CHUNK]"
    using grow_freelist [of "slab_new :: nat slab" 4096 0]
    by (simp add: slab_capacity_def slab_new_def upt_conv_Cons)
  have "fst (slab_post 4096 (0::nat) Recv slab_new) = op0"
    by (simp add: slab_post_def Let_def f grow_slot op0_def)
      (simp add: slab_new_def slab_capacity_def)
  then show ?thesis by (metis prod.collapse)
qed

lemma posted_slot:
  "\<exists>sl. slab_slot posted_slab 0 = Some sl \<and> ostate sl = Posted \<and> generation sl = 0"
  "in_flight posted_slab = 1"
proof -
  from post_spec [OF slab_ok_new room_new post_first] obtain s1 sl where
    "op_gen op0 = generation sl" "in_flight posted_slab = in_flight (slab_new :: nat slab) + 1"
    "slab_slot posted_slab = (slab_slot s1)(op_index op0 := Some (sl\<lparr>ostate := Posted, okind := Recv\<rparr>))"
    by metis
  then show "\<exists>sl. slab_slot posted_slab 0 = Some sl \<and> ostate sl = Posted \<and> generation sl = 0"
    "in_flight posted_slab = 1"
    by (simp_all add: op0_def slab_new_def)
qed

lemma run_post: "slab_run 0 slab_new [S_post 4096 Recv op0] posted_slab"
proof (rule run_call [OF _ run_done])
  show "slab_step 0 slab_new (S_post 4096 Recv op0) posted_slab"
    by (rule s_post [OF room_new post_first])
qed

theorem in_flight_pinned_witness:
  "op_index op0 \<notin> set (freelist (slab_release op0 posted_slab))"
proof -
  have st: "slab_state posted_slab op0 = Some Posted"
    using posted_slot(1) by (auto simp: slab_state_def op0_def)
  have "slab_run (0::nat) posted_slab [S_release op0]
      (slab_release op0 posted_slab)"
    by (rule run_call [OF s_release run_done])
  from in_flight_pinned [OF run_post st _ this] show ?thesis by (simp add: flying_def)
qed

text \<open>
  C31: a stale identifier never resolves.  After a completed operation is released, its id finds
  nothing and every operation on it is a no-op, through any later run in which the slot is
  recycled fewer than \<open>2 ^ 32 - 1\<close> more times (the generation's wrap-around).
\<close>

theorem stale_id_never_resolves:
  assumes "slab_run mk slab_new cs s" "slab_state s oid = Some Completed"
    and "slab_run mk (slab_release oid s) ds s'" "releases_of (op_index oid) ds < 2 ^ 32 - 1"
  shows "slab_get s' oid = None \<and> slab_state s' oid = None \<and> slab_complete oid s' = (None, s') \<and>
    mark_cancelled oid s' = (False, s') \<and> slab_release oid s' = s'"
proof -
  have ok: "slab_ok s" by (rule slab_run_ok [OF assms(1) slab_ok_new])
  from assms(2) obtain sl where sl: "slab_slot s (op_index oid) = Some sl" "generation sl = op_gen oid"
    "ostate sl = Completed" by (auto simp: slab_state_def split: option.splits if_splits)
  have "freelist (slab_release oid s) \<noteq> freelist s" using sl by (simp add: slab_release_def)
  then have "slab_release oid s \<noteq> s" by auto
  with release_spec [OF ok, of oid] sl have "slab_ok (slab_release oid s)"
    "slab_slot (slab_release oid s) (op_index oid) =
      Some (sl\<lparr>ostate := Free, generation := generation sl + 1\<rparr>)" by auto
  from generation_run [OF assms(3) this] obtain sl' n where
    sl': "slab_slot s' (op_index oid) = Some sl'" "n \<le> releases_of (op_index oid) ds"
    and g: "generation sl' = op_gen oid + word_of_nat (Suc n)"
    using sl(2) by (auto simp: ac_simps)
  have "Suc n < 2 ^ 32" using sl'(2) assms(4) by linarith
  with g add_small_neq [of "Suc n" "op_gen oid"] have "generation sl' \<noteq> op_gen oid" by simp
  with sl'(1) show ?thesis
    by (simp add: slab_get_def slab_state_def slab_complete_def mark_cancelled_def slab_release_def)
qed

theorem stale_id_never_resolves_witness:
  "slab_get (slab_reap op0 posted_slab) op0 = None"
proof -
  let ?s = "posted_slab"
  have "slab_step 0 ?s (S_complete op0) (snd (slab_complete op0 ?s))"
    by (rule s_complete) (rule prod.collapse [symmetric])
  then have run: "slab_run 0 slab_new [S_post 4096 Recv op0, S_complete op0] (snd (slab_complete op0 ?s))"
    by (intro run_call [OF s_post [OF room_new post_first]] run_call [OF _ run_done])
  have st: "slab_state (snd (slab_complete op0 ?s)) op0 = Some Completed"
    using posted_slot(1) slab_slot_set [OF _ slab_slot_lt] slab_run_ok [OF run_post slab_ok_new]
    by (fastforce simp: slab_complete_def slab_state_def op0_def slab_ok_def)
  have "releases_of (op_index op0) [] < 2 ^ 32 - 1" by (simp add: releases_of_def)
  note stale_id_never_resolves [OF run st run_done this]
  then show ?thesis by (simp only: slab_reap_def)
qed

text \<open>
  \<open>in_flight\<close> is exact: in every reachable state the ids that \<open>loop.close()\<close> cancels and
  drains are listed once each, are exactly the operations in flight, and there are
  \<open>in_flight\<close> of them.
\<close>

theorem in_flight_exact:
  assumes "slab_run mk slab_new cs s"
  shows "distinct (in_flight_ids s) \<and> length (in_flight_ids s) = in_flight s \<and>
    (\<forall>oid. oid \<in> set (in_flight_ids s) \<longleftrightarrow> (\<exists>st. slab_state s oid = Some st \<and> flying st))"
  using in_flight_ids_spec [OF slab_run_ok [OF assms slab_ok_new]] by blast

theorem in_flight_exact_witness:
  "length (in_flight_ids posted_slab) = 1"
  using in_flight_exact [OF run_post] posted_slot(2) by simp

text \<open>
  The pointer screen is exact.  With the chunks at disjoint addresses, a completion's pointer
  passes \<open>contains_data_ptr\<close> exactly when it is the address of the payload of some slot, so no
  foreign or misaligned pointer is ever cast back to an operation; and posting keeps the
  address table sorted, wherever the allocator puts a new chunk.
\<close>

theorem pointer_screen_exact:
  assumes "addr_ok (stride * CHUNK) s" "data_off < stride"
  shows "(contains_data_ptr stride data_off s p \<longleftrightarrow>
      (\<exists>(base, ci)\<in>set (by_addr s). \<exists>k<CHUNK. p = base + k * stride + data_off)) \<and>
    (\<forall>addr mk k. fresh_chunk (stride * CHUNK) addr s \<longrightarrow>
       addr_ok (stride * CHUNK) (snd (slab_post addr mk k s)))"
  using contains_data_ptr_iff [OF assms] addr_ok_post [OF assms(1)] assms(2) by simp

theorem pointer_screen_exact_witness:
  "contains_data_ptr 64 8 posted_slab 4168 \<longleftrightarrow>
    (\<exists>(base, ci)\<in>set (by_addr posted_slab).
       \<exists>k<CHUNK. 4168 = base + k * 64 + 8)"
proof -
  have "addr_ok (64 * CHUNK) posted_slab"
    by (rule addr_ok_post [OF addr_ok_new]) (simp_all add: fresh_chunk_def slab_new_def)
  from pointer_screen_exact [OF this, of 8] show ?thesis by simp
qed

end
