(* ===== verification/Buffer_Pool.thy ===== *)
theory Buffer_Pool
  imports Contracts
begin

text \<open>
  The receive-buffer slabs (\<open>buffers.rs\<close>): size classes, regions carved into refcounted slots, a
  freelist per class, generations that retire an id when its slot is recycled, and the
  accounting of what the pool keeps from the OS.  What the OS answers is an argument: the
  region a growth obtains (built by \<open>region_alloc\<close> from the platform's allocation results)
  and whether a page-out succeeded.  Slot contents (the debug poison) are not modelled.
\<close>

datatype size_class = S4K | S16K | S64K

fun class_size :: "size_class \<Rightarrow> nat" where
  "class_size S4K = 4 * 1024"
| "class_size S16K = 16 * 1024"
| "class_size S64K = 64 * 1024"

definition REGION_SIZE :: nat where
  "REGION_SIZE = 2 * 1024 * 1024"

definition fitting :: "nat \<Rightarrow> size_class option" where
  "fitting n =
     (if n \<le> 4096 then Some S4K
      else if 4097 \<le> n \<and> n \<le> 16384 then Some S16K
      else if 16385 \<le> n \<and> n \<le> 65536 then Some S64K
      else None)"

definition slots_per_region :: "size_class \<Rightarrow> nat" where
  "slots_per_region c = REGION_SIZE div class_size c"

definition after_read :: "size_class \<Rightarrow> nat \<Rightarrow> bool \<Rightarrow> size_class" where
  "after_read c bytes follows_full =
     (if bytes \<ge> class_size c then (case c of S4K \<Rightarrow> S16K | _ \<Rightarrow> S64K)
      else if follows_full then c
      else if bytes \<le> 1024 then S4K
      else if c = S64K \<and> bytes \<le> 4096 then S16K
      else c)"

record slot_id =
  bclass :: size_class
  bindex :: nat
  bgen :: u32

record region =
  rptr :: nat
  rio_buffer_id :: "u64 option"
  large_pages :: bool
  fresh_held :: bool

definition region_pageable :: "region \<Rightarrow> bool" where
  "region_pageable r \<longleftrightarrow> rio_buffer_id r = None \<and> \<not> large_pages r"

datatype platform = Windows | Linux | Other_platform

text \<open>
  \<open>Region::alloc\<close>, from the addresses the platform's allocators return: \<open>large\<close> for the
  large-page attempt (Windows), \<open>addr\<close> for the ordinary one.  None is the failed assertion.
\<close>

definition region_alloc :: "platform \<Rightarrow> bool \<Rightarrow> nat option \<Rightarrow> nat option \<Rightarrow> region option" where
  "region_alloc pf commit large addr =
     (let plain = (\<lambda>held. map_option (\<lambda>p. \<lparr>rptr = p, rio_buffer_id = None, large_pages = False,
                    fresh_held = held\<rparr>) addr)
      in case pf of
           Windows \<Rightarrow>
             (case large of
                Some p \<Rightarrow> Some \<lparr>rptr = p, rio_buffer_id = None, large_pages = True, fresh_held = True\<rparr>
              | None \<Rightarrow> plain commit)
         | Linux \<Rightarrow> plain False
         | Other_platform \<Rightarrow> plain True)"

definition RESIDENT_FREE_SLOTS :: nat where
  "RESIDENT_FREE_SLOTS = 256"

definition PAGES_OUT :: "platform \<Rightarrow> bool" where
  "PAGES_OUT pf \<longleftrightarrow> pf = Linux \<or> pf = Windows"

section \<open>One class\<close>

text \<open>The freelist is the deque front to back: slots are handed out from its end.\<close>

record class_pool =
  pclass :: size_class
  regions :: "region list"
  bfreelist :: "nat list"
  refcounts :: "nat list"
  generations :: "u32 list"
  paged_out :: "bool list"
  resident_free :: nat
  stale_rejections :: nat
  bin_use :: nat
  commit_regions :: bool

definition class_new :: "size_class \<Rightarrow> class_pool" where
  "class_new c = \<lparr>pclass = c, regions = [], bfreelist = [], refcounts = [], generations = [],
     paged_out = [], resident_free = 0, stale_rejections = 0, bin_use = 0, commit_regions = False\<rparr>"

definition add_region :: "region \<Rightarrow> class_pool \<Rightarrow> class_pool" where
  "add_region reg p =
     (let base = as_u32 (length (regions p) * slots_per_region (pclass p));
          n = slots_per_region (pclass p);
          held = fresh_held reg
      in p\<lparr>regions := regions p @ [reg],
           refcounts := refcounts p @ replicate n 0,
           generations := generations p @ replicate n 0,
           paged_out := paged_out p @ replicate n (\<not> held),
           resident_free := (if held then resident_free p + n else resident_free p),
           bfreelist := bfreelist p @ map (\<lambda>i. base + i) (rev [0..<n])\<rparr>)"

definition class_live :: "slot_id \<Rightarrow> class_pool \<Rightarrow> bool" where
  "class_live b p \<longleftrightarrow> bindex b < length (refcounts p) \<and> refcounts p ! bindex b > 0 \<and>
     bindex b < length (generations p) \<and> generations p ! bindex b = bgen b"

definition slot_pageable :: "nat \<Rightarrow> class_pool \<Rightarrow> bool" where
  "slot_pageable i p = region_pageable (regions p ! (i div slots_per_region (pclass p)))"

definition class_slot_ptr :: "nat \<Rightarrow> class_pool \<Rightarrow> nat" where
  "class_slot_ptr i p =
     (let per = slots_per_region (pclass p)
      in rptr (regions p ! (i div per)) + (i mod per) * class_size (pclass p))"

text \<open>The class's part of \<open>acquire\<close>; \<open>reg\<close> is the region a growth obtains.\<close>

definition class_acquire :: "region \<Rightarrow> class_pool \<Rightarrow> slot_id \<times> class_pool" where
  "class_acquire reg p =
     (let p = (if bfreelist p = [] then add_region reg p else p);
          i = last (bfreelist p);
          p = p\<lparr>bfreelist := butlast (bfreelist p)\<rparr>;
          p = (if paged_out p ! i then p\<lparr>paged_out := (paged_out p)[i := False]\<rparr>
               else p\<lparr>resident_free := resident_free p - 1\<rparr>)
      in (\<lparr>bclass = pclass p, bindex = i, bgen = generations p ! i\<rparr>,
          p\<lparr>refcounts := (refcounts p)[i := 1], bin_use := bin_use p + 1\<rparr>))"

definition class_retain :: "slot_id \<Rightarrow> class_pool \<Rightarrow> class_pool" where
  "class_retain b p =
     (if \<not> class_live b p then p\<lparr>stale_rejections := stale_rejections p + 1\<rparr>
      else p\<lparr>refcounts := (refcounts p)[bindex b := as_u32 (refcounts p ! bindex b + 1)]\<rparr>)"

text \<open>\<open>paged\<close> is what \<open>page_out\<close> answers, if it is called.\<close>

definition class_release :: "platform \<Rightarrow> bool \<Rightarrow> slot_id \<Rightarrow> class_pool \<Rightarrow> bool \<times> class_pool" where
  "class_release pf paged b p =
     (if \<not> class_live b p then (False, p\<lparr>stale_rejections := stale_rejections p + 1\<rparr>)
      else
        (let i = bindex b; rc = refcounts p ! i - 1; p = p\<lparr>refcounts := (refcounts p)[i := rc]\<rparr>
         in if rc \<noteq> 0 then (False, p)
            else
              (let p = p\<lparr>generations := (generations p)[i := generations p ! i + 1],
                         bin_use := bin_use p - 1\<rparr>
               in (True,
                   if PAGES_OUT pf \<and> resident_free p \<ge> RESIDENT_FREE_SLOTS \<and> slot_pageable i p \<and> paged
                   then p\<lparr>paged_out := (paged_out p)[i := True], bfreelist := i # bfreelist p\<rparr>
                   else p\<lparr>resident_free := resident_free p + 1, bfreelist := bfreelist p @ [i]\<rparr>))))"

definition class_refcount :: "slot_id \<Rightarrow> class_pool \<Rightarrow> nat" where
  "class_refcount b p = (if class_live b p then refcounts p ! bindex b else 0)"

definition class_bytes_held :: "class_pool \<Rightarrow> nat" where
  "class_bytes_held p =
     length (regions p) * REGION_SIZE -
       (length (bfreelist p) - resident_free p) * class_size (pclass p)"

section \<open>The pool\<close>

record buffer_pool =
  classes :: "size_class \<Rightarrow> class_pool"
  regions_dirty :: bool

definition pool_new :: buffer_pool where
  "pool_new = \<lparr>classes = class_new, regions_dirty = False\<rparr>"

definition set_class :: "size_class \<Rightarrow> class_pool \<Rightarrow> buffer_pool \<Rightarrow> buffer_pool" where
  "set_class c p bp = bp\<lparr>classes := (classes bp)(c := p)\<rparr>"

definition buf_acquire :: "region \<Rightarrow> size_class \<Rightarrow> buffer_pool \<Rightarrow> slot_id \<times> buffer_pool" where
  "buf_acquire reg c bp =
     (let bp = (if bfreelist (classes bp c) = [] then bp\<lparr>regions_dirty := True\<rparr> else bp);
          (b, p) = class_acquire reg (classes bp c)
      in (b, set_class c p bp))"

definition buf_retain :: "slot_id \<Rightarrow> buffer_pool \<Rightarrow> buffer_pool" where
  "buf_retain b bp = set_class (bclass b) (class_retain b (classes bp (bclass b))) bp"

definition buf_release :: "platform \<Rightarrow> bool \<Rightarrow> slot_id \<Rightarrow> buffer_pool \<Rightarrow> bool \<times> buffer_pool" where
  "buf_release pf paged b bp =
     (let (freed, p) = class_release pf paged b (classes bp (bclass b))
      in (freed, set_class (bclass b) p bp))"

definition buf_refcount :: "slot_id \<Rightarrow> buffer_pool \<Rightarrow> nat" where
  "buf_refcount b bp = class_refcount b (classes bp (bclass b))"

definition buf_slot_ptr :: "slot_id \<Rightarrow> buffer_pool \<Rightarrow> nat" where
  "buf_slot_ptr b bp = class_slot_ptr (bindex b) (classes bp (bclass b))"

definition all_classes :: "size_class list" where
  "all_classes = [S4K, S16K, S64K]"

definition buf_in_use :: "buffer_pool \<Rightarrow> nat" where
  "buf_in_use bp = sum_list (map (\<lambda>c. bin_use (classes bp c)) all_classes)"

definition bytes_in_use :: "buffer_pool \<Rightarrow> nat" where
  "bytes_in_use bp =
     sum_list (map (\<lambda>c. bin_use (classes bp c) * class_size (pclass (classes bp c))) all_classes)"

definition bytes_held :: "buffer_pool \<Rightarrow> nat" where
  "bytes_held bp = sum_list (map (\<lambda>c. class_bytes_held (classes bp c)) all_classes)"

definition buf_stale_rejections :: "buffer_pool \<Rightarrow> nat" where
  "buf_stale_rejections bp = sum_list (map (\<lambda>c. stale_rejections (classes bp c)) all_classes)"

definition any_large_pages :: "buffer_pool \<Rightarrow> bool" where
  "any_large_pages bp = list_ex (\<lambda>c. list_ex large_pages (regions (classes bp c))) all_classes"

definition set_commit_regions :: "bool \<Rightarrow> buffer_pool \<Rightarrow> buffer_pool" where
  "set_commit_regions commit bp =
     bp\<lparr>classes := (\<lambda>c. (classes bp c)\<lparr>commit_regions := commit\<rparr>)\<rparr>"

definition take_regions_dirty :: "buffer_pool \<Rightarrow> bool \<times> buffer_pool" where
  "take_regions_dirty bp = (regions_dirty bp, bp\<lparr>regions_dirty := False\<rparr>)"

text \<open>
  \<open>unregistered_regions_mut\<close> and the backend's \<open>register_buffers\<close>, which fills the cookies:
  \<open>cookie\<close> is what the kernel answers for a region.
\<close>

definition unregistered_regions :: "buffer_pool \<Rightarrow> (nat \<times> nat) list" where
  "unregistered_regions bp = concat (map (\<lambda>c. map (\<lambda>r. (rptr r, REGION_SIZE))
     (filter (\<lambda>r. rio_buffer_id r = None) (regions (classes bp c)))) all_classes)"

definition fill_cookies :: "(nat \<Rightarrow> u64 option) \<Rightarrow> buffer_pool \<Rightarrow> buffer_pool" where
  "fill_cookies cookie bp = bp\<lparr>classes := (\<lambda>c. (classes bp c)\<lparr>regions :=
     map (\<lambda>r. if rio_buffer_id r = None then r\<lparr>rio_buffer_id := cookie (rptr r)\<rparr> else r)
       (regions (classes bp c))\<rparr>)\<rparr>"

section \<open>The invariant of a class\<close>

definition class_slots :: "class_pool \<Rightarrow> nat" where
  "class_slots p = length (regions p) * slots_per_region (pclass p)"

definition class_ok :: "class_pool \<Rightarrow> bool" where
  "class_ok p \<longleftrightarrow>
     length (refcounts p) = class_slots p \<and> length (generations p) = class_slots p \<and>
     length (paged_out p) = class_slots p \<and> class_slots p \<le> 2 ^ 32 \<and>
     distinct (bfreelist p) \<and>
     (\<forall>i. i \<in> set (bfreelist p) \<longleftrightarrow> i < class_slots p \<and> refcounts p ! i = 0) \<and>
     (\<forall>i<class_slots p. paged_out p ! i \<longrightarrow> refcounts p ! i = 0) \<and>
     (\<forall>i<class_slots p. refcounts p ! i < 2 ^ 32) \<and>
     sorted_wrt (\<lambda>i j. paged_out p ! j \<longrightarrow> paged_out p ! i) (bfreelist p) \<and>
     resident_free p = length (filter (\<lambda>i. \<not> paged_out p ! i) (bfreelist p)) \<and>
     bin_use p + length (bfreelist p) = class_slots p"

lemma slots_per_region_simps [simp]:
  "slots_per_region S4K = 512" "slots_per_region S16K = 128" "slots_per_region S64K = 32"
  by (simp_all add: slots_per_region_def REGION_SIZE_def)

lemma slots_per_region_pos [simp]: "0 < slots_per_region c"
  by (cases c) simp_all

lemma slots_times_size: "slots_per_region c * class_size c = REGION_SIZE"
  by (cases c) (simp_all add: REGION_SIZE_def)

lemma class_ok_new: "class_ok (class_new c)"
  by (simp add: class_ok_def class_new_def class_slots_def)

text \<open>Room to acquire: a free slot, or a region that keeps the indices in the \<open>u32\<close> range.\<close>

definition class_room :: "class_pool \<Rightarrow> bool" where
  "class_room p \<longleftrightarrow> bfreelist p \<noteq> [] \<or> class_slots p + slots_per_region (pclass p) \<le> 2 ^ 32"

lemma add_region_simps:
  "pclass (add_region reg p) = pclass p" "bin_use (add_region reg p) = bin_use p"
  "class_slots (add_region reg p) = class_slots p + slots_per_region (pclass p)"
  "refcounts (add_region reg p) = refcounts p @ replicate (slots_per_region (pclass p)) 0"
  "generations (add_region reg p) = generations p @ replicate (slots_per_region (pclass p)) 0"
  by (simp_all add: add_region_def class_slots_def Let_def)

lemma add_region_freelist:
  "class_slots p < 2 ^ 32 \<Longrightarrow> bfreelist (add_region reg p) =
     bfreelist p @ rev [class_slots p..<class_slots p + slots_per_region (pclass p)]"
proof -
  assume "class_slots p < 2 ^ 32"
  moreover have "map (\<lambda>i. b + i) [0..<n] = [b..<b + n]" for b n :: nat by (induction n) auto
  ultimately show ?thesis by (simp add: add_region_def Let_def class_slots_def flip: rev_map)
qed

lemma class_ok_add_region:
  assumes "class_ok p" "bfreelist p = []" "class_room p"
  shows "class_ok (add_region reg p)"
proof -
  let ?n = "slots_per_region (pclass p)" and ?q = "add_region reg p"
  have room: "class_slots p + ?n \<le> 2 ^ 32" using assms by (simp add: class_room_def)
  then have lt: "class_slots p < 2 ^ 32" using slots_per_region_pos [of "pclass p"] by linarith
  note fl = add_region_freelist [OF lt, of reg]
  have po: "paged_out ?q = paged_out p @ replicate ?n (\<not> fresh_held reg)"
    and rf: "resident_free ?q = (if fresh_held reg then resident_free p + ?n else resident_free p)"
    by (simp_all add: add_region_def Let_def)
  have len: "length (paged_out p) = class_slots p" using assms(1) by (simp add: class_ok_def)
  have new: "paged_out ?q ! i \<longleftrightarrow> \<not> fresh_held reg" if "class_slots p \<le> i" "i < class_slots p + ?n" for i
    using that len by (simp add: po nth_append)
  have "sorted_wrt (\<lambda>i j. paged_out ?q ! j \<longrightarrow> paged_out ?q ! i) (bfreelist ?q)"
    unfolding fl assms(2) by (auto simp: sorted_wrt_iff_nth_less rev_nth new)
  moreover have "filter (\<lambda>i. \<not> paged_out ?q ! i) (bfreelist ?q) =
      (if fresh_held reg then bfreelist ?q else [])"
    unfolding fl assms(2) by (auto simp: filter_empty_conv filter_id_conv new simp flip: rev_filter)
  moreover have "resident_free p = 0" using assms by (simp add: class_ok_def)
  ultimately show ?thesis
    using assms(1,2) room
    by (auto simp: class_ok_def add_region_simps fl po rf nth_append)
qed

end
