(* ===== verification/Buffer_Pool_Props.thy ===== *)
theory Buffer_Pool_Props
  imports Buffer_Pool
begin

text \<open>
  The buffer slabs proved: the class invariant under every operation, ids that name one owner
  group at a time (the identifier contract), the accounting and the disjointness of slots.
\<close>

section \<open>Each operation\<close>

lemma class_okD:
  assumes "class_ok p"
  shows "length (refcounts p) = class_slots p" "length (generations p) = class_slots p"
    "length (paged_out p) = class_slots p" "distinct (bfreelist p)"
    "i \<in> set (bfreelist p) \<longleftrightarrow> i < class_slots p \<and> refcounts p ! i = 0"
    "class_slots p \<le> 2 ^ 32" "bin_use p + length (bfreelist p) = class_slots p"
    "i < class_slots p \<Longrightarrow> paged_out p ! i \<Longrightarrow> refcounts p ! i = 0"
  using assms by (auto simp: class_ok_def)

lemma class_live_iff:
  "class_ok p \<Longrightarrow> class_live b p \<longleftrightarrow>
     bindex b < class_slots p \<and> refcounts p ! bindex b > 0 \<and> generations p ! bindex b = bgen b"
  using class_okD [of p] by (auto simp: class_live_def)

lemma class_slots_upd [simp]:
  "class_slots (p\<lparr>refcounts := r\<rparr>) = class_slots p" "class_slots (p\<lparr>generations := g\<rparr>) = class_slots p"
  "class_slots (p\<lparr>paged_out := po\<rparr>) = class_slots p" "class_slots (p\<lparr>resident_free := n\<rparr>) = class_slots p"
  "class_slots (p\<lparr>stale_rejections := n\<rparr>) = class_slots p" "class_slots (p\<lparr>bin_use := n\<rparr>) = class_slots p"
  "class_slots (p\<lparr>bfreelist := fl\<rparr>) = class_slots p"
  by (simp_all add: class_slots_def)

text \<open>Handing out the last free slot, once there is one.\<close>

lemma class_ok_take:
  assumes ok: "class_ok p" and ne: "bfreelist p \<noteq> []" and i: "i = last (bfreelist p)"
    and q: "q = (if paged_out p ! i then p\<lparr>paged_out := (paged_out p)[i := False]\<rparr>
                 else p\<lparr>resident_free := resident_free p - 1\<rparr>)
              \<lparr>bfreelist := butlast (bfreelist p), refcounts := (refcounts p)[i := 1],
               bin_use := bin_use p + 1\<rparr>"
  shows "class_ok q"
proof -
  let ?fl = "bfreelist p"
  note d = class_okD [OF ok]
  have fl: "?fl = butlast ?fl @ [i]" using ne i by simp
  have "i \<in> set ?fl" using ne i by simp
  then have il: "i < class_slots p" "refcounts p ! i = 0" using d(5) [of i] by blast+
  have dist: "i \<notin> set (butlast ?fl)" "distinct (butlast ?fl)"
  proof -
    have "distinct (butlast ?fl @ [i])" using d(4) fl by metis
    then show "i \<notin> set (butlast ?fl)" "distinct (butlast ?fl)" by simp_all
  qed
  have mem: "j \<in> set (butlast ?fl) \<longleftrightarrow> j < class_slots p \<and> (refcounts p)[i := 1] ! j = 0" for j
  proof -
    have "set ?fl = set (butlast ?fl @ [i])" using fl by (rule arg_cong)
    then have "j \<in> set ?fl \<longleftrightarrow> j \<in> set (butlast ?fl) \<or> j = i" by auto
    with dist il d(5) [of j] d(1) show ?thesis by (cases "j = i") auto
  qed
  define po where "po = (if paged_out p ! i then (paged_out p)[i := False] else paged_out p)"
  have po: "po ! j = paged_out p ! j" if "j \<in> set (butlast ?fl)" for j
  proof -
    have "j \<noteq> i" using that dist by blast
    then show ?thesis by (simp add: po_def)
  qed
  have srt: "sorted_wrt (\<lambda>i j. paged_out p ! j \<longrightarrow> paged_out p ! i) (butlast ?fl @ [i])"
    using ok by (simp add: class_ok_def flip: fl)
  have s: "sorted_wrt (\<lambda>i j. po ! j \<longrightarrow> po ! i) (butlast ?fl)"
  proof (rule sorted_wrt_mono_rel)
    show "sorted_wrt (\<lambda>i j. paged_out p ! j \<longrightarrow> paged_out p ! i) (butlast ?fl)"
      using srt by (simp add: sorted_wrt_append)
  qed (simp only: po)
  have fo: "filter (\<lambda>j. \<not> po ! j) (butlast ?fl) = filter (\<lambda>j. \<not> paged_out p ! j) (butlast ?fl)"
    by (rule filter_cong) (simp_all add: po)
  have rf: "resident_free p = length (filter (\<lambda>j. \<not> paged_out p ! j) (butlast ?fl @ [i]))"
    and use: "bin_use p + length (butlast ?fl @ [i]) = class_slots p"
    using ok by (simp_all add: class_ok_def flip: fl)
  have pz: "refcounts p ! j = 0" "j \<noteq> i" if "po ! j" "j < class_slots p" for j
    using that ok il d(3) by (auto simp: po_def class_ok_def nth_list_update split: if_splits)
  have sel: "refcounts q = (refcounts p)[i := 1]" "generations q = generations p" "paged_out q = po"
    "bfreelist q = butlast ?fl" "bin_use q = bin_use p + 1" "class_slots q = class_slots p"
    "resident_free q = (if paged_out p ! i then resident_free p else resident_free p - 1)"
    by (simp_all add: q po_def)
  have "length po = class_slots p" using d(3) by (simp add: po_def)
  moreover have "\<forall>j<class_slots p. (refcounts p)[i := 1] ! j < 2 ^ 32"
  proof (intro allI impI)
    fix j assume "j < class_slots p"
    then show "(refcounts p)[i := 1] ! j < 2 ^ 32"
      using ok d(1) by (cases "j = i") (simp_all add: class_ok_def)
  qed
  moreover have "\<forall>j<class_slots p. po ! j \<longrightarrow> (refcounts p)[i := 1] ! j = 0"
    using pz by (metis nth_list_update_neq)
  moreover have "(if paged_out p ! i then resident_free p else resident_free p - 1) =
      length (filter (\<lambda>j. \<not> po ! j) (butlast ?fl))"
    using rf by (simp add: fo)
  ultimately show ?thesis
    unfolding class_ok_def sel using d dist mem s use by simp
qed

lemma acquire_spec:
  assumes ok: "class_ok p" and room: "class_room p" and a: "class_acquire reg p = (b, q)"
  obtains p1 where "p1 = (if bfreelist p = [] then add_region reg p else p)" "class_ok p1"
    "class_ok q" "bindex b < class_slots p1" "refcounts p1 ! bindex b = 0"
    "bgen b = generations p1 ! bindex b" "bclass b = pclass p"
    "refcounts q = (refcounts p1)[bindex b := 1]" "generations q = generations p1"
    "class_slots q = class_slots p1" "pclass q = pclass p" "regions q = regions p1"
    "resident_free q \<le> resident_free p1" "stale_rejections q = stale_rejections p1"
    "bin_use q = bin_use p + 1"
proof -
  define p1 where "p1 = (if bfreelist p = [] then add_region reg p else p)"
  have ok1: "class_ok p1" using ok room class_ok_add_region by (auto simp: p1_def)
  have ne: "bfreelist p1 \<noteq> []"
  proof (cases "bfreelist p = []")
    case True
    with room have "class_slots p < 2 ^ 32"
      using slots_per_region_pos [of "pclass p"] unfolding class_room_def by linarith
    from add_region_freelist [OF this] show ?thesis by (simp add: p1_def True)
  qed (simp add: p1_def)
  let ?i = "last (bfreelist p1)"
  have q: "q = (if paged_out p1 ! ?i then p1\<lparr>paged_out := (paged_out p1)[?i := False]\<rparr>
                 else p1\<lparr>resident_free := resident_free p1 - 1\<rparr>)
              \<lparr>bfreelist := butlast (bfreelist p1), refcounts := (refcounts p1)[?i := 1],
               bin_use := bin_use p1 + 1\<rparr>"
    and b: "b = \<lparr>bclass = pclass p1, bindex = ?i, bgen = generations p1 ! ?i\<rparr>"
    using a by (cases "paged_out p1 ! ?i"; auto simp: class_acquire_def p1_def [symmetric] Let_def)+
  have "class_ok q" by (rule class_ok_take [OF ok1 ne refl q])
  moreover have "?i < class_slots p1" "refcounts p1 ! ?i = 0"
    using class_okD(5) [OF ok1, of ?i] last_in_set [OF ne] by blast+
  moreover have "refcounts q = (refcounts p1)[?i := 1]" "generations q = generations p1"
    "class_slots q = class_slots p1" "pclass q = pclass p1" "regions q = regions p1"
    "resident_free q \<le> resident_free p1" "stale_rejections q = stale_rejections p1"
    "bin_use q = bin_use p1 + 1"
    by (simp_all add: q)
  moreover have "pclass p1 = pclass p" "bin_use p1 = bin_use p"
    by (simp_all add: p1_def add_region_simps)
  ultimately show thesis by (intro that [OF p1_def ok1]) (simp_all add: b)
qed

lemma class_ok_retain [inv_keep]: "class_ok p \<Longrightarrow> class_refcount b p < 2 ^ 32 - 1 \<Longrightarrow> class_ok (class_retain b p)"
proof (cases "class_live b p")
  case True
  assume ok: "class_ok p" and rc: "class_refcount b p < 2 ^ 32 - 1"
  let ?i = "bindex b"
  have "?i < class_slots p" "refcounts p ! ?i > 0" using True class_live_iff [OF ok] by auto
  moreover have "as_u32 (refcounts p ! ?i + 1) = refcounts p ! ?i + 1"
    using rc True by (simp add: class_refcount_def)
  ultimately show ?thesis
    using ok rc True
    by (auto simp: class_ok_def class_retain_def class_refcount_def nth_list_update)
next
  case False
  then show "class_ok p \<Longrightarrow> class_ok (class_retain b p)"
    by (auto simp: class_ok_def class_retain_def)
qed

lemma retain_live:
  assumes "class_ok p" "class_live b p" "class_refcount b p < 2 ^ 32 - 1"
  shows "refcounts (class_retain b p) = (refcounts p)[bindex b := refcounts p ! bindex b + 1]"
    "generations (class_retain b p) = generations p" "class_slots (class_retain b p) = class_slots p"
  using assms by (auto simp: class_retain_def class_refcount_def)

lemma release_stale:
  "\<not> class_live b p \<Longrightarrow>
     class_release pf paged b p = (False, p\<lparr>stale_rejections := stale_rejections p + 1\<rparr>)"
  by (simp add: class_release_def)

lemma release_shared:
  assumes "class_live b p" "refcounts p ! bindex b \<noteq> 1"
  shows "class_release pf paged b p =
    (False, p\<lparr>refcounts := (refcounts p)[bindex b := refcounts p ! bindex b - 1]\<rparr>)"
  using assms by (auto simp: class_release_def class_live_def Let_def)

lemma release_last:
  assumes "class_live b p" "refcounts p ! bindex b = 1"
  shows "\<exists>po rf fl. class_release pf paged b p =
      (True, p\<lparr>refcounts := (refcounts p)[bindex b := 0],
         generations := (generations p)[bindex b := generations p ! bindex b + 1],
         bin_use := bin_use p - 1, paged_out := po, resident_free := rf, bfreelist := fl\<rparr>) \<and>
      (PAGES_OUT pf \<and> RESIDENT_FREE_SLOTS \<le> resident_free p \<and> slot_pageable (bindex b) p \<and> paged \<and>
         po = (paged_out p)[bindex b := True] \<and> rf = resident_free p \<and> fl = bindex b # bfreelist p \<or>
       \<not> (PAGES_OUT pf \<and> RESIDENT_FREE_SLOTS \<le> resident_free p \<and> slot_pageable (bindex b) p \<and> paged) \<and>
         po = paged_out p \<and> rf = resident_free p + 1 \<and> fl = bfreelist p @ [bindex b])"
proof -
  have sp: "slot_pageable i (p\<lparr>refcounts := r, generations := g, bin_use := n\<rparr>) = slot_pageable i p" for i r g n
    by (simp add: slot_pageable_def)
  show ?thesis
    using assms by (cases p) (auto simp: class_release_def Let_def sp slot_pageable_def)
qed

lemma class_ok_release:
  assumes ok: "class_ok p"
  shows "class_ok (snd (class_release pf paged b p))"
proof (cases "class_live b p")
  case False
  with ok show ?thesis by (auto simp: release_stale class_ok_def)
next
  case True
  let ?i = "bindex b"
  note d = class_okD [OF ok]
  have i: "?i < class_slots p" "refcounts p ! ?i > 0" using True class_live_iff [OF ok] by auto
  show ?thesis
  proof (cases "refcounts p ! ?i = 1")
    case False
    with release_shared [OF True False, of pf paged] ok i show ?thesis
      by (auto simp: class_ok_def nth_list_update)
  next
    case last: True
    have fresh: "?i \<notin> set (bfreelist p)" "\<not> paged_out p ! ?i" using i d(5,8) by auto
    have "card {..<class_slots p} \<ge> card (insert ?i (set (bfreelist p)))"
      using i d(5) by (intro card_mono) auto
    then have use: "bin_use p > 0" using fresh d(4,7) by (simp add: distinct_card)
    from release_last [OF True last, of pf paged] obtain po rf fl where
      r: "class_release pf paged b p = (True, p\<lparr>refcounts := (refcounts p)[?i := 0],
         generations := (generations p)[?i := generations p ! ?i + 1],
         bin_use := bin_use p - 1, paged_out := po, resident_free := rf, bfreelist := fl\<rparr>)"
      and c: "po = (paged_out p)[?i := True] \<and> rf = resident_free p \<and> fl = ?i # bfreelist p \<or>
        po = paged_out p \<and> rf = resident_free p + 1 \<and> fl = bfreelist p @ [?i]"
      by blast
    note e = r [THEN arg_cong, of snd, unfolded snd_conv]
    have po: "po ! j = paged_out p ! j" if "j \<in> set (bfreelist p)" for j
      using c that fresh by (metis nth_list_update_neq)
    have fo: "filter (\<lambda>j. \<not> po ! j) (bfreelist p) = filter (\<lambda>j. \<not> paged_out p ! j) (bfreelist p)"
      by (rule filter_cong) (simp_all add: po)
    have "sorted_wrt (\<lambda>i j. po ! j \<longrightarrow> po ! i) (bfreelist p)"
    proof (rule sorted_wrt_mono_rel)
      show "sorted_wrt (\<lambda>i j. paged_out p ! j \<longrightarrow> paged_out p ! i) (bfreelist p)"
        using ok by (simp add: class_ok_def)
    qed (simp only: po)
    then have srt: "sorted_wrt (\<lambda>i j. po ! j \<longrightarrow> po ! i) fl"
      using c fresh i d(3) by (auto simp: sorted_wrt_append)
    have rf: "rf = length (filter (\<lambda>j. \<not> po ! j) fl)"
      using c fo ok fresh i d(3) by (auto simp: class_ok_def)
    have fl: "distinct fl" "set fl = insert ?i (set (bfreelist p))" "length fl = length (bfreelist p) + 1"
      using c fresh d(4) by auto
    have pol: "length po = class_slots p" using c d(3) by auto
    have zero: "refcounts p ! j = 0" if "po ! j" "j < class_slots p" "j \<noteq> ?i" for j
      using that c ok by (auto simp: class_ok_def)
    show ?thesis
      using ok i srt rf fl pol use zero unfolding e
      by (auto simp: class_ok_def nth_list_update)
  qed
qed

section \<open>The pool\<close>

definition pool_ok :: "buffer_pool \<Rightarrow> bool" where
  "pool_ok bp \<longleftrightarrow> (\<forall>c. class_ok (classes bp c) \<and> pclass (classes bp c) = c)"

lemma pool_ok_new: "pool_ok pool_new"
  by (simp add: pool_ok_def pool_new_def class_ok_new) (simp add: class_new_def)

lemma set_class_simps [simp]:
  "classes (set_class c p bp) = (classes bp)(c := p)" "regions_dirty (set_class c p bp) = regions_dirty bp"
  by (simp_all add: set_class_def)

lemma pool_ok_set: "pool_ok bp \<Longrightarrow> class_ok p \<Longrightarrow> pclass p = c \<Longrightarrow> pool_ok (set_class c p bp)"
  by (simp add: pool_ok_def)

lemma refcount_iff:
  assumes "class_ok p"
  shows "class_refcount b p = (if bindex b < class_slots p \<and> generations p ! bindex b = bgen b
    then refcounts p ! bindex b else 0)"
  using class_live_iff [OF assms, of b] by (auto simp: class_refcount_def)

lemma slot_id_eqI:
  "bclass x = bclass y \<Longrightarrow> bindex x = bindex y \<Longrightarrow> bgen x = bgen y \<Longrightarrow> x = (y :: slot_id)"
  by (cases x, cases y) simp

text \<open>How each operation moves the count of an arbitrary id of the class.\<close>

lemma refcount_acquire:
  assumes "class_ok p" "class_room p" "class_acquire reg p = (b, q)" "bclass x = pclass p"
  shows "class_refcount x q = (if x = b then 1 else class_refcount x p)" "class_refcount b p = 0"
proof -
  from acquire_spec [OF assms(1-3)] obtain p1 where
    p1: "p1 = (if bfreelist p = [] then add_region reg p else p)" "class_ok p1" "class_ok q"
    "bindex b < class_slots p1" "refcounts p1 ! bindex b = 0" "bgen b = generations p1 ! bindex b"
    "bclass b = pclass p" "refcounts q = (refcounts p1)[bindex b := 1]" "generations q = generations p1"
    "class_slots q = class_slots p1" by metis
  have old: "class_refcount y p1 = class_refcount y p" for y
  proof (cases "bfreelist p = []")
    case True
    then show ?thesis
      unfolding refcount_iff [OF p1(2)] refcount_iff [OF assms(1)]
      using p1(1) class_okD(1,2) [OF assms(1)] by (auto simp: add_region_simps nth_append)
  qed (simp add: p1(1))
  have "class_refcount b p1 = 0" using p1(5) by (simp add: refcount_iff [OF p1(2)])
  then show "class_refcount b p = 0" by (simp add: old)
  have "class_refcount x q = (if x = b then 1 else class_refcount x p1)"
    unfolding refcount_iff [OF p1(3)] refcount_iff [OF p1(2)]
    using p1 assms(4) class_okD(1) [OF p1(2)] slot_id_eqI [of x b]
    by (cases "bindex x = bindex b") auto
  then show "class_refcount x q = (if x = b then 1 else class_refcount x p)" by (simp add: old)
qed

lemma refcount_retain:
  assumes "class_ok p" "class_refcount b p < 2 ^ 32 - 1" "bclass x = bclass b"
  shows "class_refcount x (class_retain b p) =
    (if x = b \<and> class_refcount b p > 0 then class_refcount b p + 1 else class_refcount x p)"
proof (cases "class_live b p")
  case True
  note l = True [unfolded class_live_iff [OF assms(1)]]
  note r = retain_live [OF assms(1) True assms(2)]
  show ?thesis
    unfolding refcount_iff [OF class_ok_retain [OF assms(1,2)]] refcount_iff [OF assms(1)] r
    using l assms(3) class_okD(1) [OF assms(1)] slot_id_eqI [of x b]
    by (cases "bindex x = bindex b") auto
next
  case False
  then show ?thesis by (auto simp: class_retain_def class_refcount_def class_live_def)
qed

lemma refcount_release:
  assumes "class_ok p" "class_release pf paged b p = (freed, q)" "bclass x = bclass b"
  shows "class_refcount x q = (if x = b then class_refcount b p - 1 else class_refcount x p)"
    "freed \<longleftrightarrow> class_refcount b p = 1"
proof -
  have okq: "class_ok q" using class_ok_release [OF assms(1), of pf paged b] assms(2) by simp
  have "class_refcount x q = (if x = b then class_refcount b p - 1 else class_refcount x p) \<and>
    (freed \<longleftrightarrow> class_refcount b p = 1)"
  proof (cases "class_live b p")
    case False
    then have "freed = False" "q = p\<lparr>stale_rejections := stale_rejections p + 1\<rparr>"
      using assms(2) by (simp_all add: release_stale)
    moreover have "class_refcount b p = 0" using False by (simp add: class_refcount_def)
    moreover have "class_refcount x (p\<lparr>stale_rejections := n\<rparr>) = class_refcount x p" for n
      by (simp add: class_refcount_def class_live_def)
    ultimately show ?thesis by simp
  next
    case True
    note l = True [unfolded class_live_iff [OF assms(1)]]
    have len: "length (refcounts p) = class_slots p" "length (generations p) = class_slots p"
      using class_okD [OF assms(1)] by simp_all
    have neq: "g + 1 \<noteq> (g :: u32)" for g by simp
    show ?thesis
    proof (cases "refcounts p ! bindex b = 1")
      case False
      then have q: "freed = False" "q = p\<lparr>refcounts := (refcounts p)[bindex b := refcounts p ! bindex b - 1]\<rparr>"
        using release_shared [OF True False, of pf paged] assms(2) by auto
      show ?thesis
        unfolding refcount_iff [OF okq] refcount_iff [OF assms(1)]
        using l False len q slot_id_eqI [of x b] assms(3)
        by (cases "bindex x = bindex b") auto
    next
      case last: True
      from release_last [OF True last, of pf paged] obtain po rf fl where
        r: "class_release pf paged b p = (True, p\<lparr>refcounts := (refcounts p)[bindex b := 0],
         generations := (generations p)[bindex b := generations p ! bindex b + 1],
         bin_use := bin_use p - 1, paged_out := po, resident_free := rf, bfreelist := fl\<rparr>)" by blast
      have q: "freed = True" "refcounts q = (refcounts p)[bindex b := 0]"
        "generations q = (generations p)[bindex b := generations p ! bindex b + 1]"
        "class_slots q = class_slots p"
        using r assms(2) by auto
      show ?thesis
        unfolding refcount_iff [OF okq] refcount_iff [OF assms(1)]
        using l last len q slot_id_eqI [of x b] assms(3)
        by (cases "bindex x = bindex b") auto
    qed
  qed
  then show "class_refcount x q = (if x = b then class_refcount b p - 1 else class_refcount x p)"
    "freed \<longleftrightarrow> class_refcount b p = 1" by blast+
qed

section \<open>Runs\<close>

datatype buf_call =
    B_acquire region size_class slot_id | B_retain slot_id | B_release bool slot_id bool

inductive buf_step :: "platform \<Rightarrow> buffer_pool \<Rightarrow> buf_call \<Rightarrow> buffer_pool \<Rightarrow> bool" for pf where
  b_acquire: "class_room (classes bp c) \<Longrightarrow> buf_acquire reg c bp = (b, bp') \<Longrightarrow>
     buf_step pf bp (B_acquire reg c b) bp'"
| b_retain: "buf_refcount b bp < 2 ^ 32 - 1 \<Longrightarrow> buf_step pf bp (B_retain b) (buf_retain b bp)"
| b_release: "buf_release pf paged b bp = (freed, bp') \<Longrightarrow>
     buf_step pf bp (B_release paged b freed) bp'"

inductive buf_run :: "platform \<Rightarrow> buffer_pool \<Rightarrow> buf_call list \<Rightarrow> buffer_pool \<Rightarrow> bool" for pf where
  buf_done: "buf_run pf bp [] bp"
| buf_call: "buf_step pf bp c bp1 \<Longrightarrow> buf_run pf bp1 cs bp2 \<Longrightarrow> buf_run pf bp (c # cs) bp2"

fun ref_change :: "slot_id \<Rightarrow> buf_call \<Rightarrow> nat \<Rightarrow> nat" where
  "ref_change b (B_acquire reg c b') n = (if b' = b then 1 else n)"
| "ref_change b (B_retain b') n = (if b' = b \<and> n > 0 then n + 1 else n)"
| "ref_change b (B_release paged b' freed) n = (if b' = b then n - 1 else n)"

lemma buf_acquire_class:
  assumes "buf_acquire reg c bp = (b, bp')"
  obtains p where "class_acquire reg (classes bp c) = (b, p)" "classes bp' = (classes bp)(c := p)"
  using assms by (cases "class_acquire reg (classes bp c)") (auto simp: buf_acquire_def Let_def split: if_splits)

lemma buf_release_class:
  assumes "buf_release pf paged b bp = (r, bp')"
  obtains p where "class_release pf paged b (classes bp (bclass b)) = (r, p)"
    "classes bp' = (classes bp)(bclass b := p)"
  using assms
  by (cases "class_release pf paged b (classes bp (bclass b))") (auto simp: buf_release_def)

lemma pclass_retain [simp]: "pclass (class_retain b p) = pclass p"
  by (simp add: class_retain_def)

lemma pclass_release [simp]: "pclass (snd (class_release pf paged b p)) = pclass p"
  by (simp add: class_release_def Let_def)

lemma buf_step_spec:
  assumes "buf_step pf bp c bp'" "pool_ok bp"
  shows "pool_ok bp' \<and> (\<forall>x. buf_refcount x bp' = ref_change x c (buf_refcount x bp))"
  using assms
proof (induction rule: buf_step.induct)
  case (b_acquire bp c reg b bp')
  from b_acquire(2) obtain p where p: "class_acquire reg (classes bp c) = (b, p)"
    "classes bp' = (classes bp)(c := p)" by (rule buf_acquire_class)
  have ok: "class_ok (classes bp c)" "pclass (classes bp c) = c" using b_acquire(3) by (simp_all add: pool_ok_def)
  have "class_ok p \<and> pclass p = c \<and> bclass b = c"
    by (rule acquire_spec [OF ok(1) b_acquire(1) p(1)]) (simp add: ok(2))
  then have q: "class_ok p" "pclass p = c" "bclass b = c" by auto
  have "buf_refcount x bp' = ref_change x (B_acquire reg c b) (buf_refcount x bp)" for x
    using refcount_acquire(1) [OF ok(1) b_acquire(1) p(1), of x] p(2) q(3) ok(2)
    by (auto simp: buf_refcount_def)
  with q b_acquire(3) p(2) show ?case by (simp add: pool_ok_def)
next
  case (b_retain b bp)
  have ok: "class_ok (classes bp (bclass b))" using b_retain by (simp add: pool_ok_def)
  have rc: "class_refcount b (classes bp (bclass b)) < 2 ^ 32 - 1"
    using b_retain by (simp add: buf_refcount_def)
  have "buf_refcount x (buf_retain b bp) = ref_change x (B_retain b) (buf_refcount x bp)" for x
  proof (cases "bclass x = bclass b")
    case True
    note r = refcount_retain [OF ok rc True]
    have "buf_refcount x (buf_retain b bp) = class_refcount x (class_retain b (classes bp (bclass b)))"
      using True by (simp add: buf_refcount_def buf_retain_def)
    then have "buf_refcount x (buf_retain b bp) =
        (if x = b \<and> class_refcount b (classes bp (bclass b)) > 0
         then class_refcount b (classes bp (bclass b)) + 1 else class_refcount x (classes bp (bclass b)))"
      by (simp only: r)
    with True show ?thesis by (cases "x = b") (simp_all add: buf_refcount_def)
  next
    case False
    then show ?thesis by (auto simp: buf_refcount_def buf_retain_def)
  qed
  moreover have "pool_ok (buf_retain b bp)"
    using b_retain class_ok_retain [OF ok rc] by (simp add: buf_retain_def pool_ok_def)
  ultimately show ?case by blast
next
  case (b_release paged b bp freed bp')
  from b_release(1) obtain p where p: "class_release pf paged b (classes bp (bclass b)) = (freed, p)"
    "classes bp' = (classes bp)(bclass b := p)" by (rule buf_release_class)
  have ok: "class_ok (classes bp (bclass b))" using b_release by (simp add: pool_ok_def)
  have "buf_refcount x bp' = ref_change x (B_release paged b freed) (buf_refcount x bp)" for x
    using refcount_release(1) [OF ok p(1), of x] p(2) by (auto simp: buf_refcount_def)
  moreover have "pool_ok bp'"
    using b_release(2) class_ok_release [OF ok, of pf paged b] pclass_release [of pf paged b "classes bp (bclass b)"]
    by (simp add: pool_ok_def p)
  ultimately show ?case by blast
qed

lemma buf_run_spec:
  assumes "buf_run pf bp cs bp'" "pool_ok bp"
  shows "pool_ok bp' \<and> (\<forall>x. buf_refcount x bp' = fold (ref_change x) cs (buf_refcount x bp))"
  using assms
proof (induction rule: buf_run.induct)
  case (buf_call bp c bp1 cs bp2)
  from buf_step_spec [OF buf_call(1,4)] buf_call(3) show ?case by simp
qed simp

section \<open>The pool as an identifier allocator\<close>

definition live_bufs :: "buffer_pool \<Rightarrow> slot_id set" where
  "live_bufs bp = {b. buf_refcount b bp > 0}"

definition buf_alloc :: "region \<Rightarrow> size_class \<Rightarrow> buffer_pool \<Rightarrow> (slot_id \<times> buffer_pool) option" where
  "buf_alloc reg c bp = (if class_room (classes bp c) then Some (buf_acquire reg c bp) else None)"

definition sole_buf :: "slot_id \<Rightarrow> buffer_pool \<Rightarrow> bool" where
  "sole_buf b bp \<longleftrightarrow> buf_refcount b bp = 1"

definition buf_free :: "platform \<Rightarrow> bool \<Rightarrow> slot_id \<Rightarrow> buffer_pool \<Rightarrow> buffer_pool" where
  "buf_free pf paged b bp = snd (buf_release pf paged b bp)"

lemma acquired_dead:
  assumes "pool_ok bp" "class_room (classes bp c)" "buf_acquire reg c bp = (b, bp')"
  shows "buf_refcount b bp = 0"
proof -
  from assms(3) obtain p where p: "class_acquire reg (classes bp c) = (b, p)"
    "classes bp' = (classes bp)(c := p)" by (rule buf_acquire_class)
  have ok: "class_ok (classes bp c)" "pclass (classes bp c) = c" using assms(1) by (simp_all add: pool_ok_def)
  have "bclass b = c" by (rule acquire_spec [OF ok(1) assms(2) p(1)]) (simp add: ok(2))
  with refcount_acquire(2) [OF ok(1) assms(2) p(1), of b] ok(2) show ?thesis by (simp add: buf_refcount_def)
qed

interpretation bufs: id_allocator pool_ok live_bufs "buf_alloc reg c" sole_buf "buf_free pf paged"
  for reg c pf paged
proof (unfold_locales, goal_cases)
  case (1 bp b bp')
  then have room: "class_room (classes bp c)" and a: "buf_acquire reg c bp = (b, bp')"
    by (auto simp: buf_alloc_def split: if_splits)
  note s = buf_step_spec [OF b_acquire [OF room a] 1(1)]
  from s acquired_dead [OF 1(1) room a] show ?case by (auto simp: live_bufs_def)
next
  case (2 bp b)
  have "buf_release pf paged b bp = (fst (buf_release pf paged b bp), buf_free pf paged b bp)"
    by (simp add: buf_free_def)
  from buf_step_spec [OF b_release [OF this] 2(1)] 2(3) show ?case
    by (auto simp: live_bufs_def sole_buf_def split: if_splits)
qed

section \<open>Accounting\<close>

lemma class_bytes_held_eq:
  assumes "class_ok p"
  shows "class_bytes_held p = (bin_use p + resident_free p) * class_size (pclass p)"
proof -
  let ?fl = "length (bfreelist p)" and ?s = "class_size (pclass p)"
  have "resident_free p \<le> ?fl" using assms by (simp add: class_ok_def)
  then obtain k where k: "?fl = resident_free p + k" by (auto dest: le_Suc_ex)
  have "length (regions p) * REGION_SIZE = class_slots p * ?s"
    by (simp add: class_slots_def slots_times_size [symmetric])
  also have "\<dots> = (bin_use p + resident_free p + k) * ?s" using assms k by (simp add: class_ok_def)
  finally show ?thesis by (simp add: class_bytes_held_def k add_mult_distrib)
qed

text \<open>Lazily mapped, unregistered regions, whose free slots can be paged out (the Linux build).\<close>

definition lazy_class :: "class_pool \<Rightarrow> bool" where
  "lazy_class p \<longleftrightarrow> (\<forall>r\<in>set (regions p). region_pageable r) \<and> resident_free p \<le> RESIDENT_FREE_SLOTS"

lemma lazy_acquire:
  assumes "lazy_class p" "class_ok p" "class_room p" "class_acquire reg p = (b, q)"
    "region_pageable reg" "\<not> fresh_held reg"
  shows "lazy_class q"
proof (rule acquire_spec [OF assms(2-4)])
  fix p1
  assume p1: "p1 = (if bfreelist p = [] then add_region reg p else p)" "regions q = regions p1"
    "resident_free q \<le> resident_free p1"
  have "lazy_class p1"
    using assms(1,5,6) by (auto simp: p1(1) lazy_class_def add_region_def Let_def)
  with p1(2,3) show ?thesis by (simp add: lazy_class_def)
qed

lemma lazy_release:
  assumes "lazy_class p" "class_ok p" "PAGES_OUT pf"
  shows "lazy_class (snd (class_release pf True b p))"
proof (cases "class_live b p")
  case False
  with assms(1) show ?thesis by (simp add: release_stale lazy_class_def)
next
  case True
  show ?thesis
  proof (cases "refcounts p ! bindex b = 1")
    case False
    with True assms(1) show ?thesis by (simp add: release_shared lazy_class_def)
  next
    case last: True
    have "bindex b < class_slots p" using True class_live_iff [OF assms(2)] by simp
    then have "bindex b div slots_per_region (pclass p) < length (regions p)"
      by (simp add: class_slots_def div_less_iff_less_mult)
    with assms(1) have pg: "slot_pageable (bindex b) p"
      by (simp add: slot_pageable_def lazy_class_def)
    from release_last [OF True last, of pf True] obtain po rf fl where
      r: "class_release pf True b p = (True, p\<lparr>refcounts := (refcounts p)[bindex b := 0],
         generations := (generations p)[bindex b := generations p ! bindex b + 1],
         bin_use := bin_use p - 1, paged_out := po, resident_free := rf, bfreelist := fl\<rparr>)"
      and c: "rf = resident_free p \<or> \<not> RESIDENT_FREE_SLOTS \<le> resident_free p \<and> rf = resident_free p + 1"
      using assms(3) pg by blast
    with assms(1) show ?thesis by (auto simp: lazy_class_def)
  qed
qed

fun lazy_call :: "buf_call \<Rightarrow> bool" where
  "lazy_call (B_acquire reg c b) = (region_pageable reg \<and> \<not> fresh_held reg)"
| "lazy_call (B_retain b) = True"
| "lazy_call (B_release paged b freed) = paged"

lemma lazy_step:
  assumes "buf_step pf bp c bp'" "pool_ok bp" "\<forall>k. lazy_class (classes bp k)" "lazy_call c" "PAGES_OUT pf"
  shows "\<forall>k. lazy_class (classes bp' k)"
  using assms
proof (induction rule: buf_step.induct)
  case (b_acquire bp c reg b bp')
  from b_acquire(2) obtain p where p: "class_acquire reg (classes bp c) = (b, p)"
    "classes bp' = (classes bp)(c := p)" by (rule buf_acquire_class)
  have "lazy_class p"
    by (rule lazy_acquire [OF _ _ b_acquire(1) p(1)]) (use b_acquire in \<open>simp_all add: pool_ok_def\<close>)
  with b_acquire p(2) show ?case by simp
next
  case (b_retain b bp)
  have "lazy_class (class_retain b p) = lazy_class p" for p by (simp add: lazy_class_def class_retain_def)
  with b_retain show ?case by (simp add: buf_retain_def)
next
  case (b_release paged b bp freed bp')
  from b_release(1) obtain p where p: "class_release pf paged b (classes bp (bclass b)) = (freed, p)"
    "classes bp' = (classes bp)(bclass b := p)" by (rule buf_release_class)
  have "lazy_class (snd (class_release pf True b (classes bp (bclass b))))"
    by (rule lazy_release) (use b_release in \<open>simp_all add: pool_ok_def\<close>)
  with b_release p show ?case by simp
qed

lemma lazy_run:
  assumes "buf_run pf bp cs bp'" "pool_ok bp" "\<forall>k. lazy_class (classes bp k)" "\<forall>c\<in>set cs. lazy_call c"
    "PAGES_OUT pf"
  shows "\<forall>k. lazy_class (classes bp' k)"
  using assms
proof (induction rule: buf_run.induct)
  case (buf_call bp c bp1 cs bp2)
  then show ?case using buf_step_spec [OF buf_call(1,4)] lazy_step [OF buf_call(1,4)] by simp
qed simp

lemma bytes_eq:
  assumes "pool_ok bp"
  shows "bytes_held bp = bytes_in_use bp +
    sum_list (map (\<lambda>c. resident_free (classes bp c) * class_size c) all_classes)"
  using assms class_bytes_held_eq
  by (simp add: bytes_held_def bytes_in_use_def all_classes_def pool_ok_def algebra_simps)

section \<open>Slots in memory\<close>

definition regions_apart :: "buffer_pool \<Rightarrow> bool" where
  "regions_apart bp \<longleftrightarrow> (\<forall>c k c' l. k < length (regions (classes bp c)) \<longrightarrow>
     l < length (regions (classes bp c')) \<longrightarrow> (c, k) \<noteq> (c', l) \<longrightarrow>
     rptr (regions (classes bp c) ! k) + REGION_SIZE \<le> rptr (regions (classes bp c') ! l) \<or>
     rptr (regions (classes bp c') ! l) + REGION_SIZE \<le> rptr (regions (classes bp c) ! k))"

lemma slot_in_region:
  assumes "pclass p = c"
  shows "rptr (regions p ! (i div slots_per_region c)) \<le> class_slot_ptr i p"
    "class_slot_ptr i p + class_size c \<le> rptr (regions p ! (i div slots_per_region c)) + REGION_SIZE"
proof -
  have "i mod slots_per_region c < slots_per_region c" by simp
  then have "(i mod slots_per_region c + 1) * class_size c \<le> slots_per_region c * class_size c"
    by (intro mult_right_mono) (simp_all add: Suc_leI)
  then show "rptr (regions p ! (i div slots_per_region c)) \<le> class_slot_ptr i p"
    "class_slot_ptr i p + class_size c \<le> rptr (regions p ! (i div slots_per_region c)) + REGION_SIZE"
    using assms by (simp_all add: class_slot_ptr_def Let_def slots_times_size add_mult_distrib)
qed

lemma slots_same_region:
  assumes "pclass p = c" "i div slots_per_region c = j div slots_per_region c" "i < j"
  shows "class_slot_ptr i p + class_size c \<le> class_slot_ptr j p"
proof -
  have "i mod slots_per_region c < j mod slots_per_region c"
    using assms(2,3) by (metis add_less_cancel_left div_mult_mod_eq)
  then have "(i mod slots_per_region c + 1) * class_size c \<le> j mod slots_per_region c * class_size c"
    by (intro mult_right_mono) simp_all
  then show ?thesis using assms(1,2) by (simp add: class_slot_ptr_def Let_def add_mult_distrib)
qed

definition slots_apart :: "slot_id \<Rightarrow> slot_id \<Rightarrow> buffer_pool \<Rightarrow> bool" where
  "slots_apart x y bp \<longleftrightarrow>
     buf_slot_ptr x bp + class_size (bclass x) \<le> buf_slot_ptr y bp \<or>
     buf_slot_ptr y bp + class_size (bclass y) \<le> buf_slot_ptr x bp"

lemma live_slots_apart:
  assumes "pool_ok bp" "regions_apart bp" "buf_refcount x bp > 0" "buf_refcount y bp > 0" "x \<noteq> y"
  shows "slots_apart x y bp"
proof -
  have ok: "class_ok (classes bp c)" "pclass (classes bp c) = c" for c
    using assms(1) by (simp_all add: pool_ok_def)
  let ?k = "\<lambda>b. bindex b div slots_per_region (bclass b)"
  have live: "bindex b < class_slots (classes bp (bclass b))"
    "generations (classes bp (bclass b)) ! bindex b = bgen b" if "buf_refcount b bp > 0" for b
    using that by (auto simp: buf_refcount_def refcount_iff [OF ok(1)] split: if_splits)
  have reg: "?k b < length (regions (classes bp (bclass b)))" if "buf_refcount b bp > 0" for b
    using live(1) [OF that] by (simp add: class_slots_def ok(2) div_less_iff_less_mult)
  show ?thesis
  proof (cases "(bclass x, ?k x) = (bclass y, ?k y)")
    case True
    then have "bindex x \<noteq> bindex y"
      using assms(5) live(2) [OF assms(3)] live(2) [OF assms(4)] slot_id_eqI [of x y] by auto
    with True slots_same_region [OF ok(2) [of "bclass x"]] show ?thesis
      by (cases "bindex x < bindex y") (auto simp: slots_apart_def buf_slot_ptr_def)
  next
    case False
    with assms(2) reg [OF assms(3)] reg [OF assms(4)] have
      "rptr (regions (classes bp (bclass x)) ! ?k x) + REGION_SIZE \<le> rptr (regions (classes bp (bclass y)) ! ?k y) \<or>
       rptr (regions (classes bp (bclass y)) ! ?k y) + REGION_SIZE \<le> rptr (regions (classes bp (bclass x)) ! ?k x)"
      unfolding regions_apart_def by blast
    with slot_in_region [where i = "bindex x", OF ok(2) [of "bclass x"]]
      slot_in_region [where i = "bindex y", OF ok(2) [of "bclass y"]]
    show ?thesis unfolding slots_apart_def buf_slot_ptr_def by linarith
  qed
qed

section \<open>Properties\<close>

text \<open>
  C32: reference counting is exact and ids name one owner group.  Over any run of the pool, the
  count of every buffer id is its acquisition plus its retains less its releases (never below
  zero; calls on a stale id change nothing), a release frees the slot exactly when it drops the
  last reference, and a slot handed out was nobody's: its id had no references.
\<close>

theorem buffer_refcounts_exact:
  assumes "buf_run pf pool_new cs bp"
  shows "(\<forall>b. buf_refcount b bp = fold (ref_change b) cs 0) \<and>
    (\<forall>b paged. fst (buf_release pf paged b bp) \<longleftrightarrow> buf_refcount b bp = 1) \<and>
    (\<forall>reg c. class_room (classes bp c) \<longrightarrow> buf_refcount (fst (buf_acquire reg c bp)) bp = 0)"
proof (intro conjI allI impI)
  have new: "buf_refcount b pool_new = 0" for b
    by (simp add: buf_refcount_def class_refcount_def class_live_def pool_new_def class_new_def)
  have run: "pool_ok bp" "\<And>b. buf_refcount b bp = fold (ref_change b) cs 0"
    using buf_run_spec [OF assms pool_ok_new] new by auto
  show "buf_refcount b bp = fold (ref_change b) cs 0" for b by (rule run(2))
  show "fst (buf_release pf paged b bp) \<longleftrightarrow> buf_refcount b bp = 1" for b paged
  proof -
    obtain freed p where "class_release pf paged b (classes bp (bclass b)) = (freed, p)" by fastforce
    with refcount_release(2) [OF _ this] run(1) show ?thesis
      by (simp add: buf_release_def buf_refcount_def pool_ok_def)
  qed
  show "buf_refcount (fst (buf_acquire reg c bp)) bp = 0" if "class_room (classes bp c)" for reg c
    using acquired_dead [OF run(1) that] prod.collapse by metis
qed

definition some_region :: region where
  "some_region = \<lparr>rptr = 65536, rio_buffer_id = None, large_pages = False, fresh_held = False\<rparr>"

definition buf0 :: slot_id where
  "buf0 = \<lparr>bclass = S64K, bindex = 0, bgen = 0\<rparr>"

definition one_class :: class_pool where
  "one_class = \<lparr>pclass = S64K, regions = [some_region], bfreelist = rev [1..<32],
     refcounts = (replicate 32 0)[0 := 1], generations = replicate 32 0,
     paged_out = (replicate 32 True)[0 := False], resident_free = 0, stale_rejections = 0,
     bin_use = 1, commit_regions = False\<rparr>"

definition one_buffer :: buffer_pool where
  "one_buffer = \<lparr>classes = class_new(S64K := one_class), regions_dirty = True\<rparr>"

lemma upt_map_add: "map ((+) 0) xs = (xs :: nat list)"
  by (induction xs) auto

lemma acquire_one: "buf_acquire some_region S64K pool_new = (buf0, one_buffer)"
proof -
  have "map ((+) 0) (rev [0..<32]) = rev [0..<(32::nat)]" by (rule upt_map_add)
  then have g: "add_region some_region (class_new S64K) = \<lparr>pclass = S64K, regions = [some_region],
      bfreelist = rev [0..<32], refcounts = replicate 32 0, generations = replicate 32 0,
      paged_out = replicate 32 True, resident_free = 0, stale_rejections = 0, bin_use = 0,
      commit_regions = False\<rparr>"
    by (simp add: add_region_def class_new_def Let_def some_region_def as_u32_def)
  have "class_acquire some_region (class_new S64K) = (buf0, one_class)"
    by (simp add: class_acquire_def g Let_def last_rev butlast_rev tl_upt buf0_def one_class_def)
      (simp add: class_new_def)
  then show ?thesis
    by (simp add: buf_acquire_def pool_new_def Let_def one_buffer_def set_class_def)
      (simp add: class_new_def)
qed

lemma room_pool_new: "class_room (classes pool_new S64K)"
  by (simp add: class_room_def class_slots_def pool_new_def class_new_def)

lemma run_one: "buf_run Linux pool_new [B_acquire some_region S64K buf0] one_buffer"
  by (rule buf_call [OF b_acquire [OF room_pool_new acquire_one] buf_done])

theorem buffer_refcounts_exact_witness:
  "buf_refcount buf0 one_buffer = 1 \<and> fst (buf_release Linux True buf0 one_buffer)"
  using buffer_refcounts_exact [OF run_one] by simp

text \<open>
  What the pool keeps from the OS is bounded.  \<open>bytes_held\<close> (with its subtraction) is exactly
  the bytes in use plus those of the resident free slots; and with lazily mapped regions whose
  page-outs succeed (the Linux build), the resident free slots never exceed 256 per class,
  whatever the peak was.
\<close>

theorem bytes_held_bounded:
  assumes "buf_run Linux pool_new cs bp" "\<forall>c\<in>set cs. lazy_call c"
  shows "bytes_held bp = bytes_in_use bp +
      sum_list (map (\<lambda>c. resident_free (classes bp c) * class_size c) all_classes) \<and>
    bytes_held bp \<le> bytes_in_use bp + 256 * (4 * 1024 + 16 * 1024 + 64 * 1024)"
proof -
  have ok: "pool_ok bp" using buf_run_spec [OF assms(1) pool_ok_new] by simp
  have "\<forall>k. lazy_class (classes pool_new k)" by (simp add: lazy_class_def pool_new_def class_new_def)
  from lazy_run [OF assms(1) pool_ok_new this assms(2)] have "resident_free (classes bp c) \<le> 256" for c
    by (simp add: PAGES_OUT_def lazy_class_def RESIDENT_FREE_SLOTS_def)
  from this [of S4K] this [of S16K] this [of S64K] show ?thesis
    using bytes_eq [OF ok] by (simp add: all_classes_def)
qed

theorem bytes_held_bounded_witness: "bytes_held one_buffer \<le> bytes_in_use one_buffer + 256 * 84 * 1024"
  using bytes_held_bounded [OF run_one] by (simp add: some_region_def region_pageable_def)

text \<open>
  No two owners share memory.  With the pool's regions at disjoint addresses, the slots of
  any two different live ids, of whatever classes, do not overlap, and each lies inside its
  region.
\<close>

theorem live_slots_disjoint:
  assumes "buf_run pf pool_new cs bp" "regions_apart bp"
    and "buf_refcount x bp > 0" "buf_refcount y bp > 0" "x \<noteq> y"
  shows "slots_apart x y bp \<and>
    (let r = regions (classes bp (bclass x)) ! (bindex x div slots_per_region (bclass x))
     in rptr r \<le> buf_slot_ptr x bp \<and> buf_slot_ptr x bp + class_size (bclass x) \<le> rptr r + REGION_SIZE)"
proof -
  have ok: "pool_ok bp" using buf_run_spec [OF assms(1) pool_ok_new] by simp
  then have "pclass (classes bp (bclass x)) = bclass x" by (simp add: pool_ok_def)
  from slot_in_region [where i = "bindex x", OF this] live_slots_apart [OF ok assms(2-)] show ?thesis
    by (simp add: buf_slot_ptr_def Let_def)
qed

definition buf1 :: slot_id where
  "buf1 = \<lparr>bclass = S64K, bindex = 1, bgen = 0\<rparr>"

definition two_class :: class_pool where
  "two_class = one_class\<lparr>bfreelist := rev [2..<32], refcounts := (replicate 32 0)[0 := 1, 1 := 1],
     paged_out := (replicate 32 True)[0 := False, 1 := False], bin_use := 2\<rparr>"

definition two_buffers :: buffer_pool where
  "two_buffers = \<lparr>classes = class_new(S64K := two_class), regions_dirty = True\<rparr>"

lemma acquire_two: "buf_acquire some_region S64K one_buffer = (buf1, two_buffers)"
proof -
  have "class_acquire some_region one_class = (buf1, two_class)"
    by (simp add: class_acquire_def Let_def last_rev butlast_rev tl_upt buf1_def one_class_def two_class_def
        numeral_2_eq_2 del: upt_rec_numeral)
  then show ?thesis
    by (simp add: buf_acquire_def Let_def one_buffer_def two_buffers_def set_class_def
        one_class_def)
qed

lemma run_two_buffers:
  "buf_run Linux pool_new [B_acquire some_region S64K buf0, B_acquire some_region S64K buf1] two_buffers"
proof (rule buf_call [OF b_acquire [OF room_pool_new acquire_one] buf_call [OF b_acquire [OF _ acquire_two] buf_done]])
  show "class_room (classes one_buffer S64K)"
    by (simp add: class_room_def one_buffer_def one_class_def)
qed

theorem live_slots_disjoint_witness: "slots_apart buf0 buf1 two_buffers"
proof -
  have r: "length (regions (classes two_buffers c)) = (if c = S64K then 1 else 0)" for c
    by (simp add: two_buffers_def two_class_def one_class_def) (simp add: class_new_def)
  have "regions_apart two_buffers"
    by (auto simp: regions_apart_def r split: if_splits)
  moreover have "buf_refcount buf0 two_buffers > 0" "buf_refcount buf1 two_buffers > 0"
    by (simp_all add: buf_refcount_def class_refcount_def class_live_def two_buffers_def two_class_def
        one_class_def buf0_def buf1_def)
  moreover have "buf0 \<noteq> buf1" by (simp add: buf0_def buf1_def)
  ultimately show ?thesis using live_slots_disjoint [OF run_two_buffers] by blast
qed

text \<open>
  Receive buffers are sized as promised.  \<open>fitting\<close> gives the smallest class that holds the
  request, or None above 64 KiB; a read that fills its buffer grows it until two full reads reach
  64 KiB, the tail of a larger message never shrinks it, and a connection that only sees small
  reads settles on 4 KiB and stays there.
\<close>

theorem receive_sizes:
  "(case fitting n of
      None \<Rightarrow> n > 64 * 1024
    | Some c \<Rightarrow> n \<le> class_size c \<and> (\<forall>c'. n \<le> class_size c' \<longrightarrow> class_size c \<le> class_size c')) \<and>
   class_size (after_read c (class_size c) full) \<ge> min (64 * 1024) (4 * class_size c) \<and>
   after_read (after_read c (class_size c) full) (class_size (after_read c (class_size c) full)) True = S64K \<and>
   (bytes \<le> 64 * 1024 \<longrightarrow> class_size (after_read c bytes True) \<ge> class_size c) \<and>
   (bytes \<le> 1024 \<longrightarrow> after_read c bytes False = S4K)"
proof -
  have "\<forall>c'. n \<le> class_size c' \<longrightarrow> class_size c \<le> class_size c'" if "fitting n = Some c" for c
  proof (intro allI impI)
    fix c' assume "n \<le> class_size c'"
    with that show "class_size c \<le> class_size c'"
      by (cases c') (auto simp: fitting_def split: if_splits)
  qed
  moreover have "n \<le> class_size c" if "fitting n = Some c" for c
    using that by (auto simp: fitting_def split: if_splits)
  ultimately have "case fitting n of
      None \<Rightarrow> n > 64 * 1024
    | Some c \<Rightarrow> n \<le> class_size c \<and> (\<forall>c'. n \<le> class_size c' \<longrightarrow> class_size c \<le> class_size c')"
    by (auto simp: fitting_def split: option.split)
  moreover have "class_size (after_read c (class_size c) full) \<ge> min (64 * 1024) (4 * class_size c)"
    "after_read (after_read c (class_size c) full) (class_size (after_read c (class_size c) full)) True = S64K"
    "class_size (after_read c bytes True) \<ge> class_size c"
    "bytes \<le> 1024 \<longrightarrow> after_read c bytes False = S4K"
    by (cases c; simp add: after_read_def)+
  ultimately show ?thesis by blast
qed

theorem receive_sizes_witness:
  "fitting 5000 = Some S16K \<and> after_read S64K 300 False = S4K"
  using receive_sizes [of 5000 S64K False 300] by (simp add: fitting_def)

end
