(* ===== verification/WebSocket.thy ===== *)
theory WebSocket
  imports Prelude "HOL-Library.Sublist"
begin

text \<open>
  The WebSocket codec (\<open>ws.rs\<close>): the handshake key (SHA-1 and base64), the server's frames, and
  the inbound parser that assembles messages from whatever chunks the socket delivers.  A
  \<open>String\<close> is its UTF-8 bytes, and \<open>String::from_utf8\<close> the well-formedness test of the Unicode
  standard.
\<close>

section \<open>The handshake\<close>

definition ascii :: "string \<Rightarrow> u8 list" where
  "ascii s = map (\<lambda>c. word_of_nat (of_char c)) s"

definition WS_GUID :: "u8 list" where
  "WS_GUID = ascii ''258EAFA5-E914-47DA-95CA-C5AB0DC85B11''"

text \<open>\<open>chunks(n)\<close> of a slice (n > 0).\<close>

function chunks_of :: "nat \<Rightarrow> 'a list \<Rightarrow> 'a list list" where
  "chunks_of n xs = (if n = 0 \<or> xs = [] then [] else take n xs # chunks_of n (drop n xs))"
  by auto
termination
  by (relation "measure (\<lambda>(n, xs). length xs)") auto

declare chunks_of.simps [simp del]

text \<open>The padding loop: zero bytes until the length is 56 modulo 64.\<close>

function pad_zeros :: "u8 list \<Rightarrow> u8 list" where
  "pad_zeros msg = (if length msg mod 64 = 56 then msg else pad_zeros (msg @ [0]))"
  by auto
termination
proof (relation "measure (\<lambda>msg. (120 - length msg mod 64) mod 64)")
  fix msg :: "u8 list"
  assume ne: "length msg mod 64 \<noteq> 56"
  have e: "(120 - m) mod 64 = (if m \<le> 56 then 56 - m else 120 - m)" if "m < 64" for m :: nat
  proof (cases "m \<le> 56")
    case True
    then have "120 - m = 64 + (56 - m)" by simp
    then have "(120 - m) mod 64 = (56 - m) mod 64" by (metis mod_add_self1)
    with True show ?thesis by simp
  next
    case False
    then have "120 - m < 64" by linarith
    with False show ?thesis by simp
  qed
  let ?m = "length msg mod 64"
  have m: "?m < 64" by simp
  have "Suc (length msg) mod 64 = (if ?m = 63 then 0 else Suc ?m)" by (simp add: mod_Suc)
  with ne m show "(msg @ [0], msg) \<in> measure (\<lambda>msg. (120 - length msg mod 64) mod 64)"
    by (auto simp: e split: if_splits)
qed simp

declare pad_zeros.simps [simp del]

type_synonym sha_state = "u32 \<times> u32 \<times> u32 \<times> u32 \<times> u32"

definition sha_init :: sha_state where
  "sha_init = (0x67452301, 0xEFCDAB89, 0x98BADCFE, 0x10325476, 0xC3D2E1F0)"

text \<open>\<open>u32::from_be_bytes\<close>, and \<open>to_be_bytes\<close> of a \<open>k\<close>-byte word.\<close>

definition u32_of_be :: "u8 list \<Rightarrow> u32" where
  "u32_of_be bs = fold (\<lambda>b acc. push_bit 8 acc OR ucast b) bs 0"

definition word_be :: "nat \<Rightarrow> 'a::len word \<Rightarrow> u8 list" where
  "word_be k x = map (\<lambda>i. ucast (drop_bit (8 * (k - 1 - i)) x)) [0..<k]"

definition sha_schedule :: "u8 list \<Rightarrow> u32 list" where
  "sha_schedule chunk =
     fold (\<lambda>i w. w @ [word_rotl 1 (w ! (i - 3) XOR w ! (i - 8) XOR w ! (i - 14) XOR w ! (i - 16))])
       [16..<80] (map u32_of_be (chunks_of 4 chunk))"

definition sha_round :: "nat \<times> u32 \<Rightarrow> sha_state \<Rightarrow> sha_state" where
  "sha_round iw s =
     (let (i, wi) = iw; (a, b, c, d, e) = s;
          (f, k) = (if i \<le> 19 then ((b AND c) OR ((NOT b) AND d), 0x5A827999)
                    else if i \<le> 39 then (b XOR c XOR d, 0x6ED9EBA1)
                    else if i \<le> 59 then ((b AND c) OR (b AND d) OR (c AND d), 0x8F1BBCDC)
                    else (b XOR c XOR d, 0xCA62C1D6));
          tmp = word_rotl 5 a + f + e + k + wi
      in (tmp, a, word_rotl 30 b, c, d))"

definition sha_block :: "u8 list \<Rightarrow> sha_state \<Rightarrow> sha_state" where
  "sha_block chunk h =
     (let w = sha_schedule chunk;
          (a, b, c, d, e) = fold sha_round (zip [0..<length w] w) h;
          (h0, h1, h2, h3, h4) = h
      in (h0 + a, h1 + b, h2 + c, h3 + d, h4 + e))"

definition sha1 :: "u8 list \<Rightarrow> u8 list" where
  "sha1 data =
     (let msg = pad_zeros (data @ [0x80]) @ word_be 8 (word_of_nat (length data) * 8 :: u64);
          (h0, h1, h2, h3, h4) = fold sha_block (chunks_of 64 msg) sha_init
      in concat (map (word_be 4) [h0, h1, h2, h3, h4]))"

definition base64_table :: string where
  "base64_table = ''ABCDEFGHIJKLMNOPQRSTUVWXYZabcdefghijklmnopqrstuvwxyz0123456789+/''"

definition base64_chunk :: "u8 list \<Rightarrow> string" where
  "base64_chunk chunk =
     (let b = (\<lambda>i. if i < length chunk then chunk ! i else 0);
          n = push_bit 16 (ucast (b 0)) OR push_bit 8 (ucast (b 1)) OR ucast (b 2) :: u32;
          t = (\<lambda>x. base64_table ! unat (x AND 63))
      in [t (drop_bit 18 n), t (drop_bit 12 n),
          if length chunk > 1 then t (drop_bit 6 n) else CHR ''='',
          if length chunk > 2 then t n else CHR ''=''])"

definition base64 :: "u8 list \<Rightarrow> string" where
  "base64 data = concat (map base64_chunk (chunks_of 3 data))"

definition accept_key :: "u8 list \<Rightarrow> string" where
  "accept_key client_key = base64 (sha1 (client_key @ WS_GUID))"

section \<open>UTF-8\<close>

definition utf8_cont :: "u8 \<Rightarrow> bool" where
  "utf8_cont b \<longleftrightarrow> 0x80 \<le> b \<and> b \<le> 0xBF"

text \<open>
  \<open>String::from_utf8\<close>: well-formed sequences of one to four bytes, without overlong forms,
  surrogates or code points past 10FFFF.
\<close>

fun utf8_valid :: "u8 list \<Rightarrow> bool" where
  "utf8_valid [] = True"
| "utf8_valid (b # bs) =
     (if b < 0x80 then utf8_valid bs
      else if 0xC2 \<le> b \<and> b \<le> 0xDF then
        (case bs of b2 # r \<Rightarrow> utf8_cont b2 \<and> utf8_valid r | _ \<Rightarrow> False)
      else if 0xE0 \<le> b \<and> b \<le> 0xEF then
        (case bs of
           b2 # b3 # r \<Rightarrow>
             (if b = 0xE0 then 0xA0 \<le> b2 \<and> b2 \<le> 0xBF
              else if b = 0xED then 0x80 \<le> b2 \<and> b2 \<le> 0x9F else utf8_cont b2) \<and>
             utf8_cont b3 \<and> utf8_valid r
         | _ \<Rightarrow> False)
      else if 0xF0 \<le> b \<and> b \<le> 0xF4 then
        (case bs of
           b2 # b3 # b4 # r \<Rightarrow>
             (if b = 0xF0 then 0x90 \<le> b2 \<and> b2 \<le> 0xBF
              else if b = 0xF4 then 0x80 \<le> b2 \<and> b2 \<le> 0x8F else utf8_cont b2) \<and>
             utf8_cont b3 \<and> utf8_cont b4 \<and> utf8_valid r
         | _ \<Rightarrow> False)
      else False)"

text \<open>\<open>str::is_char_boundary\<close>.\<close>

definition is_char_boundary :: "u8 list \<Rightarrow> nat \<Rightarrow> bool" where
  "is_char_boundary s i \<longleftrightarrow> i = 0 \<or> i = length s \<or> i < length s \<and> \<not> utf8_cont (s ! i)"

section \<open>Outbound frames\<close>

definition OP_CONT :: u8 where "OP_CONT = 0x0"
definition OP_TEXT :: u8 where "OP_TEXT = 0x1"
definition OP_BINARY :: u8 where "OP_BINARY = 0x2"
definition OP_CLOSE :: u8 where "OP_CLOSE = 0x8"
definition OP_PING :: u8 where "OP_PING = 0x9"
definition OP_PONG :: u8 where "OP_PONG = 0xA"

lemmas opcode_defs = OP_CONT_def OP_TEXT_def OP_BINARY_def OP_CLOSE_def OP_PING_def OP_PONG_def

definition frame :: "u8 \<Rightarrow> u8 list \<Rightarrow> u8 list" where
  "frame opcode payload =
     (let n = length payload
      in [0x80 OR (opcode AND 0x0F)] @
         (if n < 126 then [word_of_nat n]
          else if n \<le> 0xFFFF then 126 # be_bytes 2 n
          else 127 # be_bytes 8 n) @ payload)"

fun boundary_below :: "u8 list \<Rightarrow> nat \<Rightarrow> nat" where
  "boundary_below s 0 = 0"
| "boundary_below s (Suc n) = (if \<not> is_char_boundary s (Suc n) then boundary_below s n else Suc n)"

definition truncate_on_char_boundary :: "u8 list \<Rightarrow> nat \<Rightarrow> u8 list" where
  "truncate_on_char_boundary s m =
     (if length s \<le> m then s else take (boundary_below s m) s)"

definition close_frame :: "u16 \<Rightarrow> u8 list \<Rightarrow> u8 list" where
  "close_frame code reason =
     frame OP_CLOSE (be_bytes 2 (unat code) @ truncate_on_char_boundary reason 123)"

section \<open>Inbound frames\<close>

datatype ws_event =
    Text "u8 list" | Binary "u8 list" | Ping "u8 list" | Pong
  | Close u16 "u8 list" | Fail u16 string

record ws_rx =
  wbuf :: "u8 list"
  consumed :: nat
  frag_op :: "u8 option"
  frag :: "u8 list"
  max_message :: nat
  ended :: bool

datatype ParseOne = NeedMore | Continue | Event ws_event

definition rx_new :: "nat \<Rightarrow> ws_rx" where
  "rx_new m = \<lparr>wbuf = [], consumed = 0, frag_op = None, frag = [], max_message = m, ended = False\<rparr>"

definition valid_close_code :: "u16 \<Rightarrow> bool" where
  "valid_close_code c \<longleftrightarrow>
     (1000 \<le> c \<and> c \<le> 1014 \<or> 3000 \<le> c \<and> c \<le> 4999) \<and> \<not> (1004 \<le> c \<and> c \<le> 1006 \<or> c = 1015)"

definition finish_message :: "u8 \<Rightarrow> u8 list \<Rightarrow> ParseOne" where
  "finish_message opcode payload =
     (if opcode = OP_TEXT
      then (if utf8_valid payload then Event (Text payload)
            else Event (Fail 1007 ''text message not utf-8''))
      else Event (Binary payload))"

definition unmask :: "u8 list \<Rightarrow> u8 list \<Rightarrow> u8 list" where
  "unmask key bs = map (\<lambda>(i, b). b XOR key ! (i mod 4)) (zip [0..<length bs] bs)"

text \<open>
  The length field: the payload length and the offset past it, or the result that ends the
  parse.
\<close>

definition parse_len :: "u8 list \<Rightarrow> ParseOne + nat \<times> nat" where
  "parse_len b =
     (let len = unat (b ! 1 AND 0x7F)
      in if len = 126 then
           if length b < 2 + 2 then Inl NeedMore
           else (let len = of_be_bytes [b ! 2, b ! 3]
                 in if len < 126 then Inl (Event (Fail 1002 ''non-minimal payload length''))
                    else Inr (len, 4))
         else if len = 127 then
           if length b < 2 + 8 then Inl NeedMore
           else if b ! 2 AND 0x80 \<noteq> 0 then Inl (Event (Fail 1002 ''invalid payload length''))
           else (let len = of_be_bytes (take 8 (drop 2 b))
                 in if len \<le> 65535 then Inl (Event (Fail 1002 ''non-minimal payload length''))
                    else Inr (len, 10))
         else Inr (len, 2))"

text \<open>What a complete frame means, once its payload is unmasked.\<close>

definition parse_opcode :: "bool \<Rightarrow> u8 \<Rightarrow> u8 list \<Rightarrow> ws_rx \<Rightarrow> ParseOne \<times> ws_rx" where
  "parse_opcode fin opcode payload rx =
     (if opcode = OP_PING then (Event (Ping payload), rx)
      else if opcode = OP_PONG then (Event Pong, rx)
      else if opcode = OP_CLOSE then
        if length payload = 1 then (Event (Fail 1002 ''malformed close payload''), rx)
        else if length payload \<ge> 2 then
          (let code = word_of_nat (of_be_bytes [payload ! 0, payload ! 1])
           in if \<not> valid_close_code code then (Event (Fail 1002 ''invalid close code''), rx)
              else if utf8_valid (drop 2 payload) then (Event (Close code (drop 2 payload)), rx)
              else (Event (Fail 1007 ''close reason not utf-8''), rx))
        else (Event (Close 1005 []), rx)
      else if opcode = OP_TEXT \<or> opcode = OP_BINARY then
        if frag_op rx \<noteq> None then
          (Event (Fail 1002 ''new message inside fragmented message''), rx)
        else if fin then (finish_message opcode payload, rx)
        else (Continue, rx\<lparr>frag_op := Some opcode, frag := payload\<rparr>)
      else if opcode = OP_CONT then
        (case frag_op rx of
           None \<Rightarrow> (Event (Fail 1002 ''continuation without a message''), rx)
         | Some op \<Rightarrow>
             if length (frag rx) + length payload > max_message rx
             then (Event (Fail 1009 ''message too big''), rx)
             else (let msg = frag rx @ payload
                   in if fin then (finish_message op msg, rx\<lparr>frag_op := None, frag := []\<rparr>)
                      else (Continue, rx\<lparr>frag := msg\<rparr>)))
      else (Event (Fail 1002 ''unknown opcode''), rx))"

definition parse_one :: "u8 list \<Rightarrow> ws_rx \<Rightarrow> ParseOne \<times> ws_rx" where
  "parse_one b rx =
     (if length b < 2 then (NeedMore, rx)
      else if b ! 0 AND 0x70 \<noteq> 0 then (Event (Fail 1002 ''reserved bits set''), rx)
      else if b ! 1 AND 0x80 = 0 then (Event (Fail 1002 ''client frame not masked''), rx)
      else
        (let fin = (b ! 0 AND 0x80 \<noteq> 0); opcode = b ! 0 AND 0x0F
         in case parse_len b of
              Inl r \<Rightarrow> (r, rx)
            | Inr (len, off) \<Rightarrow>
                if opcode \<ge> OP_CLOSE \<and> (len > 125 \<or> \<not> fin)
                then (Event (Fail 1002 ''malformed control frame''), rx)
                else if len > max_message rx then (Event (Fail 1009 ''message too big''), rx)
                else if length b < off + 4 then (NeedMore, rx)
                else if length b < off + 4 + len then (NeedMore, rx)
                else (let key = take 4 (drop off b);
                          payload = unmask key (take len (drop (off + 4) b))
                      in parse_opcode fin opcode payload (rx\<lparr>consumed := off + 4 + len\<rparr>))))"

fun last_event :: "ws_event \<Rightarrow> bool" where
  "last_event (Fail c m) = True"
| "last_event (Close c r) = True"
| "last_event _ = False"

text \<open>
  \<open>parse_all\<close> walks a cursor over \<open>b\<close>; here it is the rest of the list and the position.  The
  guard on \<open>consumed\<close> never fires (\<open>parse_one_consumed\<close> below); it makes the recursion well
  founded.
\<close>

function parse_all :: "u8 list \<Rightarrow> nat \<Rightarrow> ws_rx \<Rightarrow> ws_event list \<Rightarrow> nat \<times> ws_event list \<times> ws_rx" where
  "parse_all b pos rx out =
     (case parse_one b rx of
        (NeedMore, rx) \<Rightarrow> (pos, out, rx)
      | (Event ev, rx) \<Rightarrow>
          if last_event ev then (pos + consumed rx, out @ [ev], rx\<lparr>ended := True, wbuf := []\<rparr>)
          else if consumed rx = 0 \<or> length b < consumed rx then (pos, out, rx)
          else parse_all (drop (consumed rx) b) (pos + consumed rx) rx (out @ [ev])
      | (Continue, rx) \<Rightarrow>
          if consumed rx = 0 \<or> length b < consumed rx then (pos, out, rx)
          else parse_all (drop (consumed rx) b) (pos + consumed rx) rx out)"
  by pat_completeness auto
termination
  by (relation "measure (\<lambda>(b, _). length b)") auto

declare parse_all.simps [simp del]

definition ws_push :: "u8 list \<Rightarrow> ws_rx \<Rightarrow> ws_event list \<times> ws_rx" where
  "ws_push data rx =
     (if ended rx then ([], rx)
      else if wbuf rx = [] then
        (let (used, out, rx) = parse_all data 0 rx []
         in (out, if \<not> ended rx \<and> used < length data then rx\<lparr>wbuf := wbuf rx @ drop used data\<rparr> else rx))
      else
        (let buf = wbuf rx @ data; (used, out, rx) = parse_all buf 0 (rx\<lparr>wbuf := []\<rparr>) []
         in (out, if \<not> ended rx then rx\<lparr>wbuf := drop used buf\<rparr> else rx)))"

fun ws_pushes :: "u8 list list \<Rightarrow> ws_rx \<Rightarrow> ws_event list \<times> ws_rx" where
  "ws_pushes [] rx = ([], rx)"
| "ws_pushes (d # ds) rx =
     (let (evs, rx) = ws_push d rx; (evs', rx) = ws_pushes ds rx in (evs @ evs', rx))"

end
