(* ===== verification/WebSocket_Rx_Props.thy ===== *)
theory WebSocket_Rx_Props
  imports WebSocket
begin

text \<open>
  The inbound parser proved: what one frame does to the receiver, how the cursor loop behaves when
  more bytes arrive, and from that the independence of the chunks, the memory bound and the
  terminal event.
\<close>

section \<open>One frame\<close>

lemma parse_len_append:
  assumes "parse_len b \<noteq> Inl NeedMore" "2 \<le> length b"
  shows "parse_len (b @ c) = parse_len b"
  using assms by (auto simp: parse_len_def Let_def nth_append split: if_splits)

lemma parse_len_result:
  "parse_len b = Inl r \<Longrightarrow> r = NeedMore \<or> (\<exists>m. r = Event (Fail 1002 m))"
  "parse_len b = Inl NeedMore \<Longrightarrow> length b < 10"
  "parse_len b = Inr (len, off) \<Longrightarrow> 2 \<le> length b \<Longrightarrow> 2 \<le> off \<and> off \<le> 10 \<and> off \<le> length b"
  by (auto simp: parse_len_def Let_def split: if_splits)

lemma parse_one_append:
  assumes "parse_one b rx = (r, rx')" "r \<noteq> NeedMore"
  shows "parse_one (b @ c) rx = (r, rx')"
proof -
  have two: "2 \<le> length b" using assms by (auto simp: parse_one_def split: if_splits)
  then have "(b @ c) ! 0 = b ! 0" by (cases b) simp_all
  moreover have "(b @ c) ! 1 = b ! 1" using two by (simp add: nth_append)
  ultimately have nth: "(b @ c) ! 0 = b ! 0" "(b @ c) ! 1 = b ! 1" by blast+
  show ?thesis
  proof (cases "b ! 0 AND 0x70 \<noteq> 0 \<or> b ! 1 AND 0x80 = 0")
    case True
    with assms two nth [simplified] show ?thesis by (auto simp: parse_one_def)
  next
    case False
    have "parse_len b \<noteq> Inl NeedMore"
      using assms two False by (auto simp: parse_one_def)
    from parse_len_append [OF this two, of c] show ?thesis
      using assms two False
      using nth [simplified]
      by (auto simp: parse_one_def Let_def split: sum.splits if_splits)
  qed
qed

lemma parse_opcode_keeps:
  assumes "parse_opcode fin opcode payload rx = (r, rx')"
  shows "consumed rx' = consumed rx" "wbuf rx' = wbuf rx" "ended rx' = ended rx"
    "max_message rx' = max_message rx" "r \<noteq> NeedMore"
  using assms
  by (auto simp: parse_opcode_def finish_message_def Let_def split: if_splits option.splits)

text \<open>The outcomes of one frame: wait, fail on the header, or a complete frame.\<close>

lemma parse_one_cases:
  assumes "parse_one b rx = (r, rx')"
  obtains (wait) "r = NeedMore" "rx' = rx" "length b < max_message rx + 14"
    | (header) c m where "r = Event (Fail c m)" "rx' = rx"
    | (frame) fin opcode payload off where
        "parse_opcode fin opcode payload (rx\<lparr>consumed := off + 4 + length payload\<rparr>) = (r, rx')"
        "length payload \<le> max_message rx" "off + 4 + length payload \<le> length b"
proof (cases "length b < 2 \<or> b ! 0 AND 0x70 \<noteq> 0 \<or> b ! 1 AND 0x80 = 0")
  case True
  with assms that(1,2) show thesis by (auto simp: parse_one_def split: if_splits)
next
  case ok: False
  show thesis
  proof (cases "parse_len b")
    case (Inl l)
    with assms ok have r: "r = l" "rx' = rx" by (simp_all add: parse_one_def Let_def)
    show thesis
    proof (cases "l = NeedMore")
      case True
      with parse_len_result(2) [of b] Inl that(1) r show thesis by simp
    next
      case False
      with parse_len_result(1) [OF Inl] that(2) r show thesis by blast
    qed
  next
    case (Inr p)
    obtain len off where p: "p = (len, off)" by (cases p)
    from parse_len_result(3) [of b len off] Inr p ok have off: "2 \<le> off" "off \<le> 10" by auto
    let ?bad = "b ! 0 AND 0x0F \<ge> OP_CLOSE \<and> (len > 125 \<or> b ! 0 AND 0x80 = 0)"
    consider (bad) "?bad" | (big) "\<not> ?bad" "len > max_message rx"
      | (short) "\<not> ?bad" "len \<le> max_message rx" "length b < off + 4 + len"
      | (full) "\<not> ?bad" "len \<le> max_message rx" "off + 4 + len \<le> length b" by linarith
    then show thesis
    proof cases
      case bad
      with assms ok Inr p have "(r, rx') = (Event (Fail 1002 ''malformed control frame''), rx)"
        by (simp add: parse_one_def Let_def)
      with that(2) show thesis by blast
    next
      case big
      with assms ok Inr p have "(r, rx') = (Event (Fail 1009 ''message too big''), rx)"
        by (simp add: parse_one_def Let_def split: if_splits)
      with that(2) show thesis by blast
    next
      case short
      with assms ok Inr p have "(r, rx') = (NeedMore, rx)"
        by (simp add: parse_one_def Let_def split: if_splits)
      with that(1) short off show thesis by simp
    next
      case full
      let ?payload = "unmask (take 4 (drop off b)) (take len (drop (off + 4) b))"
      have len: "length ?payload = len" using full(3) by (simp add: unmask_def)
      have "parse_opcode (b ! 0 AND 0x80 \<noteq> 0) (b ! 0 AND 0x0F) ?payload
          (rx\<lparr>consumed := off + 4 + length ?payload\<rparr>) = (r, rx')"
        using assms ok Inr p full unfolding len by (simp add: parse_one_def Let_def split: if_splits)
      from that(3) [OF this] full(2,3) show thesis unfolding len by simp
    qed
  qed
qed

lemma parse_one_NeedMore: "parse_one b rx = (NeedMore, rx') \<Longrightarrow> rx' = rx"
  by (erule parse_one_cases) (auto dest: parse_opcode_keeps(5))

lemma parse_one_keeps:
  assumes "parse_one b rx = (r, rx')"
  shows "wbuf rx' = wbuf rx" "ended rx' = ended rx" "max_message rx' = max_message rx"
  using assms by (rule parse_one_cases; use parse_opcode_keeps in force)+

lemma parse_one_consumed:
  assumes "parse_one b rx = (r, rx')" "r = Continue \<or> (\<exists>ev. r = Event ev \<and> \<not> last_event ev)"
  shows "0 < consumed rx'" "consumed rx' \<le> length b"
proof -
  from assms(1) have "0 < consumed rx' \<and> consumed rx' \<le> length b"
  proof (cases rule: parse_one_cases)
    case (frame fin opcode payload off)
    from parse_opcode_keeps(1) [OF frame(1)] frame(3) show ?thesis by simp
  qed (use assms(2) in auto)
  then show "0 < consumed rx'" "consumed rx' \<le> length b" by auto
qed

lemma parse_one_waits:
  assumes "parse_one b rx = (NeedMore, rx')"
  shows "length b < max_message rx + 14"
  using assms by (rule parse_one_cases) (auto dest: parse_opcode_keeps(5))

text \<open>What an event carries, and what the receiver keeps, is bounded by \<open>max_message\<close>.\<close>

fun event_size :: "ws_event \<Rightarrow> nat" where
  "event_size (Text s) = length s"
| "event_size (Binary s) = length s"
| "event_size (Ping s) = length s"
| "event_size (Close c s) = length s"
| "event_size _ = 0"

definition frag_ok :: "ws_rx \<Rightarrow> bool" where
  "frag_ok rx \<longleftrightarrow> length (frag rx) \<le> max_message rx"

lemma parse_opcode_bound:
  assumes "parse_opcode fin opcode payload rx = (r, rx')" "frag_ok rx" "length payload \<le> max_message rx"
  shows "frag_ok rx' \<and> (\<forall>ev. r = Event ev \<longrightarrow> event_size ev \<le> max_message rx)"
  using assms
  by (auto simp: parse_opcode_def finish_message_def Let_def frag_ok_def split: if_splits option.splits)

lemma parse_one_bound:
  assumes "parse_one b rx = (r, rx')" "frag_ok rx"
  shows "frag_ok rx' \<and> (\<forall>ev. r = Event ev \<longrightarrow> event_size ev \<le> max_message rx)"
  using assms(1)
proof (cases rule: parse_one_cases)
  case (frame fin opcode payload off)
  from parse_opcode_bound [OF frame(1)] frame(2) assms(2) show ?thesis by (simp add: frag_ok_def)
qed (use assms(2) in auto)

section \<open>The cursor loop\<close>

text \<open>One turn of the loop, without the guard.\<close>

lemma parse_all_unfold:
  "parse_all b pos rx out =
     (case parse_one b rx of
        (NeedMore, rx) \<Rightarrow> (pos, out, rx)
      | (Event ev, rx) \<Rightarrow>
          if last_event ev then (pos + consumed rx, out @ [ev], rx\<lparr>ended := True, wbuf := []\<rparr>)
          else parse_all (drop (consumed rx) b) (pos + consumed rx) rx (out @ [ev])
      | (Continue, rx) \<Rightarrow> parse_all (drop (consumed rx) b) (pos + consumed rx) rx out)"
proof (cases "parse_one b rx")
  case (Pair r rx')
  with parse_one_consumed [OF Pair] show ?thesis
    by (subst parse_all.simps) (auto split: ParseOne.split)
qed

text \<open>An induction rule whose cases are the loop's: stop, end, or one frame and the rest.\<close>

lemma parse_all_induct [case_names NeedMore Last Step]:
  assumes "\<And>b pos rx out. parse_one b rx = (NeedMore, rx) \<Longrightarrow> P b pos rx out"
    and "\<And>b pos rx out ev rx'. parse_one b rx = (Event ev, rx') \<Longrightarrow> last_event ev \<Longrightarrow> P b pos rx out"
    and "\<And>b pos rx out r rx' evs. parse_one b rx = (r, rx') \<Longrightarrow>
      r = Continue \<and> evs = [] \<or> (\<exists>ev. r = Event ev \<and> \<not> last_event ev \<and> evs = [ev]) \<Longrightarrow>
      0 < consumed rx' \<Longrightarrow> consumed rx' \<le> length b \<Longrightarrow>
      P (drop (consumed rx') b) (pos + consumed rx') rx' (out @ evs) \<Longrightarrow> P b pos rx out"
  shows "P b pos rx out"
proof (induction b arbitrary: pos rx out rule: length_induct)
  case (1 b)
  obtain r rx' where p: "parse_one b rx = (r, rx')" by fastforce
  have IH: "P (drop (consumed rx') b) (pos + consumed rx') rx' o'"
    if "0 < consumed rx'" "consumed rx' \<le> length b" for o'
    using 1 that by (metis diff_less length_drop length_greater_0_conv less_le_trans)
  show ?case
  proof (cases r)
    case NeedMore
    with p parse_one_NeedMore [of b rx rx'] assms(1) show ?thesis by simp
  next
    case Continue
    with p parse_one_consumed [OF p] IH show ?thesis
      by (intro assms(3) [where evs = "[]", OF p]) auto
  next
    case (Event ev)
    show ?thesis
    proof (cases "last_event ev")
      case False
      with Event p parse_one_consumed [OF p] IH show ?thesis
        by (intro assms(3) [where evs = "[ev]", OF p]) auto
    qed (use Event p assms(2) in blast)
  qed
qed

lemma parse_all_NeedMore: "parse_one b rx = (NeedMore, rx) \<Longrightarrow> parse_all b pos rx out = (pos, out, rx)"
  by (subst parse_all_unfold) simp

lemma parse_all_Last: "parse_one b rx = (Event ev, rx') \<Longrightarrow> last_event ev \<Longrightarrow>
    parse_all b pos rx out = (pos + consumed rx', out @ [ev], rx'\<lparr>ended := True, wbuf := []\<rparr>)"
  by (subst parse_all_unfold) simp

lemma parse_all_Step:
  "parse_one b rx = (r, rx') \<Longrightarrow>
   r = Continue \<and> evs = [] \<or> (\<exists>ev. r = Event ev \<and> \<not> last_event ev \<and> evs = [ev]) \<Longrightarrow>
   parse_all b pos rx out = parse_all (drop (consumed rx') b) (pos + consumed rx') rx' (out @ evs)"
  by (subst parse_all_unfold) auto

text \<open>Position and output only accumulate.\<close>

lemma parse_all_shift:
  "parse_all b (k + pos) rx (pre @ out) =
     (let (used, o', rx') = parse_all b pos rx out in (k + used, pre @ o', rx'))"
proof (induction b pos rx out rule: parse_all_induct)
  case (NeedMore b pos rx out)
  then show ?case by (simp add: parse_all_NeedMore)
next
  case (Last b pos rx out ev rx')
  then show ?case by (simp add: parse_all_Last)
next
  case (Step b pos rx out r rx' evs)
  from Step(5) show ?case
    by (simp add: parse_all_Step [OF Step(1,2)] add.assoc append_assoc)
qed

lemma parse_all_out: "parse_all b pos rx out =
    (let (used, o', rx') = parse_all b 0 rx [] in (pos + used, out @ o', rx'))"
  using parse_all_shift [of b pos 0 rx out "[]"] by simp

lemma parse_all_spec:
  assumes "parse_all b pos rx out = (used, o', rx')" "\<not> ended rx"
  shows "max_message rx' = max_message rx \<and>
    (if ended rx' then wbuf rx' = []
     else pos \<le> used \<and> used - pos \<le> length b \<and> wbuf rx' = wbuf rx \<and>
       parse_one (drop (used - pos) b) rx' = (NeedMore, rx'))"
  using assms
proof (induction b pos rx out rule: parse_all_induct)
  case (NeedMore b pos rx out)
  then show ?case by (simp add: parse_all_NeedMore)
next
  case (Last b pos rx out ev rx1)
  with parse_one_keeps [OF Last(1)] show ?case by (auto simp: parse_all_Last)
next
  case (Step b pos rx out r rx1 evs)
  note k = parse_one_keeps [OF Step(1)]
  have "parse_all (drop (consumed rx1) b) (pos + consumed rx1) rx1 (out @ evs) = (used, o', rx')"
    using Step(6) parse_all_Step [OF Step(1,2)] by simp
  from Step(5) [OF this] k Step(3,4,7) show ?case
    by (auto simp: drop_drop split: if_splits)
qed

text \<open>More bytes: the loop goes on where it stopped, unless it ended.\<close>

lemma parse_all_append:
  assumes "parse_all b pos rx out = (used, o', rx')" "\<not> ended rx"
  shows "parse_all (b @ c) pos rx out =
    (if ended rx' then (used, o', rx') else parse_all (drop (used - pos) b @ c) used rx' o')"
  using assms
proof (induction b pos rx out rule: parse_all_induct)
  case (NeedMore b pos rx out)
  then show ?case by (simp add: parse_all_NeedMore)
next
  case (Last b pos rx out ev rx1)
  from parse_one_append [OF Last(1), of c] Last show ?case by (auto simp: parse_all_Last)
next
  case (Step b pos rx out r rx1 evs)
  have "parse_one (b @ c) rx = (r, rx1)" using parse_one_append [OF Step(1), of c] Step(2) by auto
  note app = parse_all_Step [OF this Step(2)]
  have one: "parse_all (drop (consumed rx1) b) (pos + consumed rx1) rx1 (out @ evs) = (used, o', rx')"
    using Step(6) parse_all_Step [OF Step(1,2)] by simp
  have e: "\<not> ended rx1" using parse_one_keeps(2) [OF Step(1)] Step(7) by simp
  have pos: "pos + consumed rx1 \<le> used" if "\<not> ended rx'"
    using parse_all_spec [OF one e] that by simp
  from Step(5) [OF one e] pos Step(4) show ?case
    by (auto simp: app drop_drop)
qed

section \<open>Pushes\<close>

text \<open>The two ways \<open>push\<close> handles its buffer compute the same thing.\<close>

lemma ws_push_eq:
  "ws_push data rx =
    (if ended rx then ([], rx)
     else (let (used, out, rx') = parse_all (wbuf rx @ data) 0 (rx\<lparr>wbuf := []\<rparr>) []
           in (out, if ended rx' then rx' else rx'\<lparr>wbuf := drop used (wbuf rx @ data)\<rparr>)))"
proof (cases "ended rx \<or> wbuf rx \<noteq> []")
  case True
  then show ?thesis
    by (cases "parse_all (wbuf rx @ data) 0 (rx\<lparr>wbuf := []\<rparr>) []") (auto simp: ws_push_def Let_def)
next
  case False
  then have rx: "rx\<lparr>wbuf := []\<rparr> = rx" by (cases rx) simp
  obtain used out rx' where p: "parse_all data 0 rx [] = (used, out, rx')" by (cases "parse_all data 0 rx []") auto
  have "wbuf rx' = [] \<and> used \<le> length data" if "\<not> ended rx'"
    using parse_all_spec [OF p] False that by simp
  moreover have "rx'\<lparr>wbuf := []\<rparr> = rx'" if "wbuf rx' = []" using that by (cases rx') simp
  ultimately show ?thesis using False by (auto simp: ws_push_def p rx Let_def)
qed

lemma ws_push_append: "ws_pushes [d1, d2] rx = ws_push (d1 @ d2) rx"
proof (cases "ended rx")
  case True
  then show ?thesis by (simp add: ws_push_eq)
next
  case False
  let ?rx = "rx\<lparr>wbuf := []\<rparr>" and ?b = "wbuf rx @ d1"
  obtain used out rx1 where p: "parse_all ?b 0 ?rx [] = (used, out, rx1)" by (cases "parse_all ?b 0 ?rx []") auto
  have e: "\<not> ended ?rx" using False by simp
  note app = parse_all_append [OF p e, of d2]
  show ?thesis
  proof (cases "ended rx1")
    case True
    with app False p show ?thesis by (simp add: ws_push_eq Let_def)
  next
    case nend: False
    have w: "rx1\<lparr>wbuf := []\<rparr> = rx1" using parse_all_spec [OF p e] nend by (cases rx1) simp
    have len: "used \<le> length ?b" using parse_all_spec [OF p e] nend by simp
    have w': "rx1\<lparr>wbuf := x, wbuf := []\<rparr> = rx1" for x using w by (cases rx1) simp
    obtain u2 o2 rx2 where p2: "parse_all (drop used ?b @ d2) 0 rx1 [] = (u2, o2, rx2)"
      by (cases "parse_all (drop used ?b @ d2) 0 rx1 []") auto
    have "parse_all (?b @ d2) 0 ?rx [] = (used + u2, out @ o2, rx2)"
      using app nend parse_all_out [of "drop used ?b @ d2" used rx1 out] p2 by simp
    moreover have "drop (used + u2) (?b @ d2) = drop u2 (drop used ?b @ d2)"
    proof -
      have "drop used (?b @ d2) = drop used ?b @ d2" using len by simp
      then show ?thesis by (metis add.commute drop_drop)
    qed
    ultimately show ?thesis
      using False nend p p2 w' by (auto simp: ws_push_eq Let_def)
  qed
qed

end
