(* ===== verification/WebSocket_Props.thy ===== *)
theory WebSocket_Props
  imports WebSocket_Rx_Props
begin

text \<open>
  What the WebSocket codec promises: events do not depend on how the bytes were chunked, memory
  and message sizes are bounded, nothing follows a terminal event, fragmented client messages and
  server frames round-trip, and the close frame is always legal.
\<close>

section \<open>Chunks, bounds and the end\<close>

lemma ws_pushes_concat: "ws_pushes (d # ds) rx = ws_push (concat (d # ds)) rx"
proof (induction ds arbitrary: d rx)
  case Nil
  show ?case by (simp add: split_beta)
next
  case (Cons d' ds)
  have "ws_pushes (d # d' # ds) rx =
      (let (e1, rx1) = ws_push d rx; (e2, rx2) = ws_pushes (d' # ds) rx1 in (e1 @ e2, rx2))" by simp
  also have "\<dots> = ws_pushes [d, concat (d' # ds)] rx"
    unfolding Cons.IH [of d'] by (simp add: split_beta Let_def)
  also have "\<dots> = ws_push (concat (d # d' # ds)) rx" by (simp only: ws_push_append concat.simps)
  finally show ?case .
qed

text \<open>
  What holds between pushes: the buffer is a prefix of one frame, the fragments fit a message.
\<close>

definition rx_ok :: "ws_rx \<Rightarrow> bool" where
  "rx_ok rx \<longleftrightarrow> frag_ok rx \<and> (if ended rx then wbuf rx = [] else length (wbuf rx) < max_message rx + 14)"

definition events_ok :: "nat \<Rightarrow> ws_event list \<Rightarrow> bool" where
  "events_ok m evs \<longleftrightarrow> (\<forall>ev\<in>set evs. event_size ev \<le> m) \<and> (\<forall>ev\<in>set (butlast evs). \<not> last_event ev)"

lemma parse_all_events:
  assumes "parse_all b pos rx out = (used, o', rx')" "frag_ok rx" "\<not> ended rx"
  shows "\<exists>evs. o' = out @ evs \<and> events_ok (max_message rx) evs \<and> frag_ok rx' \<and>
    (ended rx' \<longleftrightarrow> evs \<noteq> [] \<and> last_event (last evs))"
  using assms
proof (induction b pos rx out rule: parse_all_induct)
  case (NeedMore b pos rx out)
  then show ?case by (simp add: parse_all_NeedMore events_ok_def)
next
  case (Last b pos rx out ev rx1)
  from Last(3) have e: "o' = out @ [ev]" "rx' = rx1\<lparr>ended := True, wbuf := []\<rparr>"
    by (simp_all add: parse_all_Last [OF Last(1,2)])
  from parse_one_bound [OF Last(1,4)] Last(2) show ?case
    unfolding e by (intro exI [of _ "[ev]"]) (simp add: events_ok_def frag_ok_def)
next
  case (Step b pos rx out r rx1 evs)
  have one: "parse_all (drop (consumed rx1) b) (pos + consumed rx1) rx1 (out @ evs) = (used, o', rx')"
    using Step(6) parse_all_Step [OF Step(1,2)] by simp
  note k = parse_one_keeps [OF Step(1)] parse_one_bound [OF Step(1) Step(7)]
  from Step(5) [OF one] k Step(8) obtain evs' where evs': "o' = out @ evs @ evs'"
    "events_ok (max_message rx) evs'" "frag_ok rx'" "ended rx' \<longleftrightarrow> evs' \<noteq> [] \<and> last_event (last evs')"
    by auto
  have "events_ok (max_message rx) (evs @ evs')"
    using evs'(2) Step(2) k(4) by (cases evs') (auto simp: events_ok_def)
  with evs' Step(2) show ?case by (intro exI [of _ "evs @ evs'"]) (cases evs'; auto)
qed

lemma ws_push_ok:
  assumes "rx_ok rx" "ws_push d rx = (evs, rx')"
  shows "rx_ok rx' \<and> max_message rx' = max_message rx \<and> events_ok (max_message rx) evs \<and>
    (if ended rx then evs = [] \<and> rx' = rx else ended rx' \<longleftrightarrow> evs \<noteq> [] \<and> last_event (last evs))"
proof (cases "ended rx")
  case True
  with assms show ?thesis by (simp add: ws_push_eq events_ok_def)
next
  case False
  obtain used out rx1 where p: "parse_all (wbuf rx @ d) 0 (rx\<lparr>wbuf := []\<rparr>) [] = (used, out, rx1)"
    by (cases "parse_all (wbuf rx @ d) 0 (rx\<lparr>wbuf := []\<rparr>) []") auto
  have f: "frag_ok (rx\<lparr>wbuf := []\<rparr>)" using assms(1) by (simp add: rx_ok_def frag_ok_def)
  from parse_all_events [OF p f] False have e: "events_ok (max_message rx) out" "frag_ok rx1"
    "ended rx1 \<longleftrightarrow> out \<noteq> [] \<and> last_event (last out)" by auto
  from parse_all_spec [OF p] False have s: "max_message rx1 = max_message rx"
    "if ended rx1 then wbuf rx1 = [] else parse_one (drop used (wbuf rx @ d)) rx1 = (NeedMore, rx1)"
    by (auto split: if_splits)
  have "length (drop used (wbuf rx @ d)) < max_message rx + 14" if "\<not> ended rx1"
    using parse_one_waits [of "drop used (wbuf rx @ d)" rx1 rx1] s that by simp
  with assms(2) False p e s show ?thesis
    by (auto simp: ws_push_eq rx_ok_def frag_ok_def split: if_splits)
qed

lemma ws_pushes_ok:
  "rx_ok rx \<Longrightarrow> ws_pushes ds rx = (evs, rx') \<Longrightarrow>
     rx_ok rx' \<and> max_message rx' = max_message rx \<and> events_ok (max_message rx) evs \<and>
     (if ended rx then evs = [] \<and> rx' = rx else ended rx' \<longleftrightarrow> evs \<noteq> [] \<and> last_event (last evs))"
proof (cases ds)
  case (Cons d ds')
  assume "rx_ok rx" "ws_pushes ds rx = (evs, rx')"
  with ws_push_ok [of rx "concat ds"] show ?thesis unfolding Cons ws_pushes_concat by blast
qed (auto simp: events_ok_def)

lemma rx_ok_new: "rx_ok (rx_new m)"
  by (simp add: rx_ok_def rx_new_def frag_ok_def)

text \<open>
  C33: the events do not depend on the chunks.  Feeding a byte stream in any pieces, from any
  receiver state, delivers the events and leaves the state of feeding it at once.
\<close>

theorem ws_chunks_irrelevant:
  "ws_pushes (d # ds) rx = ws_push (concat (d # ds)) rx"
  by (rule ws_pushes_concat)

text \<open>
  C35: an inbound connection's memory is bounded.  Whatever bytes arrive in whatever chunks, no
  event carries more than \<open>max_message\<close> bytes, the fragments kept never exceed it, and the
  unparsed tail is less than \<open>max_message + 14\<close> bytes (one incomplete frame).
\<close>

theorem ws_memory_bounded:
  assumes "ws_pushes ds (rx_new m) = (evs, rx)"
  shows "(\<forall>ev\<in>set evs. event_size ev \<le> m) \<and> length (frag rx) \<le> m \<and> length (wbuf rx) < m + 14"
  using ws_pushes_ok [OF rx_ok_new assms]
  by (auto simp: rx_ok_def events_ok_def frag_ok_def rx_new_def split: if_splits)

text \<open>A masked "Hello" in two chunks, with a close behind it and bytes after the close.\<close>

definition hello_chunks :: "u8 list list" where
  "hello_chunks = [[0x81, 0x85, 1, 2, 3], [4, 0x49, 0x67, 0x6F, 0x68, 0x6E, 0x88, 0x80, 0, 0, 0, 0],
     [0x81, 0x80, 0, 0, 0, 0]]"

lemma hello_run: "fst (ws_pushes hello_chunks (rx_new 100)) = [Text [0x48, 0x65, 0x6C, 0x6C, 0x6F], Close 1005 []]"
  by code_simp

theorem ws_memory_bounded_witness: "length (wbuf (snd (ws_pushes hello_chunks (rx_new 100)))) < 114"
  using ws_memory_bounded [of hello_chunks 100, OF prod.collapse [symmetric]] by simp

text \<open>
  Nothing follows the end.  A Close or a failure is the last event a connection delivers,
  the receiver has ended exactly when such an event was delivered, and from then on further bytes
  change nothing.
\<close>

theorem ws_terminal_event:
  assumes "ws_pushes ds (rx_new m) = (evs, rx)"
  shows "(\<forall>ev\<in>set (butlast evs). \<not> last_event ev) \<and>
    (ended rx \<longleftrightarrow> evs \<noteq> [] \<and> last_event (last evs)) \<and> (ended rx \<longrightarrow> ws_pushes es rx = ([], rx))"
proof -
  note ok = ws_pushes_ok [OF rx_ok_new assms]
  then have "rx_ok rx" by blast
  from ws_pushes_ok [OF this, of es "fst (ws_pushes es rx)" "snd (ws_pushes es rx)"]
  have "ended rx \<longrightarrow> ws_pushes es rx = ([], rx)" by (auto simp: prod_eq_iff)
  with ok show ?thesis by (auto simp: events_ok_def rx_new_def)
qed

theorem ws_terminal_event_witness:
  "ended (snd (ws_pushes hello_chunks (rx_new 100))) \<and>
   ws_pushes [[1, 2, 3]] (snd (ws_pushes hello_chunks (rx_new 100))) =
     ([], snd (ws_pushes hello_chunks (rx_new 100)))"
  using ws_terminal_event [of hello_chunks 100 _ _ "[[1, 2, 3]]", OF prod.collapse [symmetric]] hello_run
  by (simp del: ws_pushes.simps)

section \<open>Client messages\<close>

text \<open>What a client sends (RFC 6455, 5.2): a masked frame with the shortest length field.\<close>

definition client_header :: "bool \<Rightarrow> u8 \<Rightarrow> nat \<Rightarrow> u8 list" where
  "client_header fin opcode n =
     ((if fin then 0x80 else 0) OR opcode) #
     (if n < 126 then [0x80 OR word_of_nat n]
      else if n \<le> 0xFFFF then (0x80 OR 126) # be_bytes 2 n
      else (0x80 OR 127) # be_bytes 8 n)"

definition client_frame :: "bool \<Rightarrow> u8 \<Rightarrow> u8 list \<Rightarrow> u8 list \<Rightarrow> u8 list" where
  "client_frame fin opcode key payload =
     client_header fin opcode (length payload) @ key @ unmask key payload"

text \<open>A message in fragments, each with its masking key.\<close>

fun client_rest :: "(u8 list \<times> u8 list) list \<Rightarrow> u8 list" where
  "client_rest [] = []"
| "client_rest ((key, p) # fs) = client_frame (fs = []) OP_CONT key p @ client_rest fs"

fun client_message :: "u8 \<Rightarrow> (u8 list \<times> u8 list) list \<Rightarrow> u8 list" where
  "client_message op [] = []"
| "client_message op ((key, p) # fs) = client_frame (fs = []) op key p @ client_rest fs"

lemma length_unmask [simp]: "length (unmask key p) = length p"
  by (simp add: unmask_def)

lemma unmask_unmask [simp]: "unmask key (unmask key p) = p"
  by (rule nth_equalityI) (auto simp: unmask_def xor.assoc)

lemma header_bits:
  assumes "op \<in> {OP_CONT, OP_TEXT, OP_BINARY, OP_CLOSE, OP_PING, OP_PONG}"
  shows "((if fin then 0x80 else 0) OR op) AND 0x70 = 0" "((if fin then 0x80 else 0) OR op) AND 0x0F = op"
    "(((if fin then 0x80 else 0) OR op) AND 0x80 \<noteq> 0) = fin"
  using assms by (auto simp: opcode_defs)

lemma data_opcodes: "\<not> OP_CLOSE \<le> OP_CONT" "\<not> OP_CLOSE \<le> OP_TEXT" "\<not> OP_CLOSE \<le> OP_BINARY"
  by (simp_all add: opcode_defs word_le_nat_alt)

lemma short_len_bits:
  assumes "n < 126"
  shows "(0x80 OR word_of_nat n :: u8) AND 0x7F = word_of_nat n" "(0x80 OR word_of_nat n :: u8) AND 0x80 \<noteq> 0"
    "unat (word_of_nat n :: u8) = n"
proof -
  have "\<forall>n\<in>set [0..<126]. (0x80 OR word_of_nat n :: u8) AND 0x7F = word_of_nat n \<and>
      (0x80 OR word_of_nat n :: u8) AND 0x80 \<noteq> 0" by code_simp
  with assms show "(0x80 OR word_of_nat n :: u8) AND 0x7F = word_of_nat n"
    "(0x80 OR word_of_nat n :: u8) AND 0x80 \<noteq> 0" by auto
  show "unat (word_of_nat n :: u8) = n" using assms by (simp add: unat_of_nat)
qed

lemma of_be_bytes_id: "n < 256 ^ k \<Longrightarrow> of_be_bytes (be_bytes k n) = n"
  by (simp add: of_be_bytes_be_bytes)

lemma be_bytes_2: "be_bytes 2 n = [word_of_nat (n div 256), word_of_nat n]"
proof -
  have "be_bytes 0 m = []" for m by (simp add: be_bytes_def)
  then show ?thesis using be_bytes_Suc [of 1 n] be_bytes_Suc [of 0 "n div 256"]
    by (simp add: numeral_2_eq_2)
qed

lemma be_bytes_top:
  assumes "n < 2 ^ 63"
  shows "(be_bytes 8 n ! 0) AND 0x80 = 0"
proof -
  have b: "be_bytes 8 n ! 0 = word_of_nat (n div 256 ^ 7)" by (simp add: be_bytes_def)
  have "n div 256 ^ 7 < 128" using assms by (simp add: div_less_iff_less_mult)
  moreover have "\<forall>m\<in>set [0..<128]. (word_of_nat m :: u8) AND 0x80 = 0" by code_simp
  ultimately show ?thesis unfolding b by auto
qed

lemma parse_len_client:
  assumes "n < 2 ^ 63"
  shows "parse_len (client_header fin op n @ rest) = Inr (n, length (client_header fin op n))"
proof -
  consider "n < 126" | "126 \<le> n" "n \<le> 0xFFFF" | "0xFFFF < n" by linarith
  then show ?thesis
  proof cases
    case 1
    then show ?thesis
      using short_len_bits [OF 1] by (simp add: parse_len_def client_header_def Let_def)
  next
    case 2
    then have "of_be_bytes (be_bytes 2 n) = n" by (intro of_be_bytes_id) simp
    with 2 show ?thesis by (simp add: parse_len_def client_header_def Let_def be_bytes_2)
  next
    case 3
    then have "of_be_bytes (be_bytes 8 n) = n" using assms by (intro of_be_bytes_id) simp
    moreover have "(be_bytes 8 n @ rest) ! 0 AND 0x80 = 0"
      using be_bytes_top [OF assms] by (simp add: nth_append)
    ultimately show ?thesis using 3 by (simp add: parse_len_def client_header_def Let_def)
  qed
qed

lemma client_header_first:
  assumes "op \<in> {OP_CONT, OP_TEXT, OP_BINARY, OP_CLOSE, OP_PING, OP_PONG}" "n < 2 ^ 63"
    and h: "h = client_header fin op n @ rest"
  shows "h ! 0 AND 0x70 = 0" "h ! 0 AND 0x0F = op" "(h ! 0 AND 0x80 \<noteq> 0) = fin" "h ! 1 AND 0x80 \<noteq> 0"
    "2 \<le> length h"
  using header_bits [OF assms(1), of fin] short_len_bits(2) [of n]
  by (auto simp: h client_header_def)

lemma parse_client:
  assumes "op \<in> {OP_CONT, OP_TEXT, OP_BINARY, OP_CLOSE, OP_PING, OP_PONG}" "length payload < 2 ^ 63"
    "length key = 4" "length payload \<le> max_message rx" "op \<ge> OP_CLOSE \<Longrightarrow> fin \<and> length payload \<le> 125"
  shows "parse_one (client_frame fin op key payload @ rest) rx =
    parse_opcode fin op payload (rx\<lparr>consumed := length (client_frame fin op key payload)\<rparr>)"
proof -
  let ?n = "length payload" and ?h = "client_header fin op (length payload)"
  let ?b = "?h @ key @ unmask key payload @ rest"
  have b: "client_frame fin op key payload @ rest = ?b" by (simp add: client_frame_def)
  note f = client_header_first [OF assms(1,2) refl, of fin "key @ unmask key payload @ rest"]
  note l = parse_len_client [OF assms(2), of fin op "key @ unmask key payload @ rest"]
  have key: "take 4 (drop (length ?h) ?b) = key" "take ?n (drop (length ?h + 4) ?b) = unmask key payload"
    using assms(3) by simp_all
  have len: "length ?b = length ?h + 4 + ?n + length rest" using assms(3) by simp
  have fl: "length (client_frame fin op key payload) = length ?h + 4 + ?n"
    using assms(3) by (simp add: client_frame_def)
  have "parse_one ?b rx = parse_opcode fin op payload (rx\<lparr>consumed := length ?h + 4 + ?n\<rparr>)"
    unfolding parse_one_def l Let_def sum.case prod.case key f(2,3) unmask_unmask
    using f(1,4,5) assms(4,5) len by auto
  then show ?thesis unfolding b fl .
qed

definition message :: "u8 \<Rightarrow> u8 list \<Rightarrow> ws_event" where
  "message op p = (if op = OP_TEXT then Text p else Binary p)"

lemma finish_message_ok:
  "op = OP_TEXT \<Longrightarrow> utf8_valid p \<Longrightarrow> finish_message op p = Event (message op p)"
  "op = OP_BINARY \<Longrightarrow> finish_message op p = Event (message op p)"
  by (auto simp: finish_message_def message_def opcode_defs)

lemma last_message [simp]: "\<not> last_event (message op p)"
  by (simp add: message_def)

lemma parse_all_nil: "parse_all [] pos rx out = (pos, out, rx)"
  by (rule parse_all_NeedMore) (simp add: parse_one_def)

lemma parse_client_rest:
  assumes "fs \<noteq> []" "\<forall>(key, p)\<in>set fs. length key = 4" "frag_op rx = Some op"
    "op = OP_TEXT \<and> utf8_valid (frag rx @ concat (map snd fs)) \<or> op = OP_BINARY"
    "length (frag rx @ concat (map snd fs)) \<le> max_message rx" "max_message rx < 2 ^ 63"
  shows "\<exists>used rx'. parse_all (client_rest fs) pos rx out =
      (used, out @ [message op (frag rx @ concat (map snd fs))], rx') \<and> ended rx' = ended rx"
  using assms
proof (induction fs arbitrary: rx pos out)
  case (Cons f fs)
  obtain key p where f: "f = (key, p)" by (cases f)
  let ?rx = "rx\<lparr>consumed := length (client_frame (fs = []) OP_CONT key p)\<rparr>"
  have one: "parse_one (client_frame (fs = []) OP_CONT key p @ client_rest fs) rx =
      parse_opcode (fs = []) OP_CONT p ?rx"
    using Cons.prems f by (intro parse_client) (auto simp: data_opcodes)
  have op: "parse_opcode (fs = []) OP_CONT p ?rx =
      (if fs = [] then (finish_message op (frag rx @ p), ?rx\<lparr>frag_op := None, frag := []\<rparr>)
       else (Continue, ?rx\<lparr>frag := frag rx @ p\<rparr>))"
    using Cons.prems f by (simp add: parse_opcode_def opcode_defs Let_def)
  show ?case
  proof (cases "fs = []")
    case True
    with Cons.prems f have "finish_message op (frag rx @ p) = Event (message op (frag rx @ p))"
      by (auto intro: finish_message_ok)
    with one op True have p1: "parse_one (client_frame True OP_CONT key p) rx =
        (Event (message op (frag rx @ p)), ?rx\<lparr>frag_op := None, frag := []\<rparr>)" by simp
    show ?thesis
      using True f parse_all_Step [OF p1, of "[message op (frag rx @ p)]"]
      by (simp add: parse_all_nil)
  next
    case False
    let ?rx2 = "?rx\<lparr>frag := frag rx @ p\<rparr>"
    from one op False have p1: "parse_one (client_frame False OP_CONT key p @ client_rest fs) rx =
        (Continue, ?rx2)" by simp
    have "\<exists>used rx'. parse_all (client_rest fs) (pos + consumed ?rx2) ?rx2 out =
        (used, out @ [message op (frag ?rx2 @ concat (map snd fs))], rx') \<and> ended rx' = ended ?rx2"
      by (rule Cons.IH) (use Cons.prems f False in auto)
    then show ?thesis
      using False f parse_all_Step [OF p1, of "[]" pos out] by simp
  qed
qed simp

lemma parse_client_message:
  assumes "fs \<noteq> []" "\<forall>(key, p)\<in>set fs. length key = 4"
    "op = OP_TEXT \<and> utf8_valid (concat (map snd fs)) \<or> op = OP_BINARY"
    "length (concat (map snd fs)) \<le> m" "m < 2 ^ 63"
  shows "\<exists>used rx'. parse_all (client_message op fs) 0 (rx_new m) [] =
      (used, [message op (concat (map snd fs))], rx')"
proof -
  from assms(1) obtain key p fs' where f: "fs = (key, p) # fs'" by (cases fs) auto
  let ?rx = "(rx_new m)\<lparr>consumed := length (client_frame (fs' = []) op key p)\<rparr>"
  have o: "op \<in> {OP_TEXT, OP_BINARY}" using assms(3) by auto
  have one: "parse_one (client_frame (fs' = []) op key p @ client_rest fs') (rx_new m) =
      parse_opcode (fs' = []) op p ?rx"
    using assms f o by (intro parse_client) (auto simp: data_opcodes rx_new_def)
  have pop: "parse_opcode (fs' = []) op p ?rx =
      (if fs' = [] then (finish_message op p, ?rx) else (Continue, ?rx\<lparr>frag_op := Some op, frag := p\<rparr>))"
    using o by (auto simp: parse_opcode_def opcode_defs rx_new_def)
  show ?thesis
  proof (cases "fs' = []")
    case True
    with assms f have "finish_message op p = Event (message op p)" by (auto intro: finish_message_ok)
    with one pop True have p1: "parse_one (client_frame True op key p) (rx_new m) =
        (Event (message op p), ?rx)" by simp
    show ?thesis
      using True f parse_all_Step [OF p1, of "[message op p]"] by (simp add: parse_all_nil)
  next
    case False
    let ?rx2 = "?rx\<lparr>frag_op := Some op, frag := p\<rparr>"
    from one pop False have p1: "parse_one (client_frame False op key p @ client_rest fs') (rx_new m) =
        (Continue, ?rx2)" by simp
    have "\<exists>used rx'. parse_all (client_rest fs') (consumed ?rx2) ?rx2 [] =
        (used, [] @ [message op (frag ?rx2 @ concat (map snd fs'))], rx') \<and> ended rx' = ended ?rx2"
      by (rule parse_client_rest) (use assms f False in \<open>auto simp: rx_new_def\<close>)
    then show ?thesis
      using False f parse_all_Step [OF p1, of "[]" 0 "[]"] by auto
  qed
qed

text \<open>
  C34: messages arrive whole.  A text or binary message that a client sends in any fragments, with
  any masking keys, arriving in any chunks, is delivered as one event with the concatenated
  payload (valid UTF-8 for text, within \<open>max_message\<close>).
\<close>

theorem ws_message_roundtrip:
  assumes "fs \<noteq> []" "\<forall>(key, p)\<in>set fs. length key = 4"
    and "op = OP_TEXT \<and> utf8_valid (concat (map snd fs)) \<or> op = OP_BINARY"
    and "length (concat (map snd fs)) \<le> m" "m < 2 ^ 63" "concat (d # ds) = client_message op fs"
  shows "fst (ws_pushes (d # ds) (rx_new m)) =
    [if op = OP_TEXT then Text (concat (map snd fs)) else Binary (concat (map snd fs))]"
proof -
  obtain used rx' where p: "parse_all (client_message op fs) 0 (rx_new m) [] =
      (used, [message op (concat (map snd fs))], rx')"
    using parse_client_message [OF assms(1-5)] by blast
  have rx: "wbuf (rx_new m) = []" "\<not> ended (rx_new m)" "(rx_new m)\<lparr>wbuf := []\<rparr> = rx_new m"
    by (simp_all add: rx_new_def)
  show ?thesis
    unfolding ws_pushes_concat assms(6) ws_push_eq rx append_Nil p by (simp add: rx message_def)
qed

theorem ws_message_roundtrip_witness:
  "fst (ws_pushes [client_message OP_TEXT [([1, 2, 3, 4], [0x48]), ([9, 8, 7, 6], [0x69])]] (rx_new 10)) =
     [Text [0x48, 0x69]]"
proof -
  have "utf8_valid [0x48, 0x69]" by code_simp
  then show ?thesis
    using ws_message_roundtrip [of "[([1, 2, 3, 4], [0x48]), ([9, 8, 7, 6], [0x69])]" OP_TEXT 10
      "client_message OP_TEXT [([1, 2, 3, 4], [0x48]), ([9, 8, 7, 6], [0x69])]" "[]"]
    by (simp del: ws_pushes.simps client_message.simps)
qed

section \<open>Server frames and the close frame\<close>

lemma boundary_Cons: "is_char_boundary (b # bs) (Suc j) \<longleftrightarrow>
   j = length bs \<or> j < length bs \<and> \<not> utf8_cont (bs ! j)"
  by (auto simp: is_char_boundary_def)

lemma cont_range: "0xA0 \<le> x \<and> x \<le> 0xBF \<Longrightarrow> utf8_cont x" "0x80 \<le> x \<and> x \<le> 0x9F \<Longrightarrow> utf8_cont x"
   "0x90 \<le> x \<and> x \<le> 0xBF \<Longrightarrow> utf8_cont x" "0x80 \<le> x \<and> x \<le> 0x8F \<Longrightarrow> utf8_cont x"
  by (auto simp: utf8_cont_def word_le_nat_alt)

lemma char_prefix: "utf8_valid s \<Longrightarrow> is_char_boundary s i \<Longrightarrow> utf8_valid (take i s)"
proof (induction s arbitrary: i rule: utf8_valid.induct)
  case (2 b bs)
  show ?case
  proof (cases i)
    case (Suc j)
    note p = "2.prems" [unfolded Suc boundary_Cons]
    consider (one) "b < 0x80" | (two) "\<not> b < 0x80" "0xC2 \<le> b \<and> b \<le> 0xDF"
      | (three) "\<not> b < 0x80" "\<not> (0xC2 \<le> b \<and> b \<le> 0xDF)" "0xE0 \<le> b \<and> b \<le> 0xEF"
      | (four) "\<not> b < 0x80" "\<not> (0xC2 \<le> b \<and> b \<le> 0xDF)" "\<not> (0xE0 \<le> b \<and> b \<le> 0xEF)" "0xF0 \<le> b \<and> b \<le> 0xF4"
      using "2.prems"(1) by (auto split: if_splits)
    then show ?thesis
    proof cases
      case one
      have "is_char_boundary bs j \<or> j = 0" using p(2) by (auto simp: is_char_boundary_def)
      with "2.IH"(1) one p(1) Suc show ?thesis by auto
    next
      case two
      with p(1) obtain b2 r where r: "bs = b2 # r" "utf8_cont b2" "utf8_valid r"
        by (auto split: list.splits)
      with p(2) obtain k where k: "j = Suc k" by (cases j) auto
      with p(2) r have "is_char_boundary r k \<or> k = 0" by (auto simp: is_char_boundary_def)
      with "2.IH"(2) [OF two r(1)] r have "utf8_valid (take k r)" by auto
      with two r have "utf8_valid (b # b2 # take k r)"
        by (subst utf8_valid.simps(2)) (auto simp del: utf8_valid.simps)
      with r k Suc show ?thesis by (simp del: utf8_valid.simps)
    next
      case three
      with p(1) obtain b2 b3 r where r: "bs = b2 # b3 # r" "utf8_cont b3" "utf8_valid r"
          "if b = 0xE0 then 0xA0 \<le> b2 \<and> b2 \<le> 0xBF
              else if b = 0xED then 0x80 \<le> b2 \<and> b2 \<le> 0x9F else utf8_cont b2"
        by (auto split: list.splits)
      then have "utf8_cont b2" using cont_range by (auto split: if_splits)
      with p(2) r obtain k where k: "j = Suc (Suc k)"
        by (cases j; cases "j - 1") auto
      with p(2) r have "is_char_boundary r k \<or> k = 0" by (auto simp: is_char_boundary_def)
      with "2.IH"(3) [OF three r(1) refl] r have "utf8_valid (take k r)" by auto
      with three r have "utf8_valid (b # b2 # b3 # take k r)"
        by (subst utf8_valid.simps(2)) (auto simp del: utf8_valid.simps)
      with r k Suc show ?thesis by (simp del: utf8_valid.simps)
    next
      case four
      with p(1) obtain b2 b3 b4 r where r: "bs = b2 # b3 # b4 # r" "utf8_cont b3" "utf8_cont b4" "utf8_valid r"
          "if b = 0xF0 then 0x90 \<le> b2 \<and> b2 \<le> 0xBF
              else if b = 0xF4 then 0x80 \<le> b2 \<and> b2 \<le> 0x8F else utf8_cont b2"
        by (auto split: list.splits)
      then have "utf8_cont b2" using cont_range by (auto split: if_splits)
      with p(2) r obtain k where k: "j = Suc (Suc (Suc k))"
        by (cases j; cases "j - 1"; cases "j - 2") auto
      with p(2) r have "is_char_boundary r k \<or> k = 0" by (auto simp: is_char_boundary_def)
      with "2.IH"(4) [OF four r(1) refl refl] r have "utf8_valid (take k r)" by auto
      with four r have "utf8_valid (b # b2 # b3 # b4 # take k r)"
        by (subst utf8_valid.simps(2)) (auto simp del: utf8_valid.simps)
      with r k Suc show ?thesis by (simp del: utf8_valid.simps)
    qed
  qed simp
qed simp

lemma boundary_below_spec:
  "is_char_boundary s (boundary_below s n)" "boundary_below s n \<le> n"
  "j \<le> n \<Longrightarrow> is_char_boundary s j \<Longrightarrow> j \<le> boundary_below s n"
proof -
  show "is_char_boundary s (boundary_below s n)" by (induction n) (auto simp: is_char_boundary_def)
  show "boundary_below s n \<le> n" by (induction n) auto
  show "j \<le> n \<Longrightarrow> is_char_boundary s j \<Longrightarrow> j \<le> boundary_below s n"
    by (induction n) (auto simp: le_Suc_eq)
qed

text \<open>A client's reading of a server frame (RFC 6455, 5.2: not masked).\<close>

definition decode_server :: "u8 list \<Rightarrow> (bool \<times> u8 \<times> u8 list \<times> u8 list) option" where
  "decode_server b =
     (if length b < 2 \<or> b ! 1 AND 0x80 \<noteq> 0 then None
      else (case parse_len b of
              Inl r \<Rightarrow> None
            | Inr (len, off) \<Rightarrow>
                if length b < off + len then None
                else Some (b ! 0 AND 0x80 \<noteq> 0, b ! 0 AND 0x0F, take len (drop off b), drop (off + len) b)))"

lemma short_plain_bits:
  assumes "n < 128"
  shows "(word_of_nat n :: u8) AND 0x7F = word_of_nat n" "(word_of_nat n :: u8) AND 0x80 = 0"
proof -
  have "\<forall>n\<in>set [0..<128]. (word_of_nat n :: u8) AND 0x7F = word_of_nat n \<and>
      (word_of_nat n :: u8) AND 0x80 = 0" by code_simp
  with assms show "(word_of_nat n :: u8) AND 0x7F = word_of_nat n" "(word_of_nat n :: u8) AND 0x80 = 0"
    by auto
qed

lemma fin_op_bits:
  fixes op :: u8
  shows "(0x80 OR (op AND 0x0F)) AND 0x80 \<noteq> 0" "(0x80 OR (op AND 0x0F)) AND 0x0F = op AND 0x0F"
proof -
  have "(0x80 OR (op AND 0x0F)) AND 0x80 = 0x80" "(0x80 OR (op AND 0x0F)) AND 0x0F = op AND 0x0F"
    by (simp_all add: bit.conj_disj_distrib2 and.assoc)
  then show "(0x80 OR (op AND 0x0F)) AND 0x80 \<noteq> 0" "(0x80 OR (op AND 0x0F)) AND 0x0F = op AND 0x0F"
    by simp_all
qed

lemma drop_plus: "drop (k + n) xs = drop n (drop k xs)"
  by (simp add: add.commute)

lemma decode_frame:
  assumes "length payload < 2 ^ 63"
  shows "decode_server (frame op payload @ rest) = Some (True, op AND 0x0F, payload, rest)"
proof -
  let ?n = "length payload"
  consider "?n < 126" | "126 \<le> ?n" "?n \<le> 0xFFFF" | "0xFFFF < ?n" by linarith
  then show ?thesis
  proof cases
    case 1
    then show ?thesis
      using short_plain_bits [of ?n] short_len_bits(3) [OF 1] fin_op_bits [of op]
      by (simp add: decode_server_def parse_len_def frame_def Let_def drop_plus del: drop_drop)
  next
    case 2
    then have "of_be_bytes (be_bytes 2 ?n) = ?n" by (intro of_be_bytes_id) simp
    with 2 fin_op_bits [of op] show ?thesis
      by (simp add: decode_server_def parse_len_def frame_def Let_def be_bytes_2 drop_plus del: drop_drop)
  next
    case 3
    then have "of_be_bytes (be_bytes 8 ?n) = ?n" using assms by (intro of_be_bytes_id) simp
    moreover have "(be_bytes 8 ?n @ payload @ rest) ! 0 AND 0x80 = 0"
      using be_bytes_top [OF assms] by (simp add: nth_append)
    ultimately show ?thesis using 3 fin_op_bits [of op]
      by (simp add: decode_server_def parse_len_def frame_def Let_def drop_plus del: drop_drop)
  qed
qed

section \<open>Base64\<close>

lemma sextets:
  fixes n :: u32
  shows "push_bit 18 (drop_bit 18 n AND 63) OR push_bit 12 (drop_bit 12 n AND 63) OR
     push_bit 6 (drop_bit 6 n AND 63) OR (n AND 63) = n AND 0xFFFFFF"
proof -
  have m: "(63::u32) = mask 6" "(0xFFFFFF::u32) = mask 24" by (simp_all add: mask_eq_exp_minus_1)
  show ?thesis unfolding m
  proof (rule bit_word_eqI)
    fix k assume "k < LENGTH(32)"
    consider "k < 6" | "6 \<le> k" "k < 12" | "12 \<le> k" "k < 18" | "18 \<le> k" "k < 24" | "24 \<le> k" by linarith
    then show "bit (push_bit 18 (drop_bit 18 n AND mask 6) OR push_bit 12 (drop_bit 12 n AND mask 6) OR
     push_bit 6 (drop_bit 6 n AND mask 6) OR (n AND mask 6)) k = bit (n AND mask 24) k"
      by cases (auto simp: bit_simps)
  qed
qed

lemma bytes24:
  fixes a b c :: u8
  defines "n \<equiv> push_bit 16 (ucast a) OR push_bit 8 (ucast b) OR ucast c :: u32"
  shows "n AND 0xFFFFFF = n" "ucast (drop_bit 16 n) = a" "ucast (drop_bit 8 n) = b" "ucast n = c"
proof -
  have m: "(0xFFFFFF::u32) = mask 24" by (simp_all add: mask_eq_exp_minus_1)
  show "n AND 0xFFFFFF = n" unfolding m n_def
  proof (rule bit_word_eqI)
    fix k assume "k < LENGTH(32)"
    have "bit a (k - 16) \<Longrightarrow> k - 16 < 8" "bit b (k - 8) \<Longrightarrow> k - 8 < 8" "bit c k \<Longrightarrow> k < 8"
      by (auto dest: bit_imp_le_length)
    then show "bit ((push_bit 16 (ucast a) OR push_bit 8 (ucast b) OR ucast c :: u32) AND mask 24) k =
        bit (push_bit 16 (ucast a) OR push_bit 8 (ucast b) OR ucast c :: u32) k"
      by (auto simp: bit_simps)
  qed
  show "ucast (drop_bit 16 n) = a" unfolding n_def
    by (rule bit_word_eqI) (auto simp: bit_simps dest: bit_imp_le_length)
  show "ucast (drop_bit 8 n) = b" unfolding n_def
    by (rule bit_word_eqI) (auto simp: bit_simps dest: bit_imp_le_length)
  show "ucast n = c" unfolding n_def
    by (rule bit_word_eqI) (auto simp: bit_simps dest: bit_imp_le_length)
qed

text \<open>A base64 reader (RFC 4648), to state what the encoder promises.\<close>

definition base64_val :: "char \<Rightarrow> u32" where
  "base64_val c = word_of_nat (length (takeWhile (\<lambda>x. x \<noteq> c) base64_table))"

definition base64_quad :: "char \<Rightarrow> char \<Rightarrow> char \<Rightarrow> char \<Rightarrow> u8 list" where
  "base64_quad c0 c1 c2 c3 =
     (let v = (\<lambda>c. if c = CHR ''='' then 0 else base64_val c);
          n = push_bit 18 (v c0) OR push_bit 12 (v c1) OR push_bit 6 (v c2) OR v c3;
          bs = [ucast (drop_bit 16 n), ucast (drop_bit 8 n), ucast n]
      in if c2 = CHR ''='' then take 1 bs else if c3 = CHR ''='' then take 2 bs else bs)"

fun base64_decode :: "string \<Rightarrow> u8 list" where
  "base64_decode (c0 # c1 # c2 # c3 # cs) = base64_quad c0 c1 c2 c3 @ base64_decode cs"
| "base64_decode _ = []"

lemma table_char:
  fixes x :: u32
  shows "base64_table ! unat (x AND 63) \<noteq> CHR ''=''" "base64_val (base64_table ! unat (x AND 63)) = x AND 63"
proof -
  have "x AND 63 \<le> 63" by (rule word_and_le1)
  then have u: "unat (x AND 63) < 64" by (simp add: word_le_nat_alt)
  have "\<forall>i\<in>set [0..<64]. base64_table ! i \<noteq> CHR ''='' \<and>
      length (takeWhile (\<lambda>x. x \<noteq> base64_table ! i) base64_table) = i" by code_simp
  with u show "base64_table ! unat (x AND 63) \<noteq> CHR ''=''" "base64_val (base64_table ! unat (x AND 63)) = x AND 63"
    by (simp_all add: base64_val_def)
qed

lemma base64_quad_chunk:
  assumes "0 < length c" "length c \<le> 3"
  shows "\<exists>c0 c1 c2 c3. base64_chunk c = [c0, c1, c2, c3] \<and> base64_quad c0 c1 c2 c3 = c"
proof -
  define b where "b i = (if i < length c then c ! i else 0)" for i
  define n where "n = (push_bit 16 (ucast (b 0)) OR push_bit 8 (ucast (b 1)) OR ucast (b 2) :: u32)"
  let ?t = "\<lambda>x :: u32. base64_table ! unat (x AND 63)"
  have e: "base64_chunk c = [?t (drop_bit 18 n), ?t (drop_bit 12 n),
      if length c > 1 then ?t (drop_bit 6 n) else CHR ''='', if length c > 2 then ?t n else CHR ''='']"
    by (simp add: base64_chunk_def n_def b_def Let_def)
  note bytes = bytes24 [of "b 0" "b 1" "b 2", folded n_def]
  define s0 s1 s2 s3 where "s0 = drop_bit 18 n AND 63" and "s1 = drop_bit 12 n AND 63"
    and "s2 = drop_bit 6 n AND 63" and "s3 = n AND 63"
  note s_defs = s0_def s1_def s2_def s3_def
  have n: "push_bit 18 s0 OR push_bit 12 s1 OR push_bit 6 s2 OR s3 = n"
    using sextets [of n] bytes(1) by (simp only: s_defs)
  note val = table_char(2) [of "drop_bit 18 n", folded s0_def] table_char(2) [of "drop_bit 12 n", folded s1_def]
    table_char(2) [of "drop_bit 6 n", folded s2_def] table_char(2) [of n, folded s3_def]
  note ne = table_char(1) [of "drop_bit 18 n", folded s0_def] table_char(1) [of "drop_bit 12 n", folded s1_def]
    table_char(1) [of "drop_bit 6 n", folded s2_def] table_char(1) [of n, folded s3_def]
  consider x where "c = [x]" | x y where "c = [x, y]" | x y z where "c = [x, y, z]"
    using assms by (cases c; cases "tl c"; cases "tl (tl c)") auto
  then show ?thesis
  proof cases
    case 1
    then have z: "b 1 = 0" "b 2 = 0" "b 0 = x" by (simp_all add: b_def)
    have "drop_bit 6 n AND mask 6 = 0" "n AND mask 6 = 0"
      unfolding n_def z by (rule bit_word_eqI; auto simp: bit_simps)+
    then have "s2 = 0" "s3 = 0" by (simp_all add: s_defs mask_eq_exp_minus_1)
    then show ?thesis unfolding e s_defs [symmetric]
      using 1 n bytes(2) z val ne by (simp add: base64_quad_def Let_def del: drop_bit_or)
  next
    case 2
    then have z: "b 1 = y" "b 2 = 0" "b 0 = x" by (simp_all add: b_def)
    have "n AND mask 6 = 0"
      unfolding n_def z by (rule bit_word_eqI) (auto simp: bit_simps)
    then have "s3 = 0" by (simp add: s_defs mask_eq_exp_minus_1)
    then show ?thesis unfolding e s_defs [symmetric]
      using 2 n bytes(2,3) z val ne by (simp add: base64_quad_def Let_def del: drop_bit_or)
  next
    case 3
    then have z: "b 0 = x" "b 1 = y" "b 2 = z" by (simp_all add: b_def)
    show ?thesis unfolding e s_defs [symmetric]
      using 3 n bytes(2-4) z val ne by (simp add: base64_quad_def Let_def del: drop_bit_or)
  qed
qed

lemma base64_roundtrip_aux: "base64_decode (base64 data) = data"
proof (induction data rule: length_induct)
  case (1 data)
  show ?case
  proof (cases "data = []")
    case True
    then show ?thesis by (simp add: base64_def chunks_of.simps)
  next
    case False
    then have c: "chunks_of 3 data = take 3 data # chunks_of 3 (drop 3 data)"
      by (subst chunks_of.simps) simp
    from False obtain c0 c1 c2 c3 where q: "base64_chunk (take 3 data) = [c0, c1, c2, c3]"
      "base64_quad c0 c1 c2 c3 = take 3 data"
      using base64_quad_chunk [of "take 3 data"] by auto
    have "base64_decode (base64 (drop 3 data)) = drop 3 data"
      using 1 False by simp
    with q show ?thesis by (simp add: base64_def c)
  qed
qed

lemma length_base64: "length (base64 data) = 4 * ((length data + 2) div 3)"
proof (induction data rule: length_induct)
  case (1 data)
  show ?case
  proof (cases "data = []")
    case True
    then show ?thesis by (simp add: base64_def chunks_of.simps)
  next
    case False
    then have c: "chunks_of 3 data = take 3 data # chunks_of 3 (drop 3 data)"
      by (subst chunks_of.simps) simp
    have "length (base64 (drop 3 data)) = 4 * ((length (drop 3 data) + 2) div 3)"
      using 1 False by simp
    moreover have "(length data + 2) div 3 = Suc ((length data - 3 + 2) div 3)"
    proof (cases "length data \<ge> 3")
      case True
      then obtain k where "length data = 3 + k" by (auto dest: le_Suc_ex)
      then show ?thesis by (simp add: div_add_self1)
    next
      case False
      with \<open>data \<noteq> []\<close> have "0 < length data" by simp
      with False have "length data = 1 \<or> length data = 2" by linarith
      then show ?thesis by auto
    qed
    ultimately show ?thesis by (simp add: base64_def c base64_chunk_def Let_def)
  qed
qed

lemma length_sha1: "length (sha1 data) = 20"
  by (simp add: sha1_def Let_def split_beta word_be_def)

text \<open>
  Server frames are legal and decode.  Any frame the server encodes is read by a client's
  decoder as one final, unmasked frame with that opcode and payload and with the shortest length
  field, whatever follows it.
\<close>

theorem ws_frame_roundtrip:
  assumes "length payload < 2 ^ 63"
  shows "decode_server (frame op payload @ rest) = Some (True, op AND 0x0F, payload, rest)"
  by (rule decode_frame [OF assms])

theorem ws_frame_roundtrip_witness:
  "decode_server (frame OP_BINARY [1, 2, 3] @ [9]) = Some (True, 2, [1, 2, 3], [9])"
  using ws_frame_roundtrip [of "[1, 2, 3]" OP_BINARY "[9]"] by (simp add: opcode_defs)

text \<open>
  The close frame is always legal.  Its reason is the longest prefix of the given reason
  that ends on a character boundary and fits in 123 bytes, it is valid UTF-8, and the payload
  stays within the 125 bytes of a control frame.
\<close>

theorem close_frame_legal:
  assumes "utf8_valid reason"
  shows "\<exists>r. close_frame code reason = frame OP_CLOSE (be_bytes 2 (unat code) @ r) \<and>
    prefix r reason \<and> utf8_valid r \<and> length r \<le> 123 \<and> (length reason \<le> 123 \<longrightarrow> r = reason) \<and>
    (\<forall>j\<le>123. is_char_boundary reason j \<longrightarrow> j \<le> length reason \<longrightarrow> j \<le> length r)"
proof (cases "length reason \<le> 123")
  case True
  with assms show ?thesis
    by (intro exI [of _ reason]) (simp add: close_frame_def truncate_on_char_boundary_def)
next
  case False
  let ?n = "boundary_below reason 123"
  note b = boundary_below_spec [where s = reason and n = 123]
  have "utf8_valid (take ?n reason)" by (rule char_prefix [OF assms b(1)])
  with False b show ?thesis
    by (intro exI [of _ "take ?n reason"])
      (auto simp: close_frame_def truncate_on_char_boundary_def take_is_prefix)
qed

theorem close_frame_legal_witness: "\<exists>r. close_frame 1000 [0x68, 0x69] = frame OP_CLOSE (be_bytes 2 1000 @ r) \<and> utf8_valid r"
proof -
  have "utf8_valid [0x68, 0x69]" by code_simp
  from close_frame_legal [OF this, of 1000] show ?thesis by auto
qed

text \<open>
  The handshake key is a digest in base64.  Every accept key is 28 characters, and reading it
  back as base64 gives the 20-byte SHA-1 digest of the client's key and the protocol's GUID.
\<close>

theorem accept_key_decodes:
  "length (accept_key key) = 28 \<and> base64_decode (accept_key key) = sha1 (key @ WS_GUID) \<and>
   length (sha1 (key @ WS_GUID)) = 20"
  by (simp add: accept_key_def length_base64 length_sha1 base64_roundtrip_aux)

end
