(* ===== verification/Fd_Table.thy ===== *)
theory Fd_Table
  imports Op_Slab_Props
begin

text \<open>
  The epoll backend's per-descriptor table (\<open>FdEntry\<close> and \<open>FdTable\<close> of \<open>backend/epoll.rs\<close>) and
  the two views the backend is verified through: the table as a finite map from descriptors to
  entries, and the op slab as a map from live ids to slots.  A descriptor is a natural number;
  the sentinel -1 of \<open>wake_fd\<close> is None.
\<close>

type_synonym raw_fd = nat

definition EPOLLIN :: u32 where "EPOLLIN = 1"
definition EPOLLOUT :: u32 where "EPOLLOUT = 4"
definition EPOLLERR :: u32 where "EPOLLERR = 8"
definition EPOLLHUP :: u32 where "EPOLLHUP = 16"

record fd_entry =
  present :: bool
  read_op :: "op_id option"
  write_op :: "op_id option"
  watch_r :: bool
  watch_w :: bool
  registered :: bool
  kmask :: u32
  drained :: bool

definition entry_default :: fd_entry where
  "entry_default = \<lparr>present = False, read_op = None, write_op = None, watch_r = False,
     watch_w = False, registered = False, kmask = 0, drained = False\<rparr>"

definition interest :: "fd_entry \<Rightarrow> u32" where
  "interest e =
     (if read_op e \<noteq> None \<or> watch_r e then EPOLLIN else 0) OR
     (if write_op e \<noteq> None \<or> watch_w e then EPOLLOUT else 0)"

text \<open>The parked slot of one side, and a write to it.\<close>

definition side_op :: "bool \<Rightarrow> fd_entry \<Rightarrow> op_id option" where
  "side_op write_side e = (if write_side then write_op e else read_op e)"

definition set_side :: "bool \<Rightarrow> op_id option \<Rightarrow> fd_entry \<Rightarrow> fd_entry" where
  "set_side write_side v e = (if write_side then e\<lparr>write_op := v\<rparr> else e\<lparr>read_op := v\<rparr>)"

record fd_table =
  fd_slots :: "fd_entry list"
  fd_live :: nat
  wake_fd :: "raw_fd option"
  wake_present :: bool

definition fd_table_new :: fd_table where
  "fd_table_new = \<lparr>fd_slots = [], fd_live = 0, wake_fd = None, wake_present = False\<rparr>"

definition fd_get :: "fd_table \<Rightarrow> raw_fd \<Rightarrow> fd_entry option" where
  "fd_get t fd =
     (if fd < length (fd_slots t) \<and> present (fd_slots t ! fd) then Some (fd_slots t ! fd) else None)"

text \<open>A write through \<open>get_mut\<close> (every write keeps \<open>present\<close>).\<close>

definition fd_update :: "raw_fd \<Rightarrow> (fd_entry \<Rightarrow> fd_entry) \<Rightarrow> fd_table \<Rightarrow> fd_table" where
  "fd_update fd f t =
     (case fd_get t fd of None \<Rightarrow> t | Some e \<Rightarrow> t\<lparr>fd_slots := (fd_slots t)[fd := f e]\<rparr>)"

definition fd_contains :: "fd_table \<Rightarrow> raw_fd \<Rightarrow> bool" where
  "fd_contains t fd = (fd_get t fd \<noteq> None)"

text \<open>\<open>entry\<close>: the table with an entry for \<open>fd\<close>, grown geometrically; writes follow by \<open>fd_update\<close>.\<close>

definition fd_ensure :: "raw_fd \<Rightarrow> fd_table \<Rightarrow> fd_table" where
  "fd_ensure fd t =
     (let n = length (fd_slots t);
          t = (if fd \<ge> n
               then t\<lparr>fd_slots := fd_slots t @
                        replicate (max (max (fd + 1) (n * 2)) 64 - n) entry_default\<rparr>
               else t)
      in if \<not> present (fd_slots t ! fd)
         then t\<lparr>fd_slots := (fd_slots t)[fd := entry_default\<lparr>present := True\<rparr>],
                fd_live := fd_live t + 1,
                wake_present := wake_present t \<or> Some fd = wake_fd t\<rparr>
         else t)"

definition fd_remove :: "raw_fd \<Rightarrow> fd_table \<Rightarrow> fd_entry option \<times> fd_table" where
  "fd_remove fd t =
     (case fd_get t fd of
        None \<Rightarrow> (None, t)
      | Some e \<Rightarrow>
          (Some e,
           t\<lparr>fd_slots := (fd_slots t)[fd := entry_default], fd_live := fd_live t - 1,
             wake_present := (if Some fd = wake_fd t then False else wake_present t)\<rparr>))"

definition set_wake_fd :: "raw_fd option \<Rightarrow> fd_table \<Rightarrow> fd_table" where
  "set_wake_fd w t =
     (let t = t\<lparr>wake_fd := w\<rparr>
      in t\<lparr>wake_present := (case w of None \<Rightarrow> False | Some fd \<Rightarrow> fd_contains t fd)\<rparr>)"

definition interest_len :: "fd_table \<Rightarrow> nat" where
  "interest_len t = fd_live t - of_bool (wake_present t)"

definition fd_is_empty :: "fd_table \<Rightarrow> bool" where
  "fd_is_empty t = (fd_live t = 0)"

section \<open>The table is a map\<close>

definition fd_ok :: "fd_table \<Rightarrow> bool" where
  "fd_ok t \<longleftrightarrow> fd_live t = card (dom (fd_get t)) \<and>
     (wake_present t \<longleftrightarrow> (\<exists>fd. wake_fd t = Some fd \<and> fd \<in> dom (fd_get t)))"

lemma dom_fd_get: "dom (fd_get t) = {i. i < length (fd_slots t) \<and> present (fd_slots t ! i)}"
  by (auto simp: fd_get_def split: if_splits)

lemma finite_dom_fd_get [simp]: "finite (dom (fd_get t))"
  by (simp add: dom_fd_get)

lemma fd_get_new [simp]: "fd_get fd_table_new = Map.empty"
  by (simp add: fd_get_def fd_table_new_def fun_eq_iff)

lemma fd_ok_new: "fd_ok fd_table_new"
  unfolding fd_ok_def fd_get_new by (simp add: fd_table_new_def)

lemma fd_get_present: "fd_get t fd = Some e \<Longrightarrow> present e"
  by (auto simp: fd_get_def split: if_splits)

lemma fd_get_update:
  assumes "\<And>e. present (f e) = present e"
  shows "fd_get (fd_update fd f t) = (fd_get t)(fd := map_option f (fd_get t fd))"
proof (cases "fd_get t fd")
  case None
  then show ?thesis by (simp add: fd_update_def fun_upd_idem)
next
  case (Some e)
  then show ?thesis
    using assms by (auto simp: fd_update_def fd_get_def nth_list_update fun_eq_iff split: if_splits)
qed

lemma fd_update_sel [simp]:
  "fd_live (fd_update fd f t) = fd_live t" "wake_fd (fd_update fd f t) = wake_fd t"
  "wake_present (fd_update fd f t) = wake_present t"
  by (simp_all add: fd_update_def split: option.split)

lemma fd_ok_update:
  assumes "fd_ok t" "\<And>e. present (f e) = present e"
  shows "fd_ok (fd_update fd f t)"
proof -
  have "dom (fd_get (fd_update fd f t)) = dom (fd_get t)"
    by (auto simp: fd_get_update [where f = f, OF assms(2)] split: if_splits)
  then show ?thesis using assms(1) by (simp add: fd_ok_def)
qed

definition new_entry :: fd_entry where
  "new_entry = entry_default\<lparr>present := True\<rparr>"

lemma fd_get_ensure:
  "fd_get (fd_ensure fd t) =
     (fd_get t)(fd := Some (case fd_get t fd of None \<Rightarrow> new_entry | Some e \<Rightarrow> e))"
proof -
  define n where "n = length (fd_slots t)"
  define pad where "pad = (if fd \<ge> n then max (max (fd + 1) (n * 2)) 64 - n else 0)"
  define t1 where "t1 = t\<lparr>fd_slots := fd_slots t @ replicate pad entry_default\<rparr>"
  have lt: "fd < length (fd_slots t1)" by (auto simp: t1_def pad_def n_def)
  have get1: "fd_get t1 = fd_get t"
    by (auto simp: fd_get_def t1_def nth_append fun_eq_iff entry_default_def)
  have e: "fd_ensure fd t = (if \<not> present (fd_slots t1 ! fd)
      then t1\<lparr>fd_slots := (fd_slots t1)[fd := new_entry], fd_live := fd_live t1 + 1,
              wake_present := wake_present t1 \<or> Some fd = wake_fd t1\<rparr> else t1)"
    by (simp add: fd_ensure_def t1_def pad_def n_def Let_def new_entry_def)
  show ?thesis
  proof (cases "present (fd_slots t1 ! fd)")
    case True
    then have "fd_get t1 fd = Some (fd_slots t1 ! fd)" using lt by (simp add: fd_get_def)
    with True show ?thesis by (simp add: e get1 fun_upd_idem)
  next
    case False
    then have "fd_get t1 fd = None" by (simp add: fd_get_def)
    then have "fd_get t fd = None" by (simp add: get1)
    moreover have "fd_get (fd_ensure fd t) = (fd_get t1)(fd := Some new_entry)"
      using False lt
      by (auto simp: e fd_get_def nth_list_update new_entry_def fun_eq_iff)
    ultimately show ?thesis by (simp add: get1)
  qed
qed

lemma fd_ensure_sel:
  "wake_fd (fd_ensure fd t) = wake_fd t"
  "fd_live (fd_ensure fd t) = fd_live t + of_bool (fd_get t fd = None)"
  "wake_present (fd_ensure fd t) = (wake_present t \<or> fd_get t fd = None \<and> wake_fd t = Some fd)"
  by (auto simp: fd_ensure_def Let_def fd_get_def nth_append entry_default_def split: if_splits)

lemma fd_ok_ensure:
  assumes "fd_ok t"
  shows "fd_ok (fd_ensure fd t)"
proof (cases "fd_get t fd")
  case None
  then have "fd \<notin> dom (fd_get t)" by auto
  then show ?thesis
    using assms None by (auto simp: fd_ok_def fd_ensure_sel fd_get_ensure)
next
  case (Some e)
  then have "fd \<in> dom (fd_get t)" by auto
  then show ?thesis
    using assms Some by (auto simp: fd_ok_def fd_ensure_sel fd_get_ensure insert_absorb)
qed

lemma fd_get_remove: "fd_get (snd (fd_remove fd t)) = (fd_get t)(fd := None)"
  by (auto simp: fd_remove_def fd_get_def nth_list_update entry_default_def fun_eq_iff
      split: option.split)

lemma fst_fd_remove [simp]: "fst (fd_remove fd t) = fd_get t fd"
  by (simp add: fd_remove_def split: option.split)

lemma fd_remove_sel:
  "wake_fd (snd (fd_remove fd t)) = wake_fd t"
  "fd_live (snd (fd_remove fd t)) = fd_live t - of_bool (fd_get t fd \<noteq> None)"
  "wake_present (snd (fd_remove fd t)) =
     (wake_present t \<and> \<not> (fd_get t fd \<noteq> None \<and> wake_fd t = Some fd))"
  by (auto simp: fd_remove_def split: option.split)

lemma fd_ok_remove:
  assumes "fd_ok t"
  shows "fd_ok (snd (fd_remove fd t))"
proof (cases "fd_get t fd")
  case None
  then show ?thesis using assms by (simp add: fd_remove_def)
next
  case (Some e)
  then have d: "fd \<in> dom (fd_get t)" by auto
  then have "card (dom (fd_get t) - {fd}) = card (dom (fd_get t)) - 1" by simp
  then show ?thesis
    using assms Some d by (auto simp: fd_ok_def fd_remove_sel fd_get_remove)
qed

lemma fd_get_set_wake [simp]: "fd_get (set_wake_fd w t) = fd_get t"
  by (simp add: set_wake_fd_def Let_def fd_get_def fun_eq_iff)

lemma fd_ok_set_wake: "fd_ok t \<Longrightarrow> fd_ok (set_wake_fd w t)"
  unfolding fd_ok_def fd_get_set_wake
  by (auto simp: set_wake_fd_def Let_def fd_contains_def fd_get_def split: option.splits if_splits)

text \<open>What the per-tick interest test reads is the number of entries besides the wake descriptor's.\<close>

lemma interest_len_eq:
  assumes "fd_ok t"
  shows "interest_len t = card (dom (fd_get t) - set_option (wake_fd t))"
proof (cases "wake_fd t")
  case None
  with assms show ?thesis by (simp add: interest_len_def fd_ok_def)
next
  case (Some w)
  with assms show ?thesis by (cases "w \<in> dom (fd_get t)") (auto simp: interest_len_def fd_ok_def)
qed

section \<open>The slab as a map of live operations\<close>

lemma slab_get_slot: "slab_get s oid = Some sl \<longleftrightarrow>
    slab_slot s (op_index oid) = Some sl \<and> generation sl = op_gen oid \<and> ostate sl \<noteq> Free"
  by (auto simp: slab_get_def split: option.splits)

lemma get_upd:
  assumes "slab_slot s' = (slab_slot s)(op_index oid := Some x)" "generation x = op_gen oid"
    "slab_slot s (op_index oid) = Some sl" "generation sl = op_gen oid" "ostate x \<noteq> Free"
  shows "slab_get s' = (slab_get s)(oid := Some x)"
proof
  fix i
  show "slab_get s' i = ((slab_get s)(oid := Some x)) i"
  proof (cases "op_index i = op_index oid")
    case True
    then show ?thesis
      using assms op_id_eqI [of i oid] by (auto simp: slab_get_def)
  next
    case False
    then have "i \<noteq> oid" by auto
    with False show ?thesis using assms by (simp add: slab_get_def)
  qed
qed

lemma get_post:
  assumes "slab_ok s" "slab_room s" "slab_post addr mk k s = (oid, s')"
  obtains sl where "slab_ok s'" "slab_get s oid = None"
    "slab_get s' = (slab_get s)(oid := Some sl)" "ostate sl = Posted" "okind sl = k"
proof -
  from post_spec [OF assms] obtain s1 sl where
    p: "s1 = (if freelist s = [] then slab_grow addr mk s else s)"
    "slab_slot s1 (op_index oid) = Some sl" "ostate sl = Free" "op_gen oid = generation sl"
    "slab_slot s' = (slab_slot s1)(op_index oid := Some (sl\<lparr>ostate := Posted, okind := k\<rparr>))"
    "slab_ok s'" by metis
  have g: "slab_get s1 = slab_get s"
  proof
    fix i
    have "slab_slot s1 j = Some x \<and> ostate x \<noteq> Free \<longleftrightarrow> slab_slot s j = Some x \<and> ostate x \<noteq> Free" for j x
      using slab_slot_None_iff [of s j] by (auto simp: p(1) grow_slot)
    then have "slab_get s1 i = Some x \<longleftrightarrow> slab_get s i = Some x" for x
      by (auto simp: slab_get_slot)
    then show "slab_get s1 i = slab_get s i" by (metis option.exhaust)
  qed
  have "slab_get s' = (slab_get s1)(oid := Some (sl\<lparr>ostate := Posted, okind := k\<rparr>))"
    by (rule get_upd [OF p(5) _ p(2)]) (simp_all add: p(4))
  moreover have "slab_get s1 oid = None" using p(2,3) by (simp add: slab_get_def)
  ultimately show thesis
    by (intro that [of "sl\<lparr>ostate := Posted, okind := k\<rparr>"]) (simp_all add: g p(6))
qed

lemma get_release:
  assumes "slab_ok s" "slab_get s oid = Some sl" "ostate sl = Completed"
  shows "slab_get (slab_release oid s) = (slab_get s)(oid := None)" "slab_ok (slab_release oid s)"
proof -
  from assms have sl: "slab_slot s (op_index oid) = Some sl" "generation sl = op_gen oid"
    by (simp_all add: slab_get_slot)
  have ne: "slab_release oid s \<noteq> s"
  proof
    assume "slab_release oid s = s"
    then have "freelist (slab_release oid s) = freelist s" by simp
    then show False using sl assms(3) by (simp add: slab_release_def)
  qed
  with release_spec [OF assms(1), of oid] sl have r: "slab_ok (slab_release oid s)"
    "slab_slot (slab_release oid s) = (slab_slot s)(op_index oid :=
      Some (sl\<lparr>ostate := Free, generation := generation sl + 1\<rparr>))" by auto
  show "slab_ok (slab_release oid s)" by (rule r(1))
  show "slab_get (slab_release oid s) = (slab_get s)(oid := None)"
  proof
    fix i
    show "slab_get (slab_release oid s) i = ((slab_get s)(oid := None)) i"
    proof (cases "op_index i = op_index oid")
      case True
      then show ?thesis
        using sl op_id_eqI [of i oid] by (auto simp: slab_get_def r(2))
    next
      case False
      then have "i \<noteq> oid" by auto
      with False show ?thesis by (simp add: slab_get_def r(2))
    qed
  qed
qed

lemma get_complete:
  assumes "slab_ok s" "slab_get s oid = Some sl" "flying (ostate sl)"
  shows "slab_get (snd (slab_complete oid s)) = (slab_get s)(oid := Some (sl\<lparr>ostate := Completed\<rparr>))"
    "slab_ok (snd (slab_complete oid s))"
proof -
  from assms have sl: "slab_slot s (op_index oid) = Some sl" "generation sl = op_gen oid"
    by (simp_all add: slab_get_slot)
  have c: "slab_complete oid s = (Some (okind sl, ostate sl = Cancelled), snd (slab_complete oid s))"
    using complete_flying [of s oid sl] sl assms(3) by (metis prod.collapse)
  note cs = complete_spec [OF assms(1) sl assms(3) c]
  show "slab_ok (snd (slab_complete oid s))" using cs by simp
  show "slab_get (snd (slab_complete oid s)) = (slab_get s)(oid := Some (sl\<lparr>ostate := Completed\<rparr>))"
    by (rule get_upd [of _ _ _ _ sl]) (use cs sl in simp_all)
qed

lemma get_mark_cancelled:
  assumes "slab_ok s" "mark_cancelled oid s = (True, s')"
  obtains sl where "slab_ok s'" "slab_get s oid = Some sl" "ostate sl = Posted"
    "slab_get s' = (slab_get s)(oid := Some (sl\<lparr>ostate := Cancelled\<rparr>))"
proof -
  from cancel_spec [OF assms] obtain sl where
    c: "slab_slot s (op_index oid) = Some sl" "generation sl = op_gen oid" "ostate sl = Posted"
      "slab_ok s'" "slab_slot s' = (slab_slot s)(op_index oid := Some (sl\<lparr>ostate := Cancelled\<rparr>))"
    by metis
  show thesis
  proof (rule that [of sl])
    show "slab_get s' = (slab_get s)(oid := Some (sl\<lparr>ostate := Cancelled\<rparr>))"
      by (rule get_upd [OF c(5) _ c(1)]) (simp_all add: c)
  qed (simp_all add: c slab_get_slot)
qed

lemma get_write:
  assumes "slab_ok s" "slab_get s oid = Some sl"
  shows "slab_get (slab_write oid f s) = (slab_get s)(oid := Some (sl\<lparr>odata := f (odata sl)\<rparr>))"
    "slab_ok (slab_write oid f s)"
proof -
  let ?x = "sl\<lparr>odata := f (odata sl)\<rparr>" and ?i = "op_index oid"
  from assms have sl: "slab_slot s ?i = Some sl" "generation sl = op_gen oid" "ostate sl \<noteq> Free"
    by (simp_all add: slab_get_slot)
  have w: "slab_write oid f s = slab_set ?i ?x s" using assms(2) by (simp add: slab_write_def)
  have c: "slot_chunks_ok s" using assms(1) by (simp add: slab_ok_def)
  have s: "slab_slot (slab_set ?i ?x s) = (slab_slot s)(?i := Some ?x)"
    using slab_slot_set [OF c slab_slot_lt [OF sl(1)]] by (auto simp: fun_eq_iff)
  show "slab_get (slab_write oid f s) = (slab_get s)(oid := Some ?x)"
    by (rule get_upd [of _ _ _ _ sl]) (simp_all add: w s sl)
  have "flying_set (slab_set ?i ?x s) = flying_set s"
    using sl(1) by (auto simp: flying_set_def s)
  then have "card (flying_set (slab_set ?i ?x s)) = in_flight s" using assms(1) by (simp add: slab_ok_def)
  then have "(slab_set ?i ?x s)\<lparr>in_flight := card (flying_set (slab_set ?i ?x s))\<rparr> = slab_set ?i ?x s"
    by (simp add: slab_set_def)
  with slab_ok_set [OF assms(1) sl(1), of ?x] sl(3) show "slab_ok (slab_write oid f s)"
    by (simp add: w)
qed

lemma get_reap:
  assumes "slab_ok s" "slab_get s oid = Some sl"
  shows "slab_get (slab_reap oid s) = (slab_get s)(oid := None)" "slab_ok (slab_reap oid s)"
proof -
  have "slab_get (snd (slab_complete oid s)) = (slab_get s)(oid := Some (sl\<lparr>ostate := Completed\<rparr>)) \<and>
      slab_ok (snd (slab_complete oid s))"
  proof (cases "flying (ostate sl)")
    case True
    with get_complete [OF assms] show ?thesis by simp
  next
    case False
    from assms(2) have "ostate sl \<noteq> Free" by (simp add: slab_get_slot)
    with False have c: "ostate sl = Completed" by (cases "ostate sl") (auto simp: flying_def)
    then have "snd (slab_complete oid s) = s"
      using assms(2) by (auto simp: slab_complete_def slab_get_slot)
    moreover from c have "sl\<lparr>ostate := Completed\<rparr> = sl" by (cases sl) simp
    ultimately show ?thesis using assms by (simp add: fun_upd_idem)
  qed
  then have c: "slab_get (snd (slab_complete oid s)) = (slab_get s)(oid := Some (sl\<lparr>ostate := Completed\<rparr>))"
    "slab_ok (snd (slab_complete oid s))" by simp_all
  have "slab_get (snd (slab_complete oid s)) oid = Some (sl\<lparr>ostate := Completed\<rparr>)" by (simp add: c(1))
  from get_release [OF c(2) this] show "slab_get (slab_reap oid s) = (slab_get s)(oid := None)"
    "slab_ok (slab_reap oid s)" by (simp_all add: slab_reap_def c(1))
qed

text \<open>The operations in flight, as a set of ids.\<close>

definition flying_ids :: "'d slab \<Rightarrow> op_id set" where
  "flying_ids s = {oid. \<exists>sl. slab_get s oid = Some sl \<and> flying (ostate sl)}"

lemma flying_ids_list:
  assumes "slab_ok s"
  shows "flying_ids s = set (in_flight_ids s)" "mset_set (flying_ids s) = mset (in_flight_ids s)"
    "card (flying_ids s) = in_flight s"
proof -
  have "slab_state s oid = Some st \<and> flying st \<longleftrightarrow>
      (\<exists>sl. slab_get s oid = Some sl \<and> flying (ostate sl) \<and> st = ostate sl)" for oid st
    by (auto simp: slab_state_def slab_get_slot flying_def split: option.splits)
  with in_flight_ids_spec(3) [OF assms] show e: "flying_ids s = set (in_flight_ids s)"
    by (auto simp: flying_ids_def)
  with in_flight_ids_spec(1,2) [OF assms]
  show "mset_set (flying_ids s) = mset (in_flight_ids s)" "card (flying_ids s) = in_flight s"
    by (simp_all add: mset_set_set distinct_card)
qed

lemma finite_flying_ids [simp]: "slab_ok s \<Longrightarrow> finite (flying_ids s)"
  by (simp add: flying_ids_list)

end
