(* ===== verification/Epoll.thy ===== *)
theory Epoll
  imports Fd_Table Backend
begin

text \<open>
  The Linux backend (\<open>backend/epoll.rs\<close>): posted operations over readiness.  The kernel is a
  parameter: the \<open>script\<close> of the answers it gives to the system calls of the run, in order (a run
  that outlives its script is answered EAGAIN), and every call is logged with its answer.  A
  retry loop consumes one answer per attempt, so a finite script covers every execution in which
  no call is interrupted for ever.  Memory addresses are numbers; the bytes behind them are not
  modelled.  The \<open>debug_assert\<close>s are not part of the model.
\<close>

section \<open>System calls\<close>

datatype ctl_op = Ctl_add | Ctl_mod | Ctl_del

datatype syscall =
    Sys_epoll_create
  | Sys_eventfd
  | Sys_ctl ctl_op raw_fd u32
  | Sys_recv raw_fd nat nat
  | Sys_sendmsg raw_fd "(nat \<times> nat) list"
  | Sys_accept raw_fd
  | Sys_so_error raw_fd
  | Sys_recvfrom raw_fd nat nat
  | Sys_sendto raw_fd "u8 list" "u8 list option"
  | Sys_connect raw_fd "u8 list"
  | Sys_getfl raw_fd
  | Sys_setfl raw_fd u32
  | Sys_close raw_fd
  | Sys_close_epoll
  | Sys_wait nat
  | Sys_wake_write
  | Sys_wake_read

text \<open>
  An answer: the return code (negative: \<open>- errno\<close>) and what the call writes through its pointers
  (the \<open>SO_ERROR\<close> value, the sender's address, the events).
\<close>

record answer =
  rc :: int
  so_error :: nat
  from_addr :: "u8 list"
  events :: "(raw_fd \<times> u32) list"

definition EINTR :: nat where "EINTR = 4"
definition EBADF :: nat where "EBADF = 9"
definition ENOENT :: nat where "ENOENT = 2"
definition EAGAIN :: nat where "EAGAIN = 11"
definition EEXIST :: nat where "EEXIST = 17"
definition EALREADY :: nat where "EALREADY = 114"
definition EINPROGRESS :: nat where "EINPROGRESS = 115"
definition ECANCELED :: nat where "ECANCELED = 125"

lemmas errno_defs = EINTR_def EBADF_def ENOENT_def EAGAIN_def EEXIST_def EALREADY_def
  EINPROGRESS_def ECANCELED_def

definition no_answer :: answer where
  "no_answer = \<lparr>rc = - int EAGAIN, so_error = 0, from_addr = [], events = []\<rparr>"

definition errno :: "answer \<Rightarrow> nat" where
  "errno a = nat (- rc a)"

definition cvt :: "answer \<Rightarrow> io_error + nat" where
  "cvt a = (if rc a < 0 then Inl (Os_error (errno a)) else Inr (nat (rc a)))"

definition accept_error_is_transient :: "nat \<Rightarrow> bool" where
  "accept_error_is_transient e = is_transient_accept_error On_linux e"

section \<open>State\<close>

datatype pending =
    P_accept
  | P_recv nat nat
  | P_send "(nat \<times> nat) list" nat
  | P_connect
  | P_recv_from nat nat "u8 list"
  | P_send_to "u8 list" "u8 list"

record epoll_op =
  op_fd :: raw_fd
  op_pending :: pending
  accepted :: "raw_fd option"

text \<open>\<open>empty_op\<close>'s descriptor is -1, which names no table entry; no live operation keeps it.\<close>

definition empty_op :: epoll_op where
  "empty_op = \<lparr>op_fd = 2 ^ 64 - 1, op_pending = P_accept, accepted = None\<rparr>"

record epoll =
  evfd :: raw_fd
  wake_armed :: bool
  eslab :: "epoll_op slab"
  efds :: fd_table
  inline_completions :: "completion list"
  saved_inline :: nat
  chunk_at :: nat
  poller_open :: bool
  script :: "answer list"
  log :: "(syscall \<times> answer) list"

definition sys :: "syscall \<Rightarrow> epoll \<Rightarrow> answer \<times> epoll" where
  "sys c b =
     (case script b of
        [] \<Rightarrow> (no_answer, b\<lparr>log := log b @ [(c, no_answer)]\<rparr>)
      | a # as \<Rightarrow> (a, b\<lparr>script := as, log := log b @ [(c, a)]\<rparr>))"

text \<open>
  A call repeated while it fails with an error of \<open>again\<close>.  (EAGAIN, the answer past the end of
  the script, is none of them, so the test on the script never ends the loop early.)
\<close>

function sys_retry :: "(nat \<Rightarrow> bool) \<Rightarrow> syscall \<Rightarrow> epoll \<Rightarrow> answer \<times> epoll" where
  "sys_retry again c b =
     (let (a, b') = sys c b
      in if rc a < 0 \<and> again (errno a) \<and> script b \<noteq> [] then sys_retry again c b' else (a, b'))"
  by auto
termination
  by (relation "measure (\<lambda>(again, c, b). length (script b))")
    (auto simp: sys_def split: list.splits)

declare sys_retry.simps [simp del]

definition ctl :: "ctl_op \<Rightarrow> raw_fd \<Rightarrow> u32 \<Rightarrow> epoll \<Rightarrow> (io_error + unit) \<times> epoll" where
  "ctl c fd ev b = (let (a, b) = sys (Sys_ctl c fd ev) b in (map_sum id (\<lambda>_. ()) (cvt a), b))"

definition epoll_new :: "nat \<Rightarrow> answer list \<Rightarrow> (io_error + epoll) \<times> epoll" where
  "epoll_new chunk as =
     (let b = \<lparr>evfd = 0, wake_armed = False, eslab = slab_new, efds = fd_table_new,
                inline_completions = [], saved_inline = 0, chunk_at = chunk,
                poller_open = True, script = as, log = []\<rparr>;
          (a, b) = sys Sys_epoll_create b
      in case cvt a of Inl e \<Rightarrow> (Inl e, b)
         | Inr _ \<Rightarrow>
             (let (a, b) = sys Sys_eventfd b
              in case cvt a of Inl e \<Rightarrow> (Inl e, b)
                 | Inr ev \<Rightarrow>
                     (let b = b\<lparr>evfd := ev\<rparr>; (r, b) = ctl Ctl_add ev EPOLLIN b
                      in case r of Inl e \<Rightarrow> (Inl e, b) | Inr _ \<Rightarrow> (Inr b, b))))"

text \<open>
  \<open>release_poller\<close> (a forked child gives its inherited poller up; \<open>epfd\<close> becomes -1), and the
  destructor.
\<close>

definition release_poller :: "epoll \<Rightarrow> epoll" where
  "release_poller b =
     (if poller_open b then (snd (sys Sys_close_epoll b))\<lparr>poller_open := False\<rparr> else b)"

definition epoll_drop :: "epoll \<Rightarrow> epoll" where
  "epoll_drop b = release_poller (snd (sys (Sys_close (evfd b)) b))"

definition epoll_wake :: "epoll \<Rightarrow> epoll" where
  "epoll_wake b =
     (if \<not> wake_armed b then snd (sys Sys_wake_write (b\<lparr>wake_armed := True\<rparr>)) else b)"

definition entry_update :: "raw_fd \<Rightarrow> (fd_entry \<Rightarrow> fd_entry) \<Rightarrow> epoll \<Rightarrow> epoll" where
  "entry_update fd f b = b\<lparr>efds := fd_update fd f (efds b)\<rparr>"

definition entry_remove :: "raw_fd \<Rightarrow> epoll \<Rightarrow> epoll" where
  "entry_remove fd b = b\<lparr>efds := snd (fd_remove fd (efds b))\<rparr>"

definition stage :: "op_id \<Rightarrow> nat \<Rightarrow> nat \<Rightarrow> epoll \<Rightarrow> epoll" where
  "stage oid bytes err b = b\<lparr>inline_completions := inline_completions b @ [Io oid bytes err]\<rparr>"

section \<open>Interest\<close>

text \<open>MOD falling back to ADD for a registered descriptor, else ADD falling back to MOD.\<close>

definition ctl_arm :: "bool \<Rightarrow> raw_fd \<Rightarrow> u32 \<Rightarrow> epoll \<Rightarrow> (io_error + unit) \<times> epoll" where
  "ctl_arm reg fd i b =
     (if reg then
        (let (r, b) = ctl Ctl_mod fd i b
         in if r = Inl (Os_error ENOENT) then ctl Ctl_add fd i b else (r, b))
      else
        (let (r, b) = ctl Ctl_add fd i b
         in if r = Inl (Os_error EEXIST) then ctl Ctl_mod fd i b else (r, b)))"

definition sync_interest :: "raw_fd \<Rightarrow> bool \<Rightarrow> epoll \<Rightarrow> (io_error + unit) \<times> epoll" where
  "sync_interest fd lazy b =
     (case fd_get (efds b) fd of
        None \<Rightarrow> (Inr (), b)
      | Some e \<Rightarrow>
          (let i = interest e
           in if i = kmask e then (Inr (), b)
              else if lazy \<and> i AND NOT (kmask e) = 0 then (Inr (), b)
              else if registered e \<and> i = 0 then
                (let (r, b) = ctl Ctl_del fd 0 b; b = entry_remove fd b
                 in if r = Inl (Os_error ENOENT) \<or> r = Inl (Os_error EBADF) then (Inr (), b)
                    else (r, b))
              else if i = 0 then (Inr (), entry_remove fd b)
              else
                (let (r, b) = ctl_arm (registered e) fd i b
                 in case r of
                      Inr _ \<Rightarrow> (r, entry_update fd (\<lambda>e. e\<lparr>registered := True, kmask := i\<rparr>) b)
                    | Inl err \<Rightarrow>
                        (r, if err = Os_error EBADF
                            then entry_update fd (\<lambda>e. e\<lparr>registered := False, kmask := 0\<rparr>) b
                            else b))))"

definition park :: "op_id \<Rightarrow> raw_fd \<Rightarrow> bool \<Rightarrow> epoll \<Rightarrow> (io_error + op_id) \<times> epoll" where
  "park oid fd write_side b =
     (let b = b\<lparr>efds := fd_ensure fd (efds b)\<rparr>
      in if side_op write_side (the (fd_get (efds b) fd)) \<noteq> None
         then (Inl Would_block, b\<lparr>eslab := slab_reap oid (eslab b)\<rparr>)
         else
           (let b = entry_update fd (set_side write_side (Some oid)) b;
                (r, b) = sync_interest fd False b
            in (map_sum id (\<lambda>_. oid) r, b)))"

section \<open>Attempting an operation\<close>

text \<open>The gather of a send: the slices past the first \<open>skip\<close> bytes.\<close>

fun gather :: "(nat \<times> nat) list \<Rightarrow> nat \<Rightarrow> (nat \<times> nat) list" where
  "gather [] skip = []"
| "gather ((ptr, len) # bufs) skip =
     (if skip \<ge> len then gather bufs (skip - len) else (ptr + skip, len - skip) # gather bufs 0)"

text \<open>
  The end of one attempt: parked on EAGAIN, else the bytes moved and the error.  (Byte counts are
  below \<open>2 ^ 32\<close>: each is bounded by a \<open>u32\<close> length.)
\<close>

definition op_result :: "answer \<Rightarrow> (nat \<times> nat) option" where
  "op_result a =
     (if rc a \<ge> 0 then Some (as_u32 (nat (rc a)), 0)
      else if errno a = EAGAIN then None else Some (0, errno a))"

definition set_pending :: "op_id \<Rightarrow> pending \<Rightarrow> epoll \<Rightarrow> epoll" where
  "set_pending oid p b = b\<lparr>eslab := slab_write oid (\<lambda>d. d\<lparr>op_pending := p\<rparr>) (eslab b)\<rparr>"

definition attempt :: "op_id \<Rightarrow> epoll \<Rightarrow> (nat \<times> nat) option \<times> epoll" where
  "attempt oid b =
     (case slab_get (eslab b) oid of
        None \<Rightarrow> (None, b)
      | Some sl \<Rightarrow>
          (let fd = op_fd (odata sl); intr = (\<lambda>e. e = EINTR)
           in case op_pending (odata sl) of
                P_recv ptr len \<Rightarrow>
                  (let (a, b) = sys_retry intr (Sys_recv fd ptr len) b in (op_result a, b))
              | P_send bufs done \<Rightarrow>
                  (let iov = gather bufs done
                   in if iov = [] then (Some (done, 0), b)
                      else
                        (let (a, b) = sys_retry intr (Sys_sendmsg fd iov) b
                         in if rc a \<ge> 0 then
                              (let done' = as_u32 (done + nat (rc a));
                                   b = set_pending oid (P_send bufs done') b
                               in (if done' > 0 then Some (done', 0) else None, b))
                            else if errno a = EAGAIN then (None, b)
                            else (Some (done, errno a), b)))
              | P_accept \<Rightarrow>
                  (let (a, b) = sys_retry accept_error_is_transient (Sys_accept fd) b
                   in if rc a \<ge> 0
                      then (Some (0, 0), b\<lparr>eslab := slab_write oid
                              (\<lambda>d. d\<lparr>accepted := Some (nat (rc a))\<rparr>) (eslab b)\<rparr>)
                      else (op_result a, b))
              | P_connect \<Rightarrow>
                  (let (a, b) = sys (Sys_so_error fd) b
                   in (if rc a < 0 then Some (0, errno a)
                       else if so_error a = 0 then Some (0, 0)
                       else if so_error a = EINPROGRESS \<or> so_error a = EALREADY then None
                       else Some (0, so_error a), b))
              | P_recv_from ptr len frm \<Rightarrow>
                  (let (a, b) = sys_retry intr (Sys_recvfrom fd ptr len) b
                   in (op_result a,
                       if rc a \<ge> 0 then set_pending oid (P_recv_from ptr len (from_addr a)) b else b))
              | P_send_to bytes to \<Rightarrow>
                  (let (a, b) = sys_retry intr
                         (Sys_sendto fd bytes (if to = [] then None else Some to)) b
                   in (op_result a, b))))"

text \<open>The side an operation parks on.\<close>

fun write_side :: "pending \<Rightarrow> bool" where
  "write_side (P_send _ _) = True"
| "write_side P_connect = True"
| "write_side (P_send_to _ _) = True"
| "write_side _ = False"

text \<open>The buffer size of a parked recv; an entry whose op is done; the end of a driven op.\<close>

definition recv_op_len :: "op_id \<Rightarrow> epoll \<Rightarrow> nat option" where
  "recv_op_len oid b =
     (case slab_get (eslab b) oid of
        None \<Rightarrow> None
      | Some sl \<Rightarrow> (case op_pending (odata sl) of P_recv _ len \<Rightarrow> Some len | _ \<Rightarrow> None))"

definition side_done :: "bool \<Rightarrow> nat option \<Rightarrow> nat \<Rightarrow> nat \<Rightarrow> fd_entry \<Rightarrow> fd_entry" where
  "side_done ws recv_len bytes os_error e =
     (let e = set_side ws None e
      in case recv_len of None \<Rightarrow> e | Some len \<Rightarrow> e\<lparr>drained := (os_error = 0 \<and> bytes < len)\<rparr>)"

definition finish_driven :: "op_id \<Rightarrow> nat \<Rightarrow> epoll \<Rightarrow> epoll" where
  "finish_driven oid os_error b =
     (let kind = map_option okind (slab_get (eslab b) oid);
          b = b\<lparr>eslab := snd (slab_complete oid (eslab b))\<rparr>
      in if (kind = Some Accept \<or> kind = Some RecvFrom) \<and> os_error = 0 then b
         else b\<lparr>eslab := slab_release oid (eslab b)\<rparr>)"

definition drive_side :: "raw_fd \<Rightarrow> bool \<Rightarrow> epoll \<Rightarrow> bool \<times> completion list \<times> epoll" where
  "drive_side fd ws b =
     (case fd_get (efds b) fd of
        None \<Rightarrow> (False, [], b)
      | Some e \<Rightarrow>
          (case side_op ws e of
             None \<Rightarrow> (False, [], b)
           | Some oid \<Rightarrow>
               (let recv_len = recv_op_len oid b; (r, b) = attempt oid b
                in case r of
                     None \<Rightarrow> (True, [], b)
                   | Some (bytes, os_error) \<Rightarrow>
                       (let b = entry_update fd (side_done ws recv_len bytes os_error) b;
                            b = snd (sync_interest fd True b)
                        in (True, [Io oid bytes os_error], finish_driven oid os_error b)))))"

section \<open>Posting\<close>

text \<open>A slot for a new operation, with its payload written.\<close>

definition new_op :: "op_kind \<Rightarrow> raw_fd \<Rightarrow> pending \<Rightarrow> epoll \<Rightarrow> op_id \<times> epoll" where
  "new_op k fd p b =
     (let (oid, s) = slab_post (chunk_at b) empty_op k (eslab b)
      in (oid, b\<lparr>eslab := slab_write oid
                  (\<lambda>_. \<lparr>op_fd = fd, op_pending = p, accepted = None\<rparr>) s\<rparr>))"

definition reap :: "op_id \<Rightarrow> epoll \<Rightarrow> epoll" where
  "reap oid b = b\<lparr>eslab := slab_reap oid (eslab b)\<rparr>"

definition complete_now_keeping_accept :: "op_id \<Rightarrow> nat \<Rightarrow> nat \<Rightarrow> epoll \<Rightarrow> epoll" where
  "complete_now_keeping_accept oid bytes os_error b =
     (let b = b\<lparr>eslab := snd (slab_complete oid (eslab b))\<rparr>;
          b = (if os_error \<noteq> 0 then
                 (let b = (case slab_get (eslab b) oid of
                             None \<Rightarrow> b
                           | Some sl \<Rightarrow> (case accepted (odata sl) of None \<Rightarrow> b
                               | Some afd \<Rightarrow> snd (sys (Sys_close afd) b)))
                  in b\<lparr>eslab := slab_release oid (eslab b)\<rparr>)
               else b)
      in stage oid bytes os_error b)"

definition post_accept :: "raw_fd \<Rightarrow> epoll \<Rightarrow> (io_error + op_id) \<times> epoll" where
  "post_accept fd b =
     (if (case fd_get (efds b) fd of None \<Rightarrow> False | Some e \<Rightarrow> read_op e \<noteq> None)
      then (Inl Would_block, b)
      else
        (let (oid, b) = new_op Accept fd P_accept b; (r, b) = attempt oid b
         in case r of
              Some (bytes, err) \<Rightarrow>
                (if err = 0
                 then (Inr oid, complete_now_keeping_accept oid bytes 0
                                  (b\<lparr>saved_inline := saved_inline b + 1\<rparr>))
                 else (Inl (Os_error err), reap oid b))
            | None \<Rightarrow> park oid fd False b))"

definition post_recv :: "raw_fd \<Rightarrow> nat \<Rightarrow> nat \<Rightarrow> epoll \<Rightarrow> (io_error + op_id) \<times> epoll" where
  "post_recv fd buf len b =
     (let (oid, b) = new_op Recv fd (P_recv buf len) b
      in if (case fd_get (efds b) fd of None \<Rightarrow> False | Some e \<Rightarrow> drained e)
         then park oid fd False b
         else
           (let (r, b) = attempt oid b
            in case r of
                 Some (bytes, err) \<Rightarrow>
                   (let b = b\<lparr>saved_inline := saved_inline b + 1\<rparr>;
                        b = (if err = 0
                             then entry_update fd (\<lambda>e. e\<lparr>drained := bytes < len\<rparr>)
                                    (b\<lparr>efds := fd_ensure fd (efds b)\<rparr>)
                             else b)
                    in (Inr oid, stage oid bytes err (reap oid b)))
               | None \<Rightarrow> park oid fd False b))"

definition post_send :: "raw_fd \<Rightarrow> (nat \<times> nat) list \<Rightarrow> epoll \<Rightarrow> (io_error + op_id) \<times> epoll" where
  "post_send fd bufs b =
     (let (oid, b) = new_op Send fd (P_send (take MAX_GATHER bufs) 0) b; (r, b) = attempt oid b
      in case r of
           Some (bytes, err) \<Rightarrow>
             (Inr oid, stage oid bytes err (reap oid (b\<lparr>saved_inline := saved_inline b + 1\<rparr>)))
         | None \<Rightarrow> park oid fd True b)"

definition post_recv_from :: "raw_fd \<Rightarrow> nat \<Rightarrow> nat \<Rightarrow> epoll \<Rightarrow> (io_error + op_id) \<times> epoll" where
  "post_recv_from fd buf len b =
     (let (oid, b) = new_op RecvFrom fd (P_recv_from buf len []) b; (r, b) = attempt oid b
      in case r of
           Some (bytes, err) \<Rightarrow>
             (let b = b\<lparr>eslab := snd (slab_complete oid (eslab b))\<rparr>;
                  b = (if err \<noteq> 0 then b\<lparr>eslab := slab_release oid (eslab b)\<rparr> else b)
              in (Inr oid, stage oid bytes err b))
         | None \<Rightarrow> park oid fd False b)"

text \<open>\<open>addr\<close> is the socket address \<open>build_sockaddr\<close> gives, if there is one.\<close>

definition post_send_to ::
  "raw_fd \<Rightarrow> u8 list \<Rightarrow> u8 list option \<Rightarrow> epoll \<Rightarrow> (io_error + op_id) \<times> epoll" where
  "post_send_to fd bytes addr b =
     (let to = (case addr of None \<Rightarrow> [] | Some a \<Rightarrow> a);
          (oid, b) = new_op SendTo fd (P_send_to bytes to) b; (r, b) = attempt oid b
      in case r of
           Some (n, err) \<Rightarrow> (Inr oid, stage oid n err (reap oid b))
         | None \<Rightarrow> park oid fd True b)"

definition post_connect :: "raw_fd \<Rightarrow> u8 list \<Rightarrow> epoll \<Rightarrow> (io_error + op_id) \<times> epoll" where
  "post_connect fd addr b =
     (let (a, b) = sys (Sys_connect fd addr) b; (oid, b) = new_op Connect fd P_connect b
      in if rc a = 0
         then (Inr oid, stage oid 0 0 (reap oid (b\<lparr>saved_inline := saved_inline b + 1\<rparr>)))
         else if errno a = EINPROGRESS then park oid fd True b
         else (Inr oid, stage oid 0 (errno a) (reap oid b)))"

definition post_disconnect_reuse :: "raw_fd \<Rightarrow> epoll \<Rightarrow> (io_error + op_id) \<times> epoll" where
  "post_disconnect_reuse fd b = (Inl (Unsupported ''socket reuse is IOCP-only''), b)"

section \<open>Sockets, watches and cancellation\<close>

definition O_NONBLOCK :: u32 where "O_NONBLOCK = 0x800"

definition register_socket :: "raw_fd \<Rightarrow> epoll \<Rightarrow> (io_error + unit) \<times> epoll" where
  "register_socket fd b =
     (let e = fd_get (efds b) fd; b = entry_remove fd b;
          b = (if (case e of None \<Rightarrow> False | Some e \<Rightarrow> registered e)
               then snd (ctl Ctl_del fd 0 b) else b);
          (a, b) = sys (Sys_getfl fd) b
      in case cvt a of
           Inl err \<Rightarrow> (Inl err, b)
         | Inr flags \<Rightarrow>
             (if word_of_nat flags AND O_NONBLOCK = 0 then
                (let (a, b) = sys (Sys_setfl fd (word_of_nat flags OR O_NONBLOCK)) b
                 in (map_sum id (\<lambda>_. ()) (cvt a), b))
              else (Inr (), b)))"

definition take_accept_socket :: "op_id \<Rightarrow> epoll \<Rightarrow> (io_error + raw_socket) \<times> epoll" where
  "take_accept_socket oid b =
     (case slab_get (eslab b) oid of
        None \<Rightarrow> (Inl (Not_found ''accept op not live''), b)
      | Some sl \<Rightarrow>
          (let s = slab_write oid (\<lambda>d. d\<lparr>accepted := None\<rparr>) (eslab b);
               b = b\<lparr>eslab := slab_release oid s\<rparr>
           in case accepted (odata sl) of
                None \<Rightarrow> (Inl (Not_found ''accept op has no socket''), b)
              | Some fd \<Rightarrow> (Inr fd, b)))"

text \<open>The sender's address bytes; \<open>parse_any_sockaddr\<close> reads them (\<open>Netsys\<close>).\<close>

definition take_recv_from_addr :: "op_id \<Rightarrow> epoll \<Rightarrow> u8 list option \<times> epoll" where
  "take_recv_from_addr oid b =
     (case slab_get (eslab b) oid of
        None \<Rightarrow> (None, b)
      | Some sl \<Rightarrow>
          ((case op_pending (odata sl) of P_recv_from _ _ frm \<Rightarrow> Some frm | _ \<Rightarrow> None),
           b\<lparr>eslab := slab_release oid (eslab b)\<rparr>))"

text \<open>Take an operation off the table, if it is the one parked there; close an accepted socket.\<close>

definition unpark :: "op_id \<Rightarrow> raw_fd \<Rightarrow> bool \<Rightarrow> epoll \<Rightarrow> epoll" where
  "unpark oid fd ws b =
     (case fd_get (efds b) fd of
        None \<Rightarrow> b
      | Some e \<Rightarrow>
          if side_op ws e = Some oid
          then snd (sync_interest fd True (entry_update fd (set_side ws None) b))
          else b)"

definition close_accepted :: "epoll_op \<Rightarrow> epoll \<Rightarrow> epoll" where
  "close_accepted op b =
     (case (op_pending op, accepted op) of
        (P_accept, Some afd) \<Rightarrow> snd (sys (Sys_close afd) b)
      | _ \<Rightarrow> b)"

definition epoll_cancel :: "op_id \<Rightarrow> epoll \<Rightarrow> epoll" where
  "epoll_cancel oid b =
     (let (fresh, s) = mark_cancelled oid (eslab b); b = b\<lparr>eslab := s\<rparr>
      in if \<not> fresh then b
         else
           (let op = odata (the (slab_get (eslab b) oid));
                b = unpark oid (op_fd op) (write_side (op_pending op)) b;
                b = close_accepted op b
            in stage oid 0 ECANCELED (reap oid b)))"

definition set_watch :: "raw_fd \<Rightarrow> bool \<Rightarrow> bool \<Rightarrow> epoll \<Rightarrow> (io_error + unit) \<times> epoll" where
  "set_watch fd readable writable b =
     (if \<not> readable \<and> \<not> writable \<and> \<not> fd_contains (efds b) fd then (Inr (), b)
      else
        (let b = b\<lparr>efds := fd_ensure fd (efds b)\<rparr>;
             e = the (fd_get (efds b) fd); pr = watch_r e; pw = watch_w e;
             b = (if readable \<and> pr \<or> writable \<and> pw
                  then entry_update fd (\<lambda>e. e\<lparr>kmask := 0\<rparr>) b else b);
             b = entry_update fd (\<lambda>e. e\<lparr>watch_r := readable, watch_w := writable\<rparr>) b;
             (res, b) = sync_interest fd False b
         in case res of
              Inr _ \<Rightarrow> (res, b)
            | Inl _ \<Rightarrow>
                (res,
                 let b = entry_update fd (\<lambda>e. e\<lparr>watch_r := pr, watch_w := pw\<rparr>) b
                 in case fd_get (efds b) fd of
                      None \<Rightarrow> b
                    | Some e \<Rightarrow> if interest e = 0 \<and> \<not> registered e then entry_remove fd b else b)))"

definition cancel_parked :: "op_id \<Rightarrow> epoll \<Rightarrow> epoll" where
  "cancel_parked oid b =
     (let b = b\<lparr>eslab := snd (mark_cancelled oid (eslab b))\<rparr>
      in stage oid 0 ECANCELED (reap oid b))"

definition detach_socket :: "raw_fd \<Rightarrow> epoll \<Rightarrow> epoll" where
  "detach_socket fd b =
     (case fd_get (efds b) fd of
        None \<Rightarrow> b
      | Some e \<Rightarrow>
          (let b = entry_remove fd b;
               b = (if registered e then snd (ctl Ctl_del fd 0 b) else b);
               ids = (case read_op e of None \<Rightarrow> [] | Some i \<Rightarrow> [i]) @
                     (case write_op e of None \<Rightarrow> [] | Some i \<Rightarrow> [i])
           in fold cancel_parked ids b))"

section \<open>Polling\<close>

definition has_io_interest :: "epoll \<Rightarrow> bool" where
  "has_io_interest b =
     (if inline_completions b \<noteq> [] \<or> in_flight (eslab b) > 0 then True
      else interest_len (efds b) > 0)"

definition take_staged :: "epoll \<Rightarrow> completion list \<times> epoll" where
  "take_staged b = (inline_completions b, b\<lparr>inline_completions := []\<rparr>)"

definition set_wake_only :: "raw_fd option \<Rightarrow> epoll \<Rightarrow> epoll" where
  "set_wake_only w b = b\<lparr>efds := set_wake_fd w (efds b)\<rparr>"

text \<open>One event of a poll.\<close>

definition poll_event :: "raw_fd \<times> u32 \<Rightarrow> epoll \<Rightarrow> completion list \<times> epoll" where
  "poll_event ev b =
     (let (fd, flags) = ev
      in if fd = evfd b
         then ([WakeupC], (snd (sys Sys_wake_read b))\<lparr>wake_armed := False\<rparr>)
         else
           (let read_ready = (flags AND (EPOLLIN OR EPOLLHUP OR EPOLLERR) \<noteq> 0);
                write_ready = (flags AND (EPOLLOUT OR EPOLLHUP OR EPOLLERR) \<noteq> 0);
                (read_used, out1, b) = (if read_ready then drive_side fd False b else (False, [], b));
                (write_used, out2, b) = (if write_ready then drive_side fd True b else (False, [], b));
                (wr, ww) = (case fd_get (efds b) fd of None \<Rightarrow> (False, False)
                    | Some e \<Rightarrow> (watch_r e \<and> read_ready, watch_w e \<and> write_ready));
                out3 = (if wr \<or> ww then [Ready fd wr ww] else []);
                read_used = (read_used \<or> wr); write_used = (write_used \<or> ww);
                b = (if read_ready \<and> \<not> read_used \<or> write_ready \<and> \<not> write_used
                     then snd (sync_interest fd False b) else b)
            in (out1 @ out2 @ out3, b)))"

fun poll_events :: "(raw_fd \<times> u32) list \<Rightarrow> epoll \<Rightarrow> completion list \<times> epoll" where
  "poll_events [] b = ([], b)"
| "poll_events (ev # evs) b =
     (let (out, b) = poll_event ev b; (outs, b) = poll_events evs b in (out @ outs, b))"

definition I32_MAX :: nat where "I32_MAX = 2 ^ 31 - 1"

definition epoll_poll ::
  "duration option \<Rightarrow> epoll \<Rightarrow> (io_error + nat) \<times> completion list \<times> epoll" where
  "epoll_poll timeout b =
     (let (out, b) = take_staged b;
          timeout_ms = (if out \<noteq> [] then 0
                        else case timeout of Some t \<Rightarrow> min (wait_millis t) I32_MAX | None \<Rightarrow> 0)
      in if timeout_ms = 0 \<and> fd_is_empty (efds b) \<and> \<not> wake_armed b then (Inr (length out), out, b)
         else
           (let (a, b) = sys_retry (\<lambda>e. e = EINTR \<and> timeout_ms = 0) (Sys_wait timeout_ms) b
            in if rc a < 0 \<and> errno a \<noteq> EINTR then (Inl (Os_error (errno a)), out, b)
               else
                 (let n = (if rc a < 0 then 0 else nat (rc a));
                      (outs, b) = poll_events (take n (events a)) b
                  in (Inr (length (out @ outs)), out @ outs, b))))"

definition epoll_ops :: "epoll backend_ops" where
  "epoll_ops = (default_ops epoll_poll)
     \<lparr>bk_take_staged := take_staged, bk_has_io_interest := has_io_interest\<rparr>"

end
