(* ===== verification/Epoll_Props.thy ===== *)
theory Epoll_Props
  imports Epoll
begin

text \<open>
  The epoll backend proved.  The operations in flight in the slab are exactly those parked in the
  descriptor table, each on the side of its kind; every operation a caller was given is accounted
  for once, as in flight, staged or delivered; while \<open>epoll_ctl\<close> succeeds every parked operation
  and watch is armed in the kernel; and without I/O interest a poll has no completion to give.
\<close>

section \<open>What each step touches\<close>

lemma sys_sel [simp]:
  "eslab (snd (sys c b)) = eslab b" "efds (snd (sys c b)) = efds b"
  "inline_completions (snd (sys c b)) = inline_completions b" "evfd (snd (sys c b)) = evfd b"
  "chunk_at (snd (sys c b)) = chunk_at b" "log (snd (sys c b)) = log b @ [(c, fst (sys c b))]"
  by (simp_all add: sys_def split: list.split)

lemma sys_frame: "snd (sys c b) = b\<lparr>script := tl (script b), log := log b @ [(c, fst (sys c b))]\<rparr>"
  by (cases b) (simp add: sys_def split: list.split)

lemma sys_retry_frame:
  "\<exists>as l. snd (sys_retry again c b) = b\<lparr>script := as, log := log b @ l\<rparr> \<and> (\<forall>x\<in>set l. fst x = c)"
proof (induction "length (script b)" arbitrary: b rule: less_induct)
  case less
  obtain a b' where s: "sys c b = (a, b')" by fastforce
  then have b': "b' = b\<lparr>script := tl (script b), log := log b @ [(c, a)]\<rparr>"
    using sys_frame [of c b] by simp
  show ?case
  proof (cases "rc a < 0 \<and> again (errno a) \<and> script b \<noteq> []")
    case True
    then have "length (script b') < length (script b)" by (simp add: b')
    from less [OF this] obtain as l where
      "snd (sys_retry again c b') = b'\<lparr>script := as, log := log b' @ l\<rparr>" "\<forall>x\<in>set l. fst x = c" by blast
    moreover have "sys_retry again c b = sys_retry again c b'"
      using True s by (subst sys_retry.simps) simp
    ultimately show ?thesis
      by (intro exI [of _ as] exI [of _ "(c, a) # l"]) (simp add: b')
  next
    case False
    then have "sys_retry again c b = (a, b')" using s by (subst sys_retry.simps) auto
    then show ?thesis by (intro exI [of _ "tl (script b)"] exI [of _ "[(c, a)]"]) (simp add: b')
  qed
qed

lemma sys_retry_sel [simp]:
  "eslab (snd (sys_retry again c b)) = eslab b" "efds (snd (sys_retry again c b)) = efds b"
  "inline_completions (snd (sys_retry again c b)) = inline_completions b"
  "evfd (snd (sys_retry again c b)) = evfd b" "chunk_at (snd (sys_retry again c b)) = chunk_at b"
  using sys_retry_frame [of again c b] by auto

lemma ctl_sel [simp]:
  "eslab (snd (ctl c fd ev b)) = eslab b" "efds (snd (ctl c fd ev b)) = efds b"
  "inline_completions (snd (ctl c fd ev b)) = inline_completions b"
  "evfd (snd (ctl c fd ev b)) = evfd b" "chunk_at (snd (ctl c fd ev b)) = chunk_at b"
  by (simp_all add: ctl_def split_beta Let_def)

lemma ctl_arm_sel [simp]:
  "eslab (snd (ctl_arm reg fd ev b)) = eslab b" "efds (snd (ctl_arm reg fd ev b)) = efds b"
  "inline_completions (snd (ctl_arm reg fd ev b)) = inline_completions b"
  "evfd (snd (ctl_arm reg fd ev b)) = evfd b"
  by (simp_all add: ctl_arm_def split_beta Let_def)

lemma entry_sel [simp]:
  "eslab (entry_update fd f b) = eslab b" "efds (entry_update fd f b) = fd_update fd f (efds b)"
  "inline_completions (entry_update fd f b) = inline_completions b"
  "evfd (entry_update fd f b) = evfd b" "log (entry_update fd f b) = log b"
  "eslab (entry_remove fd b) = eslab b" "efds (entry_remove fd b) = snd (fd_remove fd (efds b))"
  "inline_completions (entry_remove fd b) = inline_completions b"
  "evfd (entry_remove fd b) = evfd b" "log (entry_remove fd b) = log b"
  by (simp_all add: entry_update_def entry_remove_def)

lemma stage_sel [simp]:
  "eslab (stage oid n err b) = eslab b" "efds (stage oid n err b) = efds b"
  "inline_completions (stage oid n err b) = inline_completions b @ [Io oid n err]"
  "evfd (stage oid n err b) = evfd b" "log (stage oid n err b) = log b"
  by (simp_all add: stage_def)

lemma reap_sel [simp]:
  "eslab (reap oid b) = slab_reap oid (eslab b)" "efds (reap oid b) = efds b"
  "inline_completions (reap oid b) = inline_completions b" "evfd (reap oid b) = evfd b"
  "log (reap oid b) = log b"
  by (simp_all add: reap_def)

lemma side_set_side [simp]:
  "side_op ws (set_side ws' v e) = (if ws = ws' then v else side_op ws e)"
  "present (set_side ws v e) = present e" "watch_r (set_side ws v e) = watch_r e"
  "watch_w (set_side ws v e) = watch_w e" "registered (set_side ws v e) = registered e"
  "kmask (set_side ws v e) = kmask e" "drained (set_side ws v e) = drained e"
  by (auto simp: side_op_def set_side_def)

text \<open>
  \<open>sync_interest\<close> changes one entry, in its \<open>registered\<close> and \<open>kmask\<close> only, or removes one without
  interest.
\<close>

lemma sync_table:
  assumes "sync_interest fd lazy b = (r, b')"
  shows "eslab b' = eslab b" "inline_completions b' = inline_completions b" "evfd b' = evfd b"
    "(efds b' = snd (fd_remove fd (efds b)) \<and> (\<exists>e. fd_get (efds b) fd = Some e \<and> interest e = 0)) \<or>
     (\<exists>rg km. efds b' = fd_update fd (\<lambda>e. e\<lparr>registered := rg, kmask := km\<rparr>) (efds b)) \<or>
     efds b' = efds b"
proof -
  note d = assms [unfolded sync_interest_def]
  have t: "eslab b' = eslab b \<and> inline_completions b' = inline_completions b \<and> evfd b' = evfd b \<and>
    ((efds b' = snd (fd_remove fd (efds b)) \<and> (\<exists>e. fd_get (efds b) fd = Some e \<and> interest e = 0)) \<or>
     (\<exists>rg km. efds b' = fd_update fd (\<lambda>e. e\<lparr>registered := rg, kmask := km\<rparr>) (efds b)) \<or>
     efds b' = efds b)"
  proof (cases "fd_get (efds b) fd")
    case None
    with d show ?thesis by simp
  next
    case (Some e)
    let ?i = "interest e"
    show ?thesis
    proof (cases "?i = kmask e \<or> lazy \<and> ?i AND NOT (kmask e) = 0")
      case True
      with Some d show ?thesis by (auto simp: Let_def split: if_splits)
    next
      case False
      show ?thesis
      proof (cases "?i = 0")
        case True
        with Some False d show ?thesis
          by (auto simp: Let_def split_beta split: if_splits)
      next
        case nz: False
        obtain r1 b1 where c: "ctl_arm (registered e) fd ?i b = (r1, b1)" by fastforce
        have b1: "eslab b1 = eslab b" "efds b1 = efds b" "evfd b1 = evfd b"
          "inline_completions b1 = inline_completions b"
          using ctl_arm_sel [of "registered e" fd ?i b] c by simp_all
        have "(r, b') = (case r1 of
              Inr _ \<Rightarrow> (r1, entry_update fd (\<lambda>e. e\<lparr>registered := True, kmask := ?i\<rparr>) b1)
            | Inl err \<Rightarrow> (r1, if err = Os_error EBADF
                then entry_update fd (\<lambda>e. e\<lparr>registered := False, kmask := 0\<rparr>) b1 else b1))"
          using d Some False nz c by (simp add: Let_def split: if_splits)
        with b1 show ?thesis by (auto split: sum.splits)
      qed
    qed
  qed
  then show "eslab b' = eslab b" "inline_completions b' = inline_completions b" "evfd b' = evfd b"
    "(efds b' = snd (fd_remove fd (efds b)) \<and> (\<exists>e. fd_get (efds b) fd = Some e \<and> interest e = 0)) \<or>
     (\<exists>rg km. efds b' = fd_update fd (\<lambda>e. e\<lparr>registered := rg, kmask := km\<rparr>) (efds b)) \<or>
     efds b' = efds b" by simp_all
qed

section \<open>Where operations are\<close>

text \<open>The operation parked on a side of a descriptor, and where an operation in flight belongs.\<close>

definition parked_at :: "fd_table \<Rightarrow> raw_fd \<Rightarrow> bool \<Rightarrow> op_id option" where
  "parked_at t fd ws = (case fd_get t fd of None \<Rightarrow> None | Some e \<Rightarrow> side_op ws e)"

definition home :: "epoll_op slab \<Rightarrow> op_id \<Rightarrow> (raw_fd \<times> bool) option" where
  "home s oid = (case slab_get s oid of None \<Rightarrow> None
     | Some sl \<Rightarrow> if flying (ostate sl) then Some (op_fd (odata sl), write_side (op_pending (odata sl)))
                 else None)"

definition ep_inv :: "op_id set \<Rightarrow> epoll \<Rightarrow> bool" where
  "ep_inv X b \<longleftrightarrow> slab_ok (eslab b) \<and> fd_ok (efds b) \<and>
     (\<forall>fd ws oid. parked_at (efds b) fd ws = Some oid \<longleftrightarrow>
        home (eslab b) oid = Some (fd, ws) \<and> oid \<notin> X)"

abbreviation ep_ok :: "epoll \<Rightarrow> bool" where
  "ep_ok \<equiv> ep_inv {}"

lemma ep_inv_slab: "ep_inv X b \<Longrightarrow> slab_ok (eslab b)"
  and ep_inv_fds: "ep_inv X b \<Longrightarrow> fd_ok (efds b)"
  and ep_inv_parked: "ep_inv X b \<Longrightarrow> parked_at (efds b) fd ws = Some oid \<longleftrightarrow>
    home (eslab b) oid = Some (fd, ws) \<and> oid \<notin> X"
  by (simp_all add: ep_inv_def)

lemma flying_home: "flying_ids s = dom (home s)"
  by (auto simp: flying_ids_def home_def split: option.splits if_splits)

lemma homeE:
  assumes "home s oid = Some (fd, ws)"
  obtains sl where "slab_get s oid = Some sl" "flying (ostate sl)" "op_fd (odata sl) = fd"
    "write_side (op_pending (odata sl)) = ws"
  using assms by (auto simp: home_def split: option.splits if_splits)

text \<open>A step that leaves every operation where it is.\<close>

lemma ep_inv_same:
  assumes "ep_inv X b" "slab_ok (eslab b')" "fd_ok (efds b')" "home (eslab b') = home (eslab b)"
    and "parked_at (efds b') = parked_at (efds b)"
  shows "ep_inv X b'"
  using assms unfolding ep_inv_def by auto

lemma parked_update:
  assumes "\<And>e. present (f e) = present e" "\<And>ws e. side_op ws (f e) = side_op ws e"
  shows "parked_at (fd_update fd f t) = parked_at t"
  by (auto simp: parked_at_def fd_get_update [where f = f, OF assms(1)] assms(2) fun_eq_iff
      split: option.splits)

lemma parked_set_side:
  assumes "fd_get t fd = Some e"
  shows "parked_at (fd_update fd (set_side ws v) t) = (parked_at t)(fd := (parked_at t fd)(ws := v))"
  using assms by (auto simp: parked_at_def fd_get_update fun_eq_iff)

lemma side_op_new [simp]: "side_op ws new_entry = None"
  by (simp add: new_entry_def entry_default_def side_op_def)

lemma parked_ensure: "parked_at (fd_ensure fd t) = parked_at t"
  by (auto simp: parked_at_def fd_get_ensure fun_eq_iff split: option.splits)

lemma interest_zero: "interest e = 0 \<Longrightarrow> side_op ws e = None"
  by (auto simp: interest_def side_op_def EPOLLIN_def EPOLLOUT_def or_eq_0_iff split: if_splits)

lemma parked_remove:
  assumes "\<And>ws. parked_at t fd ws = None"
  shows "parked_at (snd (fd_remove fd t)) = parked_at t"
  using assms by (auto simp: parked_at_def fd_get_remove fun_eq_iff)

lemma sync_parked:
  assumes "sync_interest fd lazy b = (r, b')"
  shows "parked_at (efds b') = parked_at (efds b)" "fd_ok (efds b) \<Longrightarrow> fd_ok (efds b')"
proof -
  consider "efds b' = snd (fd_remove fd (efds b))" "\<exists>e. fd_get (efds b) fd = Some e \<and> interest e = 0"
    | rg km where "efds b' = fd_update fd (\<lambda>e. e\<lparr>registered := rg, kmask := km\<rparr>) (efds b)"
    | "efds b' = efds b" using sync_table(4) [OF assms] by blast
  then have "parked_at (efds b') = parked_at (efds b) \<and> (fd_ok (efds b) \<longrightarrow> fd_ok (efds b'))"
  proof cases
    case 1
    then have "parked_at (efds b) fd ws = None" for ws by (auto simp: parked_at_def interest_zero)
    with 1 show ?thesis by (simp add: parked_remove fd_ok_remove)
  next
    case 2
    have "side_op ws (e\<lparr>registered := rg, kmask := km\<rparr>) = side_op ws e" for ws e
      by (simp add: side_op_def)
    then show ?thesis using 2 by (simp add: parked_update fd_ok_update)
  qed simp
  then show "parked_at (efds b') = parked_at (efds b)" "fd_ok (efds b) \<Longrightarrow> fd_ok (efds b')" by simp_all
qed

lemma ep_inv_sync:
  assumes "ep_inv X b" "sync_interest fd lazy b = (r, b')"
  shows "ep_inv X b'"
  using sync_parked [OF assms(2)] sync_table(1) [OF assms(2)] assms(1)
  by (intro ep_inv_same [OF assms(1)]) (auto simp: ep_inv_def)

lemma home_write:
  assumes "slab_ok s" "\<And>d. op_fd (f d) = op_fd d"
    and "\<And>sl. slab_get s oid = Some sl \<Longrightarrow>
      write_side (op_pending (f (odata sl))) = write_side (op_pending (odata sl))"
  shows "home (slab_write oid f s) = home s" "slab_ok (slab_write oid f s)"
proof -
  have "home (slab_write oid f s) = home s \<and> slab_ok (slab_write oid f s)"
  proof (cases "slab_get s oid")
    case None
    then have "slab_write oid f s = s" by (simp add: slab_write_def)
    with assms(1) show ?thesis by simp
  next
    case (Some sl)
    note g = get_write [OF assms(1) Some, of f]
    have "home (slab_write oid f s) = home s"
      by (rule ext) (use Some assms(3) [OF Some] in \<open>simp add: home_def g(1) assms(2)\<close>)
    with g Some show ?thesis by auto
  qed
  then show "home (slab_write oid f s) = home s" "slab_ok (slab_write oid f s)" by blast+
qed

text \<open>A step that only writes payloads, keeping where they belong, and talks to the kernel.\<close>

lemma ep_inv_write:
  assumes "ep_inv X b" "eslab b' = slab_write oid f (eslab b)" "efds b' = efds b"
    and "\<And>d. op_fd (f d) = op_fd d"
    and "\<And>sl. slab_get (eslab b) oid = Some sl \<Longrightarrow>
      write_side (op_pending (f (odata sl))) = write_side (op_pending (odata sl))"
  shows "ep_inv X b'" "home (eslab b') = home (eslab b)"
proof -
  note w = home_write [OF ep_inv_slab [OF assms(1)] assms(4,5)]
  show h: "home (eslab b') = home (eslab b)" using w(1) assms(2) by simp
  show "ep_inv X b'"
  proof (rule ep_inv_same [OF assms(1) _ _ h])
    show "slab_ok (eslab b')" "fd_ok (efds b')" "parked_at (efds b') = parked_at (efds b)"
      using w(2) assms ep_inv_fds [OF assms(1)] by simp_all
  qed
qed

lemma attempt_frame:
  assumes "attempt oid b = (r, b')"
  shows "efds b' = efds b \<and> inline_completions b' = inline_completions b \<and> evfd b' = evfd b \<and>
    (eslab b' = eslab b \<or> (\<exists>f. eslab b' = slab_write oid f (eslab b) \<and> (\<forall>d. op_fd (f d) = op_fd d) \<and>
      (\<forall>sl. slab_get (eslab b) oid = Some sl \<longrightarrow>
         write_side (op_pending (f (odata sl))) = write_side (op_pending (odata sl)))))"
proof (cases "slab_get (eslab b) oid")
  case None
  with assms show ?thesis by (simp add: attempt_def)
next
  case (Some sl)
  note d = assms [unfolded attempt_def Some option.case Let_def]
  have w: "\<exists>f. slab_write oid (\<lambda>d. d\<lparr>op_pending := p\<rparr>) s = slab_write oid f s \<and>
      (\<forall>d. op_fd (f d) = op_fd d) \<and> write_side (op_pending (f (odata sl))) = write_side p" for p s
    by (intro exI [of _ "\<lambda>d. d\<lparr>op_pending := p\<rparr>"]) simp
  have a: "\<exists>f. slab_write oid (\<lambda>d. d\<lparr>accepted := v\<rparr>) s = slab_write oid f s \<and>
      (\<forall>d. op_fd (f d) = op_fd d) \<and>
      write_side (op_pending (f (odata sl))) = write_side (op_pending (odata sl))" for v s
    by (intro exI [of _ "\<lambda>d. d\<lparr>accepted := v\<rparr>"]) simp
  show ?thesis
  proof (cases "op_pending (odata sl)")
    case P_accept
    with d Some a show ?thesis by (auto simp: split_beta split: if_splits)
  next
    case (P_recv ptr len)
    with d show ?thesis by (auto simp: split_beta)
  next
    case (P_send bufs sent)
    with d Some w show ?thesis by (auto simp: split_beta set_pending_def Let_def split: if_splits)
  next
    case P_connect
    with d show ?thesis by (auto simp: split_beta)
  next
    case (P_recv_from ptr len frm)
    with d Some w show ?thesis by (auto simp: split_beta set_pending_def split: if_splits)
  next
    case (P_send_to bytes to)
    with d show ?thesis by (auto simp: split_beta)
  qed
qed

lemma ep_inv_cong:
  assumes "ep_inv X b" "eslab b' = eslab b" "efds b' = efds b"
  shows "ep_inv X b'"
  using assms by (simp add: ep_inv_def)

lemma ep_inv_attempt:
  assumes "ep_inv X b" "attempt oid b = (r, b')"
  shows "ep_inv X b'" "home (eslab b') = home (eslab b)" "efds b' = efds b"
    "inline_completions b' = inline_completions b" "evfd b' = evfd b"
proof -
  note f = attempt_frame [OF assms(2)]
  then show "efds b' = efds b" "inline_completions b' = inline_completions b" "evfd b' = evfd b" by simp_all
  have "ep_inv X b' \<and> home (eslab b') = home (eslab b)"
  proof (cases "eslab b' = eslab b")
    case True
    with f ep_inv_cong [OF assms(1)] show ?thesis by simp
  next
    case False
    with f obtain g where g: "eslab b' = slab_write oid g (eslab b)" "efds b' = efds b"
      "\<forall>d. op_fd (g d) = op_fd d"
      "\<forall>sl. slab_get (eslab b) oid = Some sl \<longrightarrow>
         write_side (op_pending (g (odata sl))) = write_side (op_pending (odata sl))" by blast
    with ep_inv_write [OF assms(1) g(1,2)] show ?thesis by blast
  qed
  then show "ep_inv X b'" "home (eslab b') = home (eslab b)" by simp_all
qed

lemma ep_inv_new_op:
  assumes inv: "ep_inv X b" and room: "slab_room (eslab b)" and n: "new_op k fd p b = (oid, b')"
  shows "ep_inv (insert oid X) b'" "home (eslab b) oid = None"
    "home (eslab b') = (home (eslab b))(oid := Some (fd, write_side p))" "efds b' = efds b"
    "inline_completions b' = inline_completions b" "evfd b' = evfd b"
    "\<exists>sl. slab_get (eslab b') oid = Some sl \<and> okind sl = k"
proof -
  obtain s where s: "slab_post (chunk_at b) empty_op k (eslab b) = (oid, s)"
    and b': "b' = b\<lparr>eslab := slab_write oid (\<lambda>_. \<lparr>op_fd = fd, op_pending = p, accepted = None\<rparr>) s\<rparr>"
    using n by (auto simp: new_op_def split: prod.splits)
  from get_post [OF ep_inv_slab [OF inv] room s] obtain sl where
    sl: "slab_ok s" "slab_get (eslab b) oid = None" "slab_get s = (slab_get (eslab b))(oid := Some sl)"
      "ostate sl = Posted" "okind sl = k" .
  let ?x = "sl\<lparr>odata := \<lparr>op_fd = fd, op_pending = p, accepted = None\<rparr>\<rparr>"
  have "slab_get s oid = Some sl" by (simp add: sl(3))
  note w = get_write [OF sl(1) this]
  have g: "slab_get (eslab b') = (slab_get (eslab b))(oid := Some ?x)" by (simp add: b' w(1) sl(3))
  show none: "home (eslab b) oid = None" by (simp add: home_def sl(2))
  show h: "home (eslab b') = (home (eslab b))(oid := Some (fd, write_side p))"
    by (rule ext) (simp add: home_def g sl(4) flying_def)
  show f: "efds b' = efds b" "inline_completions b' = inline_completions b" "evfd b' = evfd b"
    by (simp_all add: b')
  show "\<exists>sl. slab_get (eslab b') oid = Some sl \<and> okind sl = k" by (simp add: g sl(5))
  show "ep_inv (insert oid X) b'"
    unfolding ep_inv_def
  proof (intro conjI allI impI)
    show "slab_ok (eslab b')" using w(2) by (simp add: b')
    show "fd_ok (efds b')" using ep_inv_fds [OF inv] f by simp
    show "parked_at (efds b') fd' ws = Some i \<longleftrightarrow> home (eslab b') i = Some (fd', ws) \<and> i \<notin> insert oid X"
      for fd' ws i using none by (auto simp: f h ep_inv_parked [OF inv])
  qed
qed

text \<open>Taking one operation out of the slab, whether or not its slot is kept for its result.\<close>

lemma ep_inv_gone:
  assumes "ep_inv X b" "slab_ok (eslab b')" "efds b' = efds b"
    and "home (eslab b') = (home (eslab b))(oid := None)"
    and "oid \<in> X \<or> home (eslab b) oid = None"
  shows "ep_inv (X - {oid}) b'"
  unfolding ep_inv_def
proof (intro conjI allI impI)
  show "parked_at (efds b') fd ws = Some i \<longleftrightarrow> home (eslab b') i = Some (fd, ws) \<and> i \<notin> X - {oid}"
    for fd ws i using assms(5) by (auto simp: assms(3,4) ep_inv_parked [OF assms(1)])
qed (use assms ep_inv_fds [OF assms(1)] in auto)

lemma home_complete:
  assumes "ep_inv X b" "home (eslab b) oid \<noteq> None"
  shows "slab_ok (snd (slab_complete oid (eslab b)))"
    "home (snd (slab_complete oid (eslab b))) = (home (eslab b))(oid := None)"
    "\<exists>sl. slab_get (eslab b) oid = Some sl \<and> slab_get (snd (slab_complete oid (eslab b))) =
       (slab_get (eslab b))(oid := Some (sl\<lparr>ostate := Completed\<rparr>))"
proof -
  from assms(2) obtain sl where sl: "slab_get (eslab b) oid = Some sl" "flying (ostate sl)"
    by (auto simp: home_def split: option.splits if_splits)
  note g = get_complete [OF ep_inv_slab [OF assms(1)] sl]
  then show "slab_ok (snd (slab_complete oid (eslab b)))"
    "home (snd (slab_complete oid (eslab b))) = (home (eslab b))(oid := None)"
    "\<exists>sl. slab_get (eslab b) oid = Some sl \<and> slab_get (snd (slab_complete oid (eslab b))) =
       (slab_get (eslab b))(oid := Some (sl\<lparr>ostate := Completed\<rparr>))"
    using sl by (auto simp: home_def flying_def fun_eq_iff)
qed

lemma ep_inv_complete:
  assumes "ep_inv X b" "home (eslab b) oid \<noteq> None" "oid \<in> X"
    and "eslab b' = snd (slab_complete oid (eslab b))" "efds b' = efds b"
  shows "ep_inv (X - {oid}) b'" "home (eslab b') = (home (eslab b))(oid := None)"
    "\<exists>sl. slab_get (eslab b') oid = Some sl \<and> ostate sl = Completed"
proof -
  note c = home_complete [OF assms(1,2)]
  from c(3) obtain sl where g: "slab_get (eslab b) oid = Some sl"
    "slab_get (eslab b') = (slab_get (eslab b))(oid := Some (sl\<lparr>ostate := Completed\<rparr>))"
    by (auto simp: assms(4))
  show h: "home (eslab b') = (home (eslab b))(oid := None)" by (simp add: assms(4) c(2))
  show "\<exists>sl. slab_get (eslab b') oid = Some sl \<and> ostate sl = Completed" by (simp add: g(2))
  show "ep_inv (X - {oid}) b'"
  proof (rule ep_inv_gone [OF assms(1) _ assms(5) h])
    show "slab_ok (eslab b')" by (simp add: assms(4) c(1))
    show "oid \<in> X \<or> home (eslab b) oid = None" using assms(3) by simp
  qed
qed

lemma ep_inv_release:
  assumes "ep_inv X b" "home (eslab b) oid = None"
    and "eslab b' = slab_release oid (eslab b)" "efds b' = efds b"
  shows "ep_inv X b'" "home (eslab b') = home (eslab b)"
proof -
  have "(slab_get (eslab b') = slab_get (eslab b) \<or> slab_get (eslab b') = (slab_get (eslab b))(oid := None)) \<and>
      slab_ok (eslab b')"
  proof (cases "\<exists>sl. slab_get (eslab b) oid = Some sl \<and> ostate sl = Completed")
    case True
    with get_release [OF ep_inv_slab [OF assms(1)], of oid] assms(3) show ?thesis by auto
  next
    case False
    then have "slab_release oid (eslab b) = eslab b"
      by (auto simp: slab_release_def slab_get_def split: option.splits if_splits)
    with assms(3) ep_inv_slab [OF assms(1)] show ?thesis by simp
  qed
  then have d: "slab_get (eslab b') = slab_get (eslab b) \<or> slab_get (eslab b') = (slab_get (eslab b))(oid := None)"
    and ok: "slab_ok (eslab b')" by simp_all
  have h: "home (eslab b') = home (eslab b)"
    using d
  proof
    assume "slab_get (eslab b') = (slab_get (eslab b))(oid := None)"
    then have "home (eslab b') = (home (eslab b))(oid := None)" by (simp add: home_def fun_eq_iff)
    with assms(2) show ?thesis by (simp add: fun_upd_idem)
  qed (simp add: home_def fun_eq_iff)
  show "home (eslab b') = home (eslab b)" by (rule h)
  show "ep_inv X b'"
    using ok ep_inv_fds [OF assms(1)]
    by (intro ep_inv_same [OF assms(1) _ _ h]) (auto simp: assms(4))
qed

lemma ep_inv_reap:
  assumes "ep_inv X b" "home (eslab b) oid \<noteq> None" "oid \<in> X"
  shows "ep_inv (X - {oid}) (reap oid b)" "home (eslab (reap oid b)) = (home (eslab b))(oid := None)"
proof -
  let ?b1 = "b\<lparr>eslab := snd (slab_complete oid (eslab b))\<rparr>"
  note c = ep_inv_complete [OF assms, of ?b1]
  have "eslab (reap oid b) = slab_release oid (eslab ?b1)" by (simp add: slab_reap_def)
  from ep_inv_release [OF c(1), of oid "reap oid b"] c(2) this
  show "ep_inv (X - {oid}) (reap oid b)" "home (eslab (reap oid b)) = (home (eslab b))(oid := None)"
    by simp_all
qed

section \<open>Every operation is accounted for\<close>

text \<open>The ids in completions; the operations in flight together with the staged completions.\<close>

definition io_ids :: "completion list \<Rightarrow> op_id list" where
  "io_ids cs = concat (map (\<lambda>c. case c of Io oid _ _ \<Rightarrow> [oid] | _ \<Rightarrow> []) cs)"

definition acct :: "epoll \<Rightarrow> op_id multiset" where
  "acct b = mset (io_ids (inline_completions b)) + mset_set (dom (home (eslab b)))"

lemma io_ids_simps [simp]:
  "io_ids [] = []" "io_ids (Io oid n e # cs) = oid # io_ids cs" "io_ids (WakeupC # cs) = io_ids cs"
  "io_ids (Ready fd r w # cs) = io_ids cs" "io_ids (cs @ ds) = io_ids cs @ io_ids ds"
  by (simp_all add: io_ids_def)

lemma finite_home [simp]: "ep_inv X b \<Longrightarrow> finite (dom (home (eslab b)))"
  using finite_flying_ids [OF ep_inv_slab] flying_home by metis

lemma acct_post:
  assumes "ep_inv X b" "home (eslab b) oid = None" "home (eslab b') = (home (eslab b))(oid := Some h)"
    and "inline_completions b' = inline_completions b"
  shows "acct b' = add_mset oid (acct b)"
proof -
  have "oid \<notin> dom (home (eslab b))" using assms(2) by auto
  then show ?thesis using finite_home [OF assms(1)] by (simp add: acct_def assms(3,4))
qed

text \<open>What a post leaves behind: its id once, or nothing, or (a failed \<open>epoll_ctl\<close>) a parked operation.\<close>

definition posted :: "epoll \<Rightarrow> io_error + op_id \<Rightarrow> epoll \<Rightarrow> bool" where
  "posted b r b' \<longleftrightarrow> ep_ok b' \<and>
     (case r of
        Inr oid \<Rightarrow> home (eslab b) oid = None \<and> acct b' = add_mset oid (acct b)
      | Inl _ \<Rightarrow> acct b' = acct b \<or>
          (\<exists>oid. home (eslab b) oid = None \<and> home (eslab b') oid \<noteq> None \<and> acct b' = add_mset oid (acct b)))"

text \<open>The state between a new operation's attempt and its outcome.\<close>

definition pending_post :: "epoll \<Rightarrow> op_id \<Rightarrow> raw_fd \<Rightarrow> bool \<Rightarrow> epoll \<Rightarrow> bool" where
  "pending_post b oid fd ws b' \<longleftrightarrow> ep_ok b \<and> ep_inv {oid} b' \<and> home (eslab b) oid = None \<and>
     home (eslab b') = (home (eslab b))(oid := Some (fd, ws)) \<and>
     inline_completions b' = inline_completions b"

lemma pending_new:
  assumes "ep_ok b" "slab_room (eslab b)" "new_op k fd p b = (oid, b')"
  shows "pending_post b oid fd (write_side p) b'"
  using ep_inv_new_op [OF assms] assms(1) by (simp add: pending_post_def)

lemma pending_attempt:
  assumes "pending_post b oid fd ws b1" "attempt oid b1 = (r, b')"
  shows "pending_post b oid fd ws b'"
  using assms(1) ep_inv_attempt [OF _ assms(2), of "{oid}"] by (auto simp: pending_post_def)

lemma pending_same:
  assumes "pending_post b oid fd ws b1" "eslab b' = eslab b1" "parked_at (efds b') = parked_at (efds b1)"
    and "fd_ok (efds b')" "inline_completions b' = inline_completions b1"
  shows "pending_post b oid fd ws b'"
proof -
  have "ep_inv {oid} b1" using assms(1) by (simp add: pending_post_def)
  then have "ep_inv {oid} b'"
    by (rule ep_inv_same) (use assms ep_inv_slab \<open>ep_inv {oid} b1\<close> in auto)
  then show ?thesis using assms by (simp add: pending_post_def)
qed

lemma pending_acct:
  assumes "pending_post b oid fd ws b'"
  shows "acct b' = add_mset oid (acct b)"
  using assms acct_post [of "{}" b oid b'] by (simp add: pending_post_def)

lemma pending_gone:
  assumes "pending_post b oid fd ws b1" "ep_inv ({oid} - {oid}) b'"
    and "home (eslab b') = (home (eslab b1))(oid := None)"
    and "inline_completions b' = inline_completions b1 @ out" "io_ids out = [oid]"
  shows "posted b (Inr oid) b'"
proof -
  have p: "home (eslab b) oid = None" "home (eslab b1) = (home (eslab b))(oid := Some (fd, ws))"
    "inline_completions b1 = inline_completions b" using assms(1) by (simp_all add: pending_post_def)
  then have "home (eslab b') = home (eslab b)" by (simp add: assms(3) fun_upd_idem)
  then show ?thesis using assms(2) p by (simp add: posted_def acct_def assms(4,5))
qed

lemma pending_reap:
  assumes "pending_post b oid fd ws b1"
  shows "posted b (Inr oid) (stage oid n err (reap oid b1))"
proof -
  have p: "ep_inv {oid} b1" "home (eslab b1) oid \<noteq> None" using assms by (auto simp: pending_post_def)
  note r = ep_inv_reap [OF p]
  have "ep_inv ({oid} - {oid}) (stage oid n err (reap oid b1))"
    by (rule ep_inv_cong [OF r(1)]) simp_all
  then show ?thesis
    using r(2) by (intro pending_gone [OF assms, where out = "[Io oid n err]"]) simp_all
qed

lemma pending_refused:
  assumes "pending_post b oid fd ws b1"
  shows "posted b (Inl e) (reap oid b1)"
proof -
  have p: "ep_inv {oid} b1" "home (eslab b1) oid \<noteq> None" "home (eslab b) oid = None"
    "home (eslab b1) = (home (eslab b))(oid := Some (fd, ws))"
    "inline_completions b1 = inline_completions b" using assms by (auto simp: pending_post_def)
  note r = ep_inv_reap [OF p(1,2)]
  have "home (eslab (reap oid b1)) = home (eslab b)" using r(2) p(3,4) by (simp add: fun_upd_idem)
  then show ?thesis using r(1) p(5) by (simp add: posted_def acct_def)
qed

lemma park_map:
  assumes "\<And>fd' ws' i. P fd' ws' = Some i \<longleftrightarrow> H i = Some (fd', ws') \<and> i \<noteq> oid"
    and "H oid = Some (fd, ws)" "P fd ws = None"
  shows "(P(fd := (P fd)(ws := Some oid))) fd' ws' = Some i \<longleftrightarrow> H i = Some (fd', ws')"
proof (cases "fd' = fd \<and> ws' = ws")
  case True
  then show ?thesis using assms(1) [of fd ws i] assms(2,3) by (cases "i = oid") auto
next
  case False
  then show ?thesis using assms(1) [of fd' ws' i] assms(2) by auto
qed

lemma park_posted:
  assumes "pending_post b oid fd ws b1" "park oid fd ws b1 = (r, b')"
  shows "posted b r b'"
proof -
  let ?b2 = "b1\<lparr>efds := fd_ensure fd (efds b1)\<rparr>"
  have inv1: "ep_inv {oid} b1" and h1: "home (eslab b1) = (home (eslab b))(oid := Some (fd, ws))"
    "home (eslab b) oid = None" using assms(1) by (auto simp: pending_post_def)
  have p2: "pending_post b oid fd ws ?b2"
    by (rule pending_same [OF assms(1)])
      (simp_all add: parked_ensure fd_ok_ensure ep_inv_fds [OF inv1])
  then have inv2: "ep_inv {oid} ?b2" by (simp add: pending_post_def)
  obtain e where e: "fd_get (efds ?b2) fd = Some e" by (simp add: fd_get_ensure)
  show ?thesis
  proof (cases "side_op ws e = None")
    case False
    with assms(2) e have "r = Inl Would_block" "b' = reap oid ?b2" by (auto simp: park_def Let_def reap_def)
    with pending_refused [OF p2] show ?thesis by simp
  next
    case True
    let ?b3 = "entry_update fd (set_side ws (Some oid)) ?b2"
    obtain q b4 where s: "sync_interest fd False ?b3 = (q, b4)" by fastforce
    with assms(2) e True have r: "r = map_sum id (\<lambda>_. oid) q" "b' = b4"
      by (simp_all add: park_def Let_def)
    have pk: "parked_at (efds ?b3) = (parked_at (efds ?b2))(fd := (parked_at (efds ?b2) fd)(ws := Some oid))"
      using parked_set_side [OF e] by simp
    have free: "parked_at (efds ?b2) fd ws = None" using e True by (simp add: parked_at_def)
    have at: "home (eslab b1) oid = Some (fd, ws)" using h1(1) by simp
    have "ep_inv {} ?b3"
      unfolding ep_inv_def
    proof (intro conjI allI impI)
      show "slab_ok (eslab ?b3)" using ep_inv_slab [OF inv1] by simp
      show "fd_ok (efds ?b3)" using ep_inv_fds [OF inv2] by (simp add: fd_ok_update)
      show "parked_at (efds ?b3) fd' ws' = Some i \<longleftrightarrow> home (eslab ?b3) i = Some (fd', ws') \<and> i \<notin> {}" for fd' ws' i
        unfolding pk using park_map [of "parked_at (efds ?b2)" "home (eslab b1)" oid fd ws fd' ws' i]
          ep_inv_parked [OF inv2] free at by simp
    qed
    from ep_inv_sync [OF this s] have ok: "ep_ok b4" .
    have "eslab b4 = eslab b1" "inline_completions b4 = inline_completions b1"
      using sync_table [OF s] by simp_all
    then have "acct b4 = add_mset oid (acct b)" "home (eslab b4) oid \<noteq> None"
      using pending_acct [OF assms(1)] h1 by (simp_all add: acct_def)
    with ok h1(2) show ?thesis by (cases q) (auto simp: posted_def r)
  qed
qed

text \<open>A completion whose slot is kept for its result (accepts and datagram receives).\<close>

lemma pending_kept:
  assumes "pending_post b oid fd ws b1" "eslab b2 = snd (slab_complete oid (eslab b1))"
    and "efds b2 = efds b1" "inline_completions b2 = inline_completions b1"
    and "b' = b2 \<or> eslab b' = slab_release oid (eslab b2) \<and> efds b' = efds b2 \<and>
      inline_completions b' = inline_completions b2"
  shows "posted b (Inr oid) (stage oid n err b')"
proof -
  have p: "ep_inv {oid} b1" "home (eslab b1) oid \<noteq> None" using assms(1) by (auto simp: pending_post_def)
  note c = ep_inv_complete [OF p singletonI assms(2,3)]
  have "home (eslab b2) oid = None" by (simp add: c(2))
  from ep_inv_release [OF c(1) this, of b'] assms(5) c
  have b': "ep_inv ({oid} - {oid}) b'" "home (eslab b') = (home (eslab b1))(oid := None)"
    "inline_completions b' = inline_completions b1" using assms(4) by auto
  show ?thesis
    by (rule pending_gone [OF assms(1), where out = "[Io oid n err]"])
      (use b' ep_inv_cong [OF b'(1)] in simp_all)
qed

text \<open>Bookkeeping fields do not matter.\<close>

lemma pending_fds: "pending_post b oid fd ws b1 \<Longrightarrow> fd_ok (efds b1)"
  using ep_inv_fds [of "{oid}" b1] by (simp add: pending_post_def)

lemma pending_saved: "pending_post b oid fd ws b1 \<Longrightarrow> pending_post b oid fd ws (b1\<lparr>saved_inline := n\<rparr>)"
  by (rule pending_same) (simp_all add: pending_fds)

lemma post_accept_posted:
  assumes "ep_ok b" "slab_room (eslab b)" "post_accept fd b = (r, b')"
  shows "posted b r b'"
proof (cases "case fd_get (efds b) fd of None \<Rightarrow> False | Some e \<Rightarrow> read_op e \<noteq> None")
  case True
  with assms(3) have "r = Inl Would_block" "b' = b" by (simp_all add: post_accept_def)
  with assms(1) show ?thesis by (simp add: posted_def)
next
  case False
  obtain oid b1 where n: "new_op Accept fd P_accept b = (oid, b1)" by fastforce
  obtain q b2 where a: "attempt oid b1 = (q, b2)" by fastforce
  note p = pending_attempt [OF pending_new [OF assms(1,2) n] a]
  show ?thesis
  proof (cases q)
    case None
    with assms(3) False n a park_posted [OF p, of r b'] show ?thesis by (simp add: post_accept_def)
  next
    case (Some x)
    obtain bytes err where x: "x = (bytes, err)" by fastforce
    show ?thesis
    proof (cases "err = 0")
      case True
      let ?b3 = "b2\<lparr>saved_inline := saved_inline b2 + 1\<rparr>"
      let ?b4 = "?b3\<lparr>eslab := snd (slab_complete oid (eslab ?b3))\<rparr>"
      from Some x True assms(3) False n a have "r = Inr oid" "b' = stage oid bytes 0 ?b4"
        by (simp_all add: post_accept_def complete_now_keeping_accept_def Let_def)
      with pending_kept [OF pending_saved [OF p], of ?b4 _ ?b4 bytes 0] show ?thesis by simp
    next
      case err: False
      from Some x err assms(3) False n a have "r = Inl (Os_error err)" "b' = reap oid b2"
        by (simp_all add: post_accept_def)
      with pending_refused [OF p] show ?thesis by simp
    qed
  qed
qed

lemma post_recv_posted:
  assumes "ep_ok b" "slab_room (eslab b)" "post_recv fd buf len b = (r, b')"
  shows "posted b r b'"
proof -
  obtain oid b1 where n: "new_op Recv fd (P_recv buf len) b = (oid, b1)" by fastforce
  note p1 = pending_new [OF assms(1,2) n, simplified write_side.simps]
  show ?thesis
  proof (cases "case fd_get (efds b1) fd of None \<Rightarrow> False | Some e \<Rightarrow> drained e")
    case True
    with assms(3) n park_posted [OF p1, of r b'] show ?thesis by (simp add: post_recv_def)
  next
    case False
    obtain q b2 where a: "attempt oid b1 = (q, b2)" by fastforce
    note p = pending_attempt [OF p1 a]
    show ?thesis
    proof (cases q)
      case None
      with assms(3) False n a park_posted [OF p, of r b'] show ?thesis by (simp add: post_recv_def)
    next
      case (Some x)
      obtain bytes err where x: "x = (bytes, err)" by fastforce
      let ?b3 = "b2\<lparr>saved_inline := saved_inline b2 + 1\<rparr>"
      let ?b4 = "if err = 0 then entry_update fd (\<lambda>e. e\<lparr>drained := bytes < len\<rparr>)
          (?b3\<lparr>efds := fd_ensure fd (efds ?b3)\<rparr>) else ?b3"
      from Some x assms(3) False n a have r: "r = Inr oid" "b' = stage oid bytes err (reap oid ?b4)"
        by (auto simp: post_recv_def Let_def)
      have ok: "fd_ok (efds b2)" using p by (auto simp: pending_post_def dest: ep_inv_fds)
      have "pending_post b oid fd False ?b4"
        by (rule pending_same [OF pending_saved [OF p]])
          (auto simp: parked_update side_op_def parked_ensure fd_ok_update fd_ok_ensure ok)
      from pending_reap [OF this] show ?thesis by (simp add: r)
    qed
  qed
qed

lemma post_send_posted:
  assumes "ep_ok b" "slab_room (eslab b)" "post_send fd bufs b = (r, b')"
  shows "posted b r b'"
proof -
  obtain oid b1 where n: "new_op Send fd (P_send (take MAX_GATHER bufs) 0) b = (oid, b1)" by fastforce
  obtain q b2 where a: "attempt oid b1 = (q, b2)" by fastforce
  note p = pending_attempt [OF pending_new [OF assms(1,2) n] a, simplified write_side.simps]
  show ?thesis
    using assms(3) n a park_posted [OF p, of r b'] pending_reap [OF pending_saved [OF p]]
    by (cases q) (auto simp: post_send_def)
qed

lemma post_recv_from_posted:
  assumes "ep_ok b" "slab_room (eslab b)" "post_recv_from fd buf len b = (r, b')"
  shows "posted b r b'"
proof -
  obtain oid b1 where n: "new_op RecvFrom fd (P_recv_from buf len []) b = (oid, b1)" by fastforce
  obtain q b2 where a: "attempt oid b1 = (q, b2)" by fastforce
  note p = pending_attempt [OF pending_new [OF assms(1,2) n] a, simplified write_side.simps]
  show ?thesis
  proof (cases q)
    case None
    with assms(3) n a park_posted [OF p, of r b'] show ?thesis by (simp add: post_recv_from_def)
  next
    case (Some x)
    obtain bytes err where x: "x = (bytes, err)" by fastforce
    let ?b3 = "b2\<lparr>eslab := snd (slab_complete oid (eslab b2))\<rparr>"
    let ?b4 = "if err \<noteq> 0 then ?b3\<lparr>eslab := slab_release oid (eslab ?b3)\<rparr> else ?b3"
    from Some x assms(3) n a have r: "r = Inr oid" "b' = stage oid bytes err ?b4"
      by (simp_all add: post_recv_from_def Let_def)
    show ?thesis unfolding r
      by (rule pending_kept [OF p, of ?b3]) simp_all
  qed
qed

lemma post_send_to_posted:
  assumes "ep_ok b" "slab_room (eslab b)" "post_send_to fd bytes addr b = (r, b')"
  shows "posted b r b'"
proof -
  let ?to = "case addr of None \<Rightarrow> [] | Some a \<Rightarrow> a"
  obtain oid b1 where n: "new_op SendTo fd (P_send_to bytes ?to) b = (oid, b1)" by fastforce
  obtain q b2 where a: "attempt oid b1 = (q, b2)" by fastforce
  note p = pending_attempt [OF pending_new [OF assms(1,2) n] a, simplified write_side.simps]
  show ?thesis
    using assms(3) n a park_posted [OF p, of r b'] pending_reap [OF p]
    by (cases q) (auto simp: post_send_to_def Let_def)
qed

lemma acct_sys [simp]: "acct (snd (sys c b)) = acct b"
  by (simp add: acct_def)

lemma posted_sys: "posted (snd (sys c b)) r b' = posted b r b'"
  by (cases r) (simp_all add: posted_def)

lemma post_connect_posted:
  assumes "ep_ok b" "slab_room (eslab b)" "post_connect fd addr b = (r, b')"
  shows "posted b r b'"
proof -
  obtain a b0 where s: "sys (Sys_connect fd addr) b = (a, b0)" by fastforce
  then have b0: "b0 = snd (sys (Sys_connect fd addr) b)" by simp
  have ok: "ep_ok b0" "slab_room (eslab b0)" using ep_inv_cong [OF assms(1)] assms(2) by (simp_all add: b0)
  obtain oid b1 where n: "new_op Connect fd P_connect b0 = (oid, b1)" by fastforce
  note p = pending_new [OF ok n, simplified write_side.simps]
  have "posted b0 r b'"
    using assms(3) s n park_posted [OF p, of r b'] pending_reap [OF p] pending_reap [OF pending_saved [OF p]]
    by (auto simp: post_connect_def split: if_splits)
  then show ?thesis by (simp add: b0 posted_sys)
qed

text \<open>Clearing the parked slot of an operation.\<close>

lemma ep_inv_unpark:
  assumes "ep_inv X b" "parked_at (efds b) fd ws = Some oid"
    and "\<And>e. present (f e) = present e" "\<And>ws' e. side_op ws' (f e) = (if ws' = ws then None else side_op ws' e)"
  shows "ep_inv (insert oid X) (entry_update fd f b)"
    "parked_at (efds (entry_update fd f b)) = (parked_at (efds b))(fd := (parked_at (efds b) fd)(ws := None))"
proof -
  have h: "home (eslab b) oid = Some (fd, ws)" using ep_inv_parked [OF assms(1)] assms(2) by simp
  show p: "parked_at (efds (entry_update fd f b)) =
      (parked_at (efds b))(fd := (parked_at (efds b) fd)(ws := None))"
    by (auto simp: parked_at_def fd_get_update [where f = f, OF assms(3)] assms(4) fun_eq_iff
        split: option.splits)
  show "ep_inv (insert oid X) (entry_update fd f b)"
    unfolding ep_inv_def
  proof (intro conjI allI)
    show "slab_ok (eslab (entry_update fd f b))" using ep_inv_slab [OF assms(1)] by simp
    show "fd_ok (efds (entry_update fd f b))"
      using ep_inv_fds [OF assms(1)] by (simp add: fd_ok_update [where f = f, OF _ assms(3)])
    show "parked_at (efds (entry_update fd f b)) fd' ws' = Some i \<longleftrightarrow>
        home (eslab (entry_update fd f b)) i = Some (fd', ws') \<and> i \<notin> insert oid X" for fd' ws' i
    proof (cases "fd' = fd \<and> ws' = ws")
      case True
      then have "parked_at (efds b) fd' ws' = Some oid" by (simp add: assms(2))
      then have "home (eslab b) i = Some (fd', ws') \<and> i \<notin> X \<Longrightarrow> i = oid"
        using ep_inv_parked [OF assms(1), of fd' ws' i] by simp
      moreover have "parked_at (efds (entry_update fd f b)) fd' ws' = None" unfolding p using True by simp
      ultimately show ?thesis by auto
    next
      case False
      then have "parked_at (efds (entry_update fd f b)) fd' ws' = parked_at (efds b) fd' ws'"
        unfolding p by auto
      moreover have "home (eslab b) oid \<noteq> Some (fd', ws')" using h False by auto
      ultimately show ?thesis using ep_inv_parked [OF assms(1), of fd' ws' i] by auto
    qed
  qed
qed

text \<open>A step that hands \<open>out\<close> to the reactor.\<close>

definition delivers :: "epoll \<Rightarrow> completion list \<Rightarrow> epoll \<Rightarrow> bool" where
  "delivers b out b' \<longleftrightarrow> ep_ok b' \<and> acct b = acct b' + mset (io_ids out)"

lemma delivers_none: "ep_ok b \<Longrightarrow> delivers b [] b"
  by (simp add: delivers_def)

lemma delivers_trans: "delivers b out1 b1 \<Longrightarrow> delivers b1 out2 b2 \<Longrightarrow> delivers b (out1 @ out2) b2"
  by (simp add: delivers_def ac_simps)

lemma delivers_same:
  assumes "delivers b out b1" "eslab b2 = eslab b1" "efds b2 = efds b1"
    and "inline_completions b2 = inline_completions b1"
  shows "delivers b out b2"
  using assms ep_inv_cong [of "{}" b1 b2] by (simp add: delivers_def acct_def)

lemma delivers_sync:
  assumes "ep_ok b" "sync_interest fd lazy b = (r, b')"
  shows "delivers b [] b'"
  using ep_inv_sync [OF assms] sync_table [OF assms(2)] by (simp add: delivers_def acct_def)

text \<open>An operation that left its slot is completed.\<close>

lemma acct_gone:
  assumes "ep_inv X b" "home (eslab b) oid = Some h" "home (eslab b') = (home (eslab b))(oid := None)"
    and "inline_completions b' = inline_completions b"
  shows "acct b = add_mset oid (acct b')"
proof -
  have "oid \<in> dom (home (eslab b))" using assms(2) by auto
  then have "mset_set (dom (home (eslab b))) = add_mset oid (mset_set (dom (home (eslab b)) - {oid}))"
    using finite_home [OF assms(1)] by (simp add: mset_set.remove)
  then show ?thesis by (simp add: acct_def assms(3,4))
qed

lemma side_done_sel:
  "present (side_done ws rl n err e) = present e"
  "side_op ws' (side_done ws rl n err e) = (if ws' = ws then None else side_op ws' e)"
  "kmask (side_done ws rl n err e) = kmask e" "registered (side_done ws rl n err e) = registered e"
  by (auto simp: side_done_def side_op_def set_side_def Let_def split: option.splits)

lemma drive_side_delivers:
  assumes "ep_ok b" "drive_side fd ws b = (used, out, b')"
  shows "delivers b out b'" "evfd b' = evfd b"
proof -
  have "delivers b out b' \<and> evfd b' = evfd b"
  proof (cases "parked_at (efds b) fd ws")
    case None
    then have "out = [] \<and> b' = b" using assms(2)
      by (auto simp: drive_side_def parked_at_def split: option.splits)
    then show ?thesis using delivers_none [OF assms(1)] by simp
  next
    case (Some oid)
    then obtain e where e: "fd_get (efds b) fd = Some e" "side_op ws e = Some oid"
      by (auto simp: parked_at_def split: option.splits)
    obtain r b1 where a: "attempt oid b = (r, b1)" by fastforce
    note at = ep_inv_attempt [OF assms(1) a]
    have d: "drive_side fd ws b = (case r of None \<Rightarrow> (True, [], b1)
        | Some (bytes, err) \<Rightarrow> (True, [Io oid bytes err], finish_driven oid err
            (snd (sync_interest fd True (entry_update fd (side_done ws (recv_op_len oid b) bytes err) b1)))))"
      by (simp add: drive_side_def e a split: option.split)
    show ?thesis
    proof (cases r)
      case None
      with d assms(2) at show ?thesis by (auto simp: delivers_def acct_def)
    next
      case (Some x)
      obtain bytes err where x: "x = (bytes, err)" by fastforce
      let ?f = "side_done ws (recv_op_len oid b) bytes err"
      let ?b2 = "entry_update fd ?f b1"
      obtain q b3 where s: "sync_interest fd True ?b2 = (q, b3)" by fastforce
      let ?b4 = "b3\<lparr>eslab := snd (slab_complete oid (eslab b3))\<rparr>"
      let ?b5 = "finish_driven oid err b3"
      have out: "out = [Io oid bytes err]" "b' = ?b5"
        using d Some x assms(2) s by simp_all
      have pk: "parked_at (efds b1) fd ws = Some oid" using \<open>parked_at (efds b) fd ws = Some oid\<close> at by simp
      from ep_inv_unpark(1) [where f = ?f, OF at(1) pk side_done_sel(1,2)] have i2: "ep_inv {oid} ?b2" .
      note i3 = ep_inv_sync [OF i2 s]
      have h3: "home (eslab b3) = home (eslab b)" using sync_table [OF s] at by simp
      have hb: "home (eslab b) oid = Some (fd, ws)"
        using ep_inv_parked [OF assms(1)] \<open>parked_at (efds b) fd ws = Some oid\<close> by simp
      have i4: "ep_inv ({oid} - {oid}) ?b4" "home (eslab ?b4) = (home (eslab b3))(oid := None)"
        using ep_inv_complete [OF i3, of oid ?b4] h3 hb by auto
      have i5: "ep_inv ({oid} - {oid}) ?b5 \<and> home (eslab ?b5) = home (eslab ?b4)"
        using i4 ep_inv_release [OF i4(1), of oid "?b4\<lparr>eslab := slab_release oid (eslab ?b4)\<rparr>"]
        by (simp add: finish_driven_def Let_def)
      have "inline_completions ?b5 = inline_completions b" "evfd ?b5 = evfd b"
        using sync_table [OF s] at by (simp_all add: finish_driven_def Let_def)
      with i5 i4 h3 acct_gone [OF assms(1) hb, of ?b5] show ?thesis by (simp add: delivers_def out)
    qed
  qed
  then show "delivers b out b'" "evfd b' = evfd b" by simp_all
qed

lemma poll_event_delivers:
  assumes "ep_ok b" "poll_event ev b = (out, b')"
  shows "delivers b out b'"
proof -
  obtain fd flags where ev: "ev = (fd, flags)" by fastforce
  show ?thesis
  proof (cases "fd = evfd b")
    case True
    with assms ev have "out = [WakeupC]" "eslab b' = eslab b" "efds b' = efds b"
      "inline_completions b' = inline_completions b" by (auto simp: poll_event_def)
    then show ?thesis using ep_inv_cong [OF assms(1)] by (simp add: delivers_def acct_def)
  next
    case False
    define rr where "rr = (flags AND (EPOLLIN OR EPOLLHUP OR EPOLLERR) \<noteq> 0)"
    define wr where "wr = (flags AND (EPOLLOUT OR EPOLLHUP OR EPOLLERR) \<noteq> 0)"
    obtain u1 out1 b1 where d1: "(if rr then drive_side fd False b else (False, [], b)) = (u1, out1, b1)"
      by (metis prod_cases3)
    obtain u2 out2 b2 where d2: "(if wr then drive_side fd True b1 else (False, [], b1)) = (u2, out2, b2)"
      by (metis prod_cases3)
    have s1: "delivers b out1 b1"
      using d1 drive_side_delivers(1) [OF assms(1)] delivers_none [OF assms(1)] by (auto split: if_splits)
    then have ok1: "ep_ok b1" by (simp add: delivers_def)
    have s2: "delivers b1 out2 b2"
      using d2 drive_side_delivers(1) [OF ok1] delivers_none [OF ok1] by (auto split: if_splits)
    then have ok2: "ep_ok b2" by (simp add: delivers_def)
    obtain out3 where o: "out = out1 @ out2 @ out3" "io_ids out3 = []"
      and b': "b' = b2 \<or> b' = snd (sync_interest fd False b2)"
      using assms(2) False d1 d2 unfolding ev poll_event_def rr_def wr_def
      by (auto simp: Let_def split: prod.splits option.splits if_splits)
    have "delivers b2 [] b'"
      using b' delivers_none [OF ok2] delivers_sync [OF ok2, of fd False] by (metis prod.collapse)
    then have "delivers b2 out3 b'" by (simp add: delivers_def o(2))
    with s1 s2 show ?thesis by (auto simp: o(1) intro: delivers_trans)
  qed
qed

lemma poll_events_delivers:
  "ep_ok b \<Longrightarrow> poll_events evs b = (out, b') \<Longrightarrow> delivers b out b'"
proof (induction evs arbitrary: b out)
  case Nil
  then show ?case by (simp add: delivers_none)
next
  case (Cons ev evs)
  obtain out1 b1 where e: "poll_event ev b = (out1, b1)" by fastforce
  obtain out2 where r: "poll_events evs b1 = (out2, b')" "out = out1 @ out2"
    using Cons.prems(2) e by (auto split: prod.splits)
  have d: "delivers b out1 b1" by (rule poll_event_delivers [OF Cons.prems(1) e])
  with Cons.IH [OF _ r(1)] show ?case by (auto simp: r(2) delivers_def ac_simps)
qed

lemma epoll_poll_delivers:
  assumes "ep_ok b" "epoll_poll timeout b = (r, out, b')"
  shows "delivers b out b'"
proof -
  define b1 where "b1 = b\<lparr>inline_completions := []\<rparr>"
  have d1: "delivers b (inline_completions b) b1"
    using ep_inv_cong [OF assms(1), of b1] by (simp add: b1_def delivers_def acct_def)
  then have ok1: "ep_ok b1" by (simp add: delivers_def)
  define tm where "tm = (if inline_completions b \<noteq> [] then 0
      else case timeout of Some t \<Rightarrow> min (wait_millis t) I32_MAX | None \<Rightarrow> 0)"
  obtain a b2 where s: "sys_retry (\<lambda>e. e = EINTR \<and> tm = 0) (Sys_wait tm) b1 = (a, b2)" by fastforce
  then have b2: "b2 = snd (sys_retry (\<lambda>e. e = EINTR \<and> tm = 0) (Sys_wait tm) b1)" by simp
  have d2: "delivers b (inline_completions b) b2"
    by (rule delivers_same [OF d1]) (simp_all add: b2)
  then have ok2: "ep_ok b2" by (simp add: delivers_def)
  obtain outs b3 where p: "poll_events (take (if rc a < 0 then 0 else nat (rc a)) (events a)) b2 = (outs, b3)"
    by fastforce
  have "(out = inline_completions b \<and> (b' = b1 \<or> b' = b2)) \<or> (out = inline_completions b @ outs \<and> b' = b3)"
    using assms(2) s p unfolding epoll_poll_def take_staged_def b1_def [symmetric] Let_def prod.case tm_def [symmetric]
    by (auto split: if_splits)
  with d1 d2 delivers_trans [OF d2 poll_events_delivers [OF ok2 p]] show ?thesis by blast
qed

section \<open>Cancelling, watching, detaching\<close>

text \<open>Reaping an operation that is off the table, and staging its completion.\<close>

lemma reap_staged:
  assumes "ep_inv {oid} b1" "home (eslab b1) oid \<noteq> None" "home (eslab b) = home (eslab b1)"
    and "inline_completions b = inline_completions b1" "ep_inv X b"
  shows "delivers b [] (stage oid n err (reap oid b1))"
proof -
  note r = ep_inv_reap [OF assms(1,2)]
  obtain h where "home (eslab b) oid = Some h" using assms(2,3) by auto
  from acct_gone [OF assms(5) this, of "reap oid b1"] r(2) assms(3,4)
  have "acct b = add_mset oid (acct (reap oid b1))" by simp
  then show ?thesis
    using ep_inv_cong [OF r(1), of "stage oid n err (reap oid b1)"] by (simp add: delivers_def acct_def)
qed

lemma home_mark:
  assumes "slab_ok s" "mark_cancelled oid s = (fresh, s')"
  shows "slab_ok s'" "home s' = home s" "fresh \<Longrightarrow> home s oid \<noteq> None"
    "map_option odata (slab_get s' oid) = map_option odata (slab_get s oid)"
proof -
  have "slab_ok s' \<and> home s' = home s \<and> (fresh \<longrightarrow> home s oid \<noteq> None) \<and>
    map_option odata (slab_get s' oid) = map_option odata (slab_get s oid)"
  proof (cases fresh)
    case True
    with assms get_mark_cancelled [of s oid s'] obtain sl where
      "slab_ok s'" "slab_get s oid = Some sl" "ostate sl = Posted"
      "slab_get s' = (slab_get s)(oid := Some (sl\<lparr>ostate := Cancelled\<rparr>))" by auto
    then show ?thesis by (auto simp: home_def flying_def fun_eq_iff)
  next
    case False
    with assms cancel_False [of oid s s'] show ?thesis by simp
  qed
  then show "slab_ok s'" "home s' = home s" "fresh \<Longrightarrow> home s oid \<noteq> None"
    "map_option odata (slab_get s' oid) = map_option odata (slab_get s oid)" by simp_all
qed

lemma home_data:
  assumes "home s oid \<noteq> None"
  shows "home s oid = Some (op_fd (odata (the (slab_get s oid))),
    write_side (op_pending (odata (the (slab_get s oid)))))"
  using assms by (auto simp: home_def split: option.splits if_splits)

lemma cancel_delivers:
  assumes "ep_ok b"
  shows "delivers b [] (epoll_cancel oid b)"
proof -
  obtain fresh s where m: "mark_cancelled oid (eslab b) = (fresh, s)" by fastforce
  note h = home_mark [OF ep_inv_slab [OF assms] m]
  let ?b1 = "b\<lparr>eslab := s\<rparr>"
  have i1: "ep_ok ?b1"
    by (rule ep_inv_same [OF assms]) (simp_all add: h ep_inv_fds [OF assms])
  show ?thesis
  proof (cases fresh)
    case False
    with m i1 h show ?thesis by (simp add: epoll_cancel_def delivers_def acct_def)
  next
    case True
    let ?op = "odata (the (slab_get s oid))"
    let ?fd = "op_fd ?op" and ?ws = "write_side (op_pending ?op)"
    have "home s oid \<noteq> None" using h(2,3) True by simp
    then have at: "home s oid = Some (?fd, ?ws)" by (rule home_data)
    then have pk: "parked_at (efds ?b1) ?fd ?ws = Some oid" using ep_inv_parked [OF i1] by simp
    then obtain e where e: "fd_get (efds b) ?fd = Some e" "side_op ?ws e = Some oid"
      by (auto simp: parked_at_def split: option.splits)
    obtain q b2 where sy: "sync_interest ?fd True (entry_update ?fd (set_side ?ws None) ?b1) = (q, b2)"
      by fastforce
    have "ep_inv {oid} (entry_update ?fd (set_side ?ws None) ?b1)"
      by (rule ep_inv_unpark(1) [OF i1 pk]) simp_all
    from ep_inv_sync [OF this sy] have i2: "ep_inv {oid} b2" .
    have b2: "eslab b2 = s" "inline_completions b2 = inline_completions b" using sync_table [OF sy] by simp_all
    obtain b3 where c: "epoll_cancel oid b = stage oid 0 ECANCELED (reap oid b3)"
      and b3: "eslab b3 = eslab b2" "efds b3 = efds b2" "inline_completions b3 = inline_completions b2"
    proof -
      have "unpark oid ?fd ?ws ?b1 = b2" using e sy by (simp add: unpark_def)
      then have "epoll_cancel oid b = stage oid 0 ECANCELED (reap oid (close_accepted ?op b2))"
        using m True by (simp add: epoll_cancel_def Let_def)
      then show thesis by (rule that) (auto simp: close_accepted_def split: pending.split option.split)
    qed
    have "ep_inv {oid} b3" by (rule ep_inv_cong [OF i2]) (simp_all add: b3)
    moreover have "home (eslab b) = home (eslab b3)" "inline_completions b = inline_completions b3"
      by (simp_all add: b3 b2 h(2))
    moreover have "home (eslab b3) oid \<noteq> None" using at by (simp add: b3 b2)
    ultimately show ?thesis unfolding c by (intro reap_staged [OF _ _ _ _ assms]) simp_all
  qed
qed

lemma cancel_parked_delivers:
  assumes "ep_inv (insert oid X) b" "oid \<notin> X" "home (eslab b) oid \<noteq> None"
  shows "ep_inv X (cancel_parked oid b)" "acct (cancel_parked oid b) = acct b"
    "home (eslab (cancel_parked oid b)) = (home (eslab b))(oid := None)"
proof -
  obtain fresh s where m: "mark_cancelled oid (eslab b) = (fresh, s)" by fastforce
  note h = home_mark [OF ep_inv_slab [OF assms(1)] m]
  let ?b1 = "b\<lparr>eslab := s\<rparr>"
  have i1: "ep_inv (insert oid X) ?b1"
    by (rule ep_inv_same [OF assms(1)]) (simp_all add: h ep_inv_fds [OF assms(1)])
  have c: "cancel_parked oid b = stage oid 0 ECANCELED (reap oid ?b1)" by (simp add: cancel_parked_def m)
  have n: "home (eslab ?b1) oid \<noteq> None" using assms(3) h(2) by simp
  note r = ep_inv_reap [OF i1 n insertI1]
  have X: "insert oid X - {oid} = X" using assms(2) by simp
  show "ep_inv X (cancel_parked oid b)"
    unfolding c by (rule ep_inv_cong [OF r(1) [unfolded X]]) simp_all
  show hh: "home (eslab (cancel_parked oid b)) = (home (eslab b))(oid := None)"
    using r(2) h(2) by (simp add: c)
  obtain hm where "home (eslab b) oid = Some hm" using assms(3) by auto
  from acct_gone [OF assms(1) this, of "reap oid ?b1"] r(2) h(2)
  show "acct (cancel_parked oid b) = acct b" by (simp add: c acct_def)
qed

lemma parked_removed:
  "parked_at (snd (fd_remove fd t)) = (parked_at t)(fd := (\<lambda>_. None))"
  by (auto simp: parked_at_def fd_get_remove fun_eq_iff)

lemma detach_delivers:
  assumes "ep_ok b"
  shows "delivers b [] (detach_socket fd b)"
proof (cases "fd_get (efds b) fd")
  case None
  then show ?thesis by (simp add: detach_socket_def delivers_none [OF assms])
next
  case (Some e)
  define b1 where "b1 = (if registered e then snd (ctl Ctl_del fd 0 (entry_remove fd b)) else entry_remove fd b)"
  have b1: "eslab b1 = eslab b" "inline_completions b1 = inline_completions b"
    "efds b1 = snd (fd_remove fd (efds b))" by (simp_all add: b1_def)
  have at: "parked_at (efds b) fd ws = side_op ws e" for ws using Some by (simp add: parked_at_def)
  define X where "X = set_option (read_op e) \<union> set_option (write_op e)"
  have hX: "oid \<in> X \<longleftrightarrow> (\<exists>ws. home (eslab b) oid = Some (fd, ws))" for oid
    using ep_inv_parked [OF assms, of fd True oid] ep_inv_parked [OF assms, of fd False oid]
    by (auto simp: X_def at side_op_def)
  have i1: "ep_inv X b1"
    unfolding ep_inv_def
  proof (intro conjI allI)
    show "slab_ok (eslab b1)" "fd_ok (efds b1)"
      by (simp_all add: b1 ep_inv_slab [OF assms] fd_ok_remove ep_inv_fds [OF assms])
    show "parked_at (efds b1) fd' ws = Some oid \<longleftrightarrow> home (eslab b1) oid = Some (fd', ws) \<and> oid \<notin> X"
      for fd' ws oid
      using ep_inv_parked [OF assms, of fd' ws oid] by (auto simp: b1 parked_removed hX)
  qed
  have a1: "acct b1 = acct b" by (simp add: acct_def b1)
  let ?ids = "(case read_op e of None \<Rightarrow> [] | Some i \<Rightarrow> [i]) @ (case write_op e of None \<Rightarrow> [] | Some i \<Rightarrow> [i])"
  have d: "detach_socket fd b = fold cancel_parked ?ids b1"
    using Some by (simp add: detach_socket_def b1_def Let_def)
  have ids: "set ?ids = X" by (auto simp: X_def split: option.splits)
  have dist: "distinct ?ids"
  proof -
    have False if "read_op e = Some i" "write_op e = Some i" for i
    proof -
      from that at have "parked_at (efds b) fd False = Some i" "parked_at (efds b) fd True = Some i"
        by (simp_all add: side_op_def)
      then show False using ep_inv_parked [OF assms, of fd False i] ep_inv_parked [OF assms, of fd True i] by simp
    qed
    then show ?thesis by (auto split: option.splits)
  qed
  have "ep_inv {} (fold cancel_parked is b2) \<and> acct (fold cancel_parked is b2) = acct b2"
    if "ep_inv (set is) b2" "distinct is" "\<forall>i\<in>set is. home (eslab b2) i \<noteq> None" for "is" b2
    using that
  proof (induction "is" arbitrary: b2)
    case (Cons i js)
    have "ep_inv (insert i (set js)) b2" "i \<notin> set js" "home (eslab b2) i \<noteq> None"
      using Cons.prems by simp_all
    note c = cancel_parked_delivers [OF this]
    have "\<forall>j\<in>set js. home (eslab (cancel_parked i b2)) j \<noteq> None" using Cons.prems by (auto simp: c(3))
    with Cons.IH [OF c(1)] Cons.prems c(2) show ?case by simp
  qed simp
  from this [of ?ids b1] i1 dist ids hX have "ep_inv {} (fold cancel_parked ?ids b1) \<and>
      acct (fold cancel_parked ?ids b1) = acct b1" unfolding ids b1(1) by blast
  with a1 show ?thesis by (simp add: d delivers_def)
qed

lemma set_watch_delivers:
  assumes "ep_ok b" "set_watch fd rd wr b = (r, b')"
  shows "delivers b [] b'"
proof (cases "\<not> rd \<and> \<not> wr \<and> \<not> fd_contains (efds b) fd")
  case True
  with assms show ?thesis by (auto simp: set_watch_def delivers_none)
next
  case False
  have eq: "delivers b [] b2" if "eslab b2 = eslab b" "inline_completions b2 = inline_completions b"
    "parked_at (efds b2) = parked_at (efds b)" "fd_ok (efds b2)" for b2
    using ep_inv_same [OF assms(1), of b2] that ep_inv_slab [OF assms(1)]
    by (simp add: delivers_def acct_def)
  define b1 where "b1 = b\<lparr>efds := fd_ensure fd (efds b)\<rparr>"
  define e where "e = the (fd_get (efds b1) fd)"
  define b2 where "b2 = (if rd \<and> watch_r e \<or> wr \<and> watch_w e
      then entry_update fd (\<lambda>e. e\<lparr>kmask := 0\<rparr>) b1 else b1)"
  define b3 where "b3 = entry_update fd (\<lambda>e. e\<lparr>watch_r := rd, watch_w := wr\<rparr>) b2"
  obtain q b4 where s: "sync_interest fd False b3 = (q, b4)" by fastforce
  define b5 where "b5 = entry_update fd (\<lambda>e'. e'\<lparr>watch_r := watch_r e, watch_w := watch_w e\<rparr>) b4"
  have f: "eslab b4 = eslab b" "inline_completions b4 = inline_completions b"
    "parked_at (efds b4) = parked_at (efds b)" "fd_ok (efds b4)"
    using sync_table [OF s] sync_parked [OF s] ep_inv_fds [OF assms(1)]
    by (auto simp: b3_def b2_def b1_def parked_update parked_ensure side_op_def fd_ok_update fd_ok_ensure)
  then have f5: "eslab b5 = eslab b" "inline_completions b5 = inline_completions b"
    "parked_at (efds b5) = parked_at (efds b)" "fd_ok (efds b5)"
    by (simp_all add: b5_def parked_update side_op_def fd_ok_update)
  have "b' = b4 \<or> b' = b5 \<or>
      (\<exists>e. fd_get (efds b5) fd = Some e \<and> interest e = 0 \<and> b' = entry_remove fd b5)"
    using assms(2) False s
    unfolding set_watch_def b1_def [symmetric] Let_def e_def [symmetric] b2_def [symmetric] b3_def [symmetric]
    by (auto simp: b5_def split: sum.splits option.splits if_splits)
  then consider "b' = b4" | "b' = b5" | x where "fd_get (efds b5) fd = Some x" "interest x = 0"
      "b' = entry_remove fd b5" by blast
  then show ?thesis
  proof cases
    case 3
    then have "parked_at (efds b5) fd ws = None" for ws by (simp add: parked_at_def interest_zero)
    with 3 f5 show ?thesis by (intro eq) (simp_all add: parked_remove fd_ok_remove)
  qed (use eq f f5 in simp_all)
qed

lemma register_delivers:
  assumes "ep_ok b" "register_socket fd b = (r, b')" "\<And>ws. parked_at (efds b) fd ws = None"
  shows "delivers b [] b'"
proof -
  have "eslab b' = eslab b \<and> inline_completions b' = inline_completions b \<and>
      efds b' = snd (fd_remove fd (efds b))"
    using assms(2) by (auto simp: register_socket_def Let_def split: prod.splits sum.splits if_splits
        dest!: arg_cong [where f = snd])
  then show ?thesis
    using assms(3) ep_inv_same [OF assms(1), of b'] ep_inv_slab [OF assms(1)] ep_inv_fds [OF assms(1)]
    by (simp add: delivers_def acct_def parked_remove fd_ok_remove)
qed

lemma write_release_delivers:
  assumes "ep_ok b" "b' = b\<lparr>eslab := slab_release oid (slab_write oid f (eslab b))\<rparr>"
    and "\<And>d. op_fd (f d) = op_fd d" "\<And>d. op_pending (f d) = op_pending d"
  shows "delivers b [] b' \<or> home (eslab b) oid \<noteq> None \<and> delivers b [] b'"
proof -
  let ?b1 = "b\<lparr>eslab := slab_write oid f (eslab b)\<rparr>"
  have w: "ep_inv {} ?b1" "home (eslab ?b1) = home (eslab b)"
    using ep_inv_write [OF assms(1), of ?b1 oid f] assms(3,4) by simp_all
  have "ep_inv {} b' \<and> home (eslab b') = home (eslab b)"
  proof (cases "home (eslab ?b1) oid")
    case None
    with ep_inv_release [OF w(1), of oid b'] w(2) assms(2) show ?thesis by simp
  next
    case (Some h)
    then obtain sl where sl: "slab_get (eslab ?b1) oid = Some sl" "flying (ostate sl)"
      by (auto simp: home_def split: option.splits if_splits)
    then have "slab_release oid (eslab ?b1) = eslab ?b1"
      by (auto simp: slab_release_def slab_get_slot flying_def)
    then have "b' = ?b1" by (simp add: assms(2))
    with w show ?thesis by simp
  qed
  then show ?thesis by (simp add: delivers_def acct_def assms(2))
qed

lemma take_accept_delivers:
  assumes "ep_ok b" "take_accept_socket oid b = (r, b')"
  shows "delivers b [] b'"
proof (cases "slab_get (eslab b) oid")
  case None
  with assms show ?thesis by (auto simp: take_accept_socket_def delivers_none)
next
  case (Some sl)
  then have "b' = b\<lparr>eslab := slab_release oid (slab_write oid (\<lambda>d. d\<lparr>accepted := None\<rparr>) (eslab b))\<rparr>"
    using assms(2) by (auto simp: take_accept_socket_def Let_def split: option.splits)
  from write_release_delivers [OF assms(1) this] show ?thesis by auto
qed

lemma take_recv_delivers:
  assumes "ep_ok b" "take_recv_from_addr oid b = (r, b')"
  shows "delivers b [] b'"
proof (cases "slab_get (eslab b) oid")
  case None
  with assms show ?thesis by (auto simp: take_recv_from_addr_def delivers_none)
next
  case (Some sl)
  have "slab_set (op_index oid) sl (eslab b) = eslab b"
  proof -
    from Some have "slab_slot (eslab b) (op_index oid) = Some sl" by (simp add: slab_get_slot)
    then show ?thesis by (cases "eslab b") (auto simp: slab_set_def slab_slot_def split: if_splits)
  qed
  then have w: "slab_write oid (\<lambda>d. d) (eslab b) = eslab b" using Some by (simp add: slab_write_def)
  have "b' = b\<lparr>eslab := slab_release oid (slab_write oid (\<lambda>d. d) (eslab b))\<rparr>"
    using Some assms(2) by (auto simp: take_recv_from_addr_def w)
  from write_release_delivers [OF assms(1) this] show ?thesis by auto
qed

section \<open>Runs\<close>

datatype post_req =
    Req_accept raw_fd | Req_recv raw_fd nat nat | Req_send raw_fd "(nat \<times> nat) list"
  | Req_recv_from raw_fd nat nat | Req_send_to raw_fd "u8 list" "u8 list option"
  | Req_connect raw_fd "u8 list" | Req_disconnect_reuse raw_fd

fun post_op :: "post_req \<Rightarrow> epoll \<Rightarrow> (io_error + op_id) \<times> epoll" where
  "post_op (Req_accept fd) b = post_accept fd b"
| "post_op (Req_recv fd buf len) b = post_recv fd buf len b"
| "post_op (Req_send fd bufs) b = post_send fd bufs b"
| "post_op (Req_recv_from fd buf len) b = post_recv_from fd buf len b"
| "post_op (Req_send_to fd bytes addr) b = post_send_to fd bytes addr b"
| "post_op (Req_connect fd addr) b = post_connect fd addr b"
| "post_op (Req_disconnect_reuse fd) b = post_disconnect_reuse fd b"

datatype ep_act =
    A_posted op_id | A_refused "op_id multiset" | A_poll "completion list" | A_staged "completion list"
  | A_cancel op_id | A_other

text \<open>
  The steps of the backend.  A refused post lists the operations it nevertheless left in flight
  (a failed \<open>epoll_ctl\<close>).  \<open>register_socket\<close> is called on a descriptor with nothing parked: a new
  or just connected socket.  A new operation finds a free slot or room for a chunk.
\<close>

inductive ep_step :: "epoll \<Rightarrow> ep_act \<Rightarrow> epoll \<Rightarrow> bool" where
  e_post: "slab_room (eslab b) \<Longrightarrow> post_op q b = (Inr oid, b') \<Longrightarrow> ep_step b (A_posted oid) b'"
| e_refuse: "slab_room (eslab b) \<Longrightarrow> post_op q b = (Inl e, b') \<Longrightarrow>
    ep_step b (A_refused (acct b' - acct b)) b'"
| e_poll: "epoll_poll t b = (r, out, b') \<Longrightarrow> ep_step b (A_poll out) b'"
| e_staged: "take_staged b = (out, b') \<Longrightarrow> ep_step b (A_staged out) b'"
| e_cancel: "ep_step b (A_cancel oid) (epoll_cancel oid b)"
| e_watch: "set_watch fd rd wr b = (r, b') \<Longrightarrow> ep_step b A_other b'"
| e_detach: "ep_step b A_other (detach_socket fd b)"
| e_register: "register_socket fd b = (r, b') \<Longrightarrow> \<forall>ws. parked_at (efds b) fd ws = None \<Longrightarrow>
    ep_step b A_other b'"
| e_take_accept: "take_accept_socket oid b = (r, b') \<Longrightarrow> ep_step b A_other b'"
| e_take_addr: "take_recv_from_addr oid b = (a, b') \<Longrightarrow> ep_step b A_other b'"
| e_wake_only: "ep_step b A_other (set_wake_only w b)"
| e_wake: "ep_step b A_other (epoll_wake b)"

inductive ep_run :: "epoll \<Rightarrow> ep_act list \<Rightarrow> epoll \<Rightarrow> bool" where
  ep_done: "ep_run b [] b"
| ep_more: "ep_step b a b1 \<Longrightarrow> ep_run b1 as b2 \<Longrightarrow> ep_run b (a # as) b2"

text \<open>What a step adds to the operations callers wait for, and what it hands out.\<close>

fun act_taken :: "ep_act \<Rightarrow> op_id multiset" where
  "act_taken (A_posted oid) = {#oid#}"
| "act_taken (A_refused ms) = ms"
| "act_taken _ = {#}"

fun act_delivered :: "ep_act \<Rightarrow> op_id multiset" where
  "act_delivered (A_poll out) = mset (io_ids out)"
| "act_delivered (A_staged out) = mset (io_ids out)"
| "act_delivered _ = {#}"

lemma post_op_posted:
  assumes "ep_ok b" "slab_room (eslab b)" "post_op q b = (r, b')"
  shows "posted b r b'"
proof (cases q)
  case (Req_disconnect_reuse fd)
  with assms show ?thesis by (auto simp: post_disconnect_reuse_def posted_def)
qed (use assms post_accept_posted post_recv_posted post_send_posted post_recv_from_posted
       post_send_to_posted post_connect_posted in auto)

lemma ep_step_acct:
  assumes "ep_step b a b'" "ep_ok b"
  shows "ep_ok b' \<and> acct b + act_taken a = acct b' + act_delivered a"
  using assms
proof (induction rule: ep_step.induct)
  case (e_post b q oid b')
  from post_op_posted [OF e_post(3,1,2)] show ?case by (simp add: posted_def)
next
  case (e_refuse b q e b')
  from post_op_posted [OF e_refuse(3,1,2)] show ?case by (auto simp: posted_def)
next
  case (e_poll t b r out b')
  from epoll_poll_delivers [OF e_poll(2,1)] show ?case by (simp add: delivers_def)
next
  case (e_staged b out b')
  then show ?case using ep_inv_cong [OF e_staged(2), of b'] by (auto simp: take_staged_def acct_def)
next
  case (e_cancel b oid)
  from cancel_delivers [OF e_cancel] show ?case by (simp add: delivers_def)
next
  case (e_watch fd rd wr b r b')
  from set_watch_delivers [OF e_watch(2,1)] show ?case by (simp add: delivers_def)
next
  case (e_detach b fd)
  from detach_delivers [OF e_detach] show ?case by (simp add: delivers_def)
next
  case (e_register fd b r b')
  from register_delivers [OF e_register(3,1)] e_register(2) show ?case by (simp add: delivers_def)
next
  case (e_take_accept oid b r b')
  from take_accept_delivers [OF e_take_accept(2,1)] show ?case by (simp add: delivers_def)
next
  case (e_take_addr oid b a b')
  from take_recv_delivers [OF e_take_addr(2,1)] show ?case by (simp add: delivers_def)
next
  case (e_wake_only b w)
  have "parked_at (set_wake_fd w (efds b)) = parked_at (efds b)" by (simp add: parked_at_def fun_eq_iff)
  then show ?case
    using ep_inv_same [OF e_wake_only, of "set_wake_only w b"] ep_inv_slab [OF e_wake_only]
      fd_ok_set_wake [OF ep_inv_fds [OF e_wake_only]] by (simp add: set_wake_only_def acct_def)
next
  case (e_wake b)
  then show ?case using ep_inv_cong [OF e_wake, of "epoll_wake b"] by (simp add: epoll_wake_def acct_def)
qed

lemma ep_run_acct:
  "ep_run b as b' \<Longrightarrow> ep_ok b \<Longrightarrow>
     ep_ok b' \<and> acct b + sum_list (map act_taken as) = acct b' + sum_list (map act_delivered as)"
proof (induction rule: ep_run.induct)
  case (ep_more b a b1 as b2)
  let ?T = "sum_list (map act_taken as)" and ?D = "sum_list (map act_delivered as)"
  from ep_step_acct [OF ep_more.hyps(1) ep_more.prems]
  have ok: "ep_ok b1" and s: "acct b + act_taken a = acct b1 + act_delivered a" by simp_all
  from ep_more.IH [OF ok] have IH: "ep_ok b2" "acct b1 + ?T = acct b2 + ?D" by simp_all
  have "acct b + (act_taken a + ?T) = acct b1 + act_delivered a + ?T" using s by (simp add: add.assoc [symmetric])
  also have "\<dots> = acct b2 + (act_delivered a + ?D)" using IH(2) by (simp add: ac_simps)
  finally show ?case using IH(1) by simp
qed simp

end
