(* ===== verification/Epoll_Armed.thy ===== *)
theory Epoll_Armed
  imports Epoll_Props
begin

text \<open>
  Readiness is never missed: while the kernel accepts the backend's \<open>epoll_ctl\<close> calls, the
  interest set it has been given (replayed from the log of calls) covers every parked operation
  and every watch, through the lazy disarming that leaves stale bits behind.
\<close>

section \<open>The kernel's interest set\<close>

definition kset_step :: "syscall \<times> answer \<Rightarrow> (raw_fd \<Rightarrow> u32 option) \<Rightarrow> raw_fd \<Rightarrow> u32 option" where
  "kset_step x k =
     (case fst x of
        Sys_ctl c fd m \<Rightarrow>
          if rc (snd x) \<ge> 0 then k(fd := (if c = Ctl_del then None else Some m)) else k
      | _ \<Rightarrow> k)"

definition kset :: "(syscall \<times> answer) list \<Rightarrow> raw_fd \<Rightarrow> u32 option" where
  "kset l = fold kset_step l Map.empty"

fun is_ctl :: "syscall \<Rightarrow> bool" where
  "is_ctl (Sys_ctl _ _ _) = True"
| "is_ctl _ = False"

definition ctl_fine :: "(syscall \<times> answer) list \<Rightarrow> bool" where
  "ctl_fine l \<longleftrightarrow> (\<forall>(c, a)\<in>set l. is_ctl c \<longrightarrow> rc a \<ge> 0)"

lemma ctl_fine_append [simp]: "ctl_fine (l @ m) \<longleftrightarrow> ctl_fine l \<and> ctl_fine m"
  by (auto simp: ctl_fine_def)

lemma kset_snoc: "kset (l @ [x]) = kset_step x (kset l)"
  by (simp add: kset_def)

lemma kset_not_ctl: "\<forall>x\<in>set m. \<not> is_ctl (fst x) \<Longrightarrow> kset (l @ m) = kset l"
proof (induction m rule: rev_induct)
  case (snoc x m)
  have "\<not> is_ctl (fst x)" using snoc.prems by simp
  then have "kset_step x k = k" for k by (cases "fst x") (simp_all add: kset_step_def)
  then have "kset ((l @ m) @ [x]) = kset (l @ m)" by (simp only: kset_snoc)
  with snoc show ?case by simp
qed simp

text \<open>The kernel's mask of an entry is what was installed, and it covers the entry's interest.\<close>

definition entry_known :: "(syscall \<times> answer) list \<Rightarrow> raw_fd \<Rightarrow> fd_entry \<Rightarrow> bool" where
  "entry_known l fd e \<longleftrightarrow> (kmask e \<noteq> 0 \<longrightarrow> registered e \<and> kset l fd = Some (kmask e))"

definition armed :: "epoll \<Rightarrow> bool" where
  "armed b \<longleftrightarrow> (\<forall>fd e. fd_get (efds b) fd = Some e \<longrightarrow>
     interest e AND NOT (kmask e) = 0 \<and> entry_known (log b) fd e)"

text \<open>The same, but for the interest of one descriptor, which is about to be synchronised.\<close>

definition armed_but :: "raw_fd \<Rightarrow> epoll \<Rightarrow> bool" where
  "armed_but x b \<longleftrightarrow> (\<forall>fd e. fd_get (efds b) fd = Some e \<longrightarrow>
     (fd \<noteq> x \<longrightarrow> interest e AND NOT (kmask e) = 0) \<and> entry_known (log b) fd e)"

lemma armed_armed_but: "armed b \<Longrightarrow> armed_but fd b"
  by (simp add: armed_def armed_but_def)

lemma armed_butI:
  assumes "armed_but fd b" "\<And>e. fd_get (efds b) fd = Some e \<Longrightarrow> interest e AND NOT (kmask e) = 0"
  shows "armed b"
  unfolding armed_def
proof (intro allI impI)
  fix x e assume "fd_get (efds b) x = Some e"
  with assms show "interest e AND NOT (kmask e) = 0 \<and> entry_known (log b) x e"
    by (cases "x = fd") (auto simp: armed_but_def)
qed

section \<open>Synchronising\<close>

lemma ctl_outcome:
  assumes "ctl c fd m b = (r, b')"
  obtains a where "b' = b\<lparr>script := tl (script b), log := log b @ [(Sys_ctl c fd m, a)]\<rparr>"
    "ctl_fine (log b') \<Longrightarrow> r = Inr ()" "rc a \<ge> 0 \<longleftrightarrow> r = Inr ()"
proof -
  obtain a b1 where s: "sys (Sys_ctl c fd m) b = (a, b1)" by fastforce
  then have "b1 = b\<lparr>script := tl (script b), log := log b @ [(Sys_ctl c fd m, a)]\<rparr>"
    using sys_frame [of "Sys_ctl c fd m" b] by simp
  moreover from assms s have "b' = b1" "r = map_sum id (\<lambda>_. ()) (cvt a)" by (simp_all add: ctl_def)
  ultimately show thesis by (intro that [of a]) (auto simp: cvt_def ctl_fine_def)
qed

lemma ctl_log: "ctl c fd m b = (r, b') \<Longrightarrow> \<exists>l. log b' = log b @ l"
  by (erule ctl_outcome) simp

lemma ctl_arm_log: "ctl_arm reg fd m b = (r, b') \<Longrightarrow> \<exists>l. log b' = log b @ l"
proof -
  assume c: "ctl_arm reg fd m b = (r, b')"
  obtain r0 b0 where c0: "ctl (if reg then Ctl_mod else Ctl_add) fd m b = (r0, b0)" by fastforce
  then have "b' = b0 \<or> (\<exists>op. ctl op fd m b0 = (r, b'))"
    using c by (auto simp: ctl_arm_def split: if_splits)
  with ctl_log [OF c0] show ?thesis by (auto dest!: ctl_log)
qed

lemma sync_log: "sync_interest fd lazy b = (r, b') \<Longrightarrow> \<exists>l. log b' = log b @ l"
  by (auto simp: sync_interest_def Let_def split: option.splits if_splits prod.splits sum.splits
      dest!: ctl_log ctl_arm_log)

lemma sync_armed:
  assumes "sync_interest fd lazy b = (r, b')" "armed_but fd b"
  shows "\<exists>l. log b' = log b @ l" "ctl_fine (log b') \<Longrightarrow> armed b' \<and> r = Inr ()"
proof -
  have "(\<exists>l. log b' = log b @ l) \<and> (ctl_fine (log b') \<longrightarrow> armed b' \<and> r = Inr ())"
  proof (cases "fd_get (efds b) fd")
    case None
    with assms(1) have "b' = b" "r = Inr ()" by (simp_all add: sync_interest_def)
    with armed_butI [OF assms(2)] None show ?thesis by simp
  next
    case (Some e)
    let ?i = "interest e"
    note d = assms(1) [unfolded sync_interest_def Some option.case Let_def]
    show ?thesis
    proof (cases "?i = kmask e \<or> lazy \<and> ?i AND NOT (kmask e) = 0")
      case True
      then have "?i AND NOT (kmask e) = 0" by auto
      moreover have "b' = b" "r = Inr ()" using True d by (simp_all split: if_splits)
      ultimately show ?thesis using armed_butI [OF assms(2)] Some by simp
    next
      case False
      show ?thesis
      proof (cases "?i = 0")
        case True
        obtain l where b1: "efds b' = snd (fd_remove fd (efds b))" "log b' = log b @ l"
          "l = [] \<or> (\<exists>a. l = [(Sys_ctl Ctl_del fd 0, a)])" "ctl_fine (log b') \<longrightarrow> r = Inr ()"
        proof (cases "registered e")
          case True
          obtain r1 b1 where c: "ctl Ctl_del fd 0 b = (r1, b1)" by fastforce
          from ctl_outcome [OF c] obtain a where
            "b1 = b\<lparr>script := tl (script b), log := log b @ [(Sys_ctl Ctl_del fd 0, a)]\<rparr>"
            "ctl_fine (log b1) \<Longrightarrow> r1 = Inr ()" by blast
          with d False True \<open>?i = 0\<close> c show thesis
            by (intro that [of "[(Sys_ctl Ctl_del fd 0, a)]"]) (auto split: if_splits)
        next
          case nr: False
          with d False \<open>?i = 0\<close> show thesis by (intro that [of "[]"]) (auto split: if_splits)
        qed
        have "kset (log b') x = kset (log b) x" if "x \<noteq> fd" for x
          using b1(3) that by (auto simp: b1(2) kset_snoc kset_step_def)
        then have "armed b'"
          using assms(2) by (auto simp: armed_def armed_but_def entry_known_def b1(1) fd_get_remove)
        with b1 show ?thesis by auto
      next
        case nz: False
        obtain r1 b1 where c: "ctl_arm (registered e) fd ?i b = (r1, b1)" by fastforce
        have rb: "(r, b') = (case r1 of
              Inr _ \<Rightarrow> (r1, entry_update fd (\<lambda>e. e\<lparr>registered := True, kmask := ?i\<rparr>) b1)
            | Inl err \<Rightarrow> (r1, if err = Os_error EBADF
                then entry_update fd (\<lambda>e. e\<lparr>registered := False, kmask := 0\<rparr>) b1 else b1))"
          using d False nz c by (auto split: if_splits)
        let ?op = "if registered e then Ctl_mod else Ctl_add"
        obtain r0 b0 where c0: "ctl ?op fd ?i b = (r0, b0)" by fastforce
        from ctl_outcome [OF c0] obtain a where a:
          "b0 = b\<lparr>script := tl (script b), log := log b @ [(Sys_ctl ?op fd ?i, a)]\<rparr>"
          "ctl_fine (log b0) \<Longrightarrow> r0 = Inr ()" "rc a \<ge> 0 \<longleftrightarrow> r0 = Inr ()" by blast
        have ext: "\<exists>l. log b1 = log b0 @ l" "r0 = Inr () \<Longrightarrow> r1 = Inr () \<and> b1 = b0"
        proof -
          have "(\<exists>l. log b1 = log b0 @ l) \<and> (r0 = Inr () \<longrightarrow> r1 = Inr () \<and> b1 = b0)"
          proof (cases "(r1, b1) = (r0, b0)")
            case False
            then obtain op where o: "ctl op fd ?i b0 = (r1, b1)" and "r0 \<noteq> Inr ()"
              using c c0 by (auto simp: ctl_arm_def split: if_splits)
            from ctl_outcome [OF o] obtain a' where
              "b1 = b0\<lparr>script := tl (script b0), log := log b0 @ [(Sys_ctl op fd ?i, a')]\<rparr>" by blast
            with \<open>r0 \<noteq> Inr ()\<close> show ?thesis by simp
          qed simp
          then show "\<exists>l. log b1 = log b0 @ l" "r0 = Inr () \<Longrightarrow> r1 = Inr () \<and> b1 = b0" by blast+
        qed
        have lb: "log b' = log b1" using rb by (auto split: sum.splits if_splits)
        then have lext: "\<exists>l. log b' = log b @ l" using ext(1) a(1) by auto
        have "armed b' \<and> r = Inr ()" if fine: "ctl_fine (log b')"
        proof -
          from fine lb ext(1) have "ctl_fine (log b0)" by auto
          then have r: "r0 = Inr ()" "r1 = Inr ()" "b1 = b0" using a(2) ext(2) by auto
          let ?f = "\<lambda>e. e\<lparr>registered := True, kmask := ?i\<rparr>"
          have b': "b' = entry_update fd ?f b0" "r = Inr ()" using rb r by auto
          have k: "kset (log b') = (kset (log b))(fd := Some ?i)"
            using a r by (simp add: b' kset_snoc kset_step_def)
          have g: "fd_get (efds b') = (fd_get (efds b))(fd := Some (?f e))"
            using Some by (simp add: b' a(1) fd_get_update)
          have "interest (?f e) = ?i" by (simp add: interest_def)
          then have "armed b'"
            using assms(2) unfolding armed_def armed_but_def
            by (auto simp: g entry_known_def k)
          with b' show ?thesis by simp
        qed
        with lext show ?thesis by blast
      qed
    qed
  qed
  then show "\<exists>l. log b' = log b @ l" "ctl_fine (log b') \<Longrightarrow> armed b' \<and> r = Inr ()" by blast+
qed

section \<open>Steps that keep the kernel informed\<close>

text \<open>
  A step only appends to the log, and if the \<open>epoll_ctl\<close> calls up to its end succeeded it keeps
  the backend armed.  Such steps compose.
\<close>

definition arm_step :: "epoll \<Rightarrow> epoll \<Rightarrow> bool" where
  "arm_step b b' \<longleftrightarrow> (\<exists>l. log b' = log b @ l) \<and> (armed b \<longrightarrow> ctl_fine (log b') \<longrightarrow> armed b')"

named_theorems arm

lemma arm_refl [arm]: "arm_step b b"
  by (simp add: arm_step_def)

lemma arm_trans [trans]:
  assumes "arm_step b b1" "arm_step b1 b2"
  shows "arm_step b b2"
proof -
  from assms obtain l m where "log b1 = log b @ l" "log b2 = log b1 @ m" by (auto simp: arm_step_def)
  then show ?thesis using assms by (auto simp: arm_step_def)
qed

lemma arm_frame: "arm_step b b1 \<Longrightarrow> log b2 = log b1 \<Longrightarrow> efds b2 = efds b1 \<Longrightarrow> arm_step b b2"
  by (simp add: arm_step_def armed_def)

lemma armed_log:
  assumes "armed b" "efds b' = efds b" "log b' = log b @ l" "\<forall>x\<in>set l. \<not> is_ctl (fst x)"
  shows "armed b'"
  using assms by (simp add: armed_def entry_known_def kset_not_ctl)

lemma arm_sys [arm]: "\<not> is_ctl c \<Longrightarrow> arm_step b (snd (sys c b))"
  using armed_log [of b "snd (sys c b)"] by (auto simp: arm_step_def)

lemma arm_retry [arm]:
  assumes "\<not> is_ctl c"
  shows "arm_step b (snd (sys_retry again c b))"
proof -
  from sys_retry_frame [of again c b] obtain as l where
    "snd (sys_retry again c b) = b\<lparr>script := as, log := log b @ l\<rparr>" "\<forall>x\<in>set l. fst x = c" by blast
  with assms armed_log [of b "snd (sys_retry again c b)" l] show ?thesis by (auto simp: arm_step_def)
qed

lemma arm_sync [arm]:
  assumes "\<And>e. present (f e) = present e"
    and "\<And>e. kmask (f e) = 0 \<or> kmask (f e) = kmask e \<and> registered (f e) = registered e"
  shows "arm_step b (snd (sync_interest fd lazy (entry_update fd f b)))"
proof -
  obtain r b' where s: "sync_interest fd lazy (entry_update fd f b) = (r, b')" by fastforce
  have "armed b \<Longrightarrow> armed_but fd (entry_update fd f b)"
    using assms(2) unfolding armed_def armed_but_def entry_known_def
    by (auto simp: fd_get_update [where f = f, OF assms(1)] split: if_splits) metis+
  moreover have "\<exists>l. log b' = log b @ l"
    using sync_log [OF s] by simp
  ultimately show ?thesis using sync_armed [OF s] s by (auto simp: arm_step_def)
qed

lemma arm_sync_plain [arm]: "arm_step b (snd (sync_interest fd lazy b))"
proof -
  obtain r b' where s: "sync_interest fd lazy b = (r, b')" by fastforce
  from sync_log [OF s] sync_armed [OF s armed_armed_but] s show ?thesis by (auto simp: arm_step_def)
qed

text \<open>A write that gives the entry no more interest than it had.\<close>

lemma arm_update [arm]:
  assumes "\<And>e. present (f e) = present e" "\<And>e. kmask (f e) = kmask e \<and> registered (f e) = registered e"
    and "\<And>e. interest (f e) = interest e"
  shows "arm_step b (entry_update fd f b)"
  using assms(2,3) unfolding arm_step_def armed_def entry_known_def
  by (auto simp: fd_get_update [where f = f, OF assms(1)] split: if_splits)

lemma interest_new [simp]: "interest new_entry = 0" "kmask new_entry = 0"
  by (simp_all add: interest_def new_entry_def entry_default_def)

lemma arm_ensure [arm]: "arm_step b (b\<lparr>efds := fd_ensure fd (efds b)\<rparr>)"
  unfolding arm_step_def armed_def entry_known_def
  by (auto simp: fd_get_ensure split: if_splits option.splits)

lemma arm_forget:
  assumes "fd_get (efds b) fd = Some e"
  shows "arm_step b (if registered e then snd (ctl Ctl_del fd 0 (entry_remove fd b)) else entry_remove fd b)"
proof (cases "registered e")
  case True
  obtain r b1 where c: "ctl Ctl_del fd 0 (entry_remove fd b) = (r, b1)" by fastforce
  from ctl_outcome [OF c] obtain a where
    "b1 = (entry_remove fd b)\<lparr>script := tl (script (entry_remove fd b)),
       log := log (entry_remove fd b) @ [(Sys_ctl Ctl_del fd 0, a)]\<rparr>" by blast
  then show ?thesis using True c
    by (auto simp: arm_step_def armed_def entry_known_def fd_get_remove kset_snoc kset_step_def)
next
  case False
  then show ?thesis by (auto simp: arm_step_def armed_def entry_known_def fd_get_remove)
qed

lemma arm_attempt [arm]: "arm_step b (snd (attempt oid b))"
proof (cases "slab_get (eslab b) oid")
  case None
  then show ?thesis by (simp add: attempt_def arm)
next
  case (Some sl)
  have r: "arm_step b b'" if "log b' = log (snd (sys_retry again c b))" "efds b' = efds b" "\<not> is_ctl c"
    for b' again c by (rule arm_frame [OF arm_retry [OF that(3)] that(1)]) (simp add: that(2))
  show ?thesis
  proof (cases "op_pending (odata sl)")
    case P_connect
    with Some show ?thesis by (simp add: attempt_def split_beta Let_def arm)
  qed (use Some in \<open>auto simp: attempt_def split_beta Let_def set_pending_def arm intro!: r\<close>)
qed

lemma arm_new_op [arm]: "arm_step b (snd (new_op k fd p b))"
  by (rule arm_frame [OF arm_refl]) (simp_all add: new_op_def split_beta)

lemma arm_reap [arm]: "arm_step b (reap oid b)"
  and arm_stage [arm]: "arm_step b (stage oid n err b)"
  by (rule arm_frame [OF arm_refl]; simp)+

lemma arm_park:
  assumes "park oid fd ws b = (r, b')"
  shows "arm_step b b'"
proof -
  let ?b1 = "b\<lparr>efds := fd_ensure fd (efds b)\<rparr>"
  have "arm_step b ?b1" by (rule arm_ensure)
  also have "arm_step ?b1 b'"
  proof (cases "side_op ws (the (fd_get (efds ?b1) fd)) = None")
    case True
    then have "b' = snd (sync_interest fd False (entry_update fd (set_side ws (Some oid)) ?b1))"
      using assms by (auto simp: park_def Let_def split: prod.splits)
    moreover have "arm_step ?b1 (snd (sync_interest fd False (entry_update fd (set_side ws (Some oid)) ?b1)))"
      by (rule arm_sync) simp_all
    ultimately show ?thesis by simp
  next
    case False
    then have "b' = reap oid ?b1" using assms by (auto simp: park_def Let_def reap_def)
    then show ?thesis by (simp add: arm_reap)
  qed
  finally show ?thesis .
qed

text \<open>What a post does after its attempt.\<close>

lemma arm_after_attempt:
  assumes "new_op k fd p b = (oid, b1)" "attempt oid b1 = (q, b2)"
  shows "arm_step b b2"
proof -
  have "arm_step b b1" using arm_new_op [of b k fd p] assms(1) by simp
  also have "arm_step b1 b2" using arm_attempt [of b1 oid] assms(2) by simp
  finally show ?thesis .
qed

lemma arm_post_accept: "post_accept fd b = (r, b') \<Longrightarrow> arm_step b b'"
  by (auto simp: post_accept_def complete_now_keeping_accept_def Let_def arm_refl
      split: prod.splits option.splits if_splits
      dest: arm_park intro: arm_trans [OF arm_after_attempt] arm_reap
      arm_frame [OF arm_after_attempt])

lemma arm_post_recv:
  assumes "post_recv fd buf len b = (r, b')"
  shows "arm_step b b'"
proof -
  obtain oid b1 where n: "new_op Recv fd (P_recv buf len) b = (oid, b1)" by fastforce
  have b1: "arm_step b b1" using arm_new_op [of b Recv fd "P_recv buf len"] n by simp
  show ?thesis
  proof (cases "case fd_get (efds b1) fd of None \<Rightarrow> False | Some e \<Rightarrow> drained e")
    case True
    with assms n have "park oid fd False b1 = (r, b')" by (simp add: post_recv_def)
    from arm_trans [OF b1 arm_park [OF this]] show ?thesis .
  next
    case False
    obtain q b2 where a: "attempt oid b1 = (q, b2)" by fastforce
    note b2 = arm_after_attempt [OF n a]
    show ?thesis
    proof (cases q)
      case None
      with assms n a False have "park oid fd False b2 = (r, b')" by (simp add: post_recv_def)
      from arm_trans [OF b2 arm_park [OF this]] show ?thesis .
    next
      case (Some x)
      obtain bytes err where x: "x = (bytes, err)" by fastforce
      let ?b3 = "b2\<lparr>saved_inline := saved_inline b2 + 1\<rparr>"
      let ?b4 = "?b3\<lparr>efds := fd_ensure fd (efds ?b3)\<rparr>"
      let ?b5 = "entry_update fd (\<lambda>e. e\<lparr>drained := bytes < len\<rparr>) ?b4"
      have "arm_step b ?b3" by (rule arm_frame [OF b2]) simp_all
      also have "arm_step ?b3 ?b4" by (rule arm_ensure)
      also have "arm_step ?b4 ?b5" by (rule arm_update) (simp_all add: interest_def)
      finally have "arm_step b ?b5" .
      moreover have "arm_step b ?b3" by (rule arm_frame [OF b2]) simp_all
      moreover have "b' = stage oid bytes err (reap oid (if err = 0 then ?b5 else ?b3))"
        using assms n a False Some x by (auto simp: post_recv_def Let_def)
      ultimately show ?thesis by (auto intro: arm_frame)
    qed
  qed
qed

lemma arm_post_send: "post_send fd bufs b = (r, b') \<Longrightarrow> arm_step b b'"
  by (auto simp: post_send_def split: prod.splits option.splits
      dest: arm_park intro: arm_trans [OF arm_after_attempt] arm_frame [OF arm_after_attempt])

lemma arm_post_recv_from: "post_recv_from fd buf len b = (r, b') \<Longrightarrow> arm_step b b'"
  by (auto simp: post_recv_from_def Let_def split: prod.splits option.splits if_splits
      dest: arm_park intro: arm_trans [OF arm_after_attempt] arm_frame [OF arm_after_attempt])

lemma arm_post_send_to: "post_send_to fd bytes addr b = (r, b') \<Longrightarrow> arm_step b b'"
  by (auto simp: post_send_to_def Let_def split: prod.splits option.splits
      dest: arm_park intro: arm_trans [OF arm_after_attempt] arm_frame [OF arm_after_attempt])

lemma arm_post_connect:
  assumes "post_connect fd addr b = (r, b')"
  shows "arm_step b b'"
proof -
  obtain a b0 where s: "sys (Sys_connect fd addr) b = (a, b0)" by fastforce
  obtain oid b1 where n: "new_op Connect fd P_connect b0 = (oid, b1)" by fastforce
  have "arm_step b b0" using arm_sys [of "Sys_connect fd addr" b] s by simp
  also have "arm_step b0 b1" using arm_new_op [of b0 Connect fd P_connect] n by simp
  finally have b1: "arm_step b b1" .
  show ?thesis
    using assms s n arm_trans [OF b1 arm_park] arm_frame [OF b1]
    by (auto simp: post_connect_def split: if_splits)
qed

lemma arm_drive_side:
  assumes "drive_side fd ws b = (used, out, b')"
  shows "arm_step b b'"
proof (cases "case fd_get (efds b) fd of None \<Rightarrow> None | Some e \<Rightarrow> side_op ws e")
  case None
  with assms have "b' = b" by (auto simp: drive_side_def split: option.splits)
  then show ?thesis by (simp add: arm_refl)
next
  case (Some oid)
  then obtain e where e: "fd_get (efds b) fd = Some e" "side_op ws e = Some oid"
    by (auto split: option.splits)
  obtain r b1 where a: "attempt oid b = (r, b1)" by fastforce
  have b1: "arm_step b b1" using arm_attempt [of b oid] a by simp
  show ?thesis
  proof (cases r)
    case None
    with assms e a b1 show ?thesis by (simp add: drive_side_def)
  next
    case (Some x)
    obtain bytes err where x: "x = (bytes, err)" by fastforce
    let ?f = "side_done ws (recv_op_len oid b) bytes err"
    let ?b2 = "snd (sync_interest fd True (entry_update fd ?f b1))"
    have "b' = finish_driven oid err ?b2" using assms e a Some x by (simp add: drive_side_def)
    then have "log b' = log ?b2" "efds b' = efds ?b2" by (simp_all add: finish_driven_def Let_def)
    moreover have "arm_step b1 ?b2" by (rule arm_sync) (simp_all add: side_done_sel)
    ultimately show ?thesis using arm_trans [OF b1] by (blast intro: arm_frame)
  qed
qed

lemma arm_poll_event:
  assumes "poll_event ev b = (out, b')"
  shows "arm_step b b'"
proof -
  obtain fd flags where ev: "ev = (fd, flags)" by fastforce
  show ?thesis
  proof (cases "fd = evfd b")
    case True
    then have "b' = (snd (sys Sys_wake_read b))\<lparr>wake_armed := False\<rparr>"
      using assms by (auto simp: poll_event_def ev)
    then show ?thesis using arm_frame [OF arm_sys [of Sys_wake_read b]] by simp
  next
    case False
    define rr where "rr = (flags AND (EPOLLIN OR EPOLLHUP OR EPOLLERR) \<noteq> 0)"
    define wr where "wr = (flags AND (EPOLLOUT OR EPOLLHUP OR EPOLLERR) \<noteq> 0)"
    obtain u1 out1 b1 where d1: "(if rr then drive_side fd False b else (False, [], b)) = (u1, out1, b1)"
      by (metis prod_cases3)
    obtain u2 out2 b2 where d2: "(if wr then drive_side fd True b1 else (False, [], b1)) = (u2, out2, b2)"
      by (metis prod_cases3)
    have "arm_step b b1" using d1 arm_drive_side [of fd False b u1 out1 b1] arm_refl [of b]
      by (cases rr) auto
    also have "arm_step b1 b2" using d2 arm_drive_side [of fd True b1 u2 out2 b2] arm_refl [of b1]
      by (cases wr) auto
    finally have b2: "arm_step b b2" .
    have "b' = b2 \<or> b' = snd (sync_interest fd False b2)"
      using assms False d1 d2 unfolding ev poll_event_def rr_def wr_def
      by (auto simp: Let_def split: prod.splits option.splits if_splits)
    with b2 arm_trans [OF b2 arm_sync_plain] show ?thesis by auto
  qed
qed

lemma arm_poll_events: "poll_events evs b = (out, b') \<Longrightarrow> arm_step b b'"
proof (induction evs arbitrary: b out)
  case Nil
  then show ?case by (simp add: arm_refl)
next
  case (Cons ev evs)
  then obtain out1 out2 b1 where "poll_event ev b = (out1, b1)" "poll_events evs b1 = (out2, b')"
    by (auto split: prod.splits)
  with Cons.IH arm_poll_event show ?case by (blast intro: arm_trans)
qed

lemma arm_poll:
  assumes "epoll_poll timeout b = (r, out, b')"
  shows "arm_step b b'"
proof -
  define b1 where "b1 = b\<lparr>inline_completions := []\<rparr>"
  define tm where "tm = (if inline_completions b \<noteq> [] then 0
      else case timeout of Some t \<Rightarrow> min (wait_millis t) I32_MAX | None \<Rightarrow> 0)"
  obtain a b2 where s: "sys_retry (\<lambda>e. e = EINTR \<and> tm = 0) (Sys_wait tm) b1 = (a, b2)" by fastforce
  obtain outs b3 where p: "poll_events (take (if rc a < 0 then 0 else nat (rc a)) (events a)) b2 = (outs, b3)"
    by fastforce
  have b1: "arm_step b b1" by (rule arm_frame [OF arm_refl]) (simp_all add: b1_def)
  have b2: "arm_step b b2"
    using arm_trans [OF b1 arm_retry [where c = "Sys_wait tm" and again = "\<lambda>e. e = EINTR \<and> tm = 0" and b = b1]] s by simp
  have "b' = b1 \<or> b' = b2 \<or> b' = b3"
    using assms s p
    unfolding epoll_poll_def take_staged_def b1_def [symmetric] Let_def prod.case tm_def [symmetric]
    by (auto split: if_splits)
  with b1 b2 arm_trans [OF b2 arm_poll_events [OF p]] show ?thesis by blast
qed

lemma arm_cancel: "arm_step b (epoll_cancel oid b)"
proof -
  obtain fresh s where m: "mark_cancelled oid (eslab b) = (fresh, s)" by fastforce
  let ?b1 = "b\<lparr>eslab := s\<rparr>"
  have b1: "arm_step b ?b1" by (rule arm_frame [OF arm_refl]) simp_all
  have u: "arm_step c (unpark oid fd ws c)" for c fd ws
    by (auto simp: unpark_def arm_refl split: option.split intro!: arm_sync)
  have a: "arm_step c (close_accepted op c)" for c op
    by (auto simp: close_accepted_def arm_refl arm_sys split: pending.split option.split)
  show ?thesis
    using m b1 by (auto simp: epoll_cancel_def Let_def intro!: arm_frame [OF arm_trans [OF arm_trans [OF b1 u] a]])
qed

lemma arm_cancel_parked: "arm_step b (fold cancel_parked ids b)"
proof (induction ids arbitrary: b)
  case Nil
  then show ?case by (simp add: arm_refl)
next
  case (Cons i ids)
  have "arm_step b (cancel_parked i b)" by (rule arm_frame [OF arm_refl]) (simp_all add: cancel_parked_def)
  from arm_trans [OF this Cons.IH] show ?case by simp
qed

lemma arm_detach: "arm_step b (detach_socket fd b)"
proof (cases "fd_get (efds b) fd")
  case (Some e)
  then show ?thesis using arm_trans [OF arm_forget [OF Some] arm_cancel_parked]
    by (simp only: detach_socket_def Some option.case Let_def)
qed (simp add: detach_socket_def arm_refl)

lemma arm_register:
  assumes "register_socket fd b = (r, b')"
  shows "arm_step b b'"
proof -
  define b1 where "b1 = (if (case fd_get (efds b) fd of None \<Rightarrow> False | Some e \<Rightarrow> registered e)
      then snd (ctl Ctl_del fd 0 (entry_remove fd b)) else entry_remove fd b)"
  have "arm_step b b1"
  proof (cases "fd_get (efds b) fd")
    case None
    then show ?thesis by (intro arm_frame [OF arm_refl]) (simp_all add: b1_def fd_remove_def)
  next
    case (Some e)
    from arm_forget [OF this] show ?thesis by (simp add: b1_def Some)
  qed
  also have "arm_step b1 b'"
  proof -
    obtain a b2 where g: "sys (Sys_getfl fd) b1 = (a, b2)" by fastforce
    have b2: "arm_step b1 b2" using arm_sys [of "Sys_getfl fd" b1] g by simp
    have "b' = b2 \<or> (\<exists>fl. snd (sys (Sys_setfl fd fl) b2) = b')"
      using assms g unfolding register_socket_def b1_def [symmetric] Let_def
      by (simp split: prod.splits sum.splits if_splits) (metis snd_conv)+
    with b2 arm_trans [OF b2 arm_sys] show ?thesis by auto
  qed
  finally show ?thesis .
qed

lemma armed_watch_interest:
  "interest (e\<lparr>kmask := k\<rparr>) = interest e" by (simp add: interest_def)

lemma fd_update_twice:
  assumes "\<And>e. present (f e) = present e" "fd_get t fd = Some e"
  shows "fd_update fd g (fd_update fd f t) = fd_update fd (g \<circ> f) t"
proof -
  have "fd_get (fd_update fd f t) fd = Some (f e)" using assms by (simp add: fd_get_update)
  with assms(2) show ?thesis by (simp add: fd_update_def)
qed

lemma arm_set_watch:
  assumes "set_watch fd rd wr b = (r, b')"
  shows "arm_step b b'"
proof (cases "\<not> rd \<and> \<not> wr \<and> \<not> fd_contains (efds b) fd")
  case True
  with assms show ?thesis by (auto simp: set_watch_def arm_refl)
next
  case False
  define b1 where "b1 = b\<lparr>efds := fd_ensure fd (efds b)\<rparr>"
  define e where "e = the (fd_get (efds b1) fd)"
  have e: "fd_get (efds b1) fd = Some e" by (simp add: e_def b1_def fd_get_ensure)
  let ?again = "rd \<and> watch_r e \<or> wr \<and> watch_w e"
  define b2 where "b2 = (if ?again then entry_update fd (\<lambda>e. e\<lparr>kmask := 0\<rparr>) b1 else b1)"
  define b3 where "b3 = entry_update fd (\<lambda>e. e\<lparr>watch_r := rd, watch_w := wr\<rparr>) b2"
  let ?f = "\<lambda>e. if ?again then e\<lparr>kmask := 0, watch_r := rd, watch_w := wr\<rparr>
    else e\<lparr>watch_r := rd, watch_w := wr\<rparr>"
  have b3: "b3 = entry_update fd ?f b1"
  proof (cases ?again)
    case True
    with fd_update_twice [of "\<lambda>e. e\<lparr>kmask := 0\<rparr>", OF _ e] show ?thesis
      by (simp add: b3_def b2_def entry_update_def comp_def)
  next
    case False
    then have "?f = (\<lambda>e. e\<lparr>watch_r := rd, watch_w := wr\<rparr>)" by auto
    with False show ?thesis by (simp only: b3_def b2_def if_False)
  qed
  obtain q b4 where s: "sync_interest fd False b3 = (q, b4)" by fastforce
  have b1: "arm_step b b1" unfolding b1_def by (rule arm_ensure)
  have "arm_step b1 (snd (sync_interest fd False (entry_update fd ?f b1)))"
    by (rule arm_sync) simp_all
  then have b4: "arm_step b b4" using s b3 arm_trans [OF b1] by simp
  have lg: "log b' = log b4"
    and ok: "q = Inr () \<longrightarrow> b' = b4"
    using assms False s
    unfolding set_watch_def b1_def [symmetric] Let_def e_def [symmetric] b2_def [symmetric] b3_def [symmetric]
    by (auto split: sum.splits option.splits if_splits)
  have "armed b'" if "armed b" "ctl_fine (log b')"
  proof -
    from that(2) lg have fine: "ctl_fine (log b4)" by simp
    obtain l where l: "log b4 = log b1 @ l" using sync_log [OF s] by (auto simp: b3)
    then have "armed b1" using b1 that(1) fine by (simp add: arm_step_def)
    then have "armed_but fd b3"
      unfolding b3 armed_def armed_but_def entry_known_def
      by (auto simp: fd_get_update split: if_splits)
    with sync_armed [OF s] fine ok show ?thesis by blast
  qed
  moreover have "\<exists>l. log b' = log b @ l" using b4 lg by (simp add: arm_step_def)
  ultimately show ?thesis by (simp add: arm_step_def)
qed

lemma arm_post_op: "post_op q b = (r, b') \<Longrightarrow> arm_step b b'"
  by (cases q) (auto simp: post_disconnect_reuse_def arm_refl intro: arm_post_accept arm_post_recv
      arm_post_send arm_post_recv_from arm_post_send_to arm_post_connect)

lemma arm_ep_step: "ep_step b a b' \<Longrightarrow> arm_step b b'"
proof (induction rule: ep_step.induct)
  case (e_staged b out b')
  then show ?case by (intro arm_frame [OF arm_refl]) (auto simp: take_staged_def)
next
  case (e_take_accept oid b r b')
  then show ?case by (intro arm_frame [OF arm_refl])
      (auto simp: take_accept_socket_def Let_def split: option.splits)
next
  case (e_take_addr oid b a b')
  then show ?case by (intro arm_frame [OF arm_refl]) (auto simp: take_recv_from_addr_def split: option.splits)
next
  case (e_wake_only b w)
  have "armed (set_wake_only w b) = armed b" by (simp add: armed_def set_wake_only_def)
  then show ?case by (simp add: arm_step_def set_wake_only_def)
next
  case (e_wake b)
  show ?case
  proof (cases "wake_armed b")
    case False
    have "arm_step b (b\<lparr>wake_armed := True\<rparr>)" by (rule arm_frame [OF arm_refl]) simp_all
    from arm_trans [OF this arm_sys] False show ?thesis by (simp add: epoll_wake_def)
  qed (simp add: epoll_wake_def arm_refl)
qed (auto intro: arm_post_op arm_poll arm_cancel arm_set_watch arm_detach arm_register)

lemma arm_ep_run: "ep_run b as b' \<Longrightarrow> arm_step b b'"
  by (induction rule: ep_run.induct) (auto intro: arm_refl arm_trans arm_ep_step)

end
