(* ===== verification/Epoll_Theorems.thy ===== *)
theory Epoll_Theorems
  imports Epoll_Armed Reactor_Props
begin

text \<open>
  The theorems of the epoll backend over whole runs, from its constructor; the backend as a
  provider of the reactor's interface; and the post whose \<open>epoll_ctl\<close> fails.
\<close>

definition ep_start :: "epoll \<Rightarrow> bool" where
  "ep_start b \<longleftrightarrow> (\<exists>chunk as b'. epoll_new chunk as = (Inr b, b'))"

lemma ep_start_facts:
  assumes "ep_start b"
  shows "eslab b = slab_new" "efds b = fd_table_new" "inline_completions b = []"
proof -
  from assms obtain chunk as b' where "epoll_new chunk as = (Inr b, b')" by (auto simp: ep_start_def)
  then obtain b1 b2 where "sys Sys_eventfd b1 = b2" "eslab b1 = slab_new" "efds b1 = fd_table_new"
    "inline_completions b1 = []" and
    n: "\<exists>ev. b = snd (ctl Ctl_add ev EPOLLIN ((snd b2)\<lparr>evfd := ev\<rparr>))"
    unfolding epoll_new_def Let_def
    by (auto split: prod.splits sum.splits) (metis ctl_sel sys_sel epoll.simps snd_conv)+
  then show "eslab b = slab_new" "efds b = fd_table_new" "inline_completions b = []" by auto
qed


lemma ep_start_ok:
  assumes "ep_start b"
  shows "ep_ok b" "acct b = {#}" "armed b"
proof -
  note f = ep_start_facts [OF assms]
  have h: "home (eslab b) = Map.empty"
    by (simp add: fun_eq_iff home_def f slab_get_def slab_slot_def slab_new_def)
  show "ep_ok b" unfolding ep_inv_def by (simp add: f(1,2) slab_ok_new fd_ok_new h [unfolded f(1)] parked_at_def)
  show "acct b = {#}" by (simp add: acct_def f(3) h)
  show "armed b" by (simp add: armed_def f)
qed

lemma ep_run_facts:
  assumes "ep_start b" "ep_run b as b'"
  shows "ep_ok b'" "sum_list (map act_taken as) = acct b' + sum_list (map act_delivered as)"
    "ctl_fine (log b') \<Longrightarrow> armed b'"
  using ep_run_acct [OF assms(2)] arm_ep_run [OF assms(2)] ep_start_ok [OF assms(1)]
  by (auto simp: arm_step_def)


section \<open>The backend provides the reactor's interface\<close>

text \<open>A backend without I/O interest: nothing in flight, and no entry but the wake descriptor's.\<close>

definition ep_idle :: "raw_fd option \<Rightarrow> epoll \<Rightarrow> bool" where
  "ep_idle w b \<longleftrightarrow> (\<forall>fd ws. parked_at (efds b) fd ws = None) \<and>
     dom (fd_get (efds b)) \<subseteq> set_option w"

lemma no_interest_idle:
  assumes "ep_ok b" "\<not> has_io_interest b"
  shows "ep_idle (wake_fd (efds b)) b" "inline_completions b = []"
proof -
  have n: "inline_completions b = []" "in_flight (eslab b) = 0" "interest_len (efds b) = 0"
    using assms(2) by (auto simp: has_io_interest_def split: if_splits)
  then have "flying_ids (eslab b) = {}"
    using flying_ids_list(3) [OF ep_inv_slab [OF assms(1)]] ep_inv_slab [OF assms(1)] by simp
  then have "home (eslab b) oid = None" for oid by (auto simp: flying_home)
  then have "parked_at (efds b) fd ws = None" for fd ws
    using ep_inv_parked [OF assms(1), of fd ws] by (cases "parked_at (efds b) fd ws") auto
  moreover have "dom (fd_get (efds b)) \<subseteq> set_option (wake_fd (efds b))"
    using n(3) interest_len_eq [OF ep_inv_fds [OF assms(1)]] finite_dom_fd_get [of "efds b"]
    by (simp add: card_eq_0_iff)
  ultimately show "ep_idle (wake_fd (efds b)) b" by (simp add: ep_idle_def)
  show "inline_completions b = []" by (rule n)
qed

lemma idle_same: "ep_idle w b \<Longrightarrow> efds b' = efds b \<Longrightarrow> ep_idle w b'"
  by (simp add: ep_idle_def)

lemma idle_sync:
  assumes "ep_idle w b" "sync_interest fd lazy b = (r, b')"
  shows "ep_idle w b'"
proof -
  consider "efds b' = snd (fd_remove fd (efds b))"
    | rg km where "efds b' = fd_update fd (\<lambda>e. e\<lparr>registered := rg, kmask := km\<rparr>) (efds b)"
    | "efds b' = efds b" using sync_table(4) [OF assms(2)] by blast
  then have "dom (fd_get (efds b')) \<subseteq> dom (fd_get (efds b))"
    by cases (auto simp: fd_get_remove fd_get_update split: if_splits option.splits)
  with assms(1) show ?thesis unfolding ep_idle_def sync_parked(1) [OF assms(2)] by blast
qed

lemma idle_drive: "ep_idle w b \<Longrightarrow> drive_side fd ws b = (False, [], b)"
proof -
  assume "ep_idle w b"
  then have "parked_at (efds b) fd ws = None" by (simp add: ep_idle_def)
  then show ?thesis by (simp add: drive_side_def parked_at_def split: option.splits)
qed

lemma idle_poll_event:
  assumes "ep_idle w b" "poll_event ev b = (out, b')"
  shows "ep_idle w b'" "c \<in> set out \<Longrightarrow> wakes_only w c"
proof -
  obtain fd flags where ev: "ev = (fd, flags)" by fastforce
  have "ep_idle w b' \<and> (c \<in> set out \<longrightarrow> wakes_only w c)"
  proof (cases "fd = evfd b")
    case True
    with assms have "efds b' = efds b" "out = [WakeupC]" by (auto simp: poll_event_def ev)
    then show ?thesis using idle_same [OF assms(1)] by simp
  next
    case False
    have "b' = b \<or> b' = snd (sync_interest fd False b)"
      and out: "set out \<subseteq> {Ready fd x y | x y. fd_get (efds b) fd \<noteq> None}"
      using assms(2) False unfolding ev poll_event_def
      by (auto simp: idle_drive [OF assms(1)] Let_def split: if_splits option.splits)
    then have "ep_idle w b'" using assms(1) idle_sync [OF assms(1)] by (metis prod.collapse)
    moreover have "fd_get (efds b) fd \<noteq> None \<Longrightarrow> w = Some fd"
      using assms(1) by (cases w) (auto simp: ep_idle_def)
    ultimately show ?thesis using out by auto
  qed
  then show "ep_idle w b'" "c \<in> set out \<Longrightarrow> wakes_only w c" by auto
qed

lemma idle_poll_events:
  "ep_idle w b \<Longrightarrow> poll_events evs b = (out, b') \<Longrightarrow> c \<in> set out \<Longrightarrow> wakes_only w c"
proof (induction evs arbitrary: b out)
  case (Cons ev evs)
  then obtain out1 out2 b1 where e: "poll_event ev b = (out1, b1)" "poll_events evs b1 = (out2, b')"
    "out = out1 @ out2" by (auto split: prod.splits)
  with Cons.IH [OF idle_poll_event(1) [OF Cons.prems(1) e(1)] e(2)]
    idle_poll_event(2) [OF Cons.prems(1) e(1)] Cons.prems(3) show ?case by auto
qed simp

lemma idle_poll:
  assumes "ep_idle w b" "inline_completions b = []" "epoll_poll t b = (r, out, b')" "c \<in> set out"
  shows "wakes_only w c"
proof -
  define b1 where "b1 = b\<lparr>inline_completions := []\<rparr>"
  define tm where "tm = (case t of Some t \<Rightarrow> min (wait_millis t) I32_MAX | None \<Rightarrow> 0)"
  obtain a b2 where s: "sys_retry (\<lambda>e. e = EINTR \<and> tm = 0) (Sys_wait tm) b1 = (a, b2)" by fastforce
  obtain outs b3 where p: "poll_events (take (if rc a < 0 then 0 else nat (rc a)) (events a)) b2 = (outs, b3)"
    by fastforce
  have "efds b2 = efds b"
    using sys_retry_sel(2) [of "\<lambda>e. e = EINTR \<and> tm = 0" "Sys_wait tm" b1]
    by (simp only: s snd_conv) (simp add: b1_def)
  from idle_poll_events [OF idle_same [OF assms(1) this] p] have "c \<in> set outs \<Longrightarrow> wakes_only w c" .
  moreover have "out = [] \<or> out = outs"
    using assms(2,3) s p
    unfolding epoll_poll_def take_staged_def b1_def [symmetric] Let_def prod.case assms(2)
    by (auto simp: tm_def split: if_splits)
  ultimately show ?thesis using assms(4) by auto
qed

interpretation epoll: io_backend epoll_ops ep_ok "\<lambda>b. wake_fd (efds b)"
proof unfold_locales
  fix b r cs b' c
  assume a: "ep_ok b" "\<not> bk_has_io_interest epoll_ops b" "bk_try_poll epoll_ops b = (r, cs, b')" "c \<in> set cs"
  then have "\<not> has_io_interest b" "epoll_poll (Some 0) b = (r, cs, b')"
    by (simp_all add: epoll_ops_def default_ops_def bk_try_poll_def)
  with no_interest_idle [OF a(1)] idle_poll a(4) show "wakes_only (wake_fd (efds b)) c" by blast
next
  fix b
  assume "ep_ok b" "\<not> bk_has_io_interest epoll_ops b"
  then show "fst (bk_take_staged epoll_ops b) = []"
    using no_interest_idle(2) [of b] by (simp add: epoll_ops_def default_ops_def take_staged_def)
qed

section \<open>Parking a datagram receive\<close>

lemma new_op_slot:
  assumes "ep_ok b" "slab_room (eslab b)" "new_op k fd p b = (oid, b')"
  obtains s sl where "slab_get (eslab b) oid = None"
    "b' = b\<lparr>eslab := s\<rparr>" "slab_get s oid = Some sl" "ostate sl = Posted"
    "okind sl = k" "odata sl = \<lparr>op_fd = fd, op_pending = p, accepted = None\<rparr>"
proof -
  obtain s where s: "slab_post (chunk_at b) empty_op k (eslab b) = (oid, s)"
    and b': "b' = b\<lparr>eslab := slab_write oid (\<lambda>_. \<lparr>op_fd = fd, op_pending = p, accepted = None\<rparr>) s\<rparr>"
    using assms(3) by (auto simp: new_op_def split: prod.splits)
  from get_post [OF ep_inv_slab [OF assms(1)] assms(2) s] obtain sl where
    fresh: "slab_get (eslab b) oid = None" and
    sl: "slab_ok s" "slab_get s oid = Some sl" "ostate sl = Posted" "okind sl = k" by fastforce
  from get_write(1) [OF sl(1,2)] that [OF fresh b'] sl(3,4) show thesis by simp
qed

text \<open>
  A receive that would block arms the descriptor; \<open>c\<close> is the kernel's answer to that.  Whatever
  it is, the operation is in flight, and parked.
\<close>

lemma recv_from_parks:
  assumes ok: "ep_ok b" and room: "slab_room (eslab b)" and free: "fd_get (efds b) fd = None"
    and script: "script b = a # c # as" "rc a = - int EAGAIN" "errno c \<noteq> EEXIST"
    and post: "post_recv_from fd buf len b = (r, b')"
  obtains oid sl where "r = (if rc c \<ge> 0 then Inr oid else Inl (Os_error (errno c)))"
    "parked_at (efds b') fd False = Some oid" "slab_get (eslab b) oid = None"
    "slab_get (eslab b') oid = Some sl" "ostate sl = Posted" "okind sl = RecvFrom"
    "odata sl = \<lparr>op_fd = fd, op_pending = P_recv_from buf len [], accepted = None\<rparr>" "script b' = as"
    "log b' = log b @ [(Sys_recvfrom fd buf len, a), (Sys_ctl Ctl_add fd EPOLLIN, c)]"
proof -
  obtain oid b1 where n: "new_op RecvFrom fd (P_recv_from buf len []) b = (oid, b1)" by fastforce
  from new_op_slot [OF ok room n] obtain s sl where fresh: "slab_get (eslab b) oid = None"
    and s: "b1 = b\<lparr>eslab := s\<rparr>" "slab_get s oid = Some sl" "ostate sl = Posted" "okind sl = RecvFrom"
    "odata sl = \<lparr>op_fd = fd, op_pending = P_recv_from buf len [], accepted = None\<rparr>" .
  let ?b2 = "b1\<lparr>script := c # as, log := log b @ [(Sys_recvfrom fd buf len, a)]\<rparr>"
  have "attempt oid b1 = (None, ?b2)"
    using script by (simp add: attempt_def s op_result_def sys_retry.simps [of _ _ "b\<lparr>eslab := s\<rparr>"] sys_def errno_def EINTR_def EAGAIN_def)
  then have post': "park oid fd False ?b2 = (r, b')" using post n by (simp add: post_recv_from_def)
  define b3 where "b3 = entry_update fd (set_side False (Some oid)) (?b2\<lparr>efds := fd_ensure fd (efds b)\<rparr>)"
  define e where "e = set_side False (Some oid) new_entry"
  have g3: "fd_get (efds b3) fd = Some e"
    using free by (simp add: b3_def e_def fd_get_update fd_get_ensure s)
  have e: "interest e = EPOLLIN" "kmask e = 0" "\<not> registered e"
    by (simp_all add: e_def interest_def set_side_def new_entry_def entry_default_def)
  have nz: "EPOLLIN \<noteq> 0" by (simp add: EPOLLIN_def)
  let ?b4 = "b3\<lparr>script := as, log := log b3 @ [(Sys_ctl Ctl_add fd EPOLLIN, c)]\<rparr>"
  have scr: "script b3 = c # as" by (simp add: b3_def entry_update_def)
  have arm: "ctl_arm False fd EPOLLIN b3 = (map_sum id (\<lambda>_. ()) (cvt c), ?b4)"
    using script(3) by (auto simp: ctl_arm_def ctl_def sys_def scr cvt_def)
  obtain q b5 where y: "sync_interest fd False b3 = (q, b5)" by fastforce
  have "log b3 = log b @ [(Sys_recvfrom fd buf len, a)]" by (simp add: b3_def)
  then have q: "q = map_sum id (\<lambda>_. ()) (cvt c) \<and> script b5 = as \<and>
      log b5 = log b @ [(Sys_recvfrom fd buf len, a), (Sys_ctl Ctl_add fd EPOLLIN, c)]"
    using y by (auto simp: sync_interest_def g3 e nz arm entry_update_def cvt_def split: if_splits)
  have rb: "r = map_sum id (\<lambda>_. oid) q" "b' = b5"
    using post' free y by (simp_all add: park_def s fd_get_ensure b3_def Let_def)
  have eslab: "eslab b5 = s" using sync_table(1) [OF y] by (simp add: b3_def s)
  have pk: "parked_at (efds b5) fd False = Some oid"
    using sync_parked(1) [OF y] by (simp add: rb parked_at_def g3 e_def)
  show thesis
    using q rb
    by (intro that [of oid sl]) (simp_all add: cvt_def eslab pk s(2-) fresh)
qed

section \<open>A concrete run\<close>

text \<open>
  A datagram receive on descriptor 5: nothing to read, armed, then readable, and three bytes.
\<close>

abbreviation ans :: "int \<Rightarrow> answer" where
  "ans r \<equiv> \<lparr>rc = r, so_error = 0, from_addr = [], events = []\<rparr>"

definition demo_script :: "answer list" where
  "demo_script = [ans 3, ans 4, ans 0, ans (- 11), ans 0, (ans 1)\<lparr>events := [(5, EPOLLIN)]\<rparr>, ans 3]"

definition demo :: epoll where
  "demo = \<lparr>evfd = 4, wake_armed = False, eslab = slab_new, efds = fd_table_new,
     inline_completions = [], saved_inline = 0, chunk_at = 4096, poller_open = True,
     script = [ans (- 11), ans 0, (ans 1)\<lparr>events := [(5, EPOLLIN)]\<rparr>, ans 3],
     log = [(Sys_epoll_create, ans 3), (Sys_eventfd, ans 4), (Sys_ctl Ctl_add 4 EPOLLIN, ans 0)]\<rparr>"

lemma demo_start: "ep_start demo"
  unfolding ep_start_def
  by (intro exI [of _ 4096] exI [of _ demo_script] exI [of _ demo])
    (simp add: epoll_new_def demo_script_def demo_def sys_def ctl_def cvt_def)

lemma demo_room: "slab_room (eslab demo)"
  by (simp add: demo_def slab_room_def slab_capacity_def slab_new_def CHUNK_def)

lemma demo_posted:
  obtains oid b where "post_recv_from 5 0 64 demo = (Inr oid, b)" "ep_run demo [A_posted oid] b"
    "parked_at (efds b) 5 False = Some oid" "ctl_fine (log b)"
proof -
  obtain r b where p: "post_recv_from 5 0 64 demo = (r, b)" by fastforce
  have s: "fd_get (efds demo) 5 = None" "script demo = ans (- 11) # ans 0 # drop 2 (script demo)"
    by (simp_all add: demo_def)
  obtain oid where o: "r = Inr oid" "parked_at (efds b) 5 False = Some oid"
    "log b = log demo @ [(Sys_recvfrom 5 0 64, ans (- 11)), (Sys_ctl Ctl_add 5 EPOLLIN, ans 0)]"
    by (rule recv_from_parks [OF ep_start_ok(1) [OF demo_start] demo_room s _ _ p])
      (simp_all add: EAGAIN_def EEXIST_def errno_def)
  have "ep_step demo (A_posted oid) b"
    by (rule ep_step.e_post [OF demo_room, of "Req_recv_from 5 0 64"]) (simp add: p o)
  then have "ep_run demo [A_posted oid] b" by (blast intro: ep_run.intros)
  with o p show thesis by (intro that [of oid b]) (auto simp: ctl_fine_def demo_def)
qed

section \<open>The theorems\<close>



text \<open>
  C13: the descriptor table and the slab never disagree.  In every reachable state an operation is
  parked on a side of a descriptor exactly if it is in flight in the slab, was posted on that
  descriptor, and is of a kind that waits on that side; so readiness can always complete it, and
  a slot never names an operation already delivered.
\<close>

theorem epoll_parked_exact:
  assumes "ep_start b" "ep_run b as b'"
  shows "parked_at (efds b') fd ws = Some oid \<longleftrightarrow>
    (\<exists>sl. slab_get (eslab b') oid = Some sl \<and> flying (ostate sl) \<and> op_fd (odata sl) = fd \<and>
       write_side (op_pending (odata sl)) = ws)"
  using ep_inv_parked [OF ep_run_facts(1) [OF assms]]
  by (auto simp: home_def split: option.splits if_splits)

theorem epoll_parked_exact_witness:
  "\<exists>oid b sl. ep_run demo [A_posted oid] b \<and> slab_get (eslab b) oid = Some sl \<and>
     flying (ostate sl) \<and> op_fd (odata sl) = 5"
proof -
  from demo_posted obtain oid b where r: "ep_run demo [A_posted oid] b"
    "parked_at (efds b) 5 False = Some oid" by blast
  from epoll_parked_exact [OF demo_start r(1), of 5 False oid] r show ?thesis by blast
qed

text \<open>
  C14: readiness is never missed.  While the kernel has accepted every \<open>epoll_ctl\<close> call, in every
  reachable state its interest set for a descriptor (replayed from the calls) includes every
  direction in which the table has a parked operation or a watch, through the lazy disarming that
  leaves stale bits and the re-arming of watches.
\<close>

theorem epoll_interest_armed:
  assumes "ep_start b" "ep_run b as b'" "ctl_fine (log b')"
    and "fd_get (efds b') fd = Some e" "interest e \<noteq> 0"
  shows "\<exists>m. kset (log b') fd = Some m \<and> interest e AND NOT m = 0"
proof -
  have a: "interest e AND NOT (kmask e) = 0" "entry_known (log b') fd e"
    using ep_run_facts(3) [OF assms(1,2,3)] assms(4) by (auto simp: armed_def)
  with assms(5) have "kmask e \<noteq> 0" by auto
  with a show ?thesis by (auto simp: entry_known_def)
qed

theorem epoll_interest_armed_witness:
  "\<exists>oid b m. ep_run demo [A_posted oid] b \<and> kset (log b) 5 = Some m \<and> EPOLLIN AND NOT m = 0"
proof -
  from demo_posted obtain oid b where r: "ep_run demo [A_posted oid] b" "ctl_fine (log b)"
    "parked_at (efds b) 5 False = Some oid" by blast
  then obtain e where e: "fd_get (efds b) 5 = Some e" "side_op False e = Some oid"
    by (auto simp: parked_at_def split: option.splits)
  then have i: "interest e AND EPOLLIN = EPOLLIN"
    by (simp add: interest_def side_op_def EPOLLIN_def EPOLLOUT_def)
  then have "interest e \<noteq> 0" by (auto simp: EPOLLIN_def)
  from epoll_interest_armed [OF demo_start r(1,2) e(1) this] obtain m where
    m: "kset (log b) 5 = Some m" "interest e AND NOT m = 0" by blast
  have "EPOLLIN AND NOT m = EPOLLIN AND (interest e AND NOT m)"
    by (subst i [symmetric]) (simp only: ac_simps)
  with m have "EPOLLIN AND NOT m = 0" by simp
  with m r show ?thesis by blast
qed

text \<open>
  C15: the reactor skips the poll of a busy tick only when it could complete nothing.  If the epoll
  backend reports no I/O interest, a zero-timeout reactor poll is elided: it changes the elision
  count and clears the completion buffer, nothing else, nothing was staged, and the poll it skipped
  would have given, whatever the kernel answered, only wakeups or readiness of the signal-wakeup
  descriptor.
\<close>

theorem epoll_elision_sound:
  assumes "ep_start b0" "ep_run b0 as (rbackend r)" "\<not> has_io_interest (rbackend r)"
  shows "r_poll epoll_ops env 0 r =
      (Inr (), bump (\<lambda>s. s\<lparr>st_elided := st_elided s + 1\<rparr>) (r\<lparr>rcompletions := []\<rparr>)) \<and>
    inline_completions (rbackend r) = [] \<and>
    (\<forall>c \<in> set (fst (snd (epoll_poll (Some 0) (rbackend r)))).
       wakes_only (wake_fd (efds (rbackend r))) c)"
proof -
  have ok: "ep_ok (rbackend r)" by (rule ep_run_facts(1) [OF assms(1,2)])
  obtain res cs b' where p: "epoll_poll (Some 0) (rbackend r) = (res, cs, b')" by (metis prod_cases3)
  have "\<not> bk_has_io_interest epoll_ops (rbackend r)" "bk_try_poll epoll_ops (rbackend r) = (res, cs, b')"
    using assms(3) p by (simp_all add: epoll_ops_def default_ops_def bk_try_poll_def)
  note e = epoll.elided_poll [OF ok this(1)] epoll.elided_poll(2) [OF ok this]
  show ?thesis using e(1,4) e(3) by (simp add: p epoll_ops_def default_ops_def take_staged_def)
qed

definition demo_reactor :: "(nat, epoll) reactor" where
  "demo_reactor = reactor_new default_reactor_config demo 1000 0 store_new"

definition quiet_env :: "nat poll_env" where
  "quiet_env = \<lparr>env_raw = 1000, env_looks = [], env_spun = 0, env_xthread = xt_new, env_raw_after = 1000\<rparr>"

theorem epoll_elision_sound_witness:
  "\<not> has_io_interest (rbackend demo_reactor) \<and>
   st_elided (rstats (snd (r_poll epoll_ops quiet_env 0 demo_reactor))) = 1"
proof -
  have r: "ep_run demo [] (rbackend demo_reactor)"
    by (simp add: demo_reactor_def reactor_new_def ep_run.ep_done)
  have n: "\<not> has_io_interest (rbackend demo_reactor)"
    by (simp add: demo_reactor_def reactor_new_def demo_def has_io_interest_def slab_new_def
        interest_len_def fd_table_new_def)
  have "st_elided (rstats demo_reactor) = 0" by (simp add: demo_reactor_def reactor_new_def stats_new_def)
  with epoll_elision_sound [OF demo_start r n, of quiet_env] n show ?thesis by (simp add: bump_def)
qed

text \<open>
  The poller is closed once, whatever the order of \<open>release_poller\<close> and the destructor.
\<close>

lemma poller_closed_once:
  assumes "poller_open b"
  shows "\<exists>x y. log (epoll_drop (release_poller b)) = log b @ [(Sys_close_epoll, x), (Sys_close (evfd b), y)]"
proof -
  have "poller_open (snd (sys c b)) = poller_open b" for c b by (simp add: sys_def split: list.split)
  then show ?thesis using assms by (simp add: epoll_drop_def release_poller_def)
qed

text \<open>
  C18: a datagram receive that would block, on a descriptor the table does not know, when the
  kernel refuses to arm the descriptor (\<open>epoll_ctl\<close> fails with anything but EEXIST): the post
  reports the error to its caller, and yet the operation is in flight in the slab and parked on
  the descriptor with the caller's buffer, under an id the caller never learns.
\<close>

theorem refused_post_stays_parked:
  assumes "ep_start b0" "ep_run b0 as b" "slab_room (eslab b)" "fd_get (efds b) fd = None"
    and "script b = a # c # rest" "rc a = - int EAGAIN" "rc c < 0" "errno c \<noteq> EEXIST"
  shows "\<exists>oid sl b'. post_recv_from fd buf len b = (Inl (Os_error (errno c)), b') \<and>
    slab_get (eslab b) oid = None \<and> parked_at (efds b') fd False = Some oid \<and>
    slab_get (eslab b') oid = Some sl \<and> ostate sl = Posted \<and>
    op_pending (odata sl) = P_recv_from buf len []"
proof -
  obtain r b' where p: "post_recv_from fd buf len b = (r, b')" by fastforce
  show ?thesis
    by (rule recv_from_parks [OF ep_run_facts(1) [OF assms(1,2)] assms(3,4,5,6,8) p])
      (use assms(7) p in auto)
qed

theorem refused_post_stays_parked_witness:
  "\<exists>oid b'. post_recv_from 5 0 64 (demo\<lparr>script := [ans (- 11), ans (- 12)]\<rparr>) = (Inl (Os_error 12), b') \<and>
     parked_at (efds b') 5 False = Some oid"
proof -
  let ?b = "demo\<lparr>script := [ans (- 11), ans (- 12)]\<rparr>"
  have s: "ep_start ?b"
    unfolding ep_start_def
    by (intro exI [of _ 4096] exI [of _ "take 3 demo_script @ [ans (- 11), ans (- 12)]"] exI [of _ ?b])
      (simp add: epoll_new_def demo_script_def demo_def sys_def ctl_def cvt_def)
  have f: "slab_room (eslab ?b)" "fd_get (efds ?b) 5 = None"
    using demo_room by (simp_all add: demo_def)
  have c: "script ?b = ans (- 11) # ans (- 12) # []" "rc (ans (- 11)) = - int EAGAIN"
    "rc (ans (- 12)) < 0" "errno (ans (- 12)) \<noteq> EEXIST"
    by (simp_all add: EAGAIN_def EEXIST_def errno_def)
  have "errno (ans (- 12)) = 12" by (simp add: errno_def)
  with refused_post_stays_parked [OF s ep_run.ep_done f c, of 0 64] show ?thesis by auto
qed

end
