(* ===== verification/Http_Parser.thy ===== *)
theory Http_Parser
  imports WebSocket
begin

text \<open>
  The HTTP/1.1 request accumulator of \<open>http.rs\<close>.  llhttp is C code outside the repository's
  sources: what one \<open>llhttp_execute\<close> does is a parameter, the list of callbacks it makes with
  their data, and its return code and error position.  It stops at the first callback that
  returns non-zero, with a code that is neither \<open>HPE_OK\<close> nor \<open>HPE_PAUSED_UPGRADE\<close>.
\<close>

section \<open>Limits and requests\<close>

record limits =
  max_header_bytes :: nat
  max_headers :: nat
  max_url :: nat
  max_body :: "nat option"

definition default_limits :: limits where
  "default_limits = \<lparr>max_header_bytes = 64 * 1024, max_headers = 100, max_url = 8 * 1024,
     max_body = Some (16 * 1024 * 1024)\<rparr>"

type_synonym header = "u8 list \<times> u8 list"

record request =
  rq_method :: string
  rq_minor :: nat
  rq_keep_alive :: bool
  rq_upgrade :: bool
  rq_url :: "u8 list"
  rq_headers :: "header list"
  rq_body :: "u8 list"

definition queued_size :: "request \<Rightarrow> nat" where
  "queued_size r = length (rq_url r) + length (rq_body r) +
     sum_list (map (\<lambda>(n, v). length n + length v + 4) (rq_headers r))"

record parse_error =
  err_status :: nat
  err_reason :: string

section \<open>Byte strings\<close>

definition ascii_lower :: "u8 \<Rightarrow> u8" where
  "ascii_lower b = (if 65 \<le> b \<and> b \<le> 90 then b + 32 else b)"

definition eq_ignore_ascii_case :: "u8 list \<Rightarrow> u8 list \<Rightarrow> bool" where
  "eq_ignore_ascii_case a b = (map ascii_lower a = map ascii_lower b)"

definition is_ascii_space :: "u8 \<Rightarrow> bool" where
  "is_ascii_space b \<longleftrightarrow> b \<in> set [9, 10, 12, 13, 32]"

definition trim_ascii :: "u8 list \<Rightarrow> u8 list" where
  "trim_ascii bs = rev (dropWhile is_ascii_space (rev (dropWhile is_ascii_space bs)))"

text \<open>\<open>split(|b| b == sep)\<close>: always at least one piece.\<close>

fun split_byte :: "u8 \<Rightarrow> u8 list \<Rightarrow> u8 list list" where
  "split_byte sep [] = [[]]"
| "split_byte sep (b # bs) =
     (if b = sep then [] # split_byte sep bs
      else (case split_byte sep bs of [] \<Rightarrow> [[b]] | p # ps \<Rightarrow> (b # p) # ps))"

text \<open>\<open>str::trim\<close>: the UTF-8 encodings of the characters with the White_Space property.\<close>

definition space_chars :: "u8 list list" where
  "space_chars = map (\<lambda>b. [b]) [9, 10, 11, 12, 13, 32] @ [[0xC2, 0x85], [0xC2, 0xA0], [0xE1, 0x9A, 0x80]] @
     map (\<lambda>b. [0xE2, 0x80, b]) ([0x80, 0x81, 0x82, 0x83, 0x84, 0x85, 0x86, 0x87, 0x88, 0x89, 0x8A] @
       [0xA8, 0xA9, 0xAF]) @ [[0xE2, 0x81, 0x9F], [0xE3, 0x80, 0x80]]"

function strip_leading :: "u8 list list \<Rightarrow> u8 list \<Rightarrow> u8 list" where
  "strip_leading cs bs =
     (case find (\<lambda>c. c \<noteq> [] \<and> take (length c) bs = c) cs of
        None \<Rightarrow> bs
      | Some c \<Rightarrow> strip_leading cs (drop (length c) bs))"
  by auto
termination
proof (relation "measure (\<lambda>(cs, bs). length bs)")
  fix cs bs and c :: "u8 list"
  assume "find (\<lambda>c. c \<noteq> [] \<and> take (length c) bs = c) cs = Some c"
  then have "c \<noteq> []" "take (length c) bs = c" by (auto simp: find_Some_iff)
  then show "((cs, drop (length c) bs), cs, bs) \<in> measure (\<lambda>(cs, bs). length bs)"
    by (cases bs) auto
qed simp

declare strip_leading.simps [simp del]

definition str_trim :: "u8 list \<Rightarrow> u8 list" where
  "str_trim bs = rev (strip_leading (map rev space_chars) (rev (strip_leading space_chars bs)))"

definition is_digit :: "u8 \<Rightarrow> bool" where
  "is_digit b \<longleftrightarrow> 48 \<le> b \<and> b \<le> 57"

definition digits_value :: "u8 list \<Rightarrow> nat" where
  "digits_value ds = foldl (\<lambda>n d. n * 10 + (unat d - 48)) 0 ds"

text \<open>\<open>parse::<u64>\<close>: an optional plus sign, decimal digits, no overflow.\<close>

definition parse_u64 :: "u8 list \<Rightarrow> nat option" where
  "parse_u64 bs =
     (let ds = (case bs of [] \<Rightarrow> [] | b # r \<Rightarrow> if b = 43 \<and> r \<noteq> [] then r else bs)
      in if ds = [] \<or> \<not> list_all is_digit ds then None
         else if digits_value ds < 2 ^ 64 then Some (digits_value ds) else None)"

section \<open>The accumulator\<close>

record http_acc =
  a_limits :: limits
  a_url :: "u8 list"
  a_headers :: "header list"
  a_field :: "u8 list"
  a_value :: "u8 list"
  in_value :: bool
  header_bytes :: nat
  a_body :: "u8 list"
  completed :: "request list"
  a_error :: "parse_error option"
  in_head :: bool
  owes_continue :: bool
  expecting_body :: bool

definition acc_new :: "limits \<Rightarrow> http_acc" where
  "acc_new l = \<lparr>a_limits = l, a_url = [], a_headers = [], a_field = [], a_value = [],
     in_value = False, header_bytes = 0, a_body = [], completed = [], a_error = None,
     in_head = False, owes_continue = False, expecting_body = False\<rparr>"

text \<open>A callback returns whether llhttp may go on (0) and the accumulator.\<close>

definition acc_fail :: "nat \<Rightarrow> string \<Rightarrow> http_acc \<Rightarrow> bool \<times> http_acc" where
  "acc_fail st why a = (False, a\<lparr>a_error := Some \<lparr>err_status = st, err_reason = why\<rparr>\<rparr>)"

definition declared_content_length :: "http_acc \<Rightarrow> nat option" where
  "declared_content_length a =
     (case find (\<lambda>(n, v). n = ascii ''content-length'') (a_headers a) of
        None \<Rightarrow> None
      | Some (n, v) \<Rightarrow> if utf8_valid v then parse_u64 (str_trim v) else None)"

definition expects_continue :: "http_acc \<Rightarrow> bool" where
  "expects_continue a =
     list_ex (\<lambda>(n, v). list_ex (\<lambda>tok. eq_ignore_ascii_case (trim_ascii tok) (ascii ''100-continue''))
         (split_byte 44 v))
       (filter (\<lambda>(n, v). n = ascii ''expect'') (a_headers a))"

definition commit_header :: "http_acc \<Rightarrow> http_acc" where
  "commit_header a =
     (if \<not> in_value a then a
      else
        (let field = a_field a; v = a_value a;
             a = a\<lparr>in_value := False, a_field := [], a_value := []\<rparr>
         in if \<not> in_head a then a
            else a\<lparr>a_headers := a_headers a @ [(map ascii_lower field, v)]\<rparr>))"

definition on_url :: "u8 list \<Rightarrow> http_acc \<Rightarrow> bool \<times> http_acc" where
  "on_url bs a =
     (if length (a_url a) + length bs > max_url (a_limits a)
      then acc_fail 414 ''request target too long'' a
      else (True, a\<lparr>a_url := a_url a @ bs\<rparr>))"

definition on_header_field :: "u8 list \<Rightarrow> http_acc \<Rightarrow> bool \<times> http_acc" where
  "on_header_field bs a =
     (let a = commit_header a; a = a\<lparr>header_bytes := header_bytes a + length bs\<rparr>
      in if header_bytes a > max_header_bytes (a_limits a) then acc_fail 431 ''headers too large'' a
         else if length (a_headers a) \<ge> max_headers (a_limits a)
              then acc_fail 431 ''too many headers'' a
         else (True, a\<lparr>a_field := a_field a @ bs\<rparr>))"

definition on_header_value :: "u8 list \<Rightarrow> http_acc \<Rightarrow> bool \<times> http_acc" where
  "on_header_value bs a =
     (let a = a\<lparr>in_value := True, header_bytes := header_bytes a + length bs\<rparr>
      in if header_bytes a > max_header_bytes (a_limits a) then acc_fail 431 ''headers too large'' a
         else (True, a\<lparr>a_value := a_value a @ bs\<rparr>))"

definition on_message_begin :: "http_acc \<Rightarrow> bool \<times> http_acc" where
  "on_message_begin a = (True, a\<lparr>in_head := True\<rparr>)"

definition host_count :: "http_acc \<Rightarrow> nat" where
  "host_count a = length (filter (\<lambda>(n, v). n = ascii ''host'') (a_headers a))"

definition body_declared_too_large :: "http_acc \<Rightarrow> bool" where
  "body_declared_too_large a =
     (case (max_body (a_limits a), declared_content_length a) of
        (Some cap, Some declared) \<Rightarrow> declared > cap
      | _ \<Rightarrow> False)"

definition on_headers_complete :: "nat \<Rightarrow> http_acc \<Rightarrow> bool \<times> http_acc" where
  "on_headers_complete minor a =
     (let a = commit_header a; a = a\<lparr>in_head := False\<rparr>
      in if minor \<ge> 1 \<and> host_count a \<noteq> 1
         then acc_fail 400 ''HTTP/1.1 requires exactly one Host header'' a
         else if body_declared_too_large a then acc_fail 413 ''body too large'' a
         else if minor \<ge> 1 \<and> expects_continue a
              then (True, a\<lparr>owes_continue := True, expecting_body := True\<rparr>)
         else (True, a))"

definition on_body :: "u8 list \<Rightarrow> http_acc \<Rightarrow> bool \<times> http_acc" where
  "on_body bs a =
     (if (case max_body (a_limits a) of None \<Rightarrow> False | Some cap \<Rightarrow> length (a_body a) + length bs > cap)
      then acc_fail 413 ''body too large'' a
      else (True, a\<lparr>a_body := a_body a @ bs\<rparr>))"

text \<open>The method name, version and flags are what llhttp reports of the message.\<close>

definition on_message_complete :: "string \<Rightarrow> nat \<Rightarrow> bool \<Rightarrow> bool \<Rightarrow> http_acc \<Rightarrow> bool \<times> http_acc" where
  "on_message_complete meth minor keep_alive upgrade a =
     (True,
      a\<lparr>owes_continue := False, expecting_body := False,
        completed := completed a @ [\<lparr>rq_method = meth, rq_minor = minor, rq_keep_alive = keep_alive,
          rq_upgrade = upgrade, rq_url = a_url a, rq_headers = a_headers a, rq_body = a_body a\<rparr>],
        a_url := [], a_headers := [], a_body := [], header_bytes := 0,
        a_field := [], a_value := [], in_value := False\<rparr>)"

section \<open>The parser\<close>

datatype http_event =
    Ev_begin
  | Ev_url "u8 list"
  | Ev_field "u8 list"
  | Ev_value "u8 list"
  | Ev_headers_complete nat
  | Ev_body "u8 list"
  | Ev_complete string nat bool bool

fun on_event :: "http_event \<Rightarrow> http_acc \<Rightarrow> bool \<times> http_acc" where
  "on_event Ev_begin a = on_message_begin a"
| "on_event (Ev_url bs) a = on_url bs a"
| "on_event (Ev_field bs) a = on_header_field bs a"
| "on_event (Ev_value bs) a = on_header_value bs a"
| "on_event (Ev_headers_complete minor) a = on_headers_complete minor a"
| "on_event (Ev_body bs) a = on_body bs a"
| "on_event (Ev_complete meth minor keep up) a = on_message_complete meth minor keep up a"

fun on_events :: "http_event list \<Rightarrow> http_acc \<Rightarrow> bool \<times> http_acc" where
  "on_events [] a = (True, a)"
| "on_events (ev # evs) a =
     (let (go, a) = on_event ev a in if go then on_events evs a else (False, a))"

text \<open>What one \<open>llhttp_execute\<close> does; \<open>ll_error_pos\<close> is relative to the fed buffer.\<close>

record llhttp_run =
  ll_events :: "http_event list"
  ll_rc :: int
  ll_error_pos :: int
  ll_version :: "nat \<times> nat"

definition HPE_OK :: int where "HPE_OK = 0"
definition HPE_PAUSED_UPGRADE :: int where "HPE_PAUSED_UPGRADE = 22"
definition HPE_USER :: int where "HPE_USER = 24"

record http_parser =
  hacc :: http_acc
  raw_version :: "nat \<times> nat"
  upgraded :: bool

definition http_parser_new :: "limits \<Rightarrow> http_parser" where
  "http_parser_new l = \<lparr>hacc = acc_new l, raw_version = (0, 0), upgraded = False\<rparr>"

definition feed :: "u8 list \<Rightarrow> llhttp_run \<Rightarrow> http_parser \<Rightarrow> (parse_error + nat option) \<times> http_parser" where
  "feed data run p =
     (if upgraded p then (Inr (Some 0), p)
      else
        (let (go, a) = on_events (ll_events run) (hacc p);
             rc = (if go then ll_rc run else HPE_USER);
             p = p\<lparr>hacc := a, raw_version := ll_version run\<rparr>
         in if rc = HPE_PAUSED_UPGRADE
            then (Inr (Some (nat (min (max (ll_error_pos run) 0) (int (length data))))),
                  p\<lparr>upgraded := True\<rparr>)
            else if rc \<noteq> HPE_OK
            then (Inl (case a_error a of Some e \<Rightarrow> e
                       | None \<Rightarrow> \<lparr>err_status = 400, err_reason = ''malformed request''\<rparr>), p)
            else (Inr None, p)))"

definition http_version :: "http_parser \<Rightarrow> (nat \<times> nat) option" where
  "http_version p = (if raw_version p = (0, 0) then None else Some (raw_version p))"

definition next_request :: "http_parser \<Rightarrow> request option \<times> http_parser" where
  "next_request p =
     (case completed (hacc p) of
        [] \<Rightarrow> (None, p)
      | r # rs \<Rightarrow> (Some r, p\<lparr>hacc := (hacc p)\<lparr>completed := rs\<rparr>\<rparr>))"

definition has_request :: "http_parser \<Rightarrow> bool" where
  "has_request p = (completed (hacc p) \<noteq> [])"

definition parser_in_head :: "http_parser \<Rightarrow> bool" where
  "parser_in_head p = in_head (hacc p)"

definition take_owes_continue :: "http_parser \<Rightarrow> bool \<times> http_parser" where
  "take_owes_continue p =
     (owes_continue (hacc p), p\<lparr>hacc := (hacc p)\<lparr>owes_continue := False\<rparr>\<rparr>)"

definition parser_expecting_body :: "http_parser \<Rightarrow> bool" where
  "parser_expecting_body p = expecting_body (hacc p)"

end
