(* ===== verification/Http_Parser_Props.thy ===== *)
theory Http_Parser_Props
  imports Http_Parser
begin

text \<open>
  The request accumulator proved against messages as llhttp reports them.  A message is its
  pieces, in whatever chunks the callbacks came: the requests delivered are exactly the
  messages', in order, trailers belong to no request, nothing of one request shows up in the
  next, a message over a limit is refused with that limit's status, and the memory held is
  bounded for every sequence of callbacks.
\<close>

section \<open>Messages\<close>

type_synonym chunks = "u8 list list"

record http_msg =
  m_url :: chunks
  m_headers :: "(chunks \<times> chunks) list"
  m_minor :: nat
  m_body :: chunks
  m_trailers :: "(chunks \<times> chunks) list"
  m_method :: string
  m_keep_alive :: bool
  m_upgrade :: bool

fun header_events :: "chunks \<times> chunks \<Rightarrow> http_event list" where
  "header_events (fs, vs) = map Ev_field fs @ map Ev_value vs"

definition head_events :: "http_msg \<Rightarrow> http_event list" where
  "head_events m = Ev_begin # map Ev_url (m_url m) @ concat (map header_events (m_headers m))"

definition tail_events :: "http_msg \<Rightarrow> http_event list" where
  "tail_events m = map Ev_body (m_body m) @ concat (map header_events (m_trailers m)) @
     [Ev_complete (m_method m) (m_minor m) (m_keep_alive m) (m_upgrade m)]"

definition msg_events :: "http_msg \<Rightarrow> http_event list" where
  "msg_events m = head_events m @ Ev_headers_complete (m_minor m) # tail_events m"

text \<open>llhttp calls back at least once for each field name and for each value, empty ones too.\<close>

definition msg_wf :: "http_msg \<Rightarrow> bool" where
  "msg_wf m \<longleftrightarrow> (\<forall>(fs, vs) \<in> set (m_headers m @ m_trailers m). fs \<noteq> [] \<and> vs \<noteq> [])"

fun header_of :: "chunks \<times> chunks \<Rightarrow> header" where
  "header_of (fs, vs) = (map ascii_lower (concat fs), concat vs)"

definition msg_request :: "http_msg \<Rightarrow> request" where
  "msg_request m = \<lparr>rq_method = m_method m, rq_minor = m_minor m, rq_keep_alive = m_keep_alive m,
     rq_upgrade = m_upgrade m, rq_url = concat (m_url m), rq_headers = map header_of (m_headers m),
     rq_body = concat (m_body m)\<rparr>"

fun header_size :: "chunks \<times> chunks \<Rightarrow> nat" where
  "header_size (fs, vs) = length (concat fs) + length (concat vs)"

definition headers_size :: "(chunks \<times> chunks) list \<Rightarrow> nat" where
  "headers_size hs = sum_list (map header_size hs)"

text \<open>The accumulator between messages, and at the end of a head.\<close>

definition idle_acc :: "limits \<Rightarrow> request list \<Rightarrow> http_acc" where
  "idle_acc l rs = (acc_new l)\<lparr>completed := rs\<rparr>"

definition head_acc :: "limits \<Rightarrow> http_msg \<Rightarrow> http_acc" where
  "head_acc l m = (acc_new l)\<lparr>a_headers := map header_of (m_headers m)\<rparr>"

definition body_too_large :: "limits \<Rightarrow> nat \<Rightarrow> bool" where
  "body_too_large l n = (case max_body l of None \<Rightarrow> False | Some cap \<Rightarrow> n > cap)"

text \<open>The status of the first limit or rule a message breaks, in the order of its bytes.\<close>

definition verdict :: "limits \<Rightarrow> http_msg \<Rightarrow> nat option" where
  "verdict l m =
     (if length (concat (m_url m)) > max_url l then Some 414
      else if headers_size (m_headers m) > max_header_bytes l \<or> length (m_headers m) > max_headers l
           then Some 431
      else if m_minor m \<ge> 1 \<and> host_count (head_acc l m) \<noteq> 1 then Some 400
      else if body_declared_too_large (head_acc l m) \<or> body_too_large l (length (concat (m_body m)))
           then Some 413
      else if m_trailers m \<noteq> [] \<and>
           (headers_size (m_headers m) + headers_size (m_trailers m) > max_header_bytes l \<or>
            length (m_headers m) \<ge> max_headers l) then Some 431
      else None)"

section \<open>Callback sequences\<close>

definition rejects :: "nat \<Rightarrow> request list \<Rightarrow> bool \<times> http_acc \<Rightarrow> bool" where
  "rejects st rs r \<longleftrightarrow> \<not> fst r \<and> completed (snd r) = rs \<and>
     (\<exists>e. a_error (snd r) = Some e \<and> err_status e = st)"

lemma on_events_append:
  "on_events (xs @ ys) a =
     (let (go, a) = on_events xs a in if go then on_events ys a else (False, a))"
  by (induction xs arbitrary: a) (auto split: prod.splits)

lemma on_events_go: "on_events xs a = (True, b) \<Longrightarrow> on_events (xs @ ys) a = on_events ys b"
  by (simp add: on_events_append)

lemma rejects_append: "rejects st rs (on_events xs a) \<Longrightarrow> rejects st rs (on_events (xs @ ys) a)"
  by (auto simp: rejects_def on_events_append split: prod.splits)

lemma rejects_fail: "completed a = rs \<Longrightarrow> rejects st rs (acc_fail st why a)"
  by (simp add: rejects_def acc_fail_def)

lemma url_chunks:
  "if length (a_url a) + length (concat us) \<le> max_url (a_limits a)
   then on_events (map Ev_url us) a = (True, a\<lparr>a_url := a_url a @ concat us\<rparr>)
   else us \<noteq> [] \<longrightarrow> rejects 414 (completed a) (on_events (map Ev_url us) a)"
proof (induction us arbitrary: a)
  case (Cons u us)
  show ?case
  proof (cases "length (a_url a) + length u > max_url (a_limits a)")
    case True
    then show ?thesis by (auto simp: on_url_def rejects_def acc_fail_def)
  next
    case False
    let ?b = "a\<lparr>a_url := a_url a @ u\<rparr>"
    have "on_events (map Ev_url (u # us)) a = on_events (map Ev_url us) ?b"
      using False by (simp add: on_url_def)
    with Cons.IH [of ?b] False show ?thesis by (cases "us = []") (auto simp: add.assoc)
  qed
qed (cases a, simp)

lemma body_chunks:
  "if \<not> body_too_large (a_limits a) (length (a_body a) + length (concat bs))
   then on_events (map Ev_body bs) a = (True, a\<lparr>a_body := a_body a @ concat bs\<rparr>)
   else bs \<noteq> [] \<longrightarrow> rejects 413 (completed a) (on_events (map Ev_body bs) a)"
proof (induction bs arbitrary: a)
  case (Cons u us)
  show ?case
  proof (cases "body_too_large (a_limits a) (length (a_body a) + length u)")
    case True
    then show ?thesis
      by (auto simp: on_body_def rejects_def acc_fail_def body_too_large_def split: option.splits)
  next
    case False
    let ?b = "a\<lparr>a_body := a_body a @ u\<rparr>"
    have "on_events (map Ev_body (u # us)) a = on_events (map Ev_body us) ?b"
      using False by (simp add: on_body_def body_too_large_def split: option.splits)
    with Cons.IH [of ?b] False show ?thesis by (cases "us = []") (auto simp: add.assoc)
  qed
qed (cases a, simp)

section \<open>Header blocks\<close>

lemma commit_sel [simp]:
  "a_limits (commit_header a) = a_limits a" "completed (commit_header a) = completed a"
  "header_bytes (commit_header a) = header_bytes a" "in_value (commit_header a) = False"
  "in_head (commit_header a) = in_head a"
  by (simp_all add: commit_header_def Let_def)

lemma commit_idem [simp]: "\<not> in_value a \<Longrightarrow> commit_header a = a"
  by (simp add: commit_header_def)

lemma field_chunks:
  assumes "\<not> in_value a"
  shows "if header_bytes a + length (concat fs) \<le> max_header_bytes (a_limits a) \<and>
        length (a_headers a) < max_headers (a_limits a)
     then on_events (map Ev_field fs) a =
        (True, a\<lparr>a_field := a_field a @ concat fs, header_bytes := header_bytes a + length (concat fs)\<rparr>)
     else fs \<noteq> [] \<longrightarrow> rejects 431 (completed a) (on_events (map Ev_field fs) a)"
  using assms
proof (induction fs arbitrary: a)
  case (Cons u us)
  show ?case
  proof (cases "header_bytes a + length u > max_header_bytes (a_limits a) \<or>
      length (a_headers a) \<ge> max_headers (a_limits a)")
    case True
    then show ?thesis using Cons.prems
      by (auto simp: on_header_field_def Let_def rejects_def acc_fail_def)
  next
    case False
    let ?b = "a\<lparr>a_field := a_field a @ u, header_bytes := header_bytes a + length u\<rparr>"
    have "on_events (map Ev_field (u # us)) a = on_events (map Ev_field us) ?b"
      using False Cons.prems by (cases a) (simp add: on_header_field_def Let_def)
    with Cons.IH [of ?b] Cons.prems False show ?thesis by (cases "us = []") (auto simp: add.assoc)
  qed
qed (cases a, simp)

lemma value_chunks:
  "if header_bytes a + length (concat vs) \<le> max_header_bytes (a_limits a)
     then on_events (map Ev_value vs) a =
        (True, if vs = [] then a else a\<lparr>in_value := True, a_value := a_value a @ concat vs,
           header_bytes := header_bytes a + length (concat vs)\<rparr>)
     else vs \<noteq> [] \<longrightarrow> rejects 431 (completed a) (on_events (map Ev_value vs) a)"
proof (induction vs arbitrary: a)
  case (Cons u us)
  show ?case
  proof (cases "header_bytes a + length u > max_header_bytes (a_limits a)")
    case True
    then show ?thesis by (auto simp: on_header_value_def Let_def rejects_def acc_fail_def)
  next
    case False
    let ?b = "a\<lparr>in_value := True, a_value := a_value a @ u, header_bytes := header_bytes a + length u\<rparr>"
    have "on_events (map Ev_value (u # us)) a = on_events (map Ev_value us) ?b"
      using False by (cases a) (simp add: on_header_value_def Let_def)
    with Cons.IH [of ?b] False show ?thesis by (cases "us = []") (auto simp: add.assoc)
  qed
qed simp

text \<open>One header, committed by what follows it; and a block of them.\<close>

definition header_fits :: "http_acc \<Rightarrow> chunks \<times> chunks \<Rightarrow> bool" where
  "header_fits a h \<longleftrightarrow> header_bytes a + header_size h \<le> max_header_bytes (a_limits a) \<and>
     length (a_headers (commit_header a)) < max_headers (a_limits a)"

definition header_step :: "chunks \<times> chunks \<Rightarrow> http_acc \<Rightarrow> http_acc" where
  "header_step h a = (commit_header a)\<lparr>a_field := a_field (commit_header a) @ concat (fst h),
     a_value := a_value (commit_header a) @ concat (snd h), in_value := True,
     header_bytes := header_bytes a + header_size h\<rparr>"

lemma one_header:
  assumes "fst h \<noteq> []" "snd h \<noteq> []"
  shows "if header_fits a h then on_events (header_events h) a = (True, header_step h a)
    else rejects 431 (completed a) (on_events (header_events h) a)"
proof -
  obtain fs vs where h: "h = (fs, vs)" by fastforce
  let ?c = "commit_header a"
  obtain f fs' where fs: "fs = f # fs'" using assms h by (cases fs) auto
  have ev: "on_events (header_events h) a = on_events (map Ev_field fs @ map Ev_value vs) ?c"
    by (simp add: h fs on_header_field_def)
  show ?thesis
  proof (cases "header_bytes ?c + length (concat fs) \<le> max_header_bytes (a_limits ?c) \<and>
      length (a_headers ?c) < max_headers (a_limits ?c)")
    case True
    let ?b = "?c\<lparr>a_field := a_field ?c @ concat fs, header_bytes := header_bytes ?c + length (concat fs)\<rparr>"
    have "on_events (map Ev_field fs) ?c = (True, ?b)" using field_chunks [of ?c fs] True by simp
    then have e: "on_events (header_events h) a = on_events (map Ev_value vs) ?b"
      unfolding ev by (rule on_events_go)
    have st: "header_step h a = ?b\<lparr>in_value := True, a_value := a_value ?b @ concat vs,
        header_bytes := header_bytes ?b + length (concat vs)\<rparr>"
      using commit_sel(3) [of a] by (cases ?c) (simp add: header_step_def h add.assoc)
    have fit: "header_fits a h \<longleftrightarrow> header_bytes ?b + length (concat vs) \<le> max_header_bytes (a_limits ?b)"
      using True by (simp add: header_fits_def h add.assoc)
    have vs: "vs \<noteq> []" using assms(2) h by simp
    show ?thesis
    proof (cases "header_fits a h")
      case fits: True
      have "on_events (map Ev_value vs) ?b = (True, header_step h a)"
        using value_chunks [of ?b vs] vs fits [unfolded fit] unfolding st by (simp only: if_True if_False)
      with fits show ?thesis unfolding e by simp
    next
      case no: False
      have "rejects 431 (completed ?b) (on_events (map Ev_value vs) ?b)"
        using value_chunks [of ?b vs] vs no [unfolded fit] by (simp only: if_False) simp
      with no show ?thesis unfolding e by simp
    qed
  next
    case False
    then have "rejects 431 (completed a) (on_events (map Ev_field fs) ?c)"
      using field_chunks [of ?c fs] fs by (auto split: if_splits)
    then have "rejects 431 (completed a) (on_events (header_events h) a)"
      unfolding ev by (rule rejects_append)
    moreover have "\<not> header_fits a h" using False by (auto simp: header_fits_def h)
    ultimately show ?thesis by simp
  qed
qed

fun block_fits :: "http_acc \<Rightarrow> (chunks \<times> chunks) list \<Rightarrow> bool" where
  "block_fits a [] = True"
| "block_fits a (h # hs) = (header_fits a h \<and> block_fits (header_step h a) hs)"

lemma header_block:
  "\<forall>h\<in>set hs. fst h \<noteq> [] \<and> snd h \<noteq> [] \<Longrightarrow>
   if block_fits a hs then on_events (concat (map header_events hs)) a = (True, fold header_step hs a)
   else rejects 431 (completed a) (on_events (concat (map header_events hs)) a)"
proof (induction hs arbitrary: a)
  case (Cons h hs)
  have one: "if header_fits a h then on_events (header_events h) a = (True, header_step h a)
    else rejects 431 (completed a) (on_events (header_events h) a)"
    using Cons.prems by (intro one_header) auto
  show ?case
  proof (cases "header_fits a h")
    case True
    with one have "on_events (header_events h) a = (True, header_step h a)" by simp
    then have "on_events (concat (map header_events (h # hs))) a =
        on_events (concat (map header_events hs)) (header_step h a)" by (simp add: on_events_go)
    moreover have "completed (header_step h a) = completed a" by (simp add: header_step_def)
    ultimately show ?thesis using Cons.IH [of "header_step h a"] Cons.prems True by auto
  next
    case False
    with one have "rejects 431 (completed a) (on_events (header_events h) a)" by simp
    from rejects_append [OF this, of "concat (map header_events hs)"] False show ?thesis by simp
  qed
qed simp

text \<open>The block in closed form, in the head (\<open>in_head\<close>) and among the trailers.\<close>

definition quiet :: "http_acc \<Rightarrow> bool" where
  "quiet a \<longleftrightarrow> (\<not> in_value a \<longrightarrow> a_field a = [] \<and> a_value a = [])"

lemma commit_quiet: "quiet a \<Longrightarrow> a_field (commit_header a) = [] \<and> a_value (commit_header a) = []"
  by (simp add: quiet_def commit_header_def Let_def)

lemma commit_step:
  assumes "quiet a"
  shows "commit_header (header_step h a) = (commit_header a)\<lparr>
      a_headers := a_headers (commit_header a) @ (if in_head a then [header_of h] else []),
      header_bytes := header_bytes a + header_size h\<rparr>"
proof -
  define c where "c = commit_header a"
  have c: "a_field c = []" "a_value c = []" "\<not> in_value c" "in_head c = in_head a"
    "header_bytes c = header_bytes a" using commit_quiet [OF assms] by (simp_all add: c_def)
  have "header_step h a = c\<lparr>a_field := concat (fst h), a_value := concat (snd h), in_value := True,
      header_bytes := header_bytes a + header_size h\<rparr>"
    using c by (simp add: header_step_def c_def [symmetric])
  with c show ?thesis unfolding c_def [symmetric]
    by (cases h, cases c) (simp add: commit_header_def Let_def)
qed

lemma fold_commit:
  "quiet a \<Longrightarrow> commit_header (fold header_step hs a) = (commit_header a)\<lparr>
     a_headers := a_headers (commit_header a) @ (if in_head a then map header_of hs else []),
     header_bytes := header_bytes a + headers_size hs\<rparr>"
proof (induction hs arbitrary: a)
  case Nil
  then show ?case by (cases "commit_header a") (use commit_sel [of a] in \<open>auto simp: headers_size_def\<close>)
next
  case (Cons h hs)
  have "quiet (header_step h a)" "in_head (header_step h a) = in_head a"
    "header_bytes (header_step h a) = header_bytes a + header_size h"
    by (simp_all add: quiet_def header_step_def)
  with Cons.IH [of "header_step h a"] commit_step [OF Cons.prems, of h]
  show ?case by (simp add: headers_size_def add.assoc)
qed

lemma block_fits_eq:
  "quiet a \<Longrightarrow> block_fits a hs \<longleftrightarrow> hs = [] \<or>
     header_bytes a + headers_size hs \<le> max_header_bytes (a_limits a) \<and>
     length (a_headers (commit_header a)) + (if in_head a then length hs else 1) \<le> max_headers (a_limits a)"
proof (induction hs arbitrary: a)
  case (Cons h hs)
  have s: "quiet (header_step h a)" "in_head (header_step h a) = in_head a"
    "header_bytes (header_step h a) = header_bytes a + header_size h"
    "a_limits (header_step h a) = a_limits a"
    by (simp_all add: quiet_def header_step_def)
  show ?case
    using Cons.IH [OF s(1)] commit_step [OF Cons.prems, of h]
    by (cases "hs = []") (auto simp: s header_fits_def headers_size_def)
qed simp

section \<open>One message\<close>

lemma trailers_forgotten:
  "\<not> in_head a \<Longrightarrow> on_message_complete me mi ka up (fold header_step hs a) = on_message_complete me mi ka up a"
proof (induction hs arbitrary: a)
  case (Cons h hs)
  have "\<not> in_head (header_step h a)" using Cons.prems by (simp add: header_step_def)
  then have "on_message_complete me mi ka up (fold header_step (h # hs) a) =
      on_message_complete me mi ka up (header_step h a)" using Cons.IH by simp
  also have "\<dots> = on_message_complete me mi ka up a"
    using Cons.prems by (cases a) (simp add: on_message_complete_def header_step_def commit_header_def Let_def)
  finally show ?case .
qed simp

text \<open>The accumulator at each stage of a message.\<close>

definition at_head :: "limits \<Rightarrow> request list \<Rightarrow> http_msg \<Rightarrow> http_acc" where
  "at_head l rs m = (idle_acc l rs)\<lparr>in_head := True, a_url := concat (m_url m)\<rparr>"

definition at_body :: "limits \<Rightarrow> request list \<Rightarrow> http_msg \<Rightarrow> http_acc" where
  "at_body l rs m = (idle_acc l rs)\<lparr>a_url := concat (m_url m),
     a_headers := map header_of (m_headers m), header_bytes := headers_size (m_headers m)\<rparr>"

lemma head_outcome:
  assumes "msg_wf m"
  shows "if length (concat (m_url m)) > max_url l
      then rejects 414 rs (on_events (head_events m) (idle_acc l rs))
      else if headers_size (m_headers m) > max_header_bytes l \<or> length (m_headers m) > max_headers l
      then rejects 431 rs (on_events (head_events m) (idle_acc l rs))
      else on_events (head_events m) (idle_acc l rs) =
        (True, fold header_step (m_headers m) (at_head l rs m))"
proof -
  let ?a = "(idle_acc l rs)\<lparr>in_head := True\<rparr>" and ?h = "concat (map header_events (m_headers m))"
  have l: "a_limits (idle_acc l rs) = l" "a_url (idle_acc l rs) = []" "completed (idle_acc l rs) = rs"
    "header_bytes (idle_acc l rs) = 0" "a_headers (idle_acc l rs) = []" "\<not> in_value (idle_acc l rs)"
    "a_field (idle_acc l rs) = []" "a_value (idle_acc l rs) = []" by (simp_all add: idle_acc_def acc_new_def)
  have ev: "on_events (head_events m) (idle_acc l rs) = on_events (map Ev_url (m_url m) @ ?h) ?a"
    by (simp add: head_events_def on_message_begin_def)
  show ?thesis
  proof (cases "length (concat (m_url m)) > max_url l")
    case True
    then have "rejects 414 rs (on_events (map Ev_url (m_url m)) ?a)"
      using url_chunks [of ?a "m_url m"] by (auto simp: l)
    with True show ?thesis unfolding ev by (simp add: rejects_append)
  next
    case False
    then have "on_events (map Ev_url (m_url m)) ?a = (True, at_head l rs m)"
      using url_chunks [of ?a "m_url m"] by (simp add: l at_head_def)
    then have e: "on_events (head_events m) (idle_acc l rs) = on_events ?h (at_head l rs m)"
      unfolding ev by (rule on_events_go)
    have a: "quiet (at_head l rs m)" "in_head (at_head l rs m)" "completed (at_head l rs m) = rs"
      "commit_header (at_head l rs m) = at_head l rs m"
      by (simp_all add: at_head_def quiet_def l)
    have "block_fits (at_head l rs m) (m_headers m) \<longleftrightarrow>
        \<not> (headers_size (m_headers m) > max_header_bytes l \<or> length (m_headers m) > max_headers l)"
      unfolding block_fits_eq [OF a(1)] a(4) using a(2)
      by (cases "m_headers m") (auto simp: at_head_def l headers_size_def)
    moreover have "\<forall>h\<in>set (m_headers m). fst h \<noteq> [] \<and> snd h \<noteq> []"
      using assms by (auto simp: msg_wf_def)
    ultimately show ?thesis
      using header_block [of "m_headers m" "at_head l rs m"] False unfolding e a(3) by auto
  qed
qed

lemma head_end_outcome:
  "if m_minor m \<ge> 1 \<and> host_count (head_acc l m) \<noteq> 1
     then rejects 400 rs (on_headers_complete (m_minor m) (fold header_step (m_headers m) (at_head l rs m)))
   else if body_declared_too_large (head_acc l m)
     then rejects 413 rs (on_headers_complete (m_minor m) (fold header_step (m_headers m) (at_head l rs m)))
   else \<exists>oc. on_headers_complete (m_minor m) (fold header_step (m_headers m) (at_head l rs m)) =
     (True, (at_body l rs m)\<lparr>owes_continue := oc, expecting_body := oc\<rparr>)"
proof -
  have a: "quiet (at_head l rs m)" "in_head (at_head l rs m)"
    "commit_header (at_head l rs m) = at_head l rs m"
    by (simp_all add: at_head_def quiet_def idle_acc_def acc_new_def)
  have c: "(commit_header (fold header_step (m_headers m) (at_head l rs m)))\<lparr>in_head := False\<rparr> = at_body l rs m"
    unfolding fold_commit [OF a(1)] a(3) using a(2)
    by (simp add: at_head_def at_body_def idle_acc_def acc_new_def)
  have same: "host_count (at_body l rs m) = host_count (head_acc l m)"
    "body_declared_too_large (at_body l rs m) = body_declared_too_large (head_acc l m)"
    by (simp_all add: host_count_def body_declared_too_large_def declared_content_length_def
        at_body_def head_acc_def idle_acc_def acc_new_def)
  have rs: "completed (at_body l rs m) = rs" by (simp add: at_body_def idle_acc_def)
  have "at_body l rs m = (at_body l rs m)\<lparr>owes_continue := False, expecting_body := False\<rparr>"
    by (simp add: at_body_def idle_acc_def acc_new_def)
  then show ?thesis
    unfolding on_headers_complete_def Let_def c same
    using rejects_fail [OF rs] by auto
qed

lemma tail_outcome:
  assumes "msg_wf m"
  shows "if body_too_large l (length (concat (m_body m)))
      then rejects 413 rs (on_events (tail_events m) ((at_body l rs m)\<lparr>owes_continue := oc, expecting_body := oc\<rparr>))
      else if m_trailers m \<noteq> [] \<and>
           (headers_size (m_headers m) + headers_size (m_trailers m) > max_header_bytes l \<or>
            length (m_headers m) \<ge> max_headers l)
      then rejects 431 rs (on_events (tail_events m) ((at_body l rs m)\<lparr>owes_continue := oc, expecting_body := oc\<rparr>))
      else on_events (tail_events m) ((at_body l rs m)\<lparr>owes_continue := oc, expecting_body := oc\<rparr>) =
        (True, idle_acc l (rs @ [msg_request m]))"
proof -
  let ?a = "(at_body l rs m)\<lparr>owes_continue := oc, expecting_body := oc\<rparr>"
  let ?b = "?a\<lparr>a_body := concat (m_body m)\<rparr>" and ?t = "concat (map header_events (m_trailers m))"
  let ?c = "Ev_complete (m_method m) (m_minor m) (m_keep_alive m) (m_upgrade m)"
  have l: "a_limits ?a = l" "a_body ?a = []" "completed ?a = rs" "completed ?b = rs"
    by (simp_all add: at_body_def idle_acc_def acc_new_def)
  show ?thesis
  proof (cases "body_too_large l (length (concat (m_body m)))")
    case True
    then have "m_body m \<noteq> []" by (auto simp: body_too_large_def split: option.splits)
    with True have "rejects 413 rs (on_events (map Ev_body (m_body m)) ?a)"
      using body_chunks [of ?a "m_body m"] by (simp add: l)
    with True show ?thesis by (simp add: tail_events_def rejects_append)
  next
    case False
    then have "on_events (map Ev_body (m_body m)) ?a = (True, ?b)"
      using body_chunks [of ?a "m_body m"] by (simp add: l)
    then have e: "on_events (tail_events m) ?a = on_events (?t @ [?c]) ?b"
      unfolding tail_events_def by (rule on_events_go)
    have b: "quiet ?b" "\<not> in_head ?b" "commit_header ?b = ?b"
      by (simp_all add: at_body_def quiet_def idle_acc_def acc_new_def)
    have fits: "block_fits ?b (m_trailers m) \<longleftrightarrow> \<not> (m_trailers m \<noteq> [] \<and>
        (headers_size (m_headers m) + headers_size (m_trailers m) > max_header_bytes l \<or>
         length (m_headers m) \<ge> max_headers l))"
      unfolding block_fits_eq [OF b(1)] b(3) using b(2)
      by (auto simp: at_body_def idle_acc_def acc_new_def)
    have ne: "\<forall>h\<in>set (m_trailers m). fst h \<noteq> [] \<and> snd h \<noteq> []"
      using assms by (auto simp: msg_wf_def)
    have blk: "if block_fits ?b (m_trailers m) then on_events ?t ?b = (True, fold header_step (m_trailers m) ?b)
        else rejects 431 rs (on_events ?t ?b)"
      using header_block [OF ne, of ?b] unfolding l(4) .
    show ?thesis
    proof (cases "block_fits ?b (m_trailers m)")
      case True
      with blk have "on_events ?t ?b = (True, fold header_step (m_trailers m) ?b)" by simp
      then have "on_events (tail_events m) ?a = on_events [?c] (fold header_step (m_trailers m) ?b)"
        unfolding e by (rule on_events_go)
      also have "\<dots> = (True, idle_acc l (rs @ [msg_request m]))"
        using trailers_forgotten [OF b(2)]
        by (simp add: on_message_complete_def at_body_def idle_acc_def acc_new_def msg_request_def)
      finally show ?thesis using False True fits by (auto simp only: if_False)
    next
      case no: False
      with blk have "rejects 431 rs (on_events (?t @ [?c]) ?b)" by (simp add: rejects_append)
      with no fits False show ?thesis unfolding e by simp
    qed
  qed
qed

lemma msg_outcome:
  assumes "msg_wf m"
  shows "case verdict l m of
      None \<Rightarrow> on_events (msg_events m) (idle_acc l rs) = (True, idle_acc l (rs @ [msg_request m]))
    | Some st \<Rightarrow> rejects st rs (on_events (msg_events m) (idle_acc l rs))"
proof -
  let ?h = "on_events (head_events m) (idle_acc l rs)"
  let ?r = "on_events (msg_events m) (idle_acc l rs)"
  let ?a = "fold header_step (m_headers m) (at_head l rs m)"
  let ?hc = "on_headers_complete (m_minor m) ?a"
  note H = head_outcome [OF assms, of l rs]
  show ?thesis
  proof (cases "length (concat (m_url m)) > max_url l")
    case True
    with H have "rejects 414 rs ?h" by simp
    then have "rejects 414 rs ?r" unfolding msg_events_def by (rule rejects_append)
    with True show ?thesis by (simp add: verdict_def)
  next
    case u: False
    show ?thesis
    proof (cases "headers_size (m_headers m) > max_header_bytes l \<or> length (m_headers m) > max_headers l")
      case True
      with H u have "rejects 431 rs ?h" by (simp only: if_True if_False)
      then have "rejects 431 rs ?r" unfolding msg_events_def by (rule rejects_append)
      with True u show ?thesis by (simp add: verdict_def)
    next
      case s: False
      with H u have "?h = (True, ?a)" by (simp only: if_True if_False)
      then have r: "?r = on_events (Ev_headers_complete (m_minor m) # tail_events m) ?a"
        unfolding msg_events_def by (rule on_events_go)
      note E = head_end_outcome [of m l rs]
      have bad: "rejects st rs ?r" if "rejects st rs ?hc" for st
        using that unfolding r by (auto simp: rejects_def split: prod.splits)
      show ?thesis
      proof (cases "m_minor m \<ge> 1 \<and> host_count (head_acc l m) \<noteq> 1")
        case True
        from E [unfolded if_P [OF True]] have "rejects 400 rs ?hc" .
        with True u s bad show ?thesis by (simp add: verdict_def)
      next
        case h: False
        show ?thesis
        proof (cases "body_declared_too_large (head_acc l m)")
          case True
          from E [unfolded if_not_P [OF h] if_P [OF True]] have "rejects 413 rs ?hc" .
          from bad [OF this] True u s h show ?thesis by (auto simp: verdict_def)
        next
          case d: False
          from E [unfolded if_not_P [OF h] if_not_P [OF d]] obtain oc where "?hc = (True, (at_body l rs m)\<lparr>owes_continue := oc, expecting_body := oc\<rparr>)" by blast
          then have t: "?r = on_events (tail_events m) ((at_body l rs m)\<lparr>owes_continue := oc, expecting_body := oc\<rparr>)"
            unfolding r by simp
          have v: "verdict l m = (if body_too_large l (length (concat (m_body m))) then Some 413
              else if m_trailers m \<noteq> [] \<and>
                 (headers_size (m_headers m) + headers_size (m_trailers m) > max_header_bytes l \<or>
                  length (m_headers m) \<ge> max_headers l) then Some 431 else None)"
            using u s h d unfolding verdict_def by (simp only: if_False simp_thms)
          show ?thesis using tail_outcome [OF assms, of l rs oc] unfolding v t
            by (simp only: option.case split: if_split) simp
        qed
      qed
    qed
  qed
qed

lemma msgs_outcome:
  assumes "\<forall>m\<in>set ms. msg_wf m \<and> verdict l m = None"
  shows "on_events (concat (map msg_events ms)) (idle_acc l rs) = (True, idle_acc l (rs @ map msg_request ms))"
  using assms
proof (induction ms arbitrary: rs)
  case (Cons m ms)
  then have "on_events (msg_events m) (idle_acc l rs) = (True, idle_acc l (rs @ [msg_request m]))"
    using msg_outcome [of m l rs] by simp
  then have "on_events (concat (map msg_events (m # ms))) (idle_acc l rs) =
      on_events (concat (map msg_events ms)) (idle_acc l (rs @ [msg_request m]))"
    by (simp add: on_events_go)
  with Cons show ?case by simp
qed simp

section \<open>Every sequence of callbacks\<close>

text \<open>What an accumulator holds for the message it is receiving, and its bound.\<close>

definition pairs_size :: "header list \<Rightarrow> nat" where
  "pairs_size hs = sum_list (map (\<lambda>(n, v). length n + length v) hs)"

definition retained :: "http_acc \<Rightarrow> nat" where
  "retained a = length (a_url a) + (pairs_size (a_headers a) + length (a_field a) + length (a_value a)) +
     length (a_body a)"

definition acc_bounded :: "limits \<Rightarrow> http_acc \<Rightarrow> bool" where
  "acc_bounded l a \<longleftrightarrow> a_limits a = l \<and> length (a_url a) \<le> max_url l \<and>
     pairs_size (a_headers a) + length (a_field a) + length (a_value a) \<le> min (header_bytes a) (max_header_bytes l) \<and>
     \<not> body_too_large l (length (a_body a))"

lemma acc_bounded_commit:
  assumes "acc_bounded l a"
  shows "acc_bounded l (commit_header a)"
  using assms by (auto simp: acc_bounded_def commit_header_def pairs_size_def Let_def)

lemma acc_bounded_event:
  assumes "acc_bounded l a"
  shows "acc_bounded l (snd (on_event ev a))"
proof (cases ev)
  case (Ev_field bs)
  from acc_bounded_commit [OF assms] show ?thesis
    by (auto simp: Ev_field on_header_field_def Let_def acc_fail_def acc_bounded_def min_def split: if_splits)
next
  case (Ev_headers_complete minor)
  from acc_bounded_commit [OF assms] show ?thesis
    by (auto simp: Ev_headers_complete on_headers_complete_def Let_def acc_fail_def acc_bounded_def)
next
  case (Ev_body bs)
  with assms show ?thesis
    by (auto simp: on_body_def acc_fail_def acc_bounded_def body_too_large_def split: option.splits)
qed (use assms in \<open>auto simp: on_message_begin_def on_url_def on_header_value_def Let_def acc_fail_def
      on_message_complete_def acc_bounded_def pairs_size_def body_too_large_def min_def
      split: option.splits if_splits\<close>)

lemma acc_bounded_events: "acc_bounded l a \<Longrightarrow> acc_bounded l (snd (on_events evs a))"
proof (induction evs arbitrary: a)
  case (Cons ev evs)
  obtain go b where e: "on_event ev a = (go, b)" by fastforce
  have "acc_bounded l b" using acc_bounded_event [OF Cons.prems, of ev] by (simp add: e)
  with Cons.IH show ?case by (simp add: e)
qed simp

lemma acc_bounded_new: "acc_bounded l (acc_new l)"
  by (simp add: acc_bounded_def acc_new_def pairs_size_def body_too_large_def split: option.split)

text \<open>An interim response is owed only while the body it is for is awaited, and once.\<close>

lemma owes_expecting:
  assumes "owes_continue a \<longrightarrow> expecting_body a"
  shows "owes_continue (snd (on_event ev a)) \<longrightarrow> expecting_body (snd (on_event ev a))"
proof -
  have c: "owes_continue (commit_header a) = owes_continue a" "expecting_body (commit_header a) = expecting_body a"
    by (simp_all add: commit_header_def Let_def)
  show ?thesis using assms c
    by (cases ev) (auto simp: on_message_begin_def on_url_def on_header_field_def on_header_value_def
        on_headers_complete_def on_body_def on_message_complete_def acc_fail_def Let_def)
qed

lemma owes_once:
  assumes "\<not> owes_continue a" "\<forall>ev\<in>set evs. \<forall>minor. ev \<noteq> Ev_headers_complete minor"
  shows "\<not> owes_continue (snd (on_events evs a))"
  using assms
proof (induction evs arbitrary: a)
  case (Cons ev evs)
  obtain go b where e: "on_event ev a = (go, b)" by fastforce
  have "owes_continue (commit_header a) = owes_continue a" by (simp add: commit_header_def Let_def)
  then have "\<not> owes_continue (snd (on_event ev a))" using Cons.prems
    by (cases ev) (auto simp: on_message_begin_def on_url_def on_header_field_def on_header_value_def
        on_body_def on_message_complete_def acc_fail_def Let_def)
  with Cons e show ?case by simp
qed simp

section \<open>The parser\<close>

fun feeds :: "(u8 list \<times> llhttp_run) list \<Rightarrow> http_parser \<Rightarrow>
    (parse_error + nat option) list \<times> http_parser" where
  "feeds [] p = ([], p)"
| "feeds ((data, run) # fs) p =
     (let (r, p) = feed data run p; (rs, p) = feeds fs p in (r # rs, p))"

lemma feeds_events:
  assumes "on_events (concat (map (ll_events \<circ> snd) fs)) (hacc p) = (True, a)" "\<not> upgraded p"
    and "\<forall>f\<in>set fs. ll_rc (snd f) = HPE_OK"
  shows "fst (feeds fs p) = replicate (length fs) (Inr None) \<and> hacc (snd (feeds fs p)) = a"
  using assms
proof (induction fs arbitrary: p)
  case (Cons f fs)
  obtain data run where f: "f = (data, run)" by fastforce
  obtain go b where e: "on_events (ll_events run) (hacc p) = (go, b)" by fastforce
  with Cons.prems(1) have go: "go" and r: "on_events (concat (map (ll_events \<circ> snd) fs)) b = (True, a)"
    by (auto simp: f on_events_append comp_def split: if_splits)
  let ?p = "p\<lparr>hacc := b, raw_version := ll_version run\<rparr>"
  have "feed data run p = (Inr None, ?p)"
    using Cons.prems(2,3) go e by (simp add: feed_def f HPE_OK_def HPE_PAUSED_UPGRADE_def)
  moreover have "fst (feeds fs ?p) = replicate (length fs) (Inr None) \<and> hacc (snd (feeds fs ?p)) = a"
    using Cons.IH [of ?p] Cons.prems(2,3) r by (simp add: comp_def)
  ultimately show ?case by (simp add: f split_beta)
qed simp

lemma acc_new_idle: "acc_new l = idle_acc l []"
  by (simp add: idle_acc_def acc_new_def)

text \<open>A small request: \<open>GET / HTTP/1.1\<close> with a host, its header split, and a trailer.\<close>

definition demo_msg :: http_msg where
  "demo_msg = \<lparr>m_url = [[47]], m_headers = [([ascii ''Ho'', ascii ''st''], [ascii ''h''])], m_minor = 1,
     m_body = [ascii ''hi''], m_trailers = [([ascii ''Host''], [ascii ''evil''])], m_method = ''POST'',
     m_keep_alive = True, m_upgrade = False\<rparr>"

lemma demo_headers: "map header_of (m_headers demo_msg) = [(ascii ''host'', ascii ''h'')]"
  by (simp add: demo_msg_def ascii_def ascii_lower_def)

lemma demo_ok: "msg_wf demo_msg" "verdict default_limits demo_msg = None"
proof -
  show "msg_wf demo_msg" by (simp add: msg_wf_def demo_msg_def)
  have "host_count (head_acc default_limits demo_msg) = 1"
    by (simp add: host_count_def head_acc_def demo_headers)
  moreover have "\<not> body_declared_too_large (head_acc default_limits demo_msg)"
    by (simp add: body_declared_too_large_def declared_content_length_def head_acc_def demo_headers ascii_def
        split: option.split)
  moreover have "\<not> body_too_large default_limits (length (concat (m_body demo_msg)))"
    by (simp add: body_too_large_def default_limits_def demo_msg_def ascii_def)
  ultimately show "verdict default_limits demo_msg = None"
    by (simp add: verdict_def) (simp add: demo_msg_def default_limits_def headers_size_def ascii_def)
qed

definition demo_run :: "http_event list \<Rightarrow> llhttp_run" where
  "demo_run evs = \<lparr>ll_events = evs, ll_rc = HPE_OK, ll_error_pos = 0, ll_version = (1, 1)\<rparr>"

section \<open>The theorems\<close>

text \<open>
  C9: the requests a connection delivers are exactly its messages.  For any pipelined messages
  within the limits, however the bytes are split into feeds and the pieces into callbacks, every
  feed succeeds and the queued requests are the messages' in order: URL and body the concatenated
  pieces, headers those of the head with lower-cased names.  So a trailer never becomes a header,
  and nothing of one message shows up in another.
\<close>

theorem http_requests_exact:
  assumes "\<forall>m\<in>set ms. msg_wf m \<and> verdict l m = None"
    and "concat (map (ll_events \<circ> snd) fs) = concat (map msg_events ms)"
    and "\<forall>f\<in>set fs. ll_rc (snd f) = HPE_OK"
  shows "fst (feeds fs (http_parser_new l)) = replicate (length fs) (Inr None) \<and>
    completed (hacc (snd (feeds fs (http_parser_new l)))) = map msg_request ms"
proof -
  let ?p = "http_parser_new l"
  have "on_events (concat (map (ll_events \<circ> snd) fs)) (hacc ?p) = (True, idle_acc l (map msg_request ms))"
    using msgs_outcome [OF assms(1), of "[]"] by (simp add: assms(2) http_parser_new_def acc_new_idle)
  moreover have "\<not> upgraded ?p" by (simp add: http_parser_new_def)
  ultimately show ?thesis using feeds_events assms(3) by (simp add: idle_acc_def)
qed

theorem http_requests_exact_witness:
  "completed (hacc (snd (feeds [([1, 2], demo_run (take 5 (msg_events demo_msg))),
       ([3], demo_run (drop 5 (msg_events demo_msg) @ msg_events demo_msg))]
     (http_parser_new default_limits)))) = [msg_request demo_msg, msg_request demo_msg] \<and>
   rq_headers (msg_request demo_msg) = [(ascii ''host'', ascii ''h'')]"
proof -
  let ?fs = "[([1, 2], demo_run (take 5 (msg_events demo_msg))),
       ([3], demo_run (drop 5 (msg_events demo_msg) @ msg_events demo_msg))]"
  have a: "\<forall>m\<in>set [demo_msg, demo_msg]. msg_wf m \<and> verdict default_limits m = None" using demo_ok by simp
  have b: "concat (map (ll_events \<circ> snd) ?fs) = concat (map msg_events [demo_msg, demo_msg])"
    by (simp add: demo_run_def)
  have c: "\<forall>f\<in>set ?fs. ll_rc (snd f) = HPE_OK" by (simp add: demo_run_def)
  from http_requests_exact [OF a b c] show ?thesis by (simp add: msg_request_def demo_headers)
qed

text \<open>
  C19: a message over a limit is refused with that limit's status.  If the messages before it are
  within the limits, the feed that delivers it fails with 414 for its URL, 431 for its headers or
  trailers, 400 for a missing or repeated Host, 413 for its declared or actual body, whichever
  comes first; the earlier requests stay available and the refused one is not.
\<close>

theorem http_limit_status:
  assumes "\<forall>m\<in>set ms. msg_wf m \<and> verdict l m = None" "msg_wf m" "verdict l m = Some st"
    and "ll_events run = concat (map msg_events ms) @ msg_events m @ rest"
  shows "\<exists>e p. feed data run (http_parser_new l) = (Inl e, p) \<and> err_status e = st \<and>
    completed (hacc p) = map msg_request ms \<and> st \<in> {400, 413, 414, 431}"
proof -
  have "on_events (ll_events run) (acc_new l) =
      on_events (msg_events m @ rest) (idle_acc l (map msg_request ms))"
    using msgs_outcome [OF assms(1), of "[]"] by (simp add: assms(4) on_events_go acc_new_idle)
  then have "rejects st (map msg_request ms) (on_events (ll_events run) (acc_new l))"
    using msg_outcome [OF assms(2), of l "map msg_request ms"] assms(3) by (simp add: rejects_append)
  then obtain a e where "on_events (ll_events run) (acc_new l) = (False, a)" "a_error a = Some e"
    "err_status e = st" "completed a = map msg_request ms"
    by (auto simp: rejects_def prod_eq_iff)
  moreover have "st \<in> {400, 413, 414, 431}" using assms(3) by (auto simp: verdict_def split: if_splits)
  ultimately show ?thesis
    by (simp add: feed_def http_parser_new_def HPE_USER_def HPE_OK_def HPE_PAUSED_UPGRADE_def)
qed

theorem http_limit_status_witness:
  "\<exists>e p. feed [] (demo_run (msg_events demo_msg @ msg_events (demo_msg\<lparr>m_headers := []\<rparr>)))
      (http_parser_new default_limits) = (Inl e, p) \<and> err_status e = 400 \<and>
    completed (hacc p) = [msg_request demo_msg]"
proof -
  let ?m = "demo_msg\<lparr>m_headers := []\<rparr>"
  have w: "msg_wf ?m" using demo_ok(1) by (simp add: msg_wf_def)
  have v: "verdict default_limits ?m = Some 400"
    by (simp add: verdict_def demo_msg_def default_limits_def headers_size_def host_count_def head_acc_def acc_new_def)
  have a: "\<forall>m\<in>set [demo_msg]. msg_wf m \<and> verdict default_limits m = None" using demo_ok by simp
  have r: "ll_events (demo_run (msg_events demo_msg @ msg_events ?m)) =
      concat (map msg_events [demo_msg]) @ msg_events ?m @ []" by (simp add: demo_run_def)
  from http_limit_status [OF a w v r, of "[]"] show ?thesis by auto
qed

text \<open>
  C20: what a connection holds for the request it is receiving is bounded by the limits.  After
  any sequence of callbacks, in whatever order llhttp makes them, the accumulated URL, headers
  and body take at most the URL, header and body limits together.
\<close>

theorem http_memory_bounded:
  assumes "max_body l = Some cap"
  shows "retained (snd (on_events evs (acc_new l))) \<le> max_url l + max_header_bytes l + cap"
proof -
  have "acc_bounded l (snd (on_events evs (acc_new l)))" by (rule acc_bounded_events [OF acc_bounded_new])
  with assms show ?thesis by (simp add: acc_bounded_def retained_def body_too_large_def)
qed

theorem http_memory_bounded_witness:
  "retained (snd (on_events [Ev_begin, Ev_url [47]] (acc_new default_limits))) \<le> 16850944"
  using http_memory_bounded [of default_limits "16 * 1024 * 1024" "[Ev_begin, Ev_url [47]]"]
  by (simp add: default_limits_def)

text \<open>
  After an upgrade no byte is parsed as HTTP any more.  When a feed reports an upgrade, the
  offset lies within the fed bytes, and every later feed leaves the parser as it is and gives all
  of its bytes to the upgraded protocol.
\<close>

theorem http_upgrade_final:
  assumes "feed data run p = (Inr (Some n), p')"
  shows "n \<le> length data \<and> feed data' run' p' = (Inr (Some 0), p')"
  using assms by (auto simp: feed_def Let_def split: prod.splits if_splits)

theorem http_upgrade_final_witness:
  "fst (feed [1, 2, 3] ((demo_run [])\<lparr>ll_rc := 22, ll_error_pos := 2\<rparr>) (http_parser_new default_limits)) =
     Inr (Some 2) \<and>
   fst (feed [4] (demo_run [Ev_begin]) (snd (feed [1, 2, 3] ((demo_run [])\<lparr>ll_rc := 22, ll_error_pos := 2\<rparr>)
     (http_parser_new default_limits)))) = Inr (Some 0)"
proof -
  obtain p' where e: "feed [1, 2, 3] ((demo_run [])\<lparr>ll_rc := 22, ll_error_pos := 2\<rparr>)
      (http_parser_new default_limits) = (Inr (Some 2), p')"
    by (simp add: feed_def demo_run_def http_parser_new_def HPE_PAUSED_UPGRADE_def)
  from http_upgrade_final [OF e, of "[4]" "demo_run [Ev_begin]"] show ?thesis unfolding e by simp
qed

end
