(* ===== verification/Rio_Util.thy ===== *)
theory Rio_Util
  imports Contracts
begin

text \<open>
  The RIO backend's bookkeeping (\<open>backend/rio_util.rs\<close>): which registered region holds a posted
  buffer, which send-staging slots are free, and how many completion-queue slots are reserved.
  A freelist is a vector used as a stack, its last element on top.  Region ends lie below
  \<open>2 ^ 64\<close> (the regions are allocations), so their sums do not wrap.
\<close>

section \<open>Registered regions\<close>

record region_entry =
  reg_base :: nat
  reg_len :: nat
  reg_cookie :: nat

type_synonym region_map = "region_entry list"

definition region_map_new :: region_map where
  "region_map_new = []"

definition region_insert :: "nat \<Rightarrow> nat \<Rightarrow> nat \<Rightarrow> region_map \<Rightarrow> bool \<times> region_map" where
  "region_insert base len cookie rs =
     (let at = partition_point (\<lambda>r. reg_base r < base) rs;
          overlaps_prev = (at > 0 \<and> reg_base (rs ! (at - 1)) + reg_len (rs ! (at - 1)) > base);
          overlaps_next = (at < length rs \<and> base + len > reg_base (rs ! at))
      in if overlaps_prev \<or> overlaps_next then (False, rs)
         else (True, list_insert_at at \<lparr>reg_base = base, reg_len = len, reg_cookie = cookie\<rparr> rs))"

fun remove_cookie :: "nat \<Rightarrow> region_map \<Rightarrow> bool \<times> region_map" where
  "remove_cookie c [] = (False, [])"
| "remove_cookie c (r # rs) =
     (if reg_cookie r = c then (True, rs)
      else (let (b, rs) = remove_cookie c rs in (b, r # rs)))"

definition region_resolve :: "nat \<Rightarrow> nat \<Rightarrow> region_map \<Rightarrow> (nat \<times> nat) option" where
  "region_resolve ptr len rs =
     (let at = partition_point (\<lambda>r. reg_base r \<le> ptr) rs
      in if at = 0 then None
         else
           (let r = rs ! (at - 1)
            in if ptr \<ge> reg_base r \<and> ptr + len \<le> reg_base r + reg_len r
               then Some (reg_cookie r, as_u32 (ptr - reg_base r)) else None))"

definition region_cookies :: "region_map \<Rightarrow> nat list" where
  "region_cookies rs = map reg_cookie rs"

section \<open>Send-staging slots\<close>

record staging =
  slots_per_region :: nat
  st_free :: "nat list"
  st_regions :: nat
  st_in_use :: nat

definition staging_new :: "nat \<Rightarrow> staging" where
  "staging_new n = \<lparr>slots_per_region = n, st_free = [], st_regions = 0, st_in_use = 0\<rparr>"

definition staging_add_region :: "staging \<Rightarrow> nat \<times> staging" where
  "staging_add_region s =
     (let region = st_regions s; base = as_u32 (region * slots_per_region s)
      in (region, s\<lparr>st_regions := as_u32 (region + 1),
            st_free := st_free s @ map (\<lambda>i. as_u32 (base + i)) (rev [0..<slots_per_region s])\<rparr>))"

definition staging_alloc :: "staging \<Rightarrow> (nat \<times> staging) option" where
  "staging_alloc s =
     (if st_free s = [] then None
      else Some (last (st_free s), s\<lparr>st_free := butlast (st_free s), st_in_use := as_u32 (st_in_use s + 1)\<rparr>))"

definition staging_free :: "nat \<Rightarrow> staging \<Rightarrow> staging" where
  "staging_free i s = s\<lparr>st_in_use := st_in_use s - 1, st_free := st_free s @ [i]\<rparr>"

definition staging_locate :: "nat \<Rightarrow> staging \<Rightarrow> nat \<times> nat" where
  "staging_locate i s = (i div slots_per_region s, i mod slots_per_region s)"

section \<open>Completion-queue capacity\<close>

record cq_ledger =
  cq_size :: nat
  cq_reserved :: nat
  cq_max :: nat

definition cq_new :: "nat \<Rightarrow> nat \<Rightarrow> cq_ledger" where
  "cq_new n cap = \<lparr>cq_size = n, cq_reserved = 0, cq_max = max cap n\<rparr>"

definition U32_MAX :: nat where "U32_MAX = 2 ^ 32 - 1"

text \<open>The growth loop: None when it does not end, \<open>Inl\<close> when even the cap is too small.\<close>

partial_function (option) cq_grow :: "nat \<Rightarrow> nat \<Rightarrow> nat \<Rightarrow> (unit + nat) option" where
  "cq_grow cap needed new_size =
     (if new_size < needed then
        (let new_size = min (min (new_size * 2) U32_MAX) cap
         in if new_size = cap \<and> new_size < needed then Some (Inl ()) else cq_grow cap needed new_size)
      else Some (Inr new_size))"

definition plan_reserve :: "nat \<Rightarrow> cq_ledger \<Rightarrow> (unit + nat option) option" where
  "plan_reserve n c =
     (let needed = cq_reserved c + n
      in if needed > U32_MAX then Some (Inl ())
         else if needed \<le> cq_size c then Some (Inr None)
         else map_option (map_sum id Some) (cq_grow (cq_max c) needed (max (cq_size c) 1)))"

definition cq_commit :: "nat \<Rightarrow> nat option \<Rightarrow> cq_ledger \<Rightarrow> cq_ledger" where
  "cq_commit n grown_to c =
     (let c = (case grown_to of None \<Rightarrow> c | Some s \<Rightarrow> c\<lparr>cq_size := s\<rparr>)
      in c\<lparr>cq_reserved := as_u32 (cq_reserved c + n)\<rparr>)"

definition cq_release :: "nat \<Rightarrow> cq_ledger \<Rightarrow> cq_ledger" where
  "cq_release n c = c\<lparr>cq_reserved := cq_reserved c - n\<rparr>"

section \<open>The region map is a set of disjoint intervals\<close>

definition rm_ok :: "region_map \<Rightarrow> bool" where
  "rm_ok rs \<longleftrightarrow> sorted_wrt (\<lambda>a b. reg_base a + reg_len a \<le> reg_base b) rs \<and> (\<forall>r\<in>set rs. 0 < reg_len r)"

text \<open>In a sorted list a bound on the bases holds for a prefix.\<close>

lemma prefix_split:
  assumes "sorted_wrt R xs" "\<And>a b. a \<in> set xs \<Longrightarrow> b \<in> set xs \<Longrightarrow> R a b \<Longrightarrow> P b \<Longrightarrow> P a"
  shows "i < length xs \<Longrightarrow> P (xs ! i) \<longleftrightarrow> i < partition_point P xs"
proof
  assume i: "i < length xs" and p: "P (xs ! i)"
  show "i < partition_point P xs"
  proof (rule ccontr)
    let ?k = "partition_point P xs"
    assume "\<not> i < ?k"
    then have k: "?k \<le> i" "?k < length xs" using i by simp_all
    have "\<not> P (xs ! ?k)" using partition_point_at k(2) .
    moreover have "P (xs ! ?k)"
    proof (cases "?k = i")
      case False
      then have "R (xs ! ?k) (xs ! i)" using assms(1) k i by (simp add: sorted_wrt_iff_nth_less)
      with assms(2) [of "xs ! ?k" "xs ! i"] k i p show ?thesis by simp
    qed (use p in simp)
    ultimately show False by blast
  qed
qed (rule partition_point_before)

lemma rm_base_prefix:
  assumes "rm_ok rs" "i < length rs"
  shows "reg_base (rs ! i) < x \<longleftrightarrow> i < partition_point (\<lambda>r. reg_base r < x) rs"
    "reg_base (rs ! i) \<le> x \<longleftrightarrow> i < partition_point (\<lambda>r. reg_base r \<le> x) rs"
proof -
  have s: "sorted_wrt (\<lambda>a b. reg_base a + reg_len a \<le> reg_base b) rs" using assms(1) by (simp add: rm_ok_def)
  show "reg_base (rs ! i) < x \<longleftrightarrow> i < partition_point (\<lambda>r. reg_base r < x) rs"
    "reg_base (rs ! i) \<le> x \<longleftrightarrow> i < partition_point (\<lambda>r. reg_base r \<le> x) rs"
    using prefix_split [OF s _ assms(2), where P = "\<lambda>r. reg_base r < x"]
      prefix_split [OF s _ assms(2), where P = "\<lambda>r. reg_base r \<le> x"] by auto
qed

lemma sorted_wrt_insert_at:
  assumes "sorted_wrt R xs" "\<And>i. i < k \<Longrightarrow> i < length xs \<Longrightarrow> R (xs ! i) x"
    "\<And>i. k \<le> i \<Longrightarrow> i < length xs \<Longrightarrow> R x (xs ! i)" "k \<le> length xs"
  shows "sorted_wrt R (list_insert_at k x xs)"
proof -
  have "sorted_wrt R (take k xs @ drop k xs)" using assms(1) by simp
  note p = this [unfolded sorted_wrt_append]
  have "\<forall>a\<in>set (take k xs). R a x" using assms(2,4) by (auto simp: in_set_conv_nth)
  moreover have "\<forall>b\<in>set (drop k xs). R x b" using assms(3) by (auto simp: in_set_conv_nth)
  ultimately show ?thesis using p unfolding list_insert_at_def sorted_wrt_append by auto
qed

definition apart :: "nat \<Rightarrow> nat \<Rightarrow> region_entry \<Rightarrow> bool" where
  "apart base len r \<longleftrightarrow> reg_base r + reg_len r \<le> base \<or> base + len \<le> reg_base r"

lemma region_insert_spec:
  assumes "rm_ok rs" "0 < len" "region_insert base len cookie rs = (ok, rs')"
  shows "ok \<longleftrightarrow> (\<forall>r\<in>set rs. apart base len r)" "rm_ok rs'"
    "set rs' = (if ok then insert \<lparr>reg_base = base, reg_len = len, reg_cookie = cookie\<rparr> (set rs) else set rs)"
proof -
  define k where "k = partition_point (\<lambda>r. reg_base r < base) rs"
  let ?new = "\<lparr>reg_base = base, reg_len = len, reg_cookie = cookie\<rparr>"
  let ?bad = "k > 0 \<and> reg_base (rs ! (k - 1)) + reg_len (rs ! (k - 1)) > base \<or>
      k < length rs \<and> base + len > reg_base (rs ! k)"
  have k: "k \<le> length rs" by (simp add: k_def)
  have lt: "reg_base (rs ! i) < base \<longleftrightarrow> i < k" if "i < length rs" for i
    using rm_base_prefix(1) [OF assms(1) that] by (simp add: k_def)
  have ord: "reg_base (rs ! i) + reg_len (rs ! i) \<le> reg_base (rs ! j)" if "i < j" "j < length rs" for i j
    using assms(1) that by (simp add: rm_ok_def sorted_wrt_iff_nth_less)
  have pos: "0 < reg_len (rs ! i)" if "i < length rs" for i using assms(1) that by (simp add: rm_ok_def)
  have e: "(ok, rs') = (if ?bad then (False, rs) else (True, list_insert_at k ?new rs))"
    using assms(3) [symmetric] unfolding region_insert_def k_def [symmetric] Let_def .
  have before: "reg_base (rs ! i) + reg_len (rs ! i) \<le> base" if "\<not> ?bad" "i < k" for i
  proof (cases "i = k - 1")
    case False
    with that have "i < k - 1" "k - 1 < length rs" using k by auto
    from ord [OF this] lt [of "k - 1"] that k show ?thesis by simp
  qed (use that in auto)
  have after: "base + len \<le> reg_base (rs ! i)" if "\<not> ?bad" "k \<le> i" "i < length rs" for i
  proof (cases "i = k")
    case False
    then have "k < i" using that by simp
    from ord [OF this that(3)] that show ?thesis by auto
  qed (use that in auto)
  have all: "(\<forall>r\<in>set rs. apart base len r) \<longleftrightarrow> \<not> ?bad"
  proof
    assume a: "\<forall>r\<in>set rs. apart base len r"
    have "reg_base (rs ! (k - 1)) + reg_len (rs ! (k - 1)) \<le> base" if "k > 0"
    proof -
      have i: "k - 1 < length rs" using that k by simp
      have "reg_base (rs ! (k - 1)) < base" using lt [OF i] that by simp
      moreover have "apart base len (rs ! (k - 1))" using a i by simp
      ultimately show ?thesis by (auto simp: apart_def)
    qed
    moreover have "base + len \<le> reg_base (rs ! k)" if "k < length rs"
    proof -
      have "reg_base (rs ! k) \<ge> base" using lt [OF that] by simp
      moreover have "apart base len (rs ! k)" using a that by simp
      ultimately show ?thesis using pos [OF that] by (auto simp: apart_def)
    qed
    ultimately show "\<not> ?bad" by auto
  next
    assume "\<not> ?bad"
    with before after show "\<forall>r\<in>set rs. apart base len r"
      by (auto simp: apart_def in_set_conv_nth) (metis linorder_not_less)
  qed
  with e show "ok \<longleftrightarrow> (\<forall>r\<in>set rs. apart base len r)" by (auto split: if_splits)
  show "set rs' = (if ok then insert ?new (set rs) else set rs)" using e by (auto split: if_splits)
  show "rm_ok rs'"
  proof (cases "?bad")
    case True
    with e assms(1) show ?thesis by (auto split: if_splits)
  next
    case False
    then have rs': "rs' = list_insert_at k ?new rs" using e [unfolded if_not_P [OF False]] by simp
    have "sorted_wrt (\<lambda>a b. reg_base a + reg_len a \<le> reg_base b) (list_insert_at k ?new rs)"
      using assms(1) before [OF False] after [OF False] k
      by (intro sorted_wrt_insert_at) (auto simp: rm_ok_def)
    with rs' assms(1,2) show ?thesis by (auto simp: rm_ok_def)
  qed
qed

lemma region_resolve_spec:
  assumes "rm_ok rs" "0 < len"
  shows "region_resolve ptr len rs = Some (c, off) \<longleftrightarrow>
    (\<exists>r\<in>set rs. reg_base r \<le> ptr \<and> ptr + len \<le> reg_base r + reg_len r \<and>
       c = reg_cookie r \<and> off = as_u32 (ptr - reg_base r))"
proof -
  define k where "k = partition_point (\<lambda>r. reg_base r \<le> ptr) rs"
  have k: "k \<le> length rs" by (simp add: k_def)
  have le: "reg_base (rs ! i) \<le> ptr \<longleftrightarrow> i < k" if "i < length rs" for i
    using rm_base_prefix(2) [OF assms(1) that] by (simp add: k_def)
  have e: "region_resolve ptr len rs = (if k = 0 then None
      else if ptr \<ge> reg_base (rs ! (k - 1)) \<and> ptr + len \<le> reg_base (rs ! (k - 1)) + reg_len (rs ! (k - 1))
           then Some (reg_cookie (rs ! (k - 1)), as_u32 (ptr - reg_base (rs ! (k - 1)))) else None)"
    unfolding region_resolve_def k_def [symmetric] Let_def ..
  have last: "i = k - 1" if "i < length rs" "reg_base (rs ! i) \<le> ptr" "ptr + len \<le> reg_base (rs ! i) + reg_len (rs ! i)" for i
  proof (rule ccontr)
    assume "i \<noteq> k - 1"
    with le [OF that(1)] that(2) have i: "i < k - 1" "k - 1 < length rs" using k by auto
    then have "reg_base (rs ! i) + reg_len (rs ! i) \<le> reg_base (rs ! (k - 1))"
      using assms(1) by (simp add: rm_ok_def sorted_wrt_iff_nth_less)
    moreover have "reg_base (rs ! (k - 1)) \<le> ptr" using le [OF i(2)] i by simp
    ultimately show False using that(3) assms(2) by simp
  qed
  show ?thesis
  proof
    assume a: "region_resolve ptr len rs = Some (c, off)"
    then have k0: "k > 0" "k - 1 < length rs" using k unfolding e by (auto split: if_splits)
    then have "rs ! (k - 1) \<in> set rs" by simp
    with a show "\<exists>r\<in>set rs. reg_base r \<le> ptr \<and> ptr + len \<le> reg_base r + reg_len r \<and>
       c = reg_cookie r \<and> off = as_u32 (ptr - reg_base r)"
      unfolding e by (intro bexI [of _ "rs ! (k - 1)"]) (auto split: if_splits)
  next
    assume "\<exists>r\<in>set rs. reg_base r \<le> ptr \<and> ptr + len \<le> reg_base r + reg_len r \<and>
       c = reg_cookie r \<and> off = as_u32 (ptr - reg_base r)"
    then obtain i where i: "i < length rs" "reg_base (rs ! i) \<le> ptr"
      "ptr + len \<le> reg_base (rs ! i) + reg_len (rs ! i)" "c = reg_cookie (rs ! i)"
      "off = as_u32 (ptr - reg_base (rs ! i))" by (auto simp: in_set_conv_nth)
    have "i = k - 1" "k > 0" using last [OF i(1,2,3)] le [OF i(1)] i(2) by auto
    with i show "region_resolve ptr len rs = Some (c, off)" unfolding e by simp
  qed
qed

lemma remove_cookie_subset: "set (snd (remove_cookie c rs)) \<subseteq> set rs"
  by (induction rs) (auto simp: split_beta)

lemma remove_cookie_ok: "rm_ok rs \<Longrightarrow> rm_ok (snd (remove_cookie c rs))"
proof (induction rs)
  case (Cons r rs)
  then have ih: "rm_ok (snd (remove_cookie c rs))" by (simp add: rm_ok_def)
  with Cons.prems remove_cookie_subset [of c rs] show ?case
    by (auto simp: rm_ok_def split_beta)
qed simp

lemma remove_cookie_set:
  assumes "distinct (region_cookies rs)"
  shows "set (snd (remove_cookie c rs)) = {r \<in> set rs. reg_cookie r \<noteq> c}"
    "fst (remove_cookie c rs) \<longleftrightarrow> c \<in> set (region_cookies rs)"
    "distinct (region_cookies (snd (remove_cookie c rs)))"
proof -
  have "set (snd (remove_cookie c rs)) = {r \<in> set rs. reg_cookie r \<noteq> c} \<and>
      (fst (remove_cookie c rs) \<longleftrightarrow> c \<in> set (region_cookies rs)) \<and>
      distinct (region_cookies (snd (remove_cookie c rs)))"
    using assms
  proof (induction rs)
    case (Cons r rs)
    have n: "reg_cookie r \<notin> reg_cookie ` set rs" "distinct (region_cookies rs)"
      using Cons.prems by (simp_all add: region_cookies_def)
    have d: "distinct (region_cookies rs)" by (rule n)
    have fr: "\<forall>x\<in>set rs. reg_cookie x \<noteq> reg_cookie r" using n(1) by (metis imageI)
    from Cons.IH [OF d] n fr show ?case
      by (auto simp: region_cookies_def split_beta)
  qed (simp add: region_cookies_def)
  then show "set (snd (remove_cookie c rs)) = {r \<in> set rs. reg_cookie r \<noteq> c}"
    "fst (remove_cookie c rs) \<longleftrightarrow> c \<in> set (region_cookies rs)"
    "distinct (region_cookies (snd (remove_cookie c rs)))" by blast+
qed

text \<open>The maps a run of registrations and deregistrations can reach.\<close>

inductive rm_run :: "region_map \<Rightarrow> bool" where
  rm_new: "rm_run region_map_new"
| rm_ins: "rm_run rs \<Longrightarrow> 0 < len \<Longrightarrow> rm_run (snd (region_insert base len c rs))"
| rm_del: "rm_run rs \<Longrightarrow> rm_run (snd (remove_cookie c rs))"

lemma rm_run_ok: "rm_run rs \<Longrightarrow> rm_ok rs"
proof (induction rule: rm_run.induct)
  case rm_new
  then show ?case by (simp add: rm_ok_def region_map_new_def)
next
  case (rm_ins rs len base c)
  obtain ok rs' where "region_insert base len c rs = (ok, rs')" by fastforce
  with region_insert_spec(2) [OF rm_ins.IH rm_ins.hyps(2) this] show ?case by simp
qed (simp add: remove_cookie_ok)

section \<open>Staging slots are handed out once\<close>

definition staging_slots :: "staging \<Rightarrow> nat" where
  "staging_slots s = st_regions s * slots_per_region s"

definition staging_ok :: "staging \<Rightarrow> bool" where
  "staging_ok s \<longleftrightarrow> 0 < slots_per_region s \<and> staging_slots s < 2 ^ 32 \<and> distinct (st_free s) \<and>
     set (st_free s) \<subseteq> {..<staging_slots s} \<and> st_in_use s + length (st_free s) = staging_slots s"

definition staging_live :: "staging \<Rightarrow> nat set" where
  "staging_live s = {..<staging_slots s} - set (st_free s)"

lemma staging_new_ok: "0 < n \<Longrightarrow> staging_ok (staging_new n)" "staging_live (staging_new n) = {}"
  by (simp_all add: staging_ok_def staging_new_def staging_slots_def staging_live_def)

lemma staging_add_region_ok:
  assumes "staging_ok s" "staging_slots s + slots_per_region s < 2 ^ 32"
  shows "staging_ok (snd (staging_add_region s))" "staging_live (snd (staging_add_region s)) = staging_live s"
    "fst (staging_add_region s) = st_regions s" "\<exists>i s'. staging_alloc (snd (staging_add_region s)) = Some (i, s')"
proof -
  let ?n = "slots_per_region s" and ?s = "snd (staging_add_region s)"
  have pos: "0 < ?n" using assms(1) by (simp add: staging_ok_def)
  have sl: "st_regions s * ?n + ?n < 2 ^ 32" using assms(2) by (simp add: staging_slots_def)
  have base: "as_u32 (st_regions s * ?n) = staging_slots s" using sl by (simp add: staging_slots_def)
  have "(st_regions s + 1) * 1 \<le> (st_regions s + 1) * ?n" using pos by (intro mult_le_mono2) simp
  then have rg: "as_u32 (st_regions s + 1) = st_regions s + 1" using sl by simp
  have m: "map (\<lambda>i. as_u32 (staging_slots s + i)) (rev [0..<?n]) = rev [staging_slots s..<staging_slots s + ?n]"
  proof -
    have "map (\<lambda>i. as_u32 (staging_slots s + i)) [0..<?n] = map (\<lambda>i. i + staging_slots s) [0..<?n]"
      using assms(2) by (intro map_cong) (auto simp: add.commute)
    then show ?thesis by (simp add: rev_map [symmetric] map_add_upt add.commute)
  qed
  have e: "?s = s\<lparr>st_regions := st_regions s + 1,
      st_free := st_free s @ rev [staging_slots s..<staging_slots s + ?n]\<rparr>"
    unfolding staging_add_region_def Let_def base rg m by simp
  have f: "st_free ?s = st_free s @ rev [staging_slots s..<staging_slots s + ?n]"
    "staging_slots ?s = staging_slots s + ?n" "slots_per_region ?s = ?n" "st_in_use ?s = st_in_use s"
    unfolding e by (simp_all add: staging_slots_def add.commute)
  show "staging_ok ?s" using assms by (auto simp: staging_ok_def f)
  show "staging_live ?s = staging_live s"
    using assms(1) by (auto simp: staging_live_def staging_ok_def f)
  show "fst (staging_add_region s) = st_regions s" by (simp add: staging_add_region_def Let_def)
  have "st_free ?s \<noteq> []" using pos by (simp add: f)
  then show "\<exists>i s'. staging_alloc ?s = Some (i, s')" by (simp add: staging_alloc_def)
qed

lemma staging_alloc_spec:
  assumes "staging_ok s" "staging_alloc s = Some (i, s')"
  shows "staging_ok s' \<and> i \<notin> staging_live s \<and> staging_live s' = insert i (staging_live s)"
proof -
  from assms(2) have ne: "st_free s \<noteq> []" and i: "i = last (st_free s)"
    and s': "s' = s\<lparr>st_free := butlast (st_free s), st_in_use := as_u32 (st_in_use s + 1)\<rparr>"
    by (auto simp: staging_alloc_def split: if_splits)
  define b where "b = butlast (st_free s)"
  have f: "st_free s = b @ [i]" using ne i by (simp add: b_def)
  have ok: "distinct (b @ [i])" "set (b @ [i]) \<subseteq> {..<staging_slots s}"
    "st_in_use s + length (b @ [i]) = staging_slots s" "staging_slots s < 2 ^ 32" "0 < slots_per_region s"
    using assms(1) unfolding staging_ok_def f by simp_all
  have u: "as_u32 (st_in_use s + 1) = st_in_use s + 1" using ok by simp
  have sl: "staging_slots s' = staging_slots s" "st_free s' = b" "st_in_use s' = st_in_use s + 1"
    "slots_per_region s' = slots_per_region s" using u by (simp_all add: s' staging_slots_def b_def)
  have "staging_ok s'" using ok by (auto simp: staging_ok_def sl)
  moreover have "i \<notin> staging_live s" by (simp add: staging_live_def f)
  moreover have "staging_live s' = insert i (staging_live s)"
    using ok by (auto simp: staging_live_def sl f)
  ultimately show ?thesis by blast
qed

lemma staging_free_spec:
  assumes "staging_ok s" "i \<in> staging_live s"
  shows "staging_ok (staging_free i s) \<and> staging_live (staging_free i s) = staging_live s - {i}"
proof -
  have i: "i < staging_slots s" "i \<notin> set (st_free s)" using assms(2) by (simp_all add: staging_live_def)
  have ok: "distinct (st_free s)" "set (st_free s) \<subseteq> {..<staging_slots s}"
    "st_in_use s + length (st_free s) = staging_slots s" "staging_slots s < 2 ^ 32" "0 < slots_per_region s"
    using assms(1) by (simp_all add: staging_ok_def)
  have "card (insert i (set (st_free s))) \<le> card {..<staging_slots s}" using i ok by (intro card_mono) auto
  then have "length (st_free s) < staging_slots s" using i ok(1) by (simp add: distinct_card)
  then have "0 < st_in_use s" using ok(3) by linarith
  moreover have sl: "staging_slots (staging_free i s) = staging_slots s"
    "st_free (staging_free i s) = st_free s @ [i]" "st_in_use (staging_free i s) = st_in_use s - 1"
    "slots_per_region (staging_free i s) = slots_per_region s"
    by (simp_all add: staging_free_def staging_slots_def)
  ultimately have "staging_ok (staging_free i s)" using i ok by (auto simp: staging_ok_def sl)
  moreover have "staging_live (staging_free i s) = staging_live s - {i}" by (auto simp: staging_live_def sl)
  ultimately show ?thesis by blast
qed

interpretation staging: id_allocator staging_ok staging_live staging_alloc "\<lambda>_ _. True" staging_free
  by unfold_locales (use staging_alloc_spec staging_free_spec in blast)+

text \<open>A slot's place in its region determines it.\<close>

lemma staging_locate_exact:
  assumes "staging_ok s" "i < staging_slots s"
  shows "fst (staging_locate i s) < st_regions s" "snd (staging_locate i s) < slots_per_region s"
    "i = fst (staging_locate i s) * slots_per_region s + snd (staging_locate i s)"
  using assms by (simp_all add: staging_locate_def staging_ok_def staging_slots_def less_mult_imp_div_less)

section \<open>Completion-queue reservations\<close>

definition cq_ok :: "cq_ledger \<Rightarrow> bool" where
  "cq_ok c \<longleftrightarrow> cq_reserved c \<le> cq_size c \<and> cq_size c \<le> cq_max c \<and> 0 < cq_max c \<and> cq_max c \<le> U32_MAX"

text \<open>From a positive size the loop ends, within the cap, at less than twice what is needed.\<close>

lemma cq_grow_total:
  assumes "0 < n" "n \<le> cap" "cap \<le> U32_MAX"
  shows "\<exists>r. cq_grow cap needed n = Some r \<and>
    (case r of Inl _ \<Rightarrow> cap < needed
     | Inr m \<Rightarrow> needed \<le> m \<and> m \<le> cap \<and> (m = n \<or> m < 2 * needed))"
  using assms
proof (induction "cap - n" arbitrary: n rule: less_induct)
  case less
  show ?case
  proof (cases "n < needed")
    case False
    then show ?thesis using less.prems by (subst cq_grow.simps) simp
  next
    case True
    define m where "m = min (min (n * 2) U32_MAX) cap"
    have m: "m = min (n * 2) cap" using less.prems(3) by (simp add: m_def min_def)
    have g: "cq_grow cap needed n = (if m = cap \<and> m < needed then Some (Inl ()) else cq_grow cap needed m)"
      using True by (subst cq_grow.simps) (simp add: m_def Let_def)
    show ?thesis
    proof (cases "m = cap \<and> m < needed")
      case True
      then show ?thesis unfolding g by (intro exI [of _ "Inl ()"]) auto
    next
      case stop: False
      show ?thesis
      proof (cases "n = cap")
        case True
        then have "m = cap" using m by simp
        with stop True \<open>n < needed\<close> show ?thesis by simp
      next
        case False
        then have lt: "cap - m < cap - n" "0 < m" "m \<le> cap" using m less.prems by (auto simp: min_def)
        from less.hyps [OF lt less.prems(3)] obtain r where r: "cq_grow cap needed m = Some r"
          "case r of Inl _ \<Rightarrow> cap < needed | Inr k \<Rightarrow> needed \<le> k \<and> k \<le> cap \<and> (k = m \<or> k < 2 * needed)" by blast
        have "m < 2 * needed" using m True by (auto simp: min_def)
        with r stop show ?thesis unfolding g by (intro exI [of _ r]) (auto split: sum.splits)
      qed
    qed
  qed
qed

lemma plan_reserve_spec:
  assumes "cq_ok c"
  shows "\<exists>r. plan_reserve n c = Some r \<and>
    (case r of
       Inl _ \<Rightarrow> cq_max c < cq_reserved c + n
     | Inr None \<Rightarrow> cq_reserved c + n \<le> cq_size c
     | Inr (Some s) \<Rightarrow> cq_size c < cq_reserved c + n \<and> cq_reserved c + n \<le> s \<and> s \<le> cq_max c \<and>
         s < 2 * (cq_reserved c + n))"
proof -
  let ?needed = "cq_reserved c + n" and ?n0 = "max (cq_size c) 1"
  have c: "cq_size c \<le> cq_max c" "0 < cq_max c" "cq_max c \<le> U32_MAX" using assms by (simp_all add: cq_ok_def)
  consider "?needed > U32_MAX" | "?needed \<le> U32_MAX" "?needed \<le> cq_size c"
    | "?needed \<le> U32_MAX" "cq_size c < ?needed" by linarith
  then show ?thesis
  proof cases
    case 3
    have "0 < ?n0" "?n0 \<le> cq_max c" using c by auto
    from cq_grow_total [OF this c(3), of ?needed] obtain r where
      r: "cq_grow (cq_max c) ?needed ?n0 = Some r" "case r of Inl _ \<Rightarrow> cq_max c < ?needed
        | Inr m \<Rightarrow> ?needed \<le> m \<and> m \<le> cq_max c \<and> (m = ?n0 \<or> m < 2 * ?needed)" by blast
    have "plan_reserve n c = Some (map_sum id Some r)"
      using 3 r(1) by (simp add: plan_reserve_def Let_def)
    moreover have "?n0 < 2 * ?needed" using 3 by auto
    ultimately show ?thesis using r(2) 3(2) by (cases r) auto
  qed (use c in \<open>simp_all add: plan_reserve_def Let_def\<close>)
qed

text \<open>A run of the ledger: reservations as planned, and releases.\<close>

inductive cq_run :: "cq_ledger \<Rightarrow> cq_ledger \<Rightarrow> bool" where
  cq_start: "cq_run c c"
| cq_reserve: "cq_run c c1 \<Longrightarrow> plan_reserve n c1 = Some (Inr g) \<Longrightarrow> cq_run c (cq_commit n g c1)"
| cq_free: "cq_run c c1 \<Longrightarrow> cq_run c (cq_release n c1)"

lemma cq_run_ok: "cq_run c c' \<Longrightarrow> cq_ok c \<Longrightarrow> cq_ok c' \<and> cq_max c' = cq_max c"
proof (induction rule: cq_run.induct)
  case (cq_reserve c c1 n g)
  then have ok: "cq_ok c1" "cq_max c1 = cq_max c" by blast+
  from plan_reserve_spec [OF ok(1), of n] cq_reserve.hyps(2) have
    "case g of None \<Rightarrow> cq_reserved c1 + n \<le> cq_size c1
     | Some s \<Rightarrow> cq_reserved c1 + n \<le> s \<and> s \<le> cq_max c1" by (auto split: option.splits)
  with ok show ?case
    by (cases g) (auto simp: cq_commit_def cq_ok_def U32_MAX_def)
qed (auto simp: cq_release_def cq_ok_def)

section \<open>The theorems\<close>

text \<open>
  A posted buffer resolves to the region that holds it, and only then.  In every region map
  that registrations and deregistrations reach, the lookup of a non-empty buffer gives a cookie
  and an offset exactly if one registered region contains the whole buffer, and then that
  region's cookie and the buffer's offset in it; regions of at most 4 GiB keep the offset exact.
\<close>

theorem region_resolve_exact:
  assumes "rm_run rs" "0 < len"
  shows "region_resolve ptr len rs = Some (c, off) \<longleftrightarrow>
    (\<exists>r\<in>set rs. reg_base r \<le> ptr \<and> ptr + len \<le> reg_base r + reg_len r \<and>
       c = reg_cookie r \<and> off = (ptr - reg_base r) mod 2 ^ 32)"
  using region_resolve_spec [OF rm_run_ok [OF assms(1)] assms(2)] by (simp add: as_u32_def)

definition two_regions :: region_map where
  "two_regions = snd (region_insert 0x4000 0x2000 9 (snd (region_insert 0x1000 0x1000 7 region_map_new)))"

theorem region_resolve_exact_witness:
  "region_resolve 0x1800 0x100 two_regions = Some (7, 0x800) \<and>
   region_resolve 0x1fff 2 two_regions \<noteq> Some (7, 0xfff)"
proof -
  have e: "two_regions = [\<lparr>reg_base = 0x1000, reg_len = 0x1000, reg_cookie = 7\<rparr>,
      \<lparr>reg_base = 0x4000, reg_len = 0x2000, reg_cookie = 9\<rparr>]"
    by (simp add: two_regions_def region_insert_def partition_point_def list_insert_at_def region_map_new_def)
  have "rm_run two_regions" unfolding two_regions_def by (intro rm_run.intros) simp_all
  from region_resolve_exact [OF this, of "0x100" "0x1800" 7 "0x800"]
    region_resolve_exact [OF this, of 2 "0x1fff" 7 "0xfff"] show ?thesis by (simp add: e)
qed

text \<open>
  Planning a reservation always ends, and decides exactly.  From every ledger a run reaches,
  the growth loop terminates; the plan is refused exactly if the cap cannot hold the reservation,
  needs no growth exactly if the queue already can, and otherwise grows to a size that fits,
  within the cap and below twice what is needed.
\<close>

theorem plan_reserve_decides:
  assumes "0 < max cap n0" "max cap n0 \<le> U32_MAX" "cq_run (cq_new n0 cap) c"
  shows "\<exists>r. plan_reserve n c = Some r \<and>
    (r = Inl () \<longleftrightarrow> max cap n0 < cq_reserved c + n) \<and>
    (r = Inr None \<longleftrightarrow> cq_reserved c + n \<le> cq_size c) \<and>
    (\<forall>s. r = Inr (Some s) \<longrightarrow> cq_reserved c + n \<le> s \<and> s \<le> max cap n0 \<and> s < 2 * (cq_reserved c + n))"
proof -
  have "cq_ok (cq_new n0 cap)" using assms(1,2) by (simp add: cq_ok_def cq_new_def)
  from cq_run_ok [OF assms(3) this] have c: "cq_ok c" "cq_max c = max cap n0" by (simp_all add: cq_new_def)
  have le: "cq_size c \<le> max cap n0" using c by (simp add: cq_ok_def)
  from plan_reserve_spec [OF c(1), of n] obtain r where r: "plan_reserve n c = Some r"
    "case r of Inl _ \<Rightarrow> max cap n0 < cq_reserved c + n
       | Inr None \<Rightarrow> cq_reserved c + n \<le> cq_size c
       | Inr (Some s) \<Rightarrow> cq_size c < cq_reserved c + n \<and> cq_reserved c + n \<le> s \<and> s \<le> max cap n0 \<and>
         s < 2 * (cq_reserved c + n)" unfolding c(2) by blast
  show ?thesis
    by (intro exI [of _ r]) (use r le in \<open>auto split: sum.splits option.splits\<close>)
qed

theorem plan_reserve_decides_witness:
  "plan_reserve 1 (cq_commit 64 None (cq_new 64 256)) = Some (Inr (Some 128)) \<and>
   (\<exists>r. plan_reserve 200 (cq_commit 64 None (cq_new 64 256)) = Some r \<and> r = Inl ())"
proof -
  have r: "cq_run (cq_new 64 256) (cq_commit 64 None (cq_new 64 256))"
    by (rule cq_reserve [OF cq_start]) (simp add: plan_reserve_def cq_new_def U32_MAX_def)
  have c: "0 < max (256::nat) 64" "max (256::nat) 64 \<le> U32_MAX" by (simp_all add: U32_MAX_def)
  have "plan_reserve 1 (cq_commit 64 None (cq_new 64 256)) = Some (Inr (Some 128))"
    by (simp add: plan_reserve_def cq_commit_def cq_new_def U32_MAX_def cq_grow.simps)
  with plan_reserve_decides [OF c r, of 200] show ?thesis
    by (auto simp: cq_commit_def cq_new_def)
qed

end
