(* ===== verification/Iocp_Util.thy ===== *)
theory Iocp_Util
  imports Backend
begin

text \<open>
  The platform-independent logic of the IOCP backend (\<open>backend/iocp_util.rs\<close>): NTSTATUS codes,
  AFD poll events, the quarantine of slots retired without a port completion, the pool of recycled
  sockets, and the retrying lazy initialiser.  The completion port the quarantine is a defence
  against is the kernel's: \<open>Iocp_Props\<close> states what the code relies on as a FIFO machine.
\<close>

section \<open>NTSTATUS\<close>

definition STATUS_SUCCESS :: u32 where "STATUS_SUCCESS = 0"
definition STATUS_PENDING :: u32 where "STATUS_PENDING = 0x103"
definition STATUS_BUFFER_OVERFLOW :: u32 where "STATUS_BUFFER_OVERFLOW = 0x80000005"
definition STATUS_CANCELLED :: u32 where "STATUS_CANCELLED = 0xC0000120"
definition STATUS_PIPE_BROKEN :: u32 where "STATUS_PIPE_BROKEN = 0xC000014B"

text \<open>An \<open>i32\<close> status is its 32 bits; \<open>nt_success\<close> reads them as signed.\<close>

definition nt_success :: "u32 \<Rightarrow> bool" where
  "nt_success st \<longleftrightarrow> sint st \<ge> 0"

definition nt_error :: "u32 \<Rightarrow> bool" where
  "nt_error st \<longleftrightarrow> drop_bit 30 st = 3"

definition overlapped_status :: "u64 \<Rightarrow> u32" where
  "overlapped_status internal = ucast internal"

definition WSA_OPERATION_ABORTED :: nat where "WSA_OPERATION_ABORTED = 995"

definition wsa_table :: "(u32 list \<times> nat) list" where
  "wsa_table =
     [([0xC0000008, 0xC0000024], 10038),
      ([0xC000009A, 0xC0000007, 0xC000012D, 0xC00000A1, 0xC0000017, 0xC0000044, 0xC0000097, 0xC000013D], 10055),
      ([0xC0000209, 0xC0000043, 0xC000020A], 10048),
      ([0xC000013F, 0xC00000B5], 10060),
      ([0xC0000237], 10101),
      ([0xC000013C, 0xC000020D, 0xC000013E, 0xC000020C, 0xC000023F, 0xC000A012], 10054),
      ([0xC000013B, 0xC000020F, 0xC0000241], 10053),
      ([0xC00000BE, 0xC000023C, 0xC000023E], 10051),
      ([0xC000023D], 10065),
      ([0xC0000120, 0xC0000240], WSA_OPERATION_ABORTED),
      ([0x80000005, 0xC0000206], 10040),
      ([0xC0000023, 0xC0000005], 10014),
      ([0xC00000A3, 0xC00000D0], 10035),
      ([0xC00000C3, 0xC00000BF, 0xC000000E, 0xC000000F, 0xC000003A, 0xC0000034, 0xC00000C4], 10050),
      ([0xC0000140], 10057),
      ([0xC00000BC, 0xC0000236], 10061),
      ([0xC00000B0], 10058),
      ([0xC0000018, 0xC0000141, 0xC0000207], 10049),
      ([0xC00000BB, 0xC0000002], 10045),
      ([0xC0000022], 10013)]"

definition ntstatus_to_wsa :: "u32 \<Rightarrow> nat option" where
  "ntstatus_to_wsa st = map_option snd (find (\<lambda>(sts, c). st \<in> set sts) wsa_table)"

section \<open>AFD poll\<close>

definition IOCTL_AFD_POLL :: u32 where "IOCTL_AFD_POLL = 0x00012024"
definition AFD_POLL_RECEIVE :: u32 where "AFD_POLL_RECEIVE = 0x0001"
definition AFD_POLL_SEND :: u32 where "AFD_POLL_SEND = 0x0004"
definition AFD_POLL_DISCONNECT :: u32 where "AFD_POLL_DISCONNECT = 0x0008"
definition AFD_POLL_ABORT :: u32 where "AFD_POLL_ABORT = 0x0010"
definition AFD_POLL_LOCAL_CLOSE :: u32 where "AFD_POLL_LOCAL_CLOSE = 0x0020"
definition AFD_POLL_ACCEPT :: u32 where "AFD_POLL_ACCEPT = 0x0080"
definition AFD_POLL_CONNECT_FAIL :: u32 where "AFD_POLL_CONNECT_FAIL = 0x0100"

definition AFD_READ :: u32 where
  "AFD_READ = AFD_POLL_RECEIVE OR AFD_POLL_DISCONNECT OR AFD_POLL_ACCEPT OR AFD_POLL_ABORT OR
     AFD_POLL_CONNECT_FAIL"

definition AFD_WRITE :: u32 where
  "AFD_WRITE = AFD_POLL_SEND OR AFD_POLL_ABORT OR AFD_POLL_CONNECT_FAIL"

lemmas afd_flags = AFD_READ_def AFD_WRITE_def AFD_POLL_RECEIVE_def AFD_POLL_SEND_def
  AFD_POLL_DISCONNECT_def AFD_POLL_ABORT_def AFD_POLL_LOCAL_CLOSE_def AFD_POLL_ACCEPT_def
  AFD_POLL_CONNECT_FAIL_def

definition afd_poll_events :: "bool \<Rightarrow> bool \<Rightarrow> u32" where
  "afd_poll_events r w =
     AFD_POLL_LOCAL_CLOSE OR (if r then AFD_READ else 0) OR (if w then AFD_WRITE else 0)"

definition afd_reported_events :: "nat \<Rightarrow> u32 \<Rightarrow> u32" where
  "afd_reported_events number_of_handles evs = (if number_of_handles = 0 then 0 else evs)"

datatype poll_outcome = Poll_ready bool bool | Poll_cancelled | Poll_failed | Poll_closed

definition afd_outcome :: "u32 \<Rightarrow> u32 \<Rightarrow> bool \<Rightarrow> bool \<Rightarrow> poll_outcome" where
  "afd_outcome st evs r w =
     (if st = STATUS_CANCELLED then Poll_cancelled
      else if \<not> nt_success st then Poll_failed
      else if evs AND AFD_POLL_LOCAL_CLOSE \<noteq> 0 then Poll_closed
      else Poll_ready (r \<and> evs AND AFD_READ \<noteq> 0) (w \<and> evs AND AFD_WRITE \<noteq> 0))"

section \<open>Quarantine\<close>

record 'a quarantine =
  held :: "'a list"
  sentinel :: "(u32 \<times> nat) option"
  next_sentinel :: u32

definition quarantine_new :: "'a quarantine" where
  "quarantine_new = \<lparr>held = [], sentinel = None, next_sentinel = 0\<rparr>"

definition q_hold :: "'a \<Rightarrow> 'a quarantine \<Rightarrow> 'a quarantine" where
  "q_hold i q = q\<lparr>held := held q @ [i]\<rparr>"

definition q_mark :: "'a quarantine \<Rightarrow> nat" where
  "q_mark q = length (held q)"

definition q_drained :: "nat \<Rightarrow> nat \<Rightarrow> nat \<Rightarrow> 'a quarantine \<Rightarrow> 'a list \<times> 'a quarantine" where
  "q_drained mark dequeued batch q =
     (let n = (if dequeued < batch then min mark (length (held q)) else 0);
          s = map_option (\<lambda>(g, covered). (g, covered - n)) (sentinel q)
      in (take n (held q), q\<lparr>sentinel := s, held := drop n (held q)\<rparr>))"

definition sentinel_wanted :: "nat \<Rightarrow> nat \<Rightarrow> 'a quarantine \<Rightarrow> u32 option \<times> 'a quarantine" where
  "sentinel_wanted dequeued batch q =
     (if dequeued < batch \<or> sentinel q \<noteq> None \<or> held q = [] then (None, q)
      else (let g = next_sentinel q + 1 in (Some g, q\<lparr>next_sentinel := g\<rparr>)))"

definition sentinel_posted :: "u32 \<Rightarrow> 'a quarantine \<Rightarrow> 'a quarantine" where
  "sentinel_posted g q = q\<lparr>sentinel := Some (g, length (held q))\<rparr>"

definition sentinel_arrived :: "u32 \<Rightarrow> 'a quarantine \<Rightarrow> 'a list \<times> 'a quarantine" where
  "sentinel_arrived gen q =
     (let (n, s) = (case sentinel q of
                      Some (g, covered) \<Rightarrow>
                        if g = gen then (min covered (length (held q)), None) else (0, sentinel q)
                    | None \<Rightarrow> (0, sentinel q))
      in (take n (held q), q\<lparr>sentinel := s, held := drop n (held q)\<rparr>))"

definition q_drain_all :: "'a quarantine \<Rightarrow> 'a list \<times> 'a quarantine" where
  "q_drain_all q = (held q, q\<lparr>sentinel := None, held := []\<rparr>)"

text \<open>\<open>port_drained\<close> of \<open>iocp.rs\<close>; \<open>posted\<close> is whether the port took the sentinel.\<close>

definition port_drained :: "nat \<Rightarrow> nat \<Rightarrow> nat \<Rightarrow> bool \<Rightarrow> 'a quarantine \<Rightarrow> 'a list \<times> u32 option \<times> 'a quarantine" where
  "port_drained batch mark dequeued posted q =
     (if held q = [] then ([], None, q)
      else
        (let (released, q) = q_drained mark dequeued batch q;
             (want, q) = sentinel_wanted dequeued batch q
         in case want of
              None \<Rightarrow> (released, None, q)
            | Some g \<Rightarrow> if posted then (released, Some g, sentinel_posted g q) else (released, None, q)))"

section \<open>Recycled sockets\<close>

type_synonym sock_key = "int \<times> int \<times> int"

record 's socket_pool =
  pools :: "(sock_key \<times> 's list) list"
  pooled :: nat
  pool_cap :: nat

definition socket_pool_new :: "nat \<Rightarrow> 's socket_pool" where
  "socket_pool_new cap = \<lparr>pools = [], pooled = 0, pool_cap = cap\<rparr>"

fun push_under :: "sock_key \<Rightarrow> 's \<Rightarrow> (sock_key \<times> 's list) list \<Rightarrow> (sock_key \<times> 's list) list" where
  "push_under k s [] = [(k, [s])]"
| "push_under k s ((k', v) # ps) = (if k' = k then (k', v @ [s]) # ps else (k', v) # push_under k s ps)"

definition socket_push :: "sock_key \<Rightarrow> 's \<Rightarrow> 's socket_pool \<Rightarrow> 's option \<times> 's socket_pool" where
  "socket_push k s p =
     (if pooled p \<ge> pool_cap p then (Some s, p)
      else (None, p\<lparr>pools := push_under k s (pools p), pooled := pooled p + 1\<rparr>))"

fun pop_under :: "sock_key \<Rightarrow> (sock_key \<times> 's list) list \<Rightarrow> 's option \<times> (sock_key \<times> 's list) list" where
  "pop_under k [] = (None, [])"
| "pop_under k ((k', v) # ps) =
     (if k' = k then (if v = [] then (None, (k', v) # ps) else (Some (last v), (k', butlast v) # ps))
      else (let (s, ps) = pop_under k ps in (s, (k', v) # ps)))"

definition socket_pop :: "sock_key \<Rightarrow> 's socket_pool \<Rightarrow> 's option \<times> 's socket_pool" where
  "socket_pop k p =
     (let (s, ps) = pop_under k (pools p)
      in (s, if s = None then p else p\<lparr>pools := ps, pooled := pooled p - 1\<rparr>))"

definition socket_drain_all :: "'s socket_pool \<Rightarrow> 's list \<times> 's socket_pool" where
  "socket_drain_all p = (concat (map snd (pools p)), p\<lparr>pools := [], pooled := 0\<rparr>)"

section \<open>Lazy initialisation\<close>

text \<open>
  The cell, the initialiser's result, and the value a racing thread stored meanwhile, if one did.
\<close>

definition get_or_try_init :: "'v option \<Rightarrow> io_error + 'v \<Rightarrow> 'v option \<Rightarrow> (io_error + 'v) \<times> 'v option" where
  "get_or_try_init cell init race =
     (case cell of
        Some v \<Rightarrow> (Inr v, cell)
      | None \<Rightarrow>
          (case init of
             Inl e \<Rightarrow> (Inl e, race)
           | Inr v \<Rightarrow> (case race of Some w \<Rightarrow> (Inr w, race) | None \<Rightarrow> (Inr v, Some v))))"

end
