(* ===== verification/Iocp_Props.thy ===== *)
theory Iocp_Props
  imports Iocp_Util
begin

text \<open>
  The IOCP backend's logic proved: status codes and poll events, the quarantine against a FIFO
  completion port with stray packets, and the socket pool against a map of stacks.
\<close>

section \<open>Statuses and readiness\<close>

text \<open>A status that is a success has no Winsock error; every listed status is a warning or an error.\<close>

lemma wsa_not_success: "ntstatus_to_wsa st = Some c \<Longrightarrow> \<not> nt_success st"
  by (auto simp: ntstatus_to_wsa_def wsa_table_def nt_success_def split: if_splits)

lemma wsa_cancelled:
  "ntstatus_to_wsa st = Some c \<Longrightarrow> is_cancelled_error On_windows c \<longleftrightarrow> st = STATUS_CANCELLED \<or> st = 0xC0000240"
  by (auto simp: ntstatus_to_wsa_def wsa_table_def is_cancelled_error_def STATUS_CANCELLED_def
      WSA_OPERATION_ABORTED_def split: if_splits)

section \<open>The completion port\<close>

text \<open>
  A stray packet names an operation already retired; a drain packet carries a sentinel's
  generation; the rest (live operations, wakeups) do not touch the quarantine.
\<close>

datatype 'a packet = Stray 'a | Drain u32 | Other

record 'a port_sys =
  port :: "'a packet list"
  quar :: "'a quarantine"
  recycled :: "'a list"

text \<open>\<open>translate_entry\<close> on a dequeued batch: the slots its drain packets release.\<close>

fun entries_seen :: "'a packet list \<Rightarrow> 'a quarantine \<Rightarrow> 'a list \<times> 'a quarantine" where
  "entries_seen [] q = ([], q)"
| "entries_seen (Drain g # ps) q =
     (let (r, q) = sentinel_arrived g q; (rs, q) = entries_seen ps q in (r @ rs, q))"
| "entries_seen (_ # ps) q = entries_seen ps q"

text \<open>Each stray packet of the batch finds its slot still quarantined when it is seen.\<close>

fun strays_held :: "'a packet list \<Rightarrow> 'a quarantine \<Rightarrow> bool" where
  "strays_held [] q = True"
| "strays_held (Drain g # ps) q = strays_held ps (snd (sentinel_arrived g q))"
| "strays_held (Stray i # ps) q = (i \<in> set (held q) \<and> strays_held ps q)"
| "strays_held (Other # ps) q = strays_held ps q"

text \<open>One poll: dequeue up to a batch, translate it, then \<open>port_drained\<close>.\<close>

definition port_poll :: "nat \<Rightarrow> bool \<Rightarrow> 'a port_sys \<Rightarrow> 'a port_sys" where
  "port_poll batch posted s =
     (let n = min batch (length (port s));
          (r1, q) = entries_seen (take n (port s)) (quar s);
          (r2, g, q) = port_drained batch (q_mark (quar s)) n posted q
      in s\<lparr>port := drop n (port s) @ (case g of None \<Rightarrow> [] | Some g \<Rightarrow> [Drain g]),
           quar := q, recycled := recycled s @ r1 @ r2\<rparr>)"

text \<open>
  The port takes packets at its end and gives them out in order.  An operation that ends without a
  completion has its stray packet, if the kernel queues one, on the port before it is held.
\<close>

inductive port_step :: "nat \<Rightarrow> 'a port_sys \<Rightarrow> bool \<Rightarrow> 'a port_sys \<Rightarrow> bool" for batch where
  p_other: "port_step batch s False (s\<lparr>port := port s @ [Other]\<rparr>)"
| p_retire: "i \<notin> set (held (quar s)) \<Longrightarrow>
    port_step batch s False (s\<lparr>port := port s @ (if stray then [Stray i] else []), quar := q_hold i (quar s)\<rparr>)"
| p_poll: "port_step batch s True (port_poll batch posted s)"

inductive port_run :: "nat \<Rightarrow> 'a port_sys \<Rightarrow> nat \<Rightarrow> 'a port_sys \<Rightarrow> bool" for batch where
  run_start: "port_run batch s 0 s"
| run_step: "port_run batch s m s1 \<Longrightarrow> port_step batch s1 p s2 \<Longrightarrow>
    port_run batch s (m + of_bool p) s2"

definition port_new :: "'a port_sys" where
  "port_new = \<lparr>port = [], quar = quarantine_new, recycled = []\<rparr>"

section \<open>No recycled slot has a packet on the port\<close>

text \<open>The packets still to come against the quarantine.\<close>

definition covers :: "'a packet list \<Rightarrow> 'a quarantine \<Rightarrow> bool" where
  "covers ps q \<longleftrightarrow>
     (case sentinel q of
        None \<Rightarrow> \<forall>g. Drain g \<notin> set ps
      | Some (g, k) \<Rightarrow> k \<le> length (held q) \<and>
          (\<exists>xs ys. ps = xs @ Drain g # ys \<and> (\<forall>h. Drain h \<notin> set xs \<union> set ys) \<and>
             (\<forall>i. Stray i \<in> set ys \<longrightarrow> i \<notin> set (take k (held q)))))"

definition port_inv :: "'a packet list \<Rightarrow> 'a quarantine \<Rightarrow> bool" where
  "port_inv ps q \<longleftrightarrow> distinct (held q) \<and> (\<forall>i. Stray i \<in> set ps \<longrightarrow> i \<in> set (held q)) \<and> covers ps q"

lemma inv_other:
  assumes "port_inv (p # ps) q" "\<And>g. p \<noteq> Drain g"
  shows "port_inv ps q" "p = Stray i \<Longrightarrow> i \<in> set (held q)"
proof -
  have "covers ps q"
  proof (cases "sentinel q")
    case None
    with assms show ?thesis by (simp add: port_inv_def covers_def)
  next
    case (Some gk)
    obtain g k where gk: "gk = (g, k)" by fastforce
    from assms(1) Some gk obtain xs ys where *: "k \<le> length (held q)" "p # ps = xs @ Drain g # ys"
      "\<forall>h. Drain h \<notin> set xs \<union> set ys" "\<forall>i. Stray i \<in> set ys \<longrightarrow> i \<notin> set (take k (held q))"
      by (auto simp: port_inv_def covers_def)
    then obtain xs' where "xs = p # xs'" using assms(2) [of g] by (cases xs) auto
    with * Some gk show ?thesis by (auto simp: covers_def)
  qed
  with assms(1) show "port_inv ps q" "p = Stray i \<Longrightarrow> i \<in> set (held q)" by (auto simp: port_inv_def)
qed

lemma inv_drain:
  assumes "port_inv (Drain h # ps) q"
  shows "port_inv ps (snd (sentinel_arrived h q))"
proof -
  from assms obtain g k where s: "sentinel q = Some (g, k)"
    by (cases "sentinel q") (auto simp: port_inv_def covers_def)
  with assms obtain xs ys where *: "k \<le> length (held q)" "Drain h # ps = xs @ Drain g # ys"
    "\<forall>h. Drain h \<notin> set xs \<union> set ys" "\<forall>i. Stray i \<in> set ys \<longrightarrow> i \<notin> set (take k (held q))"
    by (auto simp: port_inv_def covers_def)
  then have e: "g = h" "ys = ps" by (cases xs; auto)+
  have a: "sentinel (snd (sentinel_arrived h q)) = None" "held (snd (sentinel_arrived h q)) = drop k (held q)"
    using s e * by (simp_all add: sentinel_arrived_def)
  have "i \<in> set (drop k (held q))" if "Stray i \<in> set ps" for i
  proof -
    have "i \<in> set (held q)" using assms that by (simp add: port_inv_def)
    then have "i \<in> set (take k (held q)) \<union> set (drop k (held q))"
      by (metis append_take_drop_id set_append)
    moreover have "i \<notin> set (take k (held q))" using *(4) e(2) that by blast
    ultimately show ?thesis by blast
  qed
  moreover have "\<forall>g. Drain g \<notin> set ps" using *(3) e(2) by simp
  moreover have "distinct (drop k (held q))" using assms by (simp add: port_inv_def)
  ultimately show ?thesis by (simp add: port_inv_def covers_def a)
qed

lemma inv_entries:
  "port_inv (ps @ rest) q \<Longrightarrow> strays_held ps q \<and> port_inv rest (snd (entries_seen ps q))"
proof (induction ps arbitrary: q)
  case (Cons p ps)
  show ?case
  proof (cases p)
    case (Drain g)
    obtain r q1 where a: "sentinel_arrived g q = (r, q1)" by fastforce
    have "port_inv (ps @ rest) q1" using inv_drain [of g "ps @ rest" q] Cons.prems a Drain by simp
    from Cons.IH [OF this] a Drain show ?thesis by (simp add: split_beta)
  next
    case (Stray i)
    have "port_inv (ps @ rest) q" "i \<in> set (held q)"
      using inv_other [of "Stray i" "ps @ rest" q] Cons.prems Stray by auto
    with Cons.IH Stray show ?thesis by simp
  next
    case Other
    have "port_inv (ps @ rest) q" using inv_other(1) [of Other "ps @ rest" q] Cons.prems Other by auto
    with Cons.IH Other show ?thesis by simp
  qed
qed simp

lemma covers_append:
  assumes "covers ps q" "\<And>g. p \<noteq> Drain g" "\<And>i. p = Stray i \<Longrightarrow> i \<notin> set (held q)"
  shows "covers (ps @ [p]) q"
proof (cases "sentinel q")
  case None
  with assms show ?thesis by (auto simp: covers_def)
next
  case (Some gk)
  obtain g k where gk: "gk = (g, k)" by fastforce
  with assms(1) Some obtain xs ys where *: "k \<le> length (held q)" "ps = xs @ Drain g # ys"
    "\<forall>h. Drain h \<notin> set xs \<union> set ys" "\<forall>i. Stray i \<in> set ys \<longrightarrow> i \<notin> set (take k (held q))"
    by (auto simp: covers_def)
  have "\<forall>i. Stray i \<in> set (ys @ [p]) \<longrightarrow> i \<notin> set (take k (held q))"
    using * assms(3) by (auto dest: in_set_takeD)
  moreover have "\<forall>h. Drain h \<notin> set xs \<union> set (ys @ [p])" using * assms(2) by auto
  moreover have "ps @ [p] = xs @ Drain g # (ys @ [p])" using * by simp
  ultimately have "\<exists>xs' ys'. ps @ [p] = xs' @ Drain g # ys' \<and> (\<forall>h. Drain h \<notin> set xs' \<union> set ys') \<and>
      (\<forall>i. Stray i \<in> set ys' \<longrightarrow> i \<notin> set (take k (held q)))" by blast
  with *(1) show ?thesis unfolding covers_def Some gk by simp
qed

lemma covers_cong:
  "sentinel q' = sentinel q \<Longrightarrow> held q' = held q \<Longrightarrow> covers ps q' = covers ps q"
  by (cases "sentinel q") (simp_all add: covers_def split_beta)

lemma covers_hold:
  assumes "covers ps q"
  shows "covers ps (q_hold i q)"
proof (cases "sentinel q")
  case None
  with assms show ?thesis by (simp add: covers_def q_hold_def)
next
  case (Some gk)
  obtain g k where gk: "gk = (g, k)" by fastforce
  have "sentinel (q_hold i q) = Some (g, k)" "k \<le> length (held q)" using Some gk assms
    by (simp_all add: q_hold_def covers_def)
  moreover from this have "take k (held (q_hold i q)) = take k (held q)" "k \<le> length (held (q_hold i q))"
    by (simp_all add: q_hold_def)
  ultimately show ?thesis using assms unfolding covers_def Some gk by simp
qed

lemma inv_drained:
  assumes "port_inv rest q" "n < batch \<Longrightarrow> rest = []" "port_drained batch mark n posted q = (r, g, q')"
  shows "port_inv (rest @ (case g of None \<Rightarrow> [] | Some g \<Rightarrow> [Drain g])) q'"
proof (cases "held q = []")
  case True
  with assms show ?thesis by (auto simp: port_drained_def)
next
  case False
  show ?thesis
  proof (cases "n < batch")
    case True
    then have "sentinel q = None" using assms(1,2) by (cases "sentinel q") (auto simp: port_inv_def covers_def)
    with True False assms(3) have "g = None" "sentinel q' = None" "\<exists>m. held q' = drop m (held q)"
      by (auto simp: port_drained_def q_drained_def sentinel_wanted_def Let_def)
    with assms(1,2) True show ?thesis by (auto simp: port_inv_def covers_def)
  next
    case no: False
    then have d: "q_drained mark n batch q = ([], q)"
      by (cases q; cases "sentinel q") (auto simp: q_drained_def)
    show ?thesis
    proof (cases "sentinel q = None \<and> posted")
      case True
      with no False d assms(3) have "g = Some (next_sentinel q + 1)"
        "q' = q\<lparr>next_sentinel := next_sentinel q + 1, sentinel := Some (next_sentinel q + 1, length (held q))\<rparr>"
        by (auto simp: port_drained_def sentinel_wanted_def sentinel_posted_def Let_def)
      moreover have "\<exists>xs ys. rest @ [Drain h] = xs @ Drain h # ys \<and> (\<forall>h. Drain h \<notin> set xs \<union> set ys) \<and>
          (\<forall>i. Stray i \<in> set ys \<longrightarrow> i \<notin> set (take (length (held q)) (held q)))" for h
        using True assms(1) by (intro exI [of _ rest] exI [of _ "[]"]) (simp add: port_inv_def covers_def)
      ultimately show ?thesis using True assms(1) by (simp add: port_inv_def covers_def)
    next
      case np: False
      with no False d assms(3) have "g = None" "held q' = held q" "sentinel q' = sentinel q"
        by (auto simp: port_drained_def sentinel_wanted_def Let_def split: if_splits)
      with assms(1) covers_cong [of q' q rest] show ?thesis by (simp add: port_inv_def)
    qed
  qed
qed

lemma inv_poll:
  assumes "port_inv (port s) (quar s)"
  shows "port_inv (port (port_poll batch posted s)) (quar (port_poll batch posted s))"
    "strays_held (take (min batch (length (port s))) (port s)) (quar s)"
proof -
  let ?n = "min batch (length (port s))"
  obtain r1 q1 where e: "entries_seen (take ?n (port s)) (quar s) = (r1, q1)" by fastforce
  obtain r2 g q2 where d: "port_drained batch (q_mark (quar s)) ?n posted q1 = (r2, g, q2)" by (metis prod_cases3)
  have a: "port_inv (take ?n (port s) @ drop ?n (port s)) (quar s)" using assms by (simp only: append_take_drop_id)
  from inv_entries [OF a] e have "strays_held (take ?n (port s)) (quar s)" "port_inv (drop ?n (port s)) q1" by simp_all
  then show "strays_held (take ?n (port s)) (quar s)" by simp
  have "port_inv (drop ?n (port s) @ (case g of None \<Rightarrow> [] | Some g \<Rightarrow> [Drain g])) q2"
    by (rule inv_drained [OF \<open>port_inv (drop ?n (port s)) q1\<close> _ d]) simp
  then show "port_inv (port (port_poll batch posted s)) (quar (port_poll batch posted s))"
    unfolding port_poll_def Let_def e prod.case d by simp
qed

lemma inv_hold:
  assumes "port_inv ps q" "i \<notin> set (held q)"
  shows "port_inv (ps @ (if stray then [Stray i] else [])) (q_hold i q)"
proof -
  have c: "covers (ps @ (if stray then [Stray i] else [])) q"
    using assms covers_append [of ps q "Stray i"] by (auto simp: port_inv_def)
  then have "covers (ps @ (if stray then [Stray i] else [])) (q_hold i q)" by (rule covers_hold)
  with assms show ?thesis by (auto simp: port_inv_def q_hold_def)
qed

lemma inv_step: "port_step batch s p s' \<Longrightarrow> port_inv (port s) (quar s) \<Longrightarrow> port_inv (port s') (quar s')"
proof (induction rule: port_step.induct)
  case (p_other s)
  then show ?case using covers_append [of "port s" "quar s" Other] by (auto simp: port_inv_def)
next
  case (p_retire i s stray)
  then show ?case using inv_hold [of "port s" "quar s" i stray] by simp
qed (rule inv_poll(1))

lemma inv_run: "port_run batch s m s' \<Longrightarrow> port_inv (port s) (quar s) \<Longrightarrow> port_inv (port s') (quar s')"
  by (induction rule: port_run.induct) (auto dest: inv_step)

lemma inv_new: "port_inv (port port_new) (quar port_new)"
  by (simp add: port_new_def quarantine_new_def port_inv_def covers_def)

section \<open>A sentinel is not outrun\<close>

definition waiting :: "'a \<Rightarrow> nat \<Rightarrow> 'a port_sys \<Rightarrow> bool" where
  "waiting i d s \<longleftrightarrow> (\<exists>g k xs ys. sentinel (quar s) = Some (g, k) \<and> i \<in> set (take k (held (quar s))) \<and>
     port s = xs @ Drain g # ys \<and> length xs \<le> d)"

lemma entries_no_drain: "\<forall>g. Drain g \<notin> set ps \<Longrightarrow> entries_seen ps q = ([], q)"
  by (induction ps q rule: entries_seen.induct) auto

lemma entries_append:
  "entries_seen (xs @ ys) q =
     (let (r, q) = entries_seen xs q; (rs, q) = entries_seen ys q in (r @ rs, q))"
proof (induction xs arbitrary: q)
  case (Cons p xs)
  then show ?case by (cases p) (simp_all add: split_beta Let_def)
qed simp

lemma waiting_poll:
  assumes "waiting i d s" "port_inv (port s) (quar s)" "0 < batch"
  shows "i \<in> set (recycled (port_poll batch posted s)) \<or>
    batch \<le> d \<and> waiting i (d - batch) (port_poll batch posted s)"
proof -
  from assms(1) obtain g k xs ys where w: "sentinel (quar s) = Some (g, k)"
    "i \<in> set (take k (held (quar s)))" "port s = xs @ Drain g # ys" "length xs \<le> d" by (auto simp: waiting_def)
  have nd: "\<forall>h. Drain h \<notin> set xs" and k: "k \<le> length (held (quar s))"
  proof -
    from assms(2) w(1) obtain xs' ys' where *: "k \<le> length (held (quar s))" "port s = xs' @ Drain g # ys'"
      "\<forall>h. Drain h \<notin> set xs' \<union> set ys'" by (auto simp: port_inv_def covers_def)
    have "xs = xs'"
      using w(3) *(2,3) by (metis UnCI append_Cons_eq_iff in_set_conv_decomp)
    with * show "\<forall>h. Drain h \<notin> set xs" "k \<le> length (held (quar s))" by auto
  qed
  show ?thesis
  proof (cases "batch \<le> length xs")
    case True
    then have n: "min batch (length (port s)) = batch" and t: "take batch (port s) = take batch xs"
      and dr: "drop batch (port s) = drop batch xs @ Drain g # ys" using w(3) by simp_all
    have e: "entries_seen (take batch xs) (quar s) = ([], quar s)"
      using nd by (intro entries_no_drain) (auto dest: in_set_takeD)
    have p: "port_drained batch (q_mark (quar s)) batch posted (quar s) = ([], None, quar s)"
      using w(1) by (cases "quar s") (auto simp: port_drained_def q_drained_def sentinel_wanted_def)
    have "port_poll batch posted s = s\<lparr>port := drop batch xs @ Drain g # ys\<rparr>"
      unfolding port_poll_def Let_def n t e prod.case p dr by simp
    then have "waiting i (d - batch) (port_poll batch posted s)"
      unfolding waiting_def using w True
      by (intro exI [of _ g] exI [of _ k] exI [of _ "drop batch xs"] exI [of _ ys]) simp
    then show ?thesis using True w(4) by simp
  next
    case False
    let ?n = "min batch (length (port s))"
    obtain zs where zs: "take ?n (port s) = xs @ Drain g # zs"
    proof -
      have "take ?n (port s) = xs @ take (?n - length xs) (Drain g # ys)" using False w(3) by simp
      moreover have "?n - length xs = Suc (?n - length xs - 1)" using False w(3) by simp
      ultimately show thesis by (metis that take_Suc_Cons)
    qed
    have "set (take k (held (quar s))) \<subseteq> set (fst (entries_seen (take ?n (port s)) (quar s)))"
      unfolding zs entries_append entries_no_drain [OF nd] Let_def prod.case
      using w(1) k by (auto simp: sentinel_arrived_def split_beta)
    with w(2) have "i \<in> set (recycled (port_poll batch posted s))"
      unfolding port_poll_def by (auto simp: Let_def split_beta)
    then show ?thesis by simp
  qed
qed

lemma waiting_run:
  assumes "port_run batch s m s'" "waiting i d s" "port_inv (port s) (quar s)" "0 < batch"
  shows "i \<in> set (recycled s') \<or> m * batch \<le> d \<and> waiting i (d - m * batch) s'"
  using assms
proof (induction rule: port_run.induct)
  case (run_step s m s1 p s2)
  note inv = inv_run [OF run_step.hyps(1) run_step.prems(2)]
  from run_step.IH [OF run_step.prems] show ?case
  proof
    assume r: "i \<in> set (recycled s1)"
    from run_step.hyps(2) have "set (recycled s1) \<subseteq> set (recycled s2)"
      by (induction rule: port_step.induct) (auto simp: port_poll_def Let_def split_beta)
    with r show ?case by blast
  next
    assume w: "m * batch \<le> d \<and> waiting i (d - m * batch) s1"
    from run_step.hyps(2) w inv show ?case
    proof (induction rule: port_step.induct)
      case (p_other s)
      then show ?case by (force simp: waiting_def)
    next
      case (p_retire j s stray)
      then obtain g k xs ys where *: "sentinel (quar s) = Some (g, k)" "i \<in> set (take k (held (quar s)))"
        "port s = xs @ Drain g # ys" "length xs \<le> d - m * batch" by (auto simp: waiting_def)
      then have "i \<in> set (take k (held (q_hold j (quar s))))" by (simp add: q_hold_def)
      with * have "waiting i (d - m * batch)
          (s\<lparr>port := port s @ (if stray then [Stray j] else []), quar := q_hold j (quar s)\<rparr>)"
        unfolding waiting_def
        by (intro exI [of _ g] exI [of _ k] exI [of _ xs] exI [of _ "ys @ (if stray then [Stray j] else [])"])
          (simp add: q_hold_def)
      with p_retire show ?case by simp
    next
      case (p_poll s posted)
      with waiting_poll [of i "d - m * batch" s batch posted] run_step.prems(3)
      have "i \<in> set (recycled (port_poll batch posted s)) \<or> batch \<le> d - m * batch \<and>
          waiting i (d - m * batch - batch) (port_poll batch posted s)" by blast
      then show ?case using p_poll by (auto simp: algebra_simps)
    qed
  qed
qed simp

text \<open>
  When is the wait for a sentinel over: a poll that comes back short recycles all that is held, and
  one with a full batch leaves everything held covered, if the port takes the sentinel.
\<close>

lemma poll_short:
  assumes "port_inv (port s) (quar s)" "length (port s) < batch"
  shows "held (quar (port_poll batch posted s)) = []"
proof -
  obtain r1 q1 where e: "entries_seen (port s) (quar s) = (r1, q1)" by fastforce
  have len: "length (held q) \<le> length (held q0)" if "entries_seen ps q0 = (r, q)" for ps q0 r and q :: "'a quarantine"
    using that
  proof (induction ps arbitrary: q0 r)
    case (Cons p ps)
    show ?case
    proof (cases p)
      case (Drain g)
      obtain r' q' where a: "sentinel_arrived g q0 = (r', q')" by fastforce
      then have "length (held q') \<le> length (held q0)"
        by (auto simp: sentinel_arrived_def Let_def split_beta)
      moreover obtain r'' where "entries_seen ps q' = (r'', q)"
        using Cons.prems a by (auto simp: Drain split: prod.splits)
      ultimately show ?thesis using Cons.IH by fastforce
    qed (use Cons in auto)
  qed simp
  have "held (snd (snd (port_drained batch (q_mark (quar s)) (length (port s)) posted q1))) = []"
    using assms(2) len [OF e]
    by (auto simp: port_drained_def q_drained_def sentinel_wanted_def q_mark_def Let_def)
  then show ?thesis using assms(2) e unfolding port_poll_def Let_def by (simp add: split_beta)
qed

lemma poll_full:
  assumes "batch \<le> length (port s)" "0 < batch"
    and "\<forall>g. Drain g \<notin> set (take batch (port s))" "sentinel (quar s) = None" "held (quar s) \<noteq> []"
  shows "\<exists>g. sentinel (quar (port_poll batch True s)) = Some (g, length (held (quar s)))" 
    "held (quar (port_poll batch True s)) = held (quar s)"
proof -
  have e: "entries_seen (take batch (port s)) (quar s) = ([], quar s)" using assms(3) by (rule entries_no_drain)
  have n: "min batch (length (port s)) = batch" using assms(1) by simp
  have d: "q_drained (q_mark (quar s)) batch batch (quar s) = ([], quar s)"
    using assms(4) by (cases "quar s") (simp add: q_drained_def)
  show "\<exists>g. sentinel (quar (port_poll batch True s)) = Some (g, length (held (quar s)))"
    "held (quar (port_poll batch True s)) = held (quar s)"
    using assms(4,5)
    by (simp_all add: port_poll_def n e port_drained_def d sentinel_wanted_def sentinel_posted_def Let_def)
qed

section \<open>The socket pool\<close>

text \<open>The pool as a stack of sockets for each kind.\<close>

definition pool_stack :: "'s socket_pool \<Rightarrow> sock_key \<Rightarrow> 's list" where
  "pool_stack p k = (case map_of (pools p) k of None \<Rightarrow> [] | Some v \<Rightarrow> v)"

definition pool_inv :: "'s socket_pool \<Rightarrow> bool" where
  "pool_inv p \<longleftrightarrow> distinct (map fst (pools p)) \<and> pooled p = length (concat (map snd (pools p))) \<and>
     pooled p \<le> pool_cap p"

lemma push_under_spec:
  "map_of (push_under k s ps) = (map_of ps)(k \<mapsto> (case map_of ps k of None \<Rightarrow> [] | Some v \<Rightarrow> v) @ [s])"
  "set (map fst (push_under k s ps)) = insert k (set (map fst ps))"
  "distinct (map fst ps) \<Longrightarrow> distinct (map fst (push_under k s ps))"
  "length (concat (map snd (push_under k s ps))) = Suc (length (concat (map snd ps)))"
  by (induction k s ps rule: push_under.induct) (auto simp: fun_eq_iff)

lemma pop_under_keys: "map fst (snd (pop_under k ps)) = map fst ps"
  by (induction k ps rule: pop_under.induct) (auto simp: split_beta)

lemma pop_under_spec:
  "pop_under k ps = (r, ps') \<Longrightarrow>
     (case map_of ps k of
        None \<Rightarrow> r = None
      | Some v \<Rightarrow> if v = [] then r = None
          else r = Some (last v) \<and> map_of ps' = (map_of ps)(k \<mapsto> butlast v) \<and>
            Suc (length (concat (map snd ps'))) = length (concat (map snd ps)))"
proof (induction k ps arbitrary: r ps' rule: pop_under.induct)
  case (2 k k' v ps)
  show ?case
  proof (cases "k' = k")
    case True
    with 2(2) show ?thesis by (auto split: if_splits)
  next
    case False
    obtain r0 ps0 where o: "pop_under k ps = (r0, ps0)" by fastforce
    with 2(2) False have "r = r0" "ps' = (k', v) # ps0" by auto
    with 2(1) [OF False o] False show ?thesis
      by (auto split: option.splits if_splits simp: fun_eq_iff)
  qed
qed simp

lemma socket_push_spec:
  assumes "pool_inv p" "socket_push k s p = (r, p')"
  shows "pool_inv p'" "if pooled p < pool_cap p
     then r = None \<and> pool_stack p' = (pool_stack p)(k := pool_stack p k @ [s])
     else r = Some s \<and> p' = p"
  using assms
  by (auto simp: socket_push_def pool_inv_def pool_stack_def push_under_spec fun_eq_iff split: if_splits)

lemma socket_pop_spec:
  assumes "pool_inv p" "socket_pop k p = (r, p')"
  shows "pool_inv p'" "if pool_stack p k = [] then r = None \<and> p' = p
     else r = Some (last (pool_stack p k)) \<and> pool_stack p' = (pool_stack p)(k := butlast (pool_stack p k))"
proof -
  obtain r0 ps where o: "pop_under k (pools p) = (r0, ps)" by fastforce
  note sp = pop_under_spec [OF o]
  have p': "r = r0" "p' = (if r0 = None then p else p\<lparr>pools := ps, pooled := pooled p - 1\<rparr>)"
    using assms(2) o by (auto simp: socket_pop_def)
  have keys: "map fst ps = map fst (pools p)" using pop_under_keys [of k "pools p"] o by simp
  show "if pool_stack p k = [] then r = None \<and> p' = p
     else r = Some (last (pool_stack p k)) \<and> pool_stack p' = (pool_stack p)(k := butlast (pool_stack p k))"
  proof (cases "pool_stack p k = []")
    case True
    with sp p' show ?thesis by (auto simp: pool_stack_def split: option.splits if_splits)
  next
    case False
    then obtain v where v: "map_of (pools p) k = Some v" "v \<noteq> []" "pool_stack p k = v"
      by (auto simp: pool_stack_def split: option.splits)
    with sp p' have m: "map_of ps = (map_of (pools p))(k \<mapsto> butlast v)" "r = Some (last v)" "pools p' = ps"
      by simp_all
    have "pool_stack p' = (pool_stack p)(k := butlast v)" by (rule ext) (simp add: pool_stack_def m)
    with False v m show ?thesis by simp
  qed
  show "pool_inv p'"
    using assms(1) sp p' keys by (auto simp: pool_inv_def split: option.splits if_splits)
qed

section \<open>The theorems\<close>

text \<open>
  C21: a recycled slot has no packet left on the completion port.  Whatever operations end without a
  completion, with or without a stray packet, and however polls, other packets and failing
  sentinel posts interleave, every stray packet still on the port names a slot that is still
  quarantined, and each one a poll dequeues finds its slot quarantined when it is seen; so no stray
  packet ever completes a slot that was given to another operation.
\<close>

theorem quarantine_safe:
  assumes "port_run batch port_new m s"
  shows "(\<forall>i. Stray i \<in> set (port s) \<longrightarrow> i \<in> set (held (quar s))) \<and>
    strays_held (take (min batch (length (port s))) (port s)) (quar s)"
  using inv_run [OF assms inv_new] inv_poll(2) by (auto simp: port_inv_def)

theorem quarantine_safe_witness:
  "\<exists>s. port_run 2 port_new 0 s \<and> port s = [Stray (7::nat)] \<and> strays_held [Stray 7] (quar s)"
proof -
  let ?s = "port_new\<lparr>port := port port_new @ (if True then [Stray (7::nat)] else []),
    quar := q_hold 7 (quar port_new)\<rparr>"
  have "port_step 2 port_new False ?s"
    by (rule p_retire) (simp add: port_new_def quarantine_new_def)
  from run_step [OF run_start this] have r: "port_run 2 port_new 0 ?s" by simp
  have "port ?s = [Stray 7]" by (simp add: port_new_def)
  with r quarantine_safe [OF r] show ?thesis by (intro exI [of _ ?s]) simp
qed

text \<open>
  C22: quarantine ends, however busy the port is.  Once a sentinel is on the port, every slot it
  covers is recycled after the polls it takes to dequeue the packets then queued, no matter how
  many packets and retired operations arrive behind it.
\<close>

theorem quarantine_ends:
  assumes "0 < batch" "port_run batch port_new m0 s" "sentinel (quar s) = Some (g, k)"
    and "i \<in> set (take k (held (quar s)))" "port_run batch s m s'" "length (port s) \<le> m * batch"
  shows "i \<in> set (recycled s')"
proof -
  note inv = inv_run [OF assms(2) inv_new]
  from inv assms(3) obtain xs ys where xs: "port s = xs @ Drain g # ys"
    by (auto simp: port_inv_def covers_def)
  have "waiting i (length xs) s" unfolding waiting_def using assms(3,4) xs by blast
  from waiting_run [OF assms(5) this inv assms(1)] assms(6) xs show ?thesis by auto
qed

definition busy_port :: "nat port_sys" where
  "busy_port = port_poll 1 True (port_new\<lparr>port := [Other, Other], quar := q_hold 7 quarantine_new\<rparr>)"

theorem quarantine_ends_witness:
  "7 \<in> set (recycled (port_poll 1 True (port_poll 1 True busy_port)))"
proof -
  let ?s1 = "port_new\<lparr>port := port port_new @ [Other :: nat packet]\<rparr>"
  let ?s2 = "?s1\<lparr>port := port ?s1 @ [Other]\<rparr>"
  let ?s3 = "?s2\<lparr>port := port ?s2 @ (if False then [Stray 7] else []), quar := q_hold 7 (quar ?s2)\<rparr>"
  have s3: "?s3 = port_new\<lparr>port := [Other, Other], quar := q_hold 7 quarantine_new\<rparr>" by (simp add: port_new_def)
  have "port_step 1 ?s2 False ?s3" by (rule p_retire) (simp add: port_new_def quarantine_new_def)
  from run_step [OF run_step [OF run_step [OF run_start p_other] p_other] this]
  have "port_run 1 port_new 0 ?s3" by simp
  from run_step [OF this p_poll [of 1 ?s3 True]] have r: "port_run 1 port_new 1 busy_port"
    unfolding busy_port_def s3 by simp
  have b: "busy_port = \<lparr>port = [Other, Drain 1], quar = \<lparr>held = [7], sentinel = Some (1, 1), next_sentinel = 1\<rparr>,
      recycled = []\<rparr>"
    by (simp add: busy_port_def port_poll_def port_new_def q_hold_def quarantine_new_def port_drained_def
        q_drained_def sentinel_wanted_def sentinel_posted_def q_mark_def)
  have "port_run 1 busy_port (0 + of_bool True + of_bool True) (port_poll 1 True (port_poll 1 True busy_port))"
    by (intro run_step [OF run_step [OF run_start p_poll] p_poll])
  then have r2: "port_run 1 busy_port 2 (port_poll 1 True (port_poll 1 True busy_port))"
    by (simp add: numeral_2_eq_2)
  show ?thesis
    by (rule quarantine_ends [OF _ r _ _ r2, of 1 1]) (simp_all add: b)
qed

text \<open>
  C23: the pool of recycled sockets is a stack for each socket kind.  A push onto a pool below its
  cap puts the socket on its own kind's stack and no other; onto a full pool it gives the socket
  back and changes nothing.  A pop takes the top of its kind's stack, or nothing.  The count stays
  exact and within the cap.
\<close>

theorem socket_pool_refines:
  assumes "pool_inv p" "socket_push k s p = (r, p1)" "socket_pop k' p = (r', p2)"
  shows "pool_inv p1 \<and> pool_inv p2 \<and>
    (if pooled p < pool_cap p
     then r = None \<and> pool_stack p1 = (pool_stack p)(k := pool_stack p k @ [s])
     else r = Some s \<and> p1 = p) \<and>
    (if pool_stack p k' = [] then r' = None \<and> p2 = p
     else r' = Some (last (pool_stack p k')) \<and>
       pool_stack p2 = (pool_stack p)(k' := butlast (pool_stack p k')))"
  using socket_push_spec [OF assms(1,2)] socket_pop_spec [OF assms(1,3)] by blast

theorem socket_pool_refines_witness:
  "pool_stack (snd (socket_push (2, 1, 6) (9::nat) (socket_pool_new 4))) (2, 1, 6) = [9] \<and>
   fst (socket_pop (10, 1, 6) (socket_pool_new 4 :: nat socket_pool)) = None"
proof -
  let ?p = "socket_pool_new 4 :: nat socket_pool"
  have i: "pool_inv ?p" by (simp add: pool_inv_def socket_pool_new_def)
  obtain r p1 where a: "socket_push (2, 1, 6) 9 ?p = (r, p1)" by fastforce
  obtain r' p2 where b: "socket_pop (10, 1, 6) ?p = (r', p2)" by fastforce
  from socket_pool_refines [OF i a b] a b show ?thesis by (simp add: socket_pool_new_def pool_stack_def)
qed

end
