(* ===== verification/Netsys.thy ===== *)
theory Netsys
  imports Backend WebSocket
begin

text \<open>
  The raw-socket helpers of \<open>netsys.rs\<close>: socket addresses to and from the platform's bytes, and the
  calls that create and configure sockets.  Native byte order is little-endian on every platform
  the engine builds for.  The kernel is a parameter: the answers it gives, in order (a value, or
  minus the error code; and the address bytes of a name call), with the calls made recorded.
\<close>

section \<open>Socket addresses\<close>

definition AF_INET :: nat where "AF_INET = 2"

definition AF_INET6 :: "target \<Rightarrow> nat" where
  "AF_INET6 tg = (if tg = On_windows then 23 else 10)"

definition AF_UNIX_FAMILY :: nat where "AF_UNIX_FAMILY = 1"

datatype socket_addr = V4 "u8 list" nat | V6 "u8 list" nat nat nat

fun addr_wf :: "socket_addr \<Rightarrow> bool" where
  "addr_wf (V4 ip port) \<longleftrightarrow> length ip = 4 \<and> port < 2 ^ 16"
| "addr_wf (V6 ip port flow scope) \<longleftrightarrow> length ip = 16 \<and> port < 2 ^ 16 \<and> flow < 2 ^ 32 \<and> scope < 2 ^ 32"

record sockaddr_buf =
  sa_buf :: "u8 list"
  sa_len :: nat
  sa_family :: nat

definition le_bytes :: "nat \<Rightarrow> nat \<Rightarrow> u8 list" where
  "le_bytes k n = rev (be_bytes k n)"

definition of_le_bytes :: "u8 list \<Rightarrow> nat" where
  "of_le_bytes bs = of_be_bytes (rev bs)"

text \<open>\<open>buf[i..i + n].copy_from_slice(bs)\<close>, and the bytes of a range.\<close>

definition blit :: "nat \<Rightarrow> u8 list \<Rightarrow> u8 list \<Rightarrow> u8 list" where
  "blit i bs buf = take i buf @ bs @ drop (i + length bs) buf"

definition byte_range :: "nat \<Rightarrow> nat \<Rightarrow> u8 list \<Rightarrow> u8 list" where
  "byte_range i j buf = take (j - i) (drop i buf)"

fun build_sockaddr :: "target \<Rightarrow> socket_addr \<Rightarrow> sockaddr_buf" where
  "build_sockaddr tg (V4 ip port) =
     \<lparr>sa_buf = blit 4 ip (blit 2 (be_bytes 2 port) (blit 0 (le_bytes 2 AF_INET) (replicate 128 0))),
      sa_len = 16, sa_family = AF_INET\<rparr>"
| "build_sockaddr tg (V6 ip port flow scope) =
     \<lparr>sa_buf = blit 24 (le_bytes 4 scope) (blit 8 ip (blit 4 (be_bytes 4 flow)
        (blit 2 (be_bytes 2 port) (blit 0 (le_bytes 2 (AF_INET6 tg)) (replicate 128 0))))),
      sa_len = 28, sa_family = AF_INET6 tg\<rparr>"

datatype addr = Inet socket_addr | Unix_path "u8 list"

definition parse_sockaddr :: "target \<Rightarrow> u8 list \<Rightarrow> socket_addr option" where
  "parse_sockaddr tg buf =
     (if length buf < 8 then None
      else
        (let family = of_le_bytes (byte_range 0 2 buf); port = of_be_bytes (byte_range 2 4 buf)
         in if family = AF_INET then Some (V4 (byte_range 4 8 buf) port)
            else if family = AF_INET6 tg \<and> length buf \<ge> 28
            then Some (V6 (byte_range 8 24 buf) port (of_be_bytes (byte_range 4 8 buf)) (of_le_bytes (byte_range 24 28 buf)))
            else None))"

text \<open>An abstract name (a leading zero) loses its trailing zeros; a path ends at its first zero.\<close>

definition parse_unix_sockaddr :: "u8 list \<Rightarrow> u8 list option" where
  "parse_unix_sockaddr buf =
     (if length buf < 2 \<or> of_le_bytes (byte_range 0 2 buf) \<noteq> AF_UNIX_FAMILY then None
      else
        (let path = drop 2 buf
         in if path \<noteq> [] \<and> hd path = 0
            then Some (rev (dropWhile (\<lambda>b. b = 0) (rev path)))
            else Some (takeWhile (\<lambda>b. b \<noteq> 0) path)))"

definition parse_any_sockaddr :: "target \<Rightarrow> u8 list \<Rightarrow> addr option" where
  "parse_any_sockaddr tg buf =
     (case parse_sockaddr tg buf of
        Some a \<Rightarrow> Some (Inet a)
      | None \<Rightarrow> map_option Unix_path (parse_unix_sockaddr buf))"

section \<open>Calls\<close>

datatype net_call =
    N_socket nat nat
  | N_bind raw_socket "u8 list"
  | N_listen raw_socket int
  | N_setsockopt raw_socket int int int
  | N_loopback_fast_path raw_socket
  | N_clear_inherit raw_socket
  | N_shutdown_send raw_socket
  | N_close raw_socket
  | N_getpeername raw_socket
  | N_getsockname raw_socket

record net_world =
  nw_answers :: "(int \<times> u8 list) list"
  nw_calls :: "net_call list"

definition net_sys :: "net_call \<Rightarrow> net_world \<Rightarrow> (int \<times> u8 list) \<times> net_world" where
  "net_sys c w =
     ((case nw_answers w of [] \<Rightarrow> (-1, []) | a # as \<Rightarrow> a),
      w\<lparr>nw_answers := tl (nw_answers w), nw_calls := nw_calls w @ [c]\<rparr>)"

definition net_unit :: "net_call \<Rightarrow> net_world \<Rightarrow> (io_error + unit) \<times> net_world" where
  "net_unit c w =
     (let ((rc, _), w) = net_sys c w in (if rc < 0 then Inl (Os_error (nat (- rc))) else Inr (), w))"

definition WSA_FLAG_OVERLAPPED :: nat where "WSA_FLAG_OVERLAPPED = 1"
definition WSA_FLAG_NO_HANDLE_INHERIT :: nat where "WSA_FLAG_NO_HANDLE_INHERIT = 0x80"
definition WSAEINVAL :: nat where "WSAEINVAL = 10022"
definition SOCK_NONBLOCK_CLOEXEC :: nat where "SOCK_NONBLOCK_CLOEXEC = 2048 + 524288"

definition clear_handle_inherit :: "raw_socket \<Rightarrow> net_world \<Rightarrow> net_world" where
  "clear_handle_inherit s w = snd (net_sys (N_clear_inherit s) w)"

text \<open>The second argument of \<open>N_socket\<close> is the flags, besides the stream type.\<close>

definition create_tcp :: "target \<Rightarrow> nat \<Rightarrow> net_world \<Rightarrow> (io_error + raw_socket) \<times> net_world" where
  "create_tcp tg family w =
     (if tg \<noteq> On_windows then
        (let ((rc, _), w) = net_sys (N_socket family SOCK_NONBLOCK_CLOEXEC) w
         in (if rc < 0 then Inl (Os_error (nat (- rc))) else Inr (nat rc), w))
      else
        (let ((rc, _), w) = net_sys (N_socket family (WSA_FLAG_OVERLAPPED + WSA_FLAG_NO_HANDLE_INHERIT)) w
         in if rc \<ge> 0 then (Inr (nat rc), w)
            else if nat (- rc) \<noteq> WSAEINVAL then (Inl (Os_error (nat (- rc))), w)
            else
              (let ((rc, _), w) = net_sys (N_socket family WSA_FLAG_OVERLAPPED) w
               in if rc < 0 then (Inl (Os_error (nat (- rc))), w)
                  else (Inr (nat rc), clear_handle_inherit (nat rc) w))))"

definition net_bind :: "raw_socket \<Rightarrow> sockaddr_buf \<Rightarrow> net_world \<Rightarrow> (io_error + unit) \<times> net_world" where
  "net_bind s sa = net_unit (N_bind s (take (sa_len sa) (sa_buf sa)))"

definition net_listen :: "raw_socket \<Rightarrow> int \<Rightarrow> net_world \<Rightarrow> (io_error + unit) \<times> net_world" where
  "net_listen s backlog = net_unit (N_listen s backlog)"

definition SOL_SOCKET :: "target \<Rightarrow> int" where "SOL_SOCKET tg = (if tg = On_windows then 0xFFFF else 1)"
definition SO_REUSEADDR :: int where "SO_REUSEADDR = 2"
definition SO_REUSEPORT :: int where "SO_REUSEPORT = 15"
definition SO_EXCLUSIVEADDRUSE :: int where "SO_EXCLUSIVEADDRUSE = NOT 4"
definition IPPROTO_TCP :: int where "IPPROTO_TCP = 6"
definition IPPROTO_IPV6 :: int where "IPPROTO_IPV6 = 41"
definition TCP_NODELAY :: int where "TCP_NODELAY = 1"
definition IPV6_V6ONLY :: "target \<Rightarrow> int" where "IPV6_V6ONLY tg = (if tg = On_windows then 27 else 26)"
definition TCP_FASTOPEN :: "target \<Rightarrow> int" where "TCP_FASTOPEN tg = (if tg = On_windows then 15 else 23)"

definition set_reuse_addr :: "target \<Rightarrow> raw_socket \<Rightarrow> bool \<Rightarrow> net_world \<Rightarrow> (io_error + unit) \<times> net_world" where
  "set_reuse_addr tg s on =
     (if tg = On_windows then net_unit (N_setsockopt s (SOL_SOCKET tg) SO_EXCLUSIVEADDRUSE 1)
      else net_unit (N_setsockopt s (SOL_SOCKET tg) SO_REUSEADDR (of_bool on)))"

definition set_reuse_port :: "target \<Rightarrow> raw_socket \<Rightarrow> bool \<Rightarrow> net_world \<Rightarrow> (io_error + unit) \<times> net_world" where
  "set_reuse_port tg s on w =
     (if tg = On_windows then (Inl (Unsupported ''SO_REUSEPORT is not available on Windows''), w)
      else net_unit (N_setsockopt s (SOL_SOCKET tg) SO_REUSEPORT (of_bool on)) w)"

definition set_nodelay :: "raw_socket \<Rightarrow> bool \<Rightarrow> net_world \<Rightarrow> (io_error + unit) \<times> net_world" where
  "set_nodelay s on = net_unit (N_setsockopt s IPPROTO_TCP TCP_NODELAY (of_bool on))"

definition set_v6only :: "target \<Rightarrow> raw_socket \<Rightarrow> bool \<Rightarrow> net_world \<Rightarrow> (io_error + unit) \<times> net_world" where
  "set_v6only tg s on = net_unit (N_setsockopt s IPPROTO_IPV6 (IPV6_V6ONLY tg) (of_bool on))"

definition set_fastopen :: "target \<Rightarrow> raw_socket \<Rightarrow> int \<Rightarrow> net_world \<Rightarrow> (io_error + unit) \<times> net_world" where
  "set_fastopen tg s queue =
     net_unit (N_setsockopt s IPPROTO_TCP (TCP_FASTOPEN tg) (if tg = On_windows then 1 else queue))"

definition set_loopback_fast_path :: "target \<Rightarrow> raw_socket \<Rightarrow> net_world \<Rightarrow> (io_error + unit) \<times> net_world" where
  "set_loopback_fast_path tg s w =
     (Inr (), if tg = On_windows then snd (net_sys (N_loopback_fast_path s) w) else w)"

definition shutdown_send :: "raw_socket \<Rightarrow> net_world \<Rightarrow> (io_error + unit) \<times> net_world" where
  "shutdown_send s = net_unit (N_shutdown_send s)"

definition net_close :: "raw_socket \<Rightarrow> net_world \<Rightarrow> net_world" where
  "net_close s w = snd (net_sys (N_close s) w)"

text \<open>The name calls; the answer's bytes are the buffer up to the length the kernel wrote.\<close>

definition any_name_of :: "target \<Rightarrow> net_call \<Rightarrow> net_world \<Rightarrow> (io_error + addr) \<times> net_world" where
  "any_name_of tg c w =
     (let ((rc, buf), w) = net_sys c w
      in (if rc < 0 then Inl (Os_error (nat (- rc)))
          else case (if tg = On_windows then map_option Inet (parse_sockaddr tg buf)
                     else parse_any_sockaddr tg buf) of
                 None \<Rightarrow> Inl (Invalid_data ''unparseable sockaddr'')
               | Some a \<Rightarrow> Inr a, w))"

definition name_of :: "target \<Rightarrow> net_call \<Rightarrow> net_world \<Rightarrow> (io_error + socket_addr) \<times> net_world" where
  "name_of tg c w =
     (let (r, w) = any_name_of tg c w
      in (case r of
            Inl e \<Rightarrow> Inl e
          | Inr (Inet a) \<Rightarrow> Inr a
          | Inr (Unix_path _) \<Rightarrow> Inl (Invalid_data ''not an internet address''), w))"

definition peername_any :: "target \<Rightarrow> raw_socket \<Rightarrow> net_world \<Rightarrow> (io_error + addr) \<times> net_world" where
  "peername_any tg s = any_name_of tg (N_getpeername s)"

definition sockname_any :: "target \<Rightarrow> raw_socket \<Rightarrow> net_world \<Rightarrow> (io_error + addr) \<times> net_world" where
  "sockname_any tg s = any_name_of tg (N_getsockname s)"

definition peername :: "target \<Rightarrow> raw_socket \<Rightarrow> net_world \<Rightarrow> (io_error + socket_addr) \<times> net_world" where
  "peername tg s = name_of tg (N_getpeername s)"

definition sockname :: "target \<Rightarrow> raw_socket \<Rightarrow> net_world \<Rightarrow> (io_error + socket_addr) \<times> net_world" where
  "sockname tg s = name_of tg (N_getsockname s)"

section \<open>Round trips\<close>

lemma length_le_bytes [simp]: "length (le_bytes k n) = k"
  by (simp add: le_bytes_def)

lemma of_le_bytes_le_bytes: "of_le_bytes (le_bytes k n) = n mod 256 ^ k"
  by (simp add: of_le_bytes_def le_bytes_def of_be_bytes_be_bytes)

lemma length_blit: "i + length bs \<le> length buf \<Longrightarrow> length (blit i bs buf) = length buf"
  by (simp add: blit_def)

text \<open>The bytes written are read back; bytes elsewhere are as before.\<close>

lemma range_blit:
  assumes "i + length bs \<le> length buf"
  shows "j = i + length bs \<Longrightarrow> byte_range i j (blit i bs buf) = bs"
    "b \<le> i \<Longrightarrow> byte_range a b (blit i bs buf) = byte_range a b buf"
    "i + length bs \<le> a \<Longrightarrow> byte_range a b (blit i bs buf) = byte_range a b buf"
proof -
  show "byte_range i j (blit i bs buf) = bs" if "j = i + length bs"
    using assms that by (simp add: byte_range_def blit_def)
  show "byte_range a b (blit i bs buf) = byte_range a b buf" if "b \<le> i"
    using that assms by (intro nth_equalityI) (auto simp: byte_range_def blit_def nth_append)
  show "byte_range a b (blit i bs buf) = byte_range a b buf" if "i + length bs \<le> a"
    using that assms by (intro nth_equalityI) (auto simp: byte_range_def blit_def nth_append)
qed

lemma range_take: "j \<le> n \<Longrightarrow> byte_range i j (take n buf) = byte_range i j buf"
  by (simp add: byte_range_def drop_take min_def)

lemma build_ranges:
  assumes "addr_wf a"
  shows "length (sa_buf (build_sockaddr tg a)) = 128" "sa_len (build_sockaddr tg a) \<le> 128"
    "parse_sockaddr tg (sa_buf (build_sockaddr tg a)) = Some a"
    "parse_sockaddr tg (take (sa_len (build_sockaddr tg a)) (sa_buf (build_sockaddr tg a))) = Some a"
proof -
  have "length (sa_buf (build_sockaddr tg a)) = 128 \<and> sa_len (build_sockaddr tg a) \<le> 128 \<and>
    parse_sockaddr tg (sa_buf (build_sockaddr tg a)) = Some a \<and>
    parse_sockaddr tg (take (sa_len (build_sockaddr tg a)) (sa_buf (build_sockaddr tg a))) = Some a"
  proof (cases a)
    case (V4 ip port)
    let ?z = "replicate 128 (0 :: u8)"
    let ?b1 = "blit 0 (le_bytes 2 AF_INET) ?z" and ?p = "be_bytes 2 port"
    let ?b = "blit 4 ip (blit 2 ?p ?b1)"
    have wf: "length ip = 4" "port < 2 ^ 16" using assms V4 by simp_all
    have l1: "length ?b1 = 128" by (simp add: length_blit)
    have l2: "length (blit 2 ?p ?b1) = 128" using l1 by (simp add: length_blit)
    have l: "length ?b = 128" using l2 wf by (simp add: length_blit)
    have r0: "byte_range 0 2 ?b = le_bytes 2 AF_INET"
      using wf l1 l2 by (simp add: range_blit)
    have r2: "byte_range 2 4 ?b = ?p"
      using wf l1 l2 by (simp add: range_blit)
    have r4: "byte_range 4 8 ?b = ip"
      using wf l2 by (simp add: range_blit)
    have port: "of_be_bytes ?p = port" using wf by (simp add: of_be_bytes_be_bytes)
    have "parse_sockaddr tg b = Some a" if "b = ?b \<or> b = take 16 ?b" for b
    proof -
      have "length b \<ge> 16" "byte_range 0 2 b = le_bytes 2 AF_INET" "byte_range 2 4 b = ?p" "byte_range 4 8 b = ip"
        using that l r0 r2 r4 by (auto simp: range_take)
      then show ?thesis using port V4
        by (simp add: parse_sockaddr_def of_le_bytes_le_bytes AF_INET_def)
    qed
    with V4 l show ?thesis by simp
  next
    case (V6 ip port flow scope)
    let ?z = "replicate 128 (0 :: u8)"
    let ?b1 = "blit 0 (le_bytes 2 (AF_INET6 tg)) ?z" and ?p = "be_bytes 2 port" and ?f = "be_bytes 4 flow"
    let ?b2 = "blit 2 ?p ?b1" and ?s = "le_bytes 4 scope"
    let ?b3 = "blit 4 ?f ?b2"
    let ?b4 = "blit 8 ip ?b3"
    let ?b = "blit 24 ?s ?b4"
    have wf: "length ip = 16" "port < 2 ^ 16" "flow < 2 ^ 32" "scope < 2 ^ 32" using assms V6 by simp_all
    have l1: "length ?b1 = 128" by (simp add: length_blit)
    have l2: "length ?b2 = 128" using l1 by (simp add: length_blit)
    have l3: "length ?b3 = 128" using l2 by (simp add: length_blit)
    have l4: "length ?b4 = 128" using l3 wf by (simp add: length_blit)
    have l: "length ?b = 128" using l4 by (simp add: length_blit)
    have r0: "byte_range 0 2 ?b = le_bytes 2 (AF_INET6 tg)"
      using wf l1 l2 l3 l4 by (simp add: range_blit)
    have r2: "byte_range 2 4 ?b = ?p"
      using wf l1 l2 l3 l4 by (simp add: range_blit)
    have r4: "byte_range 4 8 ?b = ?f"
      using wf l2 l3 l4 by (simp add: range_blit)
    have r8: "byte_range 8 24 ?b = ip"
      using wf l3 l4 by (simp add: range_blit)
    have r24: "byte_range 24 28 ?b = ?s" using l4 by (simp add: range_blit)
    have vals: "of_be_bytes ?p = port" "of_be_bytes ?f = flow" "of_le_bytes ?s = scope"
      "of_le_bytes (le_bytes 2 (AF_INET6 tg)) = AF_INET6 tg" "AF_INET6 tg \<noteq> AF_INET"
      using wf by (simp_all add: of_be_bytes_be_bytes of_le_bytes_le_bytes AF_INET6_def AF_INET_def)
    have "parse_sockaddr tg b = Some a" if "b = ?b \<or> b = take 28 ?b" for b
    proof -
      have "length b \<ge> 28" "byte_range 0 2 b = le_bytes 2 (AF_INET6 tg)" "byte_range 2 4 b = ?p"
        "byte_range 4 8 b = ?f" "byte_range 8 24 b = ip" "byte_range 24 28 b = ?s"
        using that l r0 r2 r4 r8 r24 by (auto simp: range_take)
      then show ?thesis using vals V6 by (simp add: parse_sockaddr_def)
    qed
    with V6 l show ?thesis by simp
  qed
  then show "length (sa_buf (build_sockaddr tg a)) = 128" "sa_len (build_sockaddr tg a) \<le> 128"
    "parse_sockaddr tg (sa_buf (build_sockaddr tg a)) = Some a"
    "parse_sockaddr tg (take (sa_len (build_sockaddr tg a)) (sa_buf (build_sockaddr tg a))) = Some a"
    by blast+
qed

lemma unix_path_roundtrip:
  assumes "0 \<notin> set path" "path \<noteq> []"
  shows "parse_unix_sockaddr (le_bytes 2 AF_UNIX_FAMILY @ path @ 0 # rest) = Some path"
    "parse_unix_sockaddr (le_bytes 2 AF_UNIX_FAMILY @ path) = Some path"
proof -
  have f: "of_le_bytes (byte_range 0 2 (le_bytes 2 AF_UNIX_FAMILY @ xs)) = AF_UNIX_FAMILY" for xs
    by (simp add: byte_range_def of_le_bytes_le_bytes AF_UNIX_FAMILY_def)
  have "hd (path @ xs) \<noteq> 0" "path @ xs \<noteq> []" for xs using assms by (cases path; auto)+
  moreover have "takeWhile (\<lambda>b. b \<noteq> 0) (path @ 0 # rest) = path" "takeWhile (\<lambda>b. b \<noteq> 0) path = path"
    using assms(1) by (auto simp: takeWhile_append takeWhile_eq_all_conv intro: takeWhile_tail)
  ultimately show "parse_unix_sockaddr (le_bytes 2 AF_UNIX_FAMILY @ path @ 0 # rest) = Some path"
    "parse_unix_sockaddr (le_bytes 2 AF_UNIX_FAMILY @ path) = Some path"
    using assms by (simp_all add: parse_unix_sockaddr_def f)
qed

section \<open>The theorems\<close>

text \<open>
  C24: a socket address survives the trip through the platform's bytes.  For every well-formed IPv4
  or IPv6 address, with its port, flow label and scope, parsing what was built gives the address
  back, from the meaningful prefix handed to the kernel and from the whole buffer, on every
  platform.
\<close>

theorem sockaddr_roundtrip:
  assumes "addr_wf a"
  shows "parse_any_sockaddr tg (take (sa_len (build_sockaddr tg a)) (sa_buf (build_sockaddr tg a))) = Some (Inet a) \<and>
    parse_sockaddr tg (sa_buf (build_sockaddr tg a)) = Some a \<and>
    length (sa_buf (build_sockaddr tg a)) = 128 \<and> sa_len (build_sockaddr tg a) \<le> 128"
  using build_ranges [OF assms, of tg] by (simp add: parse_any_sockaddr_def)

theorem sockaddr_roundtrip_witness:
  "parse_sockaddr On_linux (sa_buf (build_sockaddr On_linux (V4 [127, 0, 0, 1] 8080))) = Some (V4 [127, 0, 0, 1] 8080)"
  using sockaddr_roundtrip [of "V4 [127, 0, 0, 1] 8080" On_linux] by simp

text \<open>
  A created socket is never left inheritable by a child process.  If \<open>create_tcp\<close> succeeds,
  then the socket was made non-inheritable from the start (close-on-exec on Linux, the no-inherit
  flag on Windows), or its inheritable bit was cleared afterwards; and a failure is the system's.
\<close>

theorem create_tcp_not_inheritable:
  assumes "create_tcp tg family w = (Inr s, w')"
  shows "\<exists>cs. nw_calls w' = nw_calls w @ cs \<and>
    (tg \<noteq> On_windows \<and> cs = [N_socket family SOCK_NONBLOCK_CLOEXEC] \<or>
     tg = On_windows \<and> cs = [N_socket family (WSA_FLAG_OVERLAPPED + WSA_FLAG_NO_HANDLE_INHERIT)] \<or>
     last cs = N_clear_inherit s)"
  using assms
  by (auto simp: create_tcp_def net_sys_def clear_handle_inherit_def Let_def split: if_splits prod.splits)

theorem create_tcp_not_inheritable_witness:
  "N_clear_inherit 7 \<in> set (nw_calls (snd (create_tcp On_windows 2
     \<lparr>nw_answers = [(- 10022, []), (7, [])], nw_calls = []\<rparr>)))"
proof -
  let ?w = "\<lparr>nw_answers = [(- 10022, []), (7, [])], nw_calls = []\<rparr>"
  obtain w' where e: "create_tcp On_windows 2 ?w = (Inr 7, w')"
    "nw_calls w' = [N_socket 2 129, N_socket 2 1, N_clear_inherit 7]"
    by (simp add: create_tcp_def net_sys_def clear_handle_inherit_def WSAEINVAL_def
        WSA_FLAG_OVERLAPPED_def WSA_FLAG_NO_HANDLE_INHERIT_def)
  from create_tcp_not_inheritable [OF e(1)] e show ?thesis by auto
qed

text \<open>
  Two different abstract-namespace names can be reported as one.  The name of a socket in
  Linux's abstract namespace may end in zero bytes, which are part of it; the parser strips them.
\<close>

theorem abstract_name_truncated:
  "parse_any_sockaddr On_linux (le_bytes 2 AF_UNIX_FAMILY @ [0, 97, 0]) =
   parse_any_sockaddr On_linux (le_bytes 2 AF_UNIX_FAMILY @ [0, 97])"
  by (simp add: parse_any_sockaddr_def parse_sockaddr_def parse_unix_sockaddr_def byte_range_def
      AF_INET6_def AF_INET_def)

end
