(* ===== verification/Net_State.thy ===== *)
theory Net_State
  imports Backend Buffer_Pool_Props Handles
begin

text \<open>
  The state of the transport layer (\<open>pyshim/src/net.rs\<close>): write buffers, stream transports with
  their facade objects, listeners, datagram endpoints, the table of posted operations, the events
  awaiting dispatch.  Connections of the native HTTP engine (\<open>ProtoKind::Http\<close>) are not part of
  this model: every transport has a Python protocol.

  A Python object is a number: protocols, futures, exceptions, socket objects, servers, handles.
  The backend is a state \<open>'b\<close> with a record of functions \<open>'b sock_ops\<close>, as in \<open>Backend\<close>; it also
  answers for the allocator and for the memory the kernel has written.  What crosses the boundary
  (posts, cancellations, completions as they are processed, calls of protocol methods, sockets
  shut down and closed) is logged in order.
\<close>

section \<open>Write buffers\<close>

datatype write_buf = Bytes "u8 list" nat | Owned "u8 list" nat

fun wb_remaining :: "write_buf \<Rightarrow> nat" where
  "wb_remaining (Bytes d off) = length d - off"
| "wb_remaining (Owned d off) = length d - off"

fun wb_rest :: "write_buf \<Rightarrow> u8 list" where
  "wb_rest (Bytes d off) = drop off d"
| "wb_rest (Owned d off) = drop off d"

definition wb_slice :: "write_buf \<Rightarrow> u8 list" where
  "wb_slice w = take (io_len (wb_remaining w)) (wb_rest w)"

fun wb_advance :: "nat \<Rightarrow> write_buf \<Rightarrow> write_buf" where
  "wb_advance n (Bytes d off) = Bytes d (off + n)"
| "wb_advance n (Owned d off) = Owned d (off + n)"

section \<open>State\<close>

datatype op_target =
    T_recv nat slot_id
  | T_send nat
  | T_connect nat raw_socket
  | T_accept nat
  | T_dgram_recv nat
  | T_dgram_send nat
  | T_pipe_read nat
  | T_pipe_write nat

datatype reap_guard = G_slot slot_id | G_writes "write_buf list"

datatype lost_reason = Clean | Os nat | Exc nat

text \<open>
  The cached callbacks of a protocol: \<open>p_id\<close> is the identity of this set of bound methods,
  \<open>p_plain\<close> and \<open>p_buffered\<close> whether it has \<open>data_received\<close>, or \<open>get_buffer\<close> and \<open>buffer_updated\<close>.
\<close>

record proto_refs =
  p_id :: nat
  p_plain :: bool
  p_buffered :: bool

record transport =
  t_socket :: raw_socket
  t_proto :: proto_refs
  t_recv_slot :: "slot_id option"
  t_recv_class :: size_class
  t_recv_last_full :: bool
  t_recv_op :: "op_id option"
  t_send_op :: "op_id option"
  t_inflight :: nat
  t_wq :: "write_buf list"
  t_queued :: nat
  t_high :: nat
  t_low :: nat
  t_reading_paused :: bool
  t_proto_paused :: bool
  t_closing :: bool
  t_conn_lost :: bool
  t_eof_wanted :: bool
  t_eof_sent :: bool
  t_flush_scheduled :: bool
  t_paused_recv :: "u8 list option"
  t_paused_eof :: bool
  t_extra_sock :: "nat option"
  t_owner :: "nat option"
  t_server :: "nat option"

text \<open>The \<open>Transport\<close> object, which outlives its entry.\<close>

record facade =
  f_eof :: bool
  f_sendfile :: bool
  f_closing :: bool
  f_queued :: nat

definition facade_new :: facade where
  "facade_new = \<lparr>f_eof = False, f_sendfile = False, f_closing = False, f_queued = 0\<rparr>"

record listener =
  l_socket :: raw_socket
  l_owner :: "nat option"
  l_accept_ops :: "op_id list"
  l_target :: nat
  l_closing :: bool
  l_starved :: bool
  l_retry_at :: nat

record datagram =
  d_socket :: raw_socket
  d_owner :: "nat option"
  d_recv_op :: "op_id option"
  d_recv_slot :: "slot_id option"
  d_send_op :: "op_id option"
  d_send_queue :: "(u8 list \<times> u8 list option) list"
  d_queued :: nat
  d_recv_starved :: bool
  d_closing :: bool
  d_conn_lost :: bool

datatype fd_user = U_stream nat | U_datagram nat

text \<open>\<open>NetEvent\<close>, without those of the HTTP engine.\<close>

datatype net_event =
    E_data nat "u8 list"
  | E_held_data nat "u8 list"
  | E_recv_failed nat nat
  | E_buf_data nat slot_id nat
  | E_eof nat
  | E_conn_lost nat nat lost_reason bool "nat option" "nat option"
  | E_resume_writing nat nat
  | E_accepted nat raw_socket
  | E_accept_error nat
  | E_connect_done nat raw_socket nat
  | E_dgram_data nat "u8 list" "u8 list option"
  | E_dgram_error nat nat
  | E_dgram_lost nat "nat option" bool "nat option"
  | E_pipe_read_done nat nat nat
  | E_pipe_write_done nat nat nat

text \<open>
  What crosses the boundary.  A stream send carries the bytes its slices point at; a write the
  bytes the transport accepted, an input those a receive brought.
\<close>

datatype net_log =
    L_send nat op_id "u8 list list"
  | L_recv nat op_id slot_id
  | L_post op_id
  | L_cancel op_id
  | L_done op_id nat nat
  | L_input nat "u8 list"
  | L_write nat "u8 list"
  | L_abort nat
  | L_shutdown raw_socket
  | L_detach raw_socket
  | L_close raw_socket
  | L_lost nat lost_reason
  | L_deliver nat "u8 list"
  | L_pause nat nat
  | L_resume nat nat
  | L_connection_lost nat lost_reason

record 'b net =
  n_ops :: "op_id \<Rightarrow> op_target option"
  n_transports :: "nat \<Rightarrow> transport option"
  n_facades :: "nat \<Rightarrow> facade option"
  n_listeners :: "nat \<Rightarrow> listener option"
  n_datagrams :: "nat \<Rightarrow> datagram option"
  n_next_id :: nat
  n_buffers :: buffer_pool
  n_readers :: "raw_socket \<Rightarrow> nat option"
  n_writers :: "raw_socket \<Rightarrow> nat option"
  n_handles :: "nat hstore"
  n_flush_list :: "nat list"
  n_events :: "net_event list"
  n_ready_scratch :: "nat list"
  n_now :: nat
  n_reap_guards :: "op_id \<Rightarrow> reap_guard option"
  n_graveyard_entries :: "transport list"
  n_graveyard_bufs :: "write_buf list"
  n_graveyard_handles :: "nat list"
  n_graveyard_sockets :: "nat list"
  n_fd_users :: "raw_socket \<Rightarrow> fd_user option"
  n_any_starved :: bool
  n_inline_close :: "nat option"
  n_bytes_rx :: nat
  n_bytes_tx :: nat
  n_conns_accepted :: nat
  n_accept_starved :: nat
  n_sends_posted :: nat
  n_calls :: "net_event list"
  n_bk :: 'b
  n_log :: "net_log list"

definition net_new :: "'b \<Rightarrow> nat hstore \<Rightarrow> 'b net" where
  "net_new b hs = \<lparr>n_ops = (\<lambda>_. None), n_transports = (\<lambda>_. None), n_facades = (\<lambda>_. None),
     n_listeners = (\<lambda>_. None), n_datagrams = (\<lambda>_. None), n_next_id = 0, n_buffers = pool_new,
     n_readers = (\<lambda>_. None), n_writers = (\<lambda>_. None), n_handles = hs, n_flush_list = [],
     n_events = [], n_ready_scratch = [], n_now = 0, n_reap_guards = (\<lambda>_. None),
     n_graveyard_entries = [], n_graveyard_bufs = [], n_graveyard_handles = [],
     n_graveyard_sockets = [], n_fd_users = (\<lambda>_. None), n_any_starved = False,
     n_inline_close = None, n_bytes_rx = 0, n_bytes_tx = 0, n_conns_accepted = 0,
     n_accept_starved = 0, n_sends_posted = 0, n_calls = [], n_bk = b, n_log = []\<rparr>"

section \<open>The backend as the transport layer uses it\<close>

record 'b sock_ops =
  sk_target :: target
  sk_platform :: platform
  sk_post_send :: "raw_socket \<Rightarrow> u8 list list \<Rightarrow> 'b \<Rightarrow> (io_error + op_id) \<times> 'b"
  sk_post_recv :: "raw_socket \<Rightarrow> nat \<Rightarrow> nat \<Rightarrow> 'b \<Rightarrow> (io_error + op_id) \<times> 'b"
  sk_post_recv_from :: "raw_socket \<Rightarrow> nat \<Rightarrow> nat \<Rightarrow> 'b \<Rightarrow> (io_error + op_id) \<times> 'b"
  sk_post_send_to :: "raw_socket \<Rightarrow> u8 list \<Rightarrow> u8 list option \<Rightarrow> 'b \<Rightarrow> (io_error + op_id) \<times> 'b"
  sk_post_accept :: "raw_socket \<Rightarrow> 'b \<Rightarrow> (io_error + op_id) \<times> 'b"
  sk_take_accept :: "op_id \<Rightarrow> 'b \<Rightarrow> (io_error + raw_socket) \<times> 'b"
  sk_take_addr :: "op_id \<Rightarrow> 'b \<Rightarrow> u8 list option \<times> 'b"
  sk_cancel :: "op_id \<Rightarrow> 'b \<Rightarrow> 'b"
  sk_detach :: "raw_socket \<Rightarrow> 'b \<Rightarrow> 'b"
  sk_register :: "raw_socket \<Rightarrow> 'b \<Rightarrow> (io_error + unit) \<times> 'b"
  sk_set_watch :: "raw_socket \<Rightarrow> bool \<Rightarrow> bool \<Rightarrow> 'b \<Rightarrow> (io_error + unit) \<times> 'b"
  sk_take_staged :: "'b \<Rightarrow> completion list \<times> 'b"
  sk_memory :: "nat \<Rightarrow> nat \<Rightarrow> 'b \<Rightarrow> u8 list"
  sk_region :: "size_class \<Rightarrow> 'b \<Rightarrow> region"
  sk_paged :: "slot_id \<Rightarrow> 'b \<Rightarrow> bool"
  sk_cookie :: "nat \<Rightarrow> 'b \<Rightarrow> u64 option"
  sk_post_connect :: "raw_socket \<Rightarrow> u8 list \<Rightarrow> 'b \<Rightarrow> (io_error + op_id) \<times> 'b"
  sk_register_pipe :: "nat \<Rightarrow> 'b \<Rightarrow> (io_error + unit) \<times> 'b"
  sk_post_pipe_read :: "nat \<Rightarrow> nat \<Rightarrow> 'b \<Rightarrow> (io_error + op_id) \<times> 'b"
  sk_post_pipe_write :: "nat \<Rightarrow> u8 list \<Rightarrow> 'b \<Rightarrow> (io_error + op_id) \<times> 'b"
  sk_try_poll :: "'b \<Rightarrow> (io_error + nat) \<times> completion list \<times> 'b"
  sk_release_poller :: "'b \<Rightarrow> 'b"

definition raw_os_error :: "io_error \<Rightarrow> nat option" where
  "raw_os_error e = (case e of Os_error n \<Rightarrow> Some n | _ \<Rightarrow> None)"

definition os_error_or :: "nat \<Rightarrow> io_error \<Rightarrow> nat" where
  "os_error_or d e = (case raw_os_error e of Some n \<Rightarrow> n | None \<Rightarrow> d)"

definition WSAECONNABORTED :: "target \<Rightarrow> nat" where
  "WSAECONNABORTED tg = (if tg = On_windows then 10053 else 103)"

definition ENOBUFS :: "target \<Rightarrow> nat" where
  "ENOBUFS tg = (if tg = On_windows then 10055 else 105)"

section \<open>Elementary updates\<close>

definition say :: "net_log \<Rightarrow> 'b net \<Rightarrow> 'b net" where
  "say l s = s\<lparr>n_log := n_log s @ [l]\<rparr>"

definition emit :: "net_event \<Rightarrow> 'b net \<Rightarrow> 'b net" where
  "emit ev s = s\<lparr>n_events := n_events s @ [ev]\<rparr>"

definition t_upd :: "nat \<Rightarrow> (transport \<Rightarrow> transport) \<Rightarrow> 'b net \<Rightarrow> 'b net" where
  "t_upd tid f s = s\<lparr>n_transports := (n_transports s)(tid := map_option f (n_transports s tid))\<rparr>"

definition f_upd :: "nat \<Rightarrow> (facade \<Rightarrow> facade) \<Rightarrow> 'b net \<Rightarrow> 'b net" where
  "f_upd tid f s = s\<lparr>n_facades := (n_facades s)(tid := map_option f (n_facades s tid))\<rparr>"

definition l_upd :: "nat \<Rightarrow> (listener \<Rightarrow> listener) \<Rightarrow> 'b net \<Rightarrow> 'b net" where
  "l_upd lid f s = s\<lparr>n_listeners := (n_listeners s)(lid := map_option f (n_listeners s lid))\<rparr>"

definition d_upd :: "nat \<Rightarrow> (datagram \<Rightarrow> datagram) \<Rightarrow> 'b net \<Rightarrow> 'b net" where
  "d_upd did f s = s\<lparr>n_datagrams := (n_datagrams s)(did := map_option f (n_datagrams s did))\<rparr>"

definition net_next_id :: "'b net \<Rightarrow> nat \<times> 'b net" where
  "net_next_id s = (let i = n_next_id s + 1 in (i, s\<lparr>n_next_id := i\<rparr>))"

definition add_op :: "op_id \<Rightarrow> op_target \<Rightarrow> 'b net \<Rightarrow> 'b net" where
  "add_op op t s = s\<lparr>n_ops := (n_ops s)(op := Some t)\<rparr>"

definition net_cancel :: "'b sock_ops \<Rightarrow> op_id \<Rightarrow> 'b net \<Rightarrow> 'b net" where
  "net_cancel k op s = say (L_cancel op) (s\<lparr>n_bk := sk_cancel k op (n_bk s)\<rparr>)"

definition net_detach :: "'b sock_ops \<Rightarrow> raw_socket \<Rightarrow> 'b net \<Rightarrow> 'b net" where
  "net_detach k fd s = say (L_detach fd) (s\<lparr>n_bk := sk_detach k fd (n_bk s)\<rparr>)"

definition acquire_slot :: "'b sock_ops \<Rightarrow> size_class \<Rightarrow> 'b net \<Rightarrow> slot_id \<times> 'b net" where
  "acquire_slot k c s =
     (let (sl, p) = buf_acquire (sk_region k c (n_bk s)) c (n_buffers s) in (sl, s\<lparr>n_buffers := p\<rparr>))"

definition retain_slot :: "slot_id \<Rightarrow> 'b net \<Rightarrow> 'b net" where
  "retain_slot sl s = s\<lparr>n_buffers := buf_retain sl (n_buffers s)\<rparr>"

definition release_slot :: "'b sock_ops \<Rightarrow> slot_id \<Rightarrow> 'b net \<Rightarrow> 'b net" where
  "release_slot k sl s =
     s\<lparr>n_buffers := snd (buf_release (sk_platform k) (sk_paged k sl (n_bk s)) sl (n_buffers s))\<rparr>"

definition release_opt :: "'b sock_ops \<Rightarrow> slot_id option \<Rightarrow> 'b net \<Rightarrow> 'b net" where
  "release_opt k slot s = (case slot of None \<Rightarrow> s | Some sl \<Rightarrow> release_slot k sl s)"

definition ensure_buffers_registered :: "'b sock_ops \<Rightarrow> 'b net \<Rightarrow> 'b net" where
  "ensure_buffers_registered k s =
     (let (dirty, p) = take_regions_dirty (n_buffers s); s = s\<lparr>n_buffers := p\<rparr>
      in if \<not> dirty \<or> unregistered_regions p = [] then s
         else s\<lparr>n_buffers := fill_cookies (\<lambda>ptr. sk_cookie k ptr (n_bk s)) p\<rparr>)"

definition forget_fd :: "raw_socket \<Rightarrow> nat \<Rightarrow> 'b net \<Rightarrow> 'b net" where
  "forget_fd fd i s =
     (if n_fd_users s fd = Some (U_stream i) \<or> n_fd_users s fd = Some (U_datagram i)
      then s\<lparr>n_fd_users := (n_fd_users s)(fd := None)\<rparr> else s)"

text \<open>The simplification rules of the elementary updates.\<close>

lemmas net_prims = say_def emit_def t_upd_def f_upd_def l_upd_def d_upd_def add_op_def

end
