(* ===== verification/Stream.thy ===== *)
theory Stream
  imports Net_State
begin

text \<open>
  Stream transports inside the state cell (\<open>net.rs\<close>): the corked write queue and its gather sends,
  teardown, the shutdown that follows a drained queue, receives and what a completed one becomes.
  The branches for \<open>ProtoKind::Http\<close> and the lingering close, which only the HTTP engine uses, are
  left out.
\<close>

section \<open>The write queue\<close>

definition CORK_FLUSH_BYTES :: nat where
  "CORK_FLUSH_BYTES = 64 * 1024"

definition COALESCE_MAX :: nat where
  "COALESCE_MAX = 4096"

text \<open>\<open>coalesce_tail\<close>: the grown queue, or None when a buffer of its own is needed.\<close>

definition coalesce_tail :: "transport \<Rightarrow> u8 list \<Rightarrow> transport option" where
  "coalesce_tail e data =
     (if length data > COALESCE_MAX \<or> length (t_wq e) \<le> t_inflight e \<or> t_wq e = [] then None
      else case last (t_wq e) of
             Owned tail off \<Rightarrow>
               if length tail - off + length data \<le> CORK_FLUSH_BYTES
               then Some (e\<lparr>t_wq := butlast (t_wq e) @ [Owned (tail @ data) off]\<rparr>) else None
           | Bytes _ _ \<Rightarrow> None)"

text \<open>The slices of one gather send, over at most 16 buffers: \<open>n\<close> so far, \<open>got\<close> bytes in them.\<close>

fun gather_slices :: "nat \<Rightarrow> nat \<Rightarrow> write_buf list \<Rightarrow> u8 list list" where
  "gather_slices n got [] = []"
| "gather_slices n got (w # ws) =
     (let s = wb_slice w
      in if n > 0 \<and> got + length s > MAX_SEND_BYTES then []
         else s # gather_slices (n + 1) (got + length s) ws)"

text \<open>The loop of \<open>on_send_done\<close> that takes sent bytes off the queue: the buffers retired, the rest.\<close>

fun pop_sent :: "nat \<Rightarrow> write_buf list \<Rightarrow> write_buf list \<times> write_buf list" where
  "pop_sent consumed [] = ([], [])"
| "pop_sent consumed (w # ws) =
     (if consumed = 0 then ([], w # ws)
      else if consumed \<ge> wb_remaining w
      then (let (gone, rest) = pop_sent (consumed - wb_remaining w) ws in (w # gone, rest))
      else ([], wb_advance consumed w # ws))"

section \<open>Teardown\<close>

text \<open>The entry is already out of the table.\<close>

definition cancel_transport_ops :: "'b sock_ops \<Rightarrow> transport \<Rightarrow> 'b net \<Rightarrow> transport \<times> 'b net" where
  "cancel_transport_ops k e s =
     (let s = (case t_recv_op e of None \<Rightarrow> s | Some op \<Rightarrow> net_cancel k op s);
          (wq, s) = (case t_send_op e of
                       None \<Rightarrow> (t_wq e, s)
                     | Some op \<Rightarrow>
                         (let s = net_cancel k op s
                          in ([], if t_wq e = [] then s
                                  else s\<lparr>n_reap_guards :=
                                         (n_reap_guards s)(op := Some (G_writes (t_wq e)))\<rparr>)))
      in (e\<lparr>t_recv_op := None, t_send_op := None, t_wq := wq, t_inflight := 0, t_queued := 0\<rparr>, s))"

definition release_socket :: "'b sock_ops \<Rightarrow> transport \<Rightarrow> 'b net \<Rightarrow> 'b net" where
  "release_socket k e s =
     (let s = net_detach k (t_socket e) s
      in if t_owner e = None then say (L_close (t_socket e)) s else s)"

definition retire_sockets :: "transport \<Rightarrow> 'b net \<Rightarrow> transport \<times> 'b net" where
  "retire_sockets e s =
     (e\<lparr>t_owner := None, t_extra_sock := None, t_server := None\<rparr>,
      s\<lparr>n_graveyard_sockets := n_graveyard_sockets s @
          (case t_owner e of None \<Rightarrow> [] | Some x \<Rightarrow> [x]) @
          (case t_extra_sock e of None \<Rightarrow> [] | Some x \<Rightarrow> [x])\<rparr>)"

definition mark_lost :: "facade \<Rightarrow> facade" where
  "mark_lost f = f\<lparr>f_closing := True, f_queued := 0\<rparr>"

text \<open>
  The part of \<open>teardown_lost\<close> and \<open>teardown\<close> between the table and the protocol: the entry is
  marked, its operations cancelled, its socket let go, its slot released.
\<close>

definition teardown_core :: "'b sock_ops \<Rightarrow> nat \<Rightarrow> transport \<Rightarrow> 'b net \<Rightarrow> transport \<times> 'b net" where
  "teardown_core k tid e s =
     (let e = e\<lparr>t_conn_lost := True\<rparr>; s = f_upd tid mark_lost s;
          (e, s) = cancel_transport_ops k e s;
          s = release_socket k e s;
          s = forget_fd (t_socket e) tid s;
          s = release_opt k (t_recv_slot e) s
      in (e\<lparr>t_recv_slot := None\<rparr>, s))"

definition bury_entry :: "transport \<Rightarrow> 'b net \<Rightarrow> 'b net" where
  "bury_entry e s =
     (let (e, s) = retire_sockets e s in s\<lparr>n_graveyard_entries := n_graveyard_entries s @ [e]\<rparr>)"

definition close_after_of :: "transport \<Rightarrow> nat option" where
  "close_after_of e = (case t_owner e of Some x \<Rightarrow> Some x | None \<Rightarrow> t_extra_sock e)"

definition teardown_lost :: "'b sock_ops \<Rightarrow> nat \<Rightarrow> lost_reason \<Rightarrow> bool \<Rightarrow> 'b net \<Rightarrow> 'b net" where
  "teardown_lost k tid err immediate s =
     (case n_transports s tid of
        None \<Rightarrow> s
      | Some e \<Rightarrow>
          (let s = s\<lparr>n_transports := (n_transports s)(tid := None)\<rparr>
           in if t_conn_lost e then bury_entry e s
              else
                (let (e, s) = teardown_core k tid e s;
                     s = emit (E_conn_lost tid (p_id (t_proto e)) err immediate (close_after_of e)
                               (t_server e)) s;
                     s = say (L_lost tid err) s;
                     e = (if t_owner e \<noteq> None then e\<lparr>t_owner := None\<rparr> else e\<lparr>t_extra_sock := None\<rparr>)
                 in bury_entry (e\<lparr>t_server := None\<rparr>) s)))"

text \<open>\<open>teardown_with\<close> and \<open>teardown_reason\<close>.\<close>

definition teardown_with :: "'b sock_ops \<Rightarrow> nat \<Rightarrow> nat option \<Rightarrow> 'b net \<Rightarrow> 'b net" where
  "teardown_with k tid err s =
     teardown_lost k tid (case err of None \<Rightarrow> Clean | Some c \<Rightarrow> Os c) False s"

definition teardown_err :: "'b sock_ops \<Rightarrow> nat \<Rightarrow> io_error \<Rightarrow> 'b net \<Rightarrow> 'b net" where
  "teardown_err k tid e s = teardown_with k tid (Some (os_error_or 5 e)) s"

text \<open>\<open>teardown\<close>: the loop is closing, nobody is told.\<close>

definition teardown_at_close :: "'b sock_ops \<Rightarrow> nat \<Rightarrow> 'b net \<Rightarrow> 'b net" where
  "teardown_at_close k tid s =
     (case n_transports s tid of
        None \<Rightarrow> s
      | Some e \<Rightarrow>
          (let s = s\<lparr>n_transports := (n_transports s)(tid := None)\<rparr>; (e, s) = teardown_core k tid e s
           in bury_entry e s))"

section \<open>Sending\<close>

definition stream_shutdown_send :: "transport \<Rightarrow> 'b net \<Rightarrow> 'b net" where
  "stream_shutdown_send e s = say (L_shutdown (t_socket e)) s"

definition maybe_finish_shutdown :: "'b sock_ops \<Rightarrow> nat \<Rightarrow> bool \<Rightarrow> 'b net \<Rightarrow> 'b net" where
  "maybe_finish_shutdown k tid drained s =
     (case n_transports s tid of
        None \<Rightarrow> s
      | Some e \<Rightarrow>
          if t_send_op e \<noteq> None \<or> t_wq e \<noteq> [] \<or> t_conn_lost e then s
          else
            (let s = (if t_eof_wanted e \<and> \<not> t_eof_sent e
                      then stream_shutdown_send e (t_upd tid (\<lambda>e. e\<lparr>t_eof_sent := True\<rparr>) s) else s)
             in if t_closing e
                then teardown_lost k tid Clean (drained \<and> n_inline_close s \<noteq> Some tid) s
                else s))"

definition flush_pending :: "'b sock_ops \<Rightarrow> nat \<Rightarrow> 'b net \<Rightarrow> 'b net" where
  "flush_pending k tid s =
     (case n_transports s tid of
        None \<Rightarrow> s
      | Some e \<Rightarrow>
          (let s = t_upd tid (\<lambda>e. e\<lparr>t_flush_scheduled := False\<rparr>) s
           in if t_send_op e \<noteq> None \<or> t_conn_lost e then s
              else if t_wq e = [] then maybe_finish_shutdown k tid True s
              else
                (let slices = gather_slices 0 0 (take 16 (t_wq e));
                     (r, b) = sk_post_send k (t_socket e) slices (n_bk s);
                     s = s\<lparr>n_bk := b\<rparr>
                 in case r of
                      Inr op \<Rightarrow>
                        (let s = say (L_send tid op slices) (s\<lparr>n_sends_posted := n_sends_posted s + 1\<rparr>);
                             s = t_upd tid (\<lambda>e. e\<lparr>t_send_op := Some op,
                                                 t_inflight := length slices\<rparr>) s
                         in add_op op (T_send tid) s)
                    | Inl err \<Rightarrow> teardown_err k tid err s)))"

definition send_corked :: "'b sock_ops \<Rightarrow> nat \<Rightarrow> 'b net \<Rightarrow> bool \<times> 'b net" where
  "send_corked k tid s =
     (case n_transports s tid of
        None \<Rightarrow> (False, s)
      | Some e \<Rightarrow>
          if t_conn_lost e \<or> t_send_op e \<noteq> None \<or> t_wq e = [] then (False, s)
          else (True, flush_pending k tid s))"

definition finish_after_resume :: "'b sock_ops \<Rightarrow> nat \<Rightarrow> 'b net \<Rightarrow> 'b net" where
  "finish_after_resume k tid s =
     (case n_transports s tid of
        None \<Rightarrow> s
      | Some e \<Rightarrow>
          if t_wq e = [] \<and> t_send_op e = None then maybe_finish_shutdown k tid True s else s)"

text \<open>A completed send: the queue after it, and the resumption it owes the protocol.\<close>

definition apply_sent :: "nat \<Rightarrow> transport \<Rightarrow> transport \<times> write_buf list" where
  "apply_sent bytes e =
     (let (gone, rest) = pop_sent bytes (t_wq e)
      in (e\<lparr>t_queued := t_queued e - min bytes (t_queued e), t_wq := rest\<rparr>, gone))"

definition on_send_done :: "'b sock_ops \<Rightarrow> nat \<Rightarrow> op_id \<Rightarrow> nat \<Rightarrow> nat \<Rightarrow> 'b net \<Rightarrow> 'b net" where
  "on_send_done k tid op bytes os_error s =
     (case n_transports s tid of
        None \<Rightarrow> s
      | Some e0 \<Rightarrow>
          (let e = (if t_send_op e0 = Some op then e0\<lparr>t_send_op := None, t_inflight := 0\<rparr> else e0);
               s = t_upd tid (\<lambda>_. e) s
           in if t_conn_lost e then s
              else if os_error \<noteq> 0
              then teardown_with k tid
                     (Some (if is_cancelled_error (sk_target k) os_error
                            then WSAECONNABORTED (sk_target k) else os_error)) s
              else
                (let s = s\<lparr>n_bytes_tx := n_bytes_tx s + bytes\<rparr>;
                     (e, gone) = apply_sent bytes e;
                     s = f_upd tid (\<lambda>f. f\<lparr>f_queued := t_queued e\<rparr>)
                           (s\<lparr>n_graveyard_bufs := n_graveyard_bufs s @ gone\<rparr>);
                     resuming = (t_proto_paused e \<and> t_queued e \<le> t_low e);
                     e = (if resuming then e\<lparr>t_proto_paused := False\<rparr> else e);
                     s = t_upd tid (\<lambda>_. e) s;
                     s = (if resuming then emit (E_resume_writing tid (p_id (t_proto e))) s else s)
                 in if t_wq e \<noteq> [] then flush_pending k tid s
                    else if \<not> resuming then maybe_finish_shutdown k tid True s
                    else s)))"

section \<open>Receiving\<close>

definition stream_post_recv :: "'b sock_ops \<Rightarrow> nat \<Rightarrow> 'b net \<Rightarrow> 'b net" where
  "stream_post_recv k tid s =
     (case n_transports s tid of
        None \<Rightarrow> s
      | Some e \<Rightarrow>
          if t_recv_op e \<noteq> None \<or> t_reading_paused e \<or> t_closing e \<or> t_conn_lost e then s
          else
            (let (slot, s) =
                   (case t_recv_slot e of
                      Some sl \<Rightarrow> (sl, s)
                    | None \<Rightarrow>
                        (let (sl, s) = acquire_slot k (t_recv_class e) s;
                             s = ensure_buffers_registered k s
                         in (sl, t_upd tid (\<lambda>e. e\<lparr>t_recv_slot := Some sl\<rparr>) s)));
                 (r, b) = sk_post_recv k (t_socket e) (buf_slot_ptr slot (n_buffers s))
                            (class_size (bclass slot)) (n_bk s);
                 s = s\<lparr>n_bk := b\<rparr>
             in case r of
                  Inr op \<Rightarrow>
                    (let s = say (L_recv tid op slot) (retain_slot slot s);
                         s = t_upd tid (\<lambda>e. e\<lparr>t_recv_op := Some op\<rparr>) s
                     in add_op op (T_recv tid slot) s)
                | Inl err \<Rightarrow> emit (E_recv_failed tid (os_error_or 5 err)) s))"

definition hold_bytes :: "u8 list \<Rightarrow> transport \<Rightarrow> transport" where
  "hold_bytes data e =
     e\<lparr>t_paused_recv := Some ((case t_paused_recv e of Some held \<Rightarrow> held | None \<Rightarrow> []) @ data)\<rparr>"

text \<open>The end of \<open>on_recv_done\<close>: the next receive is sized by this one.\<close>

definition size_next_read :: "'b sock_ops \<Rightarrow> nat \<Rightarrow> slot_id \<Rightarrow> nat \<Rightarrow> 'b net \<Rightarrow> 'b net" where
  "size_next_read k tid slot bytes s =
     (case n_transports s tid of
        None \<Rightarrow> s
      | Some e \<Rightarrow>
          (let nxt = after_read (bclass slot) bytes (t_recv_last_full e);
               s = t_upd tid (\<lambda>e. e\<lparr>t_recv_last_full := bytes \<ge> class_size (bclass slot),
                                   t_recv_class := nxt\<rparr>) s
           in if nxt \<noteq> bclass slot \<and> t_recv_slot e = Some slot \<and> t_recv_op e = None
              then release_slot k slot (t_upd tid (\<lambda>e. e\<lparr>t_recv_slot := None\<rparr>) s)
              else s))"

definition on_recv_done :: "'b sock_ops \<Rightarrow> nat \<Rightarrow> op_id \<Rightarrow> slot_id \<Rightarrow> nat \<Rightarrow> nat \<Rightarrow> 'b net \<Rightarrow> 'b net" where
  "on_recv_done k tid op slot bytes os_error s =
     (case n_transports s tid of
        None \<Rightarrow> s
      | Some e0 \<Rightarrow>
          (let e = (if t_recv_op e0 = Some op then e0\<lparr>t_recv_op := None\<rparr> else e0);
               s = t_upd tid (\<lambda>_. e) s
           in if t_conn_lost e \<or> t_closing e then s
              else if os_error \<noteq> 0
              then teardown_with k tid
                     (Some (if is_cancelled_error (sk_target k) os_error
                            then WSAECONNABORTED (sk_target k) else os_error)) s
              else if bytes = 0
              then (if t_reading_paused e then t_upd tid (\<lambda>e. e\<lparr>t_paused_eof := True\<rparr>) s
                    else emit (E_eof tid) s)
              else
                (let s = s\<lparr>n_bytes_rx := n_bytes_rx s + bytes\<rparr>;
                     data = sk_memory k (buf_slot_ptr slot (n_buffers s)) bytes (n_bk s);
                     s = say (L_input tid data) s
                 in if t_reading_paused e
                    then release_slot k slot
                           (t_upd tid (\<lambda>e. (hold_bytes data e)\<lparr>t_recv_slot := None\<rparr>) s)
                    else
                      (let s = (if p_plain (t_proto e) then emit (E_data tid data) s
                                else emit (E_buf_data tid slot bytes)
                                       (t_upd tid (\<lambda>e. e\<lparr>t_recv_slot := None\<rparr>) s))
                       in stream_post_recv k tid (size_next_read k tid slot bytes s)))))"

definition flush_paused_recv :: "nat \<Rightarrow> 'b net \<Rightarrow> bool \<times> 'b net" where
  "flush_paused_recv tid s =
     (case n_transports s tid of
        None \<Rightarrow> (False, s)
      | Some e \<Rightarrow>
          (let s = t_upd tid (\<lambda>e. e\<lparr>t_paused_recv := None, t_paused_eof := False\<rparr>) s
           in if t_conn_lost e \<or> t_closing e then (False, s)
              else
                (let s = (case t_paused_recv e of None \<Rightarrow> s | Some data \<Rightarrow> emit (E_held_data tid data) s);
                     s = (if t_paused_eof e then emit (E_eof tid) s else s)
                 in (t_paused_eof e, s))))"

section \<open>Where an event's bytes go\<close>

datatype inbound = In_discard | In_held | In_plain nat | In_buffered nat

definition route_inbound :: "nat \<Rightarrow> u8 list \<Rightarrow> 'b net \<Rightarrow> inbound \<times> 'b net" where
  "route_inbound tid data s =
     (case n_transports s tid of
        None \<Rightarrow> (In_discard, s)
      | Some e \<Rightarrow>
          if t_conn_lost e \<or> t_closing e then (In_discard, s)
          else if t_reading_paused e then (In_held, t_upd tid (hold_bytes data) s)
          else if p_plain (t_proto e) then (In_plain (p_id (t_proto e)), s)
          else if p_buffered (t_proto e) then (In_buffered (p_id (t_proto e)), s)
          else (In_discard, s))"

text \<open>Whether \<open>eof_received\<close> is to be called now.\<close>

definition route_eof :: "nat \<Rightarrow> 'b net \<Rightarrow> bool \<times> 'b net" where
  "route_eof tid s =
     (case n_transports s tid of
        None \<Rightarrow> (False, s)
      | Some e \<Rightarrow>
          if t_conn_lost e \<or> t_closing e then (False, s)
          else if t_reading_paused e then (False, t_upd tid (\<lambda>e. e\<lparr>t_paused_eof := True\<rparr>) s)
          else (True, s))"

end
