(* ===== verification/Endpoints.thy ===== *)
theory Endpoints
  imports Stream
begin

text \<open>
  Datagram endpoints and listeners inside the state cell (\<open>net.rs\<close>): one receive outstanding per
  endpoint and its sends one at a time behind a bounded queue; accept pools and the retry of the
  resources that ran dry.  A hash map's iteration order is an argument.  What an accepted
  connection becomes (\<open>ListenerKind\<close>) is decided when its event is dispatched.
\<close>

section \<open>Datagram endpoints\<close>

definition DGRAM_SEND_QUEUE_MAX :: nat where
  "DGRAM_SEND_QUEUE_MAX = 2 ^ 20"

definition DGRAM_PER_PACKET :: nat where
  "DGRAM_PER_PACKET = 128"

definition cancel_dgram_ops :: "'b sock_ops \<Rightarrow> datagram \<Rightarrow> 'b net \<Rightarrow> datagram \<times> 'b net" where
  "cancel_dgram_ops k e s =
     (let e = e\<lparr>d_send_queue := [], d_queued := 0, d_recv_starved := False\<rparr>;
          (e, s) = (case d_recv_op e of
                      None \<Rightarrow> (e, s)
                    | Some op \<Rightarrow>
                        (let s = net_cancel k op s; e = e\<lparr>d_recv_op := None\<rparr>
                         in case d_recv_slot e of
                              None \<Rightarrow> (e, s)
                            | Some sl \<Rightarrow> (e\<lparr>d_recv_slot := None\<rparr>,
                                s\<lparr>n_reap_guards := (n_reap_guards s)(op := Some (G_slot sl))\<rparr>)))
      in case d_send_op e of
           None \<Rightarrow> (e, s)
         | Some op \<Rightarrow> (e\<lparr>d_send_op := None\<rparr>, net_cancel k op s))"

definition dgram_post_recv :: "'b sock_ops \<Rightarrow> nat \<Rightarrow> 'b net \<Rightarrow> (io_error + unit) \<times> 'b net" where
  "dgram_post_recv k did s =
     (case n_datagrams s did of
        None \<Rightarrow> (Inr (), s)
      | Some e \<Rightarrow>
          if d_closing e \<or> d_conn_lost e \<or> d_recv_op e \<noteq> None then (Inr (), s)
          else
            (let (slot, s) = (case d_recv_slot e of Some sl \<Rightarrow> (sl, s) | None \<Rightarrow> acquire_slot k S64K s);
                 ptr = buf_slot_ptr slot (n_buffers s);
                 s = ensure_buffers_registered k s;
                 (r, b) = sk_post_recv_from k (d_socket e) ptr (class_size S64K) (n_bk s);
                 s = s\<lparr>n_bk := b\<rparr>
             in case r of
                  Inr op \<Rightarrow>
                    (Inr (), add_op op (T_dgram_recv did) (say (L_post op)
                      (d_upd did (\<lambda>e. e\<lparr>d_recv_slot := Some slot, d_recv_op := Some op\<rparr>) s)))
                | Inl err \<Rightarrow>
                    (Inl err, d_upd did (\<lambda>e. e\<lparr>d_recv_slot := None\<rparr>) (release_slot k slot s))))"

definition starve :: "'b net \<Rightarrow> 'b net" where
  "starve s = s\<lparr>n_any_starved := True, n_accept_starved := n_accept_starved s + 1\<rparr>"

definition on_dgram_recv_done :: "'b sock_ops \<Rightarrow> nat \<Rightarrow> op_id \<Rightarrow> nat \<Rightarrow> nat \<Rightarrow> 'b net \<Rightarrow> 'b net" where
  "on_dgram_recv_done k did op bytes os_error s =
     (let (addr, s) = (if os_error = 0
                       then (let (a, b) = sk_take_addr k op (n_bk s) in (a, s\<lparr>n_bk := b\<rparr>))
                       else (None, s))
      in case n_datagrams s did of
           None \<Rightarrow> s
         | Some e \<Rightarrow>
             (let s = d_upd did (\<lambda>e. e\<lparr>d_recv_op := None\<rparr>) s
              in if d_closing e \<or> d_conn_lost e then s
                 else if os_error \<noteq> 0 \<and> is_cancelled_error (sk_target k) os_error then s
                 else
                   (let s = (if os_error = 0
                             then emit (E_dgram_data did
                                    (sk_memory k (buf_slot_ptr (the (d_recv_slot e)) (n_buffers s))
                                       bytes (n_bk s)) addr) s
                             else emit (E_dgram_error did os_error) s);
                        (r, s) = dgram_post_recv k did s
                    in case r of
                         Inr _ \<Rightarrow> s
                       | Inl _ \<Rightarrow>
                           if n_datagrams s did = None then s
                           else starve (d_upd did (\<lambda>e. e\<lparr>d_recv_starved := True\<rparr>) s))))"

definition dgram_send_now ::
  "'b sock_ops \<Rightarrow> nat \<Rightarrow> u8 list \<Rightarrow> u8 list option \<Rightarrow> 'b net \<Rightarrow> 'b net" where
  "dgram_send_now k did data addr s =
     (case n_datagrams s did of
        None \<Rightarrow> s
      | Some e \<Rightarrow>
          (let (r, b) = sk_post_send_to k (d_socket e) data addr (n_bk s); s = s\<lparr>n_bk := b\<rparr>
           in case r of
                Inr op \<Rightarrow> add_op op (T_dgram_send did) (say (L_post op)
                           (d_upd did (\<lambda>e. e\<lparr>d_send_op := Some op\<rparr>) s))
              | Inl err \<Rightarrow> emit (E_dgram_error did (os_error_or 0 err)) s))"

definition bury_dgram :: "nat option \<Rightarrow> 'b net \<Rightarrow> 'b net" where
  "bury_dgram owner s =
     s\<lparr>n_graveyard_sockets := n_graveyard_sockets s @ (case owner of None \<Rightarrow> [] | Some x \<Rightarrow> [x])\<rparr>"

text \<open>What both teardowns of an endpoint do with its operations, descriptor and slot.\<close>

definition dgram_core :: "'b sock_ops \<Rightarrow> nat \<Rightarrow> datagram \<Rightarrow> 'b net \<Rightarrow> datagram \<times> 'b net" where
  "dgram_core k did e s =
     (let (e, s) = cancel_dgram_ops k e s;
          s = net_detach k (d_socket e) s;
          s = forget_fd (d_socket e) did s;
          s = (if d_owner e = None then say (L_close (d_socket e)) s else s)
      in (e, release_opt k (d_recv_slot e) s))"

definition udp_teardown :: "'b sock_ops \<Rightarrow> nat \<Rightarrow> nat option \<Rightarrow> bool \<Rightarrow> 'b net \<Rightarrow> 'b net" where
  "udp_teardown k did err immediate s =
     (case n_datagrams s did of
        None \<Rightarrow> s
      | Some e \<Rightarrow>
          (let s = s\<lparr>n_datagrams := (n_datagrams s)(did := None)\<rparr>
           in if d_conn_lost e then s
              else (let (e, s) = dgram_core k did e s
                    in emit (E_dgram_lost did err immediate (d_owner e)) s)))"

definition udp_teardown_at_close :: "'b sock_ops \<Rightarrow> nat \<Rightarrow> 'b net \<Rightarrow> 'b net" where
  "udp_teardown_at_close k did s =
     (case n_datagrams s did of
        None \<Rightarrow> s
      | Some e \<Rightarrow>
          (let (e, s) = dgram_core k did e (s\<lparr>n_datagrams := (n_datagrams s)(did := None)\<rparr>)
           in bury_dgram (d_owner e) s))"

text \<open>Queued datagrams are posted until one is in flight; then a deferred close is honoured.\<close>

definition queue_len :: "nat \<Rightarrow> 'b net \<Rightarrow> nat" where
  "queue_len did s = (case n_datagrams s did of None \<Rightarrow> 0 | Some e \<Rightarrow> length (d_send_queue e))"

definition take_queued :: "nat \<Rightarrow> datagram \<Rightarrow> datagram" where
  "take_queued n e = e\<lparr>d_send_queue := tl (d_send_queue e), d_queued := d_queued e - (n + DGRAM_PER_PACKET)\<rparr>"

lemma queue_len_send_now: "queue_len did (dgram_send_now k did data addr s) = queue_len did s"
  by (auto simp: queue_len_def dgram_send_now_def Let_def net_prims split: option.splits sum.splits prod.splits)

function dgram_pump_send :: "'b sock_ops \<Rightarrow> nat \<Rightarrow> 'b net \<Rightarrow> 'b net" where
  "dgram_pump_send k did s =
     (case n_datagrams s did of
        None \<Rightarrow> s
      | Some e \<Rightarrow>
          if d_send_op e \<noteq> None then s
          else case d_send_queue e of
                 (data, addr) # _ \<Rightarrow>
                   dgram_pump_send k did
                     (dgram_send_now k did data addr (d_upd did (take_queued (length data)) s))
               | [] \<Rightarrow>
                   if d_closing e \<and> \<not> d_conn_lost e then udp_teardown k did None True s else s)"
  by pat_completeness auto
termination
proof (relation "measure (\<lambda>(k, did, s). queue_len did s)", goal_cases)
  case 1
  then show ?case by simp
next
  case (2 k did s)
  then show ?case
    by (simp add: queue_len_send_now) (simp add: queue_len_def d_upd_def take_queued_def)
qed

declare dgram_pump_send.simps [simp del]

definition on_dgram_send_done :: "'b sock_ops \<Rightarrow> nat \<Rightarrow> nat \<Rightarrow> 'b net \<Rightarrow> 'b net" where
  "on_dgram_send_done k did os_error s =
     (case n_datagrams s did of
        None \<Rightarrow> s
      | Some _ \<Rightarrow>
          (let s = d_upd did (\<lambda>e. e\<lparr>d_send_op := None\<rparr>) s;
               s = (if os_error \<noteq> 0 \<and> \<not> is_cancelled_error (sk_target k) os_error
                    then emit (E_dgram_error did os_error) s else s)
           in dgram_pump_send k did s))"

definition datagram_new :: "raw_socket \<Rightarrow> nat option \<Rightarrow> datagram" where
  "datagram_new sock owner = \<lparr>d_socket = sock, d_owner = owner, d_recv_op = None, d_recv_slot = None,
     d_send_op = None, d_send_queue = [], d_queued = 0, d_recv_starved = False, d_closing = False,
     d_conn_lost = False\<rparr>"

definition udp_wire :: "'b sock_ops \<Rightarrow> raw_socket \<Rightarrow> nat option \<Rightarrow> 'b net \<Rightarrow> (io_error + nat) \<times> 'b net" where
  "udp_wire k sock owner s =
     (let (r, b) = sk_register k sock (n_bk s); s = s\<lparr>n_bk := b\<rparr>
      in case r of
           Inl e \<Rightarrow> (Inl e, s)
         | Inr _ \<Rightarrow>
             (let (did, s) = net_next_id s;
                  s = s\<lparr>n_fd_users := (n_fd_users s)(sock := Some (U_datagram did)),
                        n_datagrams := (n_datagrams s)(did := Some (datagram_new sock owner))\<rparr>;
                  (r, s) = dgram_post_recv k did s
              in case r of
                   Inr _ \<Rightarrow> (Inr did, s)
                 | Inl e \<Rightarrow>
                     (Inl e, case n_datagrams s did of
                               None \<Rightarrow> s
                             | Some d \<Rightarrow>
                                 snd (dgram_core k did d
                                   (s\<lparr>n_datagrams := (n_datagrams s)(did := None)\<rparr>)))))"

definition udp_sendto ::
  "'b sock_ops \<Rightarrow> nat \<Rightarrow> u8 list \<Rightarrow> u8 list option \<Rightarrow> 'b net \<Rightarrow> (io_error + unit) \<times> 'b net" where
  "udp_sendto k did data addr s =
     (case n_datagrams s did of
        None \<Rightarrow> (Inl (Not_found ''datagram endpoint closed''), s)
      | Some e \<Rightarrow>
          if d_closing e \<or> d_conn_lost e then (Inl (Not_found ''datagram endpoint closing''), s)
          else if d_send_op e \<noteq> None then
            (if d_queued e + length data + DGRAM_PER_PACKET > DGRAM_SEND_QUEUE_MAX
             then (Inr (), emit (E_dgram_error did (ENOBUFS (sk_target k))) s)
             else (Inr (), d_upd did (\<lambda>e. e\<lparr>d_queued := d_queued e + (length data + DGRAM_PER_PACKET),
                                            d_send_queue := d_send_queue e @ [(data, addr)]\<rparr>) s))
          else (Inr (), dgram_send_now k did data addr s))"

definition udp_queued_bytes :: "nat \<Rightarrow> 'b net \<Rightarrow> nat" where
  "udp_queued_bytes did s = (case n_datagrams s did of None \<Rightarrow> 0 | Some e \<Rightarrow> d_queued e)"

text \<open>An aborted queue is emptied without giving back its charge; teardown follows or resets it.\<close>

definition udp_close :: "'b sock_ops \<Rightarrow> nat \<Rightarrow> bool \<Rightarrow> 'b net \<Rightarrow> 'b net" where
  "udp_close k did abort s =
     (case n_datagrams s did of
        None \<Rightarrow> s
      | Some e \<Rightarrow>
          if d_conn_lost e then s
          else
            (let q = (if abort then [] else d_send_queue e);
                 s = d_upd did (\<lambda>e. e\<lparr>d_closing := True, d_send_queue := q\<rparr>) s
             in if d_send_op e = None \<and> q = [] then udp_teardown k did None False s else s))"

section \<open>Listeners\<close>

definition STARVED_RETRY_INTERVAL :: nat where
  "STARVED_RETRY_INTERVAL = 50 * 1000000"

definition ACCEPT_RETRY_DELAY :: nat where
  "ACCEPT_RETRY_DELAY = 1000000000"

definition sat64 :: "nat \<Rightarrow> nat" where
  "sat64 n = min n (2 ^ 64 - 1)"

definition listener_create :: "raw_socket \<Rightarrow> nat \<Rightarrow> nat option \<Rightarrow> 'b net \<Rightarrow> nat \<times> 'b net" where
  "listener_create sock tgt owner s =
     (let (lid, s) = net_next_id s
      in (lid, s\<lparr>n_listeners := (n_listeners s)(lid := Some
                 \<lparr>l_socket = sock, l_owner = owner, l_accept_ops = [], l_target = max tgt 1,
                  l_closing = False, l_starved = False, l_retry_at = 0\<rparr>)\<rparr>))"

definition accept_room :: "nat \<Rightarrow> 'b net \<Rightarrow> nat" where
  "accept_room lid s =
     (case n_listeners s lid of None \<Rightarrow> 0 | Some l \<Rightarrow> l_target l - length (l_accept_ops l))"

function post_accepts_inner :: "'b sock_ops \<Rightarrow> nat \<Rightarrow> bool \<Rightarrow> 'b net \<Rightarrow> 'b net" where
  "post_accepts_inner k lid report s =
     (case n_listeners s lid of
        None \<Rightarrow> s
      | Some l \<Rightarrow>
          if l_closing l \<or> length (l_accept_ops l) \<ge> l_target l
          then l_upd lid (\<lambda>l. l\<lparr>l_starved := False\<rparr>) s
          else
            (let (r, b) = sk_post_accept k (l_socket l) (n_bk s); s = s\<lparr>n_bk := b\<rparr>
             in case r of
                  Inr op \<Rightarrow>
                    post_accepts_inner k lid report (add_op op (T_accept lid) (say (L_post op)
                      (l_upd lid (\<lambda>l. l\<lparr>l_accept_ops := l_accept_ops l @ [op], l_starved := False\<rparr>) s)))
                | Inl err \<Rightarrow>
                    if l_accept_ops l \<noteq> [] then s
                    else
                      (let failed = (err \<noteq> Would_block);
                           delay = (if failed then ACCEPT_RETRY_DELAY else STARVED_RETRY_INTERVAL);
                           s = starve (l_upd lid (\<lambda>l. l\<lparr>l_starved := True,
                                 l_retry_at := sat64 (n_now s + delay)\<rparr>) s)
                       in if failed \<and> report then emit (E_accept_error (os_error_or 5 err)) s else s)))"
  by pat_completeness auto
termination
proof (relation "measure (\<lambda>(k, lid, report, s). accept_room lid s)", goal_cases)
  case 1
  then show ?case by simp
next
  case (2 k lid report s)
  then show ?case by (simp add: accept_room_def net_prims) linarith
qed

declare post_accepts_inner.simps [simp del]

definition post_accepts :: "'b sock_ops \<Rightarrow> nat \<Rightarrow> 'b net \<Rightarrow> 'b net" where
  "post_accepts k lid s = post_accepts_inner k lid True s"

definition listener_start :: "'b sock_ops \<Rightarrow> nat \<Rightarrow> 'b net \<Rightarrow> (string + unit) \<times> 'b net" where
  "listener_start k lid s =
     (let s = post_accepts_inner k lid False s
      in (case n_listeners s lid of
            Some l \<Rightarrow> if l_accept_ops l = [] then Inl ''listener could not post its first accept'' else Inr ()
          | None \<Rightarrow> Inr (), s))"

definition listener_remove :: "'b sock_ops \<Rightarrow> nat \<Rightarrow> bool \<Rightarrow> 'b net \<Rightarrow> 'b net" where
  "listener_remove k lid close_owner s =
     (case n_listeners s lid of
        None \<Rightarrow> s
      | Some l \<Rightarrow>
          (let s = s\<lparr>n_listeners := (n_listeners s)(lid := None)\<rparr>;
               s = fold (net_cancel k) (l_accept_ops l) s;
               s = net_detach k (l_socket l) s
           in case l_owner l of
                Some ow \<Rightarrow> if close_owner
                           then s\<lparr>n_graveyard_sockets := n_graveyard_sockets s @ [ow]\<rparr> else s
              | None \<Rightarrow> say (L_close (l_socket l)) s))"

definition listener_teardown :: "'b sock_ops \<Rightarrow> nat \<Rightarrow> 'b net \<Rightarrow> 'b net" where
  "listener_teardown k lid s = listener_remove k lid True s"

definition on_accept_done :: "'b sock_ops \<Rightarrow> nat \<Rightarrow> op_id \<Rightarrow> nat \<Rightarrow> 'b net \<Rightarrow> 'b net" where
  "on_accept_done k lid op os_error s =
     (case n_listeners s lid of
        None \<Rightarrow>
          if os_error \<noteq> 0 then s
          else (let (r, b) = sk_take_accept k op (n_bk s); s = s\<lparr>n_bk := b\<rparr>
                in case r of Inr sock \<Rightarrow> say (L_close sock) s | Inl _ \<Rightarrow> s)
      | Some l \<Rightarrow>
          (let s = l_upd lid (\<lambda>l. l\<lparr>l_accept_ops := filter (\<lambda>x. x \<noteq> op) (l_accept_ops l)\<rparr>) s
           in if os_error \<noteq> 0 then
                (if l_closing l then s
                 else if is_cancelled_error (sk_target k) os_error
                         \<or> is_transient_accept_error (sk_target k) os_error
                 then post_accepts k lid s
                 else
                   (let s = emit (E_accept_error os_error) s
                    in if filter (\<lambda>x. x \<noteq> op) (l_accept_ops l) = []
                       then starve (l_upd lid (\<lambda>l. l\<lparr>l_starved := True,
                              l_retry_at := sat64 (n_now s + ACCEPT_RETRY_DELAY)\<rparr>) s)
                       else s))
              else
                (let (r, b) = sk_take_accept k op (n_bk s); s = s\<lparr>n_bk := b\<rparr>;
                     s = (case r of
                            Inr sock \<Rightarrow> emit (E_accepted lid sock)
                                         (s\<lparr>n_conns_accepted := n_conns_accepted s + 1\<rparr>)
                          | Inl _ \<Rightarrow> s)
                 in post_accepts k lid s)))"

section \<open>Retrying what ran dry\<close>

definition starved_now :: "nat list \<Rightarrow> nat \<Rightarrow> 'b net \<Rightarrow> nat list" where
  "starved_now lids now s = filter (\<lambda>lid. case n_listeners s lid of None \<Rightarrow> False
     | Some l \<Rightarrow> l_starved l \<and> \<not> l_closing l \<and> l_retry_at l \<le> now) lids"

definition waiting_retry :: "nat list \<Rightarrow> nat \<Rightarrow> 'b net \<Rightarrow> bool" where
  "waiting_retry lids now s = list_ex (\<lambda>lid. case n_listeners s lid of None \<Rightarrow> False
     | Some l \<Rightarrow> l_starved l \<and> \<not> l_closing l \<and> \<not> l_retry_at l \<le> now) lids"

definition deaf_dgrams :: "nat list \<Rightarrow> 'b net \<Rightarrow> nat list" where
  "deaf_dgrams dids s = filter (\<lambda>did. case n_datagrams s did of None \<Rightarrow> False
     | Some e \<Rightarrow> d_recv_starved e \<and> \<not> d_closing e \<and> \<not> d_conn_lost e) dids"

definition retry_listener :: "'b sock_ops \<Rightarrow> nat \<Rightarrow> 'b net \<Rightarrow> 'b net" where
  "retry_listener k lid s = post_accepts k lid (l_upd lid (\<lambda>l. l\<lparr>l_starved := False\<rparr>) s)"

definition retry_dgram :: "'b sock_ops \<Rightarrow> nat \<Rightarrow> 'b net \<Rightarrow> 'b net" where
  "retry_dgram k did s =
     (let (r, s) = dgram_post_recv k did s
      in case r of
           Inr _ \<Rightarrow> d_upd did (\<lambda>e. e\<lparr>d_recv_starved := False\<rparr>) s
         | Inl _ \<Rightarrow> s\<lparr>n_any_starved := True\<rparr>)"

definition retry_starved_listeners :: "'b sock_ops \<Rightarrow> nat list \<Rightarrow> nat list \<Rightarrow> nat \<Rightarrow> 'b net \<Rightarrow> 'b net" where
  "retry_starved_listeners k lids dids now s =
     (if \<not> n_any_starved s then s
      else
        (let starved = starved_now lids now s; deaf = deaf_dgrams dids s;
             s = s\<lparr>n_any_starved := waiting_retry lids now s\<rparr>;
             s = fold (retry_listener k) starved s
         in fold (retry_dgram k) deaf s))"

definition starved_retry_in :: "nat list \<Rightarrow> nat list \<Rightarrow> nat \<Rightarrow> 'b net \<Rightarrow> duration" where
  "starved_retry_in lids dids now s =
     (let waits = concat (map (\<lambda>lid. case n_listeners s lid of None \<Rightarrow> []
                    | Some l \<Rightarrow> if l_starved l \<and> \<not> l_closing l then [l_retry_at l - now] else []) lids);
          soonest = (if waits = [] then 0 else Min (set waits));
          listener_wait = min soonest ACCEPT_RETRY_DELAY;
          wait = (if deaf_dgrams dids s \<noteq> [] then min listener_wait STARVED_RETRY_INTERVAL
                  else listener_wait)
      in max wait 1000000)"

end
