(* ===== verification/Net_Dispatch.thy ===== *)
theory Net_Dispatch
  imports Endpoints
begin

text \<open>
  Completions become events (\<open>translate\<close>), the \<open>Transport\<close> methods a protocol calls, and the
  dispatch of events (\<open>net.rs\<close>).  A protocol callback is Python code that may call the methods
  again, so a dispatch is split where the callback runs: \<open>dispatch_begin\<close> routes the event and logs
  the call, \<open>dispatch_end\<close> does what follows its return.  The state cell's refusals are not modelled
  here (\<open>State_Cell\<close>).
\<close>

section \<open>Completions\<close>

definition unwatch_cancelled :: "'b sock_ops \<Rightarrow> raw_socket \<Rightarrow> bool \<Rightarrow> bool \<Rightarrow> 'b net \<Rightarrow> 'b net" where
  "unwatch_cancelled k fd r w s =
     (let rs = (if r then (n_readers s)(fd := None) else n_readers s);
          ws = (if w then (n_writers s)(fd := None) else n_writers s);
          (res, b) = sk_set_watch k fd (rs fd \<noteq> None) (ws fd \<noteq> None) (n_bk s);
          s = s\<lparr>n_bk := b\<rparr>
      in case res of
           Inl _ \<Rightarrow> s
         | Inr _ \<Rightarrow>
             s\<lparr>n_readers := rs, n_writers := ws,
               n_graveyard_handles := n_graveyard_handles s
                 @ (if r then (case n_readers s fd of None \<Rightarrow> [] | Some h \<Rightarrow> [h]) else [])
                 @ (if w then (case n_writers s fd of None \<Rightarrow> [] | Some h \<Rightarrow> [h]) else [])\<rparr>)"

definition watch_cancelled :: "nat option \<Rightarrow> 'b net \<Rightarrow> bool" where
  "watch_cancelled h s = (case h of None \<Rightarrow> False | Some h \<Rightarrow> is_cancelled h (n_handles s))"

definition queue_ready :: "nat option \<Rightarrow> 'b net \<Rightarrow> 'b net" where
  "queue_ready h s = (case h of None \<Rightarrow> s | Some h \<Rightarrow> s\<lparr>n_ready_scratch := n_ready_scratch s @ [h]\<rparr>)"

definition on_ready :: "'b sock_ops \<Rightarrow> raw_socket \<Rightarrow> bool \<Rightarrow> bool \<Rightarrow> 'b net \<Rightarrow> 'b net" where
  "on_ready k fd readable writable s =
     (let drop_r = (readable \<and> watch_cancelled (n_readers s fd) s);
          drop_w = (writable \<and> watch_cancelled (n_writers s fd) s);
          s = (if drop_r \<or> drop_w then unwatch_cancelled k fd drop_r drop_w s else s);
          s = (if readable \<and> \<not> drop_r then queue_ready (n_readers s fd) s else s)
      in if writable \<and> \<not> drop_w then queue_ready (n_writers s fd) s else s)"

text \<open>What a dead transport left in the kernel's hands is free once the completion is here.\<close>

definition reap_guard_of :: "'b sock_ops \<Rightarrow> op_id \<Rightarrow> 'b net \<Rightarrow> 'b net" where
  "reap_guard_of k op s =
     (let g = n_reap_guards s op; s = s\<lparr>n_reap_guards := (n_reap_guards s)(op := None)\<rparr>
      in case g of
           None \<Rightarrow> s
         | Some (G_slot sl) \<Rightarrow> release_slot k sl s
         | Some (G_writes ws) \<Rightarrow> s\<lparr>n_graveyard_bufs := n_graveyard_bufs s @ ws\<rparr>)"

definition on_io :: "'b sock_ops \<Rightarrow> op_id \<Rightarrow> nat \<Rightarrow> nat \<Rightarrow> 'b net \<Rightarrow> 'b net" where
  "on_io k op bytes os_error s =
     (let s = reap_guard_of k op (say (L_done op bytes os_error) s);
          target = n_ops s op; s = s\<lparr>n_ops := (n_ops s)(op := None)\<rparr>
      in case target of
           None \<Rightarrow> s
         | Some (T_recv tid slot) \<Rightarrow> release_slot k slot (on_recv_done k tid op slot bytes os_error s)
         | Some (T_send tid) \<Rightarrow> on_send_done k tid op bytes os_error s
         | Some (T_accept lid) \<Rightarrow> on_accept_done k lid op os_error s
         | Some (T_connect fut sock) \<Rightarrow> emit (E_connect_done fut sock os_error) s
         | Some (T_dgram_recv did) \<Rightarrow> on_dgram_recv_done k did op bytes os_error s
         | Some (T_dgram_send did) \<Rightarrow> on_dgram_send_done k did os_error s
         | Some (T_pipe_read fut) \<Rightarrow> emit (E_pipe_read_done fut bytes os_error) s
         | Some (T_pipe_write fut) \<Rightarrow> emit (E_pipe_write_done fut bytes os_error) s)"

fun translate_one :: "'b sock_ops \<Rightarrow> completion \<Rightarrow> 'b net \<Rightarrow> 'b net" where
  "translate_one k WakeupC s = s"
| "translate_one k (Ready fd r w) s = on_ready k fd r w s"
| "translate_one k (Io op bytes os_error) s = on_io k op bytes os_error s"

definition translate :: "'b sock_ops \<Rightarrow> completion list \<Rightarrow> 'b net \<Rightarrow> 'b net" where
  "translate k cs s = fold (translate_one k) cs s"

fun settle_rounds :: "'b sock_ops \<Rightarrow> nat \<Rightarrow> 'b net \<Rightarrow> 'b net" where
  "settle_rounds k 0 s = s"
| "settle_rounds k (Suc n) s =
     (let (cs, b) = sk_take_staged k (n_bk s); s = s\<lparr>n_bk := b\<rparr>
      in if cs = [] then s else settle_rounds k n (translate k cs s))"

definition settle_inline :: "'b sock_ops \<Rightarrow> 'b net \<Rightarrow> 'b net" where
  "settle_inline k s = settle_rounds k 8 s"

definition maybe_pause :: "'b sock_ops \<Rightarrow> nat \<Rightarrow> 'b net \<Rightarrow> nat option \<times> 'b net" where
  "maybe_pause k tid s =
     (case n_transports s tid of
        None \<Rightarrow> (None, s)
      | Some e \<Rightarrow>
          if t_proto_paused e \<or> t_queued e \<le> t_high e then (None, s)
          else
            (let s = (if t_send_op e = None then flush_pending k tid s else s);
                 s = settle_inline k s
             in case n_transports s tid of
                  None \<Rightarrow> (None, s)
                | Some e \<Rightarrow>
                    if t_proto_paused e \<or> t_queued e \<le> t_high e then (None, s)
                    else (Some (p_id (t_proto e)), t_upd tid (\<lambda>e. e\<lparr>t_proto_paused := True\<rparr>) s)))"

section \<open>After the cell\<close>

text \<open>
  Graveyards are dropped outside the cell: handles are cancelled and released, sockets closed
  through Python.  A deferred \<open>connection_lost\<close> goes to the facade loop's \<open>call_soon\<close> queue (here
  \<open>n_calls\<close>; the loop is open).
\<close>

definition drain_graveyards :: "'b net \<Rightarrow> 'b net" where
  "drain_graveyards s =
     s\<lparr>n_graveyard_entries := [], n_graveyard_bufs := [], n_graveyard_sockets := [],
       n_handles := fold (\<lambda>h hs. release h (snd (do_cancel h hs))) (n_graveyard_handles s) (n_handles s),
       n_graveyard_handles := []\<rparr>"

fun deferred :: "net_event \<Rightarrow> bool" where
  "deferred (E_conn_lost _ _ _ immediate _ _) = (\<not> immediate)"
| "deferred (E_dgram_lost _ _ immediate _) = (\<not> immediate)"
| "deferred _ = False"

definition schedule_pending_lost :: "'b net \<Rightarrow> 'b net" where
  "schedule_pending_lost s =
     s\<lparr>n_calls := n_calls s @ filter deferred (n_events s),
       n_events := filter (\<lambda>ev. \<not> deferred ev) (n_events s)\<rparr>"

definition leave_cell :: "'b net \<Rightarrow> 'b net" where
  "leave_cell s = schedule_pending_lost (drain_graveyards s)"

section \<open>The write path\<close>

datatype py_error = Runtime_error string | Value_error string

text \<open>The queue after one write: \<open>Queued::Small\<close> or a buffer of its own.\<close>

definition enqueue_write :: "bool \<Rightarrow> u8 list \<Rightarrow> transport \<Rightarrow> transport" where
  "enqueue_write is_bytes data e =
     (let e = e\<lparr>t_queued := t_queued e + length data\<rparr>
      in if is_bytes \<and> length data > COALESCE_MAX then e\<lparr>t_wq := t_wq e @ [Bytes data 0]\<rparr>
         else case coalesce_tail e data of
                Some e \<Rightarrow> e
              | None \<Rightarrow> e\<lparr>t_wq := t_wq e @ [Owned data 0]\<rparr>)"

definition cork :: "'b sock_ops \<Rightarrow> nat \<Rightarrow> transport \<Rightarrow> 'b net \<Rightarrow> 'b net" where
  "cork k tid e s =
     (if t_send_op e \<noteq> None then s
      else if t_queued e \<ge> CORK_FLUSH_BYTES then flush_pending k tid s
      else if t_flush_scheduled e then s
      else (t_upd tid (\<lambda>e. e\<lparr>t_flush_scheduled := True\<rparr>) s)
             \<lparr>n_flush_list := n_flush_list s @ [tid]\<rparr>)"

definition write_in_cell :: "'b sock_ops \<Rightarrow> nat \<Rightarrow> bool \<Rightarrow> u8 list \<Rightarrow> 'b net \<Rightarrow> nat option \<times> 'b net" where
  "write_in_cell k tid is_bytes data s =
     (case n_transports s tid of
        None \<Rightarrow> (None, if is_bytes \<and> length data \<le> COALESCE_MAX then s
                       else s\<lparr>n_graveyard_bufs := n_graveyard_bufs s @
                              [if is_bytes then Bytes data 0 else Owned data 0]\<rparr>)
      | Some e \<Rightarrow>
          (let e = enqueue_write is_bytes data e;
               s = f_upd tid (\<lambda>f. f\<lparr>f_queued := t_queued e\<rparr>)
                     (say (L_write tid data) (t_upd tid (\<lambda>_. e) s))
           in maybe_pause k tid (cork k tid e s)))"

definition call_pause :: "nat \<Rightarrow> nat option \<Rightarrow> 'b net \<Rightarrow> 'b net" where
  "call_pause tid p s = (case p of None \<Rightarrow> s | Some pid \<Rightarrow> say (L_pause tid pid) s)"

definition transport_write ::
  "'b sock_ops \<Rightarrow> nat \<Rightarrow> bool \<Rightarrow> u8 list \<Rightarrow> 'b net \<Rightarrow> (py_error + unit) \<times> 'b net" where
  "transport_write k tid is_bytes data s =
     (case n_facades s tid of
        None \<Rightarrow> (Inr (), s)
      | Some f \<Rightarrow>
          if f_eof f then (Inl (Runtime_error ''Cannot call write() after write_eof()''), s)
          else if f_sendfile f
          then (Inl (Runtime_error ''unable to write; sendfile is in progress''), s)
          else if data = [] then (Inr (), s)
          else
            (let (pause, s) = write_in_cell k tid is_bytes data s;
                 s = (if n_graveyard_bufs s \<noteq> [] \<or> n_graveyard_entries s \<noteq> [] then leave_cell s else s)
             in (Inr (), call_pause tid pause s)))"

text \<open>The items have passed the type check.\<close>

fun write_items ::
  "'b sock_ops \<Rightarrow> nat \<Rightarrow> (bool \<times> u8 list) list \<Rightarrow> 'b net \<Rightarrow> (py_error + unit) \<times> 'b net" where
  "write_items k tid [] s = (Inr (), s)"
| "write_items k tid ((is_bytes, d) # items) s =
     (case transport_write k tid is_bytes d s of
        (Inl e, s) \<Rightarrow> (Inl e, s)
      | (Inr _, s) \<Rightarrow> write_items k tid items s)"

definition writelines ::
  "'b sock_ops \<Rightarrow> nat \<Rightarrow> (bool \<times> u8 list) list \<Rightarrow> 'b net \<Rightarrow> (py_error + unit) \<times> 'b net" where
  "writelines k tid items s =
     (if items = [] then transport_write k tid True [] s else write_items k tid items s)"

definition set_sendfile_active :: "nat \<Rightarrow> bool \<Rightarrow> 'b net \<Rightarrow> (py_error + unit) \<times> 'b net" where
  "set_sendfile_active tid active s =
     (if active \<and> (case n_facades s tid of None \<Rightarrow> False | Some f \<Rightarrow> f_sendfile f)
      then (Inl (Runtime_error ''sendfile is already in progress on this transport''), s)
      else (Inr (), f_upd tid (\<lambda>f. f\<lparr>f_sendfile := active\<rparr>) s))"

definition write_eof :: "'b sock_ops \<Rightarrow> nat \<Rightarrow> 'b net \<Rightarrow> 'b net" where
  "write_eof k tid s =
     (let (opened, s) =
        (case n_transports s tid of
           None \<Rightarrow> (False, s)
         | Some e \<Rightarrow>
             if t_closing e \<or> t_conn_lost e then (False, s)
             else (True, maybe_finish_shutdown k tid False (t_upd tid (\<lambda>e. e\<lparr>t_eof_wanted := True\<rparr>) s)))
      in leave_cell (if opened then f_upd tid (\<lambda>f. f\<lparr>f_eof := True\<rparr>) s else s))"

definition get_write_buffer_size :: "nat \<Rightarrow> 'b net \<Rightarrow> nat" where
  "get_write_buffer_size tid s = (case n_transports s tid of None \<Rightarrow> 0 | Some e \<Rightarrow> t_queued e)"

definition get_write_buffer_limits :: "nat \<Rightarrow> 'b net \<Rightarrow> nat \<times> nat" where
  "get_write_buffer_limits tid s =
     (case n_transports s tid of None \<Rightarrow> (0, 0) | Some e \<Rightarrow> (t_low e, t_high e))"

definition byte_limit :: "int \<Rightarrow> nat" where
  "byte_limit n = min (nat n) usize_max"

text \<open>Limits given as integers.\<close>

definition set_write_buffer_limits ::
  "'b sock_ops \<Rightarrow> nat \<Rightarrow> int option \<Rightarrow> int option \<Rightarrow> 'b net \<Rightarrow> (py_error + unit) \<times> 'b net" where
  "set_write_buffer_limits k tid high low s =
     (let high = (case high of Some h \<Rightarrow> h | None \<Rightarrow> (case low of Some l \<Rightarrow> l * 4 | None \<Rightarrow> 65536));
          low = (case low of Some l \<Rightarrow> l | None \<Rightarrow> high div 4)
      in if \<not> (high \<ge> low \<and> low \<ge> 0)
         then (Inl (Value_error ''high must be >= low must be >= 0''), s)
         else
           (let (pause, s) =
              (if n_transports s tid = None then (None, s)
               else maybe_pause k tid
                      (t_upd tid (\<lambda>e. e\<lparr>t_high := byte_limit high, t_low := byte_limit low\<rparr>) s))
            in (Inr (), call_pause tid pause (leave_cell s))))"

section \<open>The read path\<close>

definition pause_reading :: "nat \<Rightarrow> 'b net \<Rightarrow> 'b net" where
  "pause_reading tid s =
     t_upd tid (\<lambda>e. if t_closing e then e else e\<lparr>t_reading_paused := True\<rparr>) s"

definition resume_in_cell :: "'b sock_ops \<Rightarrow> nat \<Rightarrow> 'b net \<Rightarrow> 'b net" where
  "resume_in_cell k tid s =
     (case n_transports s tid of
        None \<Rightarrow> s
      | Some e \<Rightarrow>
          if t_closing e \<or> \<not> t_reading_paused e then s
          else
            (let (eof, s) = flush_paused_recv tid (t_upd tid (\<lambda>e. e\<lparr>t_reading_paused := False\<rparr>) s)
             in if \<not> eof \<and> t_recv_op e = None then stream_post_recv k tid s else s))"

definition resume_reading :: "'b sock_ops \<Rightarrow> nat \<Rightarrow> 'b net \<Rightarrow> 'b net" where
  "resume_reading k tid s = leave_cell (resume_in_cell k tid s)"

definition is_reading :: "nat \<Rightarrow> 'b net \<Rightarrow> bool" where
  "is_reading tid s = (case n_transports s tid of None \<Rightarrow> False
     | Some e \<Rightarrow> \<not> t_reading_paused e \<and> \<not> t_closing e \<and> \<not> t_conn_lost e)"

section \<open>Lifecycle\<close>

definition settle_corked :: "'b sock_ops \<Rightarrow> nat \<Rightarrow> 'b net \<Rightarrow> 'b net" where
  "settle_corked k tid s =
     (let (sent, s) = send_corked k tid s
      in if sent then (settle_inline k (s\<lparr>n_inline_close := Some tid\<rparr>))\<lparr>n_inline_close := None\<rparr> else s)"

definition close_in_cell :: "'b sock_ops \<Rightarrow> nat \<Rightarrow> 'b net \<Rightarrow> 'b net" where
  "close_in_cell k tid s =
     (case n_transports s tid of
        None \<Rightarrow> s
      | Some e \<Rightarrow>
          if t_closing e \<or> t_conn_lost e then s
          else
            (let s = t_upd tid (\<lambda>e. e\<lparr>t_closing := True, t_recv_op := None\<rparr>) s;
                 s = f_upd tid (\<lambda>f. f\<lparr>f_closing := True\<rparr>) s;
                 s = (case t_recv_op e of None \<Rightarrow> s | Some op \<Rightarrow> net_cancel k op s)
             in maybe_finish_shutdown k tid False (settle_corked k tid s)))"

definition transport_close :: "'b sock_ops \<Rightarrow> nat \<Rightarrow> 'b net \<Rightarrow> 'b net" where
  "transport_close k tid s = leave_cell (close_in_cell k tid s)"

text \<open>\<open>_force_close\<close>; \<open>abort()\<close> is the call without an exception.\<close>

definition force_close :: "'b sock_ops \<Rightarrow> nat \<Rightarrow> nat option \<Rightarrow> 'b net \<Rightarrow> 'b net" where
  "force_close k tid exc s =
     leave_cell (teardown_lost k tid (case exc of None \<Rightarrow> Clean | Some x \<Rightarrow> Exc x) False
       (snd (send_corked k tid (say (L_abort tid) s))))"

definition transport_is_closing :: "nat \<Rightarrow> 'b net \<Rightarrow> bool" where
  "transport_is_closing tid s =
     (case n_transports s tid of None \<Rightarrow> True | Some e \<Rightarrow> t_closing e \<or> t_conn_lost e)"

definition set_protocol :: "nat \<Rightarrow> proto_refs \<Rightarrow> 'b net \<Rightarrow> 'b net" where
  "set_protocol tid refs s =
     drain_graveyards (t_upd tid (\<lambda>e. e\<lparr>t_proto := refs, t_proto_paused := False\<rparr>) s)"

definition transport_new :: "raw_socket \<Rightarrow> proto_refs \<Rightarrow> nat option \<Rightarrow> nat option \<Rightarrow> nat \<Rightarrow> nat \<Rightarrow> transport" where
  "transport_new sock proto owner server high low =
     \<lparr>t_socket = sock, t_proto = proto, t_recv_slot = None, t_recv_class = S4K, t_recv_last_full = False,
      t_recv_op = None, t_send_op = None, t_inflight = 0, t_wq = [], t_queued = 0, t_high = high,
      t_low = low, t_reading_paused = False, t_proto_paused = False, t_closing = False,
      t_conn_lost = False, t_eof_wanted = False, t_eof_sent = False, t_flush_scheduled = False,
      t_paused_recv = None, t_paused_eof = False, t_extra_sock = None, t_owner = owner,
      t_server = server\<rparr>"

text \<open>
  \<open>wire_stream\<close> up to \<open>connection_made\<close>, and what follows it.  The protocol has all its callbacks.
\<close>

definition wire_begin ::
  "'b sock_ops \<Rightarrow> raw_socket \<Rightarrow> proto_refs \<Rightarrow> nat option \<Rightarrow> nat option \<Rightarrow> nat \<Rightarrow> nat \<Rightarrow> 'b net \<Rightarrow>
     (io_error + nat) \<times> 'b net" where
  "wire_begin k sock proto owner server high low s =
     (let (r, b) = sk_register k sock (n_bk s); s = s\<lparr>n_bk := b\<rparr>
      in case r of
           Inl e \<Rightarrow> (Inl e, if owner = None then say (L_close sock) s else s)
         | Inr _ \<Rightarrow>
             (let (tid, s) = net_next_id s
              in (Inr tid, s\<lparr>n_facades := (n_facades s)(tid := Some facade_new),
                   n_transports := (n_transports s)(tid :=
                     Some (transport_new sock proto owner server high low)),
                   n_fd_users := (n_fd_users s)(sock := Some (U_stream tid))\<rparr>)))"

definition wire_end :: "'b sock_ops \<Rightarrow> nat \<Rightarrow> 'b net \<Rightarrow> 'b net" where
  "wire_end k tid s = leave_cell (stream_post_recv k tid s)"

section \<open>Dispatch\<close>

text \<open>The protocol call an event makes, if any, and what the callee may answer.\<close>

datatype py_call =
    C_data nat "slot_id option"
  | C_eof nat
  | C_resume nat
  | C_accept nat raw_socket
  | C_other

text \<open>\<open>Unwound\<close>: \<open>KeyboardInterrupt\<close> or \<open>SystemExit\<close>, which leave the dispatch.\<close>

datatype py_reply = Returned bool | Raised nat | Unwound

definition begin_data :: "'b sock_ops \<Rightarrow> nat \<Rightarrow> u8 list \<Rightarrow> slot_id option \<Rightarrow> 'b net \<Rightarrow> py_call option \<times> 'b net" where
  "begin_data k tid data slot s =
     (let (r, s) = route_inbound tid data s
      in case r of
           In_plain _ \<Rightarrow> (Some (C_data tid slot), say (L_deliver tid data) s)
         | In_buffered _ \<Rightarrow> (Some (C_data tid slot), say (L_deliver tid data) s)
         | _ \<Rightarrow> (None, release_opt k slot s))"

text \<open>\<open>gone\<close> tells of a future whether it was cancelled.\<close>

fun dispatch_begin :: "'b sock_ops \<Rightarrow> (nat \<Rightarrow> bool) \<Rightarrow> net_event \<Rightarrow> 'b net \<Rightarrow> py_call option \<times> 'b net" where
  "dispatch_begin k gone (E_data tid data) s = begin_data k tid data None s"
| "dispatch_begin k gone (E_held_data tid data) s = begin_data k tid data None s"
| "dispatch_begin k gone (E_recv_failed tid err) s =
     (None, drain_graveyards (teardown_with k tid (Some err) s))"
| "dispatch_begin k gone (E_buf_data tid slot len) s =
     begin_data k tid (sk_memory k (buf_slot_ptr slot (n_buffers s)) len (n_bk s)) (Some slot) s"
| "dispatch_begin k gone (E_eof tid) s =
     (let (call, s) = route_eof tid s in (if call then Some (C_eof tid) else None, s))"
| "dispatch_begin k gone (E_conn_lost tid pid err immediate close_after server) s =
     (if immediate then (Some C_other, say (L_connection_lost tid err) s)
      else (None, s\<lparr>n_calls := n_calls s @ [E_conn_lost tid pid err immediate close_after server]\<rparr>))"
| "dispatch_begin k gone (E_resume_writing tid pid) s =
     (if (case n_transports s tid of None \<Rightarrow> False
          | Some e \<Rightarrow> \<not> t_conn_lost e \<and> p_id (t_proto e) = pid)
      then (Some (C_resume tid), say (L_resume tid pid) s)
      else (None, drain_graveyards (finish_after_resume k tid s)))"
| "dispatch_begin k gone (E_accepted lid sock) s =
     (if n_listeners s lid = None then (None, say (L_close sock) s) else (Some (C_accept lid sock), s))"
| "dispatch_begin k gone (E_accept_error err) s = (Some C_other, s)"
| "dispatch_begin k gone (E_connect_done fut sock err) s =
     (if err \<noteq> 0 \<or> gone fut then (None, say (L_close sock) (net_detach k sock s)) else (None, s))"
| "dispatch_begin k gone (E_dgram_data did data addr) s =
     (if (case n_datagrams s did of None \<Rightarrow> False | Some e \<Rightarrow> \<not> d_closing e \<and> \<not> d_conn_lost e)
      then (Some C_other, s) else (None, s))"
| "dispatch_begin k gone (E_dgram_error did err) s =
     (if (case n_datagrams s did of None \<Rightarrow> False | Some e \<Rightarrow> \<not> d_conn_lost e)
      then (Some C_other, s) else (None, s))"
| "dispatch_begin k gone (E_dgram_lost did err immediate close_after) s =
     (if immediate then (Some C_other, s)
      else (None, s\<lparr>n_calls := n_calls s @ [E_dgram_lost did err immediate close_after]\<rparr>))"
| "dispatch_begin k gone (E_pipe_read_done fut bytes err) s = (None, s)"
| "dispatch_begin k gone (E_pipe_write_done fut bytes err) s = (None, s)"

definition fatal_protocol_error :: "'b sock_ops \<Rightarrow> nat \<Rightarrow> nat \<Rightarrow> 'b net \<Rightarrow> 'b net" where
  "fatal_protocol_error k tid exc s = drain_graveyards (teardown_lost k tid (Exc exc) False s)"

fun dispatch_end :: "'b sock_ops \<Rightarrow> py_call \<Rightarrow> py_reply \<Rightarrow> 'b net \<Rightarrow> 'b net" where
  "dispatch_end k (C_data tid slot) (Returned _) s = release_opt k slot s"
| "dispatch_end k (C_data tid slot) (Raised x) s = release_opt k slot (fatal_protocol_error k tid x s)"
| "dispatch_end k (C_data tid slot) Unwound s = release_opt k slot s"
| "dispatch_end k (C_eof tid) (Returned keep_open) s = (if keep_open then s else transport_close k tid s)"
| "dispatch_end k (C_eof tid) (Raised x) s = fatal_protocol_error k tid x s"
| "dispatch_end k (C_eof tid) Unwound s = s"
| "dispatch_end k (C_resume tid) _ s = drain_graveyards (finish_after_resume k tid s)"
| "dispatch_end k (C_accept lid sock) (Returned _) s = s"
| "dispatch_end k (C_accept lid sock) (Raised _) s = say (L_close sock) s"
| "dispatch_end k (C_accept lid sock) Unwound s = say (L_close sock) s"
| "dispatch_end k C_other _ s = s"

text \<open>The tick's flush of corked writes.\<close>

definition flush_all :: "'b sock_ops \<Rightarrow> 'b net \<Rightarrow> 'b net" where
  "flush_all k s = fold (flush_pending k) (n_flush_list s) (s\<lparr>n_flush_list := []\<rparr>)"

end
