(* ===== verification/Stream_Inv.thy ===== *)
theory Stream_Inv
  imports Net_Dispatch "HOL-Library.Sublist"
begin

text \<open>
  The invariant of stream transports.  The log of boundary calls is read as the environment's
  view: \<open>wire\<close> computes from it which sends the kernel holds, with the bytes they point at, and
  what it has taken of every transport.  \<open>net_inv\<close> ties it to the queues.
\<close>

section \<open>Reading the log\<close>

fun wire_step :: "(op_id \<Rightarrow> (nat \<times> u8 list) option) \<times> (nat \<Rightarrow> u8 list) \<Rightarrow> net_log \<Rightarrow>
    (op_id \<Rightarrow> (nat \<times> u8 list) option) \<times> (nat \<Rightarrow> u8 list)" where
  "wire_step (p, w) (L_send tid op slices) = (p(op := Some (tid, concat slices)), w)"
| "wire_step (p, w) (L_done op n err) =
     (p(op := None), case p op of None \<Rightarrow> w
        | Some (tid, d) \<Rightarrow> if err = 0 then w(tid := w tid @ take n d) else w)"
| "wire_step (p, w) _ = (p, w)"

definition wire :: "net_log list \<Rightarrow> (op_id \<Rightarrow> (nat \<times> u8 list) option) \<times> (nat \<Rightarrow> u8 list)" where
  "wire log = foldl wire_step (\<lambda>_. None, \<lambda>_. []) log"

text \<open>A send the kernel holds, what it has taken, what the application wrote, the ids handed out.\<close>

definition in_kernel :: "net_log list \<Rightarrow> op_id \<Rightarrow> (nat \<times> u8 list) option" where
  "in_kernel log = fst (wire log)"

definition sent :: "nat \<Rightarrow> net_log list \<Rightarrow> u8 list" where
  "sent tid log = snd (wire log) tid"

definition written :: "nat \<Rightarrow> net_log list \<Rightarrow> u8 list" where
  "written tid log = concat (map (\<lambda>l. case l of L_write t d \<Rightarrow> if t = tid then d else [] | _ \<Rightarrow> []) log)"

fun posts :: "net_log \<Rightarrow> op_id option" where
  "posts (L_send tid op sl) = Some op"
| "posts (L_recv tid op sl) = Some op"
| "posts (L_post op) = Some op"
| "posts _ = None"

definition posted_ids :: "net_log list \<Rightarrow> op_id set" where
  "posted_ids log = {op. \<exists>l\<in>set log. posts l = Some op}"

text \<open>A property of every entry with what came before it.\<close>

primrec along_rev :: "('l list \<Rightarrow> 'l \<Rightarrow> bool) \<Rightarrow> 'l list \<Rightarrow> bool" where
  "along_rev P [] = True"
| "along_rev P (l # ls) = (along_rev P ls \<and> P (rev ls) l)"

definition along :: "('l list \<Rightarrow> 'l \<Rightarrow> bool) \<Rightarrow> 'l list \<Rightarrow> bool" where
  "along P ls = along_rev P (rev ls)"

lemma along_simps [simp]: "along P []" "along P (ls @ [l]) \<longleftrightarrow> along P ls \<and> P ls l"
  by (simp_all add: along_def)

lemma along_prefix: "along P (ls @ ms) \<Longrightarrow> along P ls"
  by (induction ms rule: rev_induct) (simp_all flip: append_assoc)

text \<open>
  What the backend promises: an operation id is handed out once, and a successful send counts at
  most the bytes it was given.
\<close>

fun fine_entry :: "net_log list \<Rightarrow> net_log \<Rightarrow> bool" where
  "fine_entry pre (L_done op n err) =
     (err = 0 \<longrightarrow> (case in_kernel pre op of None \<Rightarrow> True | Some (tid, d) \<Rightarrow> n \<le> length d))"
| "fine_entry pre l = (case posts l of None \<Rightarrow> True | Some op \<Rightarrow> op \<notin> posted_ids pre)"

definition log_fine :: "net_log list \<Rightarrow> bool" where
  "log_fine log = along fine_entry log"

text \<open>The entries that concern a live transport; none follows its loss.\<close>

fun speaks :: "net_log \<Rightarrow> nat option" where
  "speaks (L_send tid op sl) = Some tid"
| "speaks (L_recv tid op sl) = Some tid"
| "speaks (L_write tid d) = Some tid"
| "speaks (L_input tid d) = Some tid"
| "speaks (L_deliver tid d) = Some tid"
| "speaks (L_lost tid r) = Some tid"
| "speaks _ = None"

definition lost_in :: "nat \<Rightarrow> net_log list \<Rightarrow> bool" where
  "lost_in tid log \<longleftrightarrow> (\<exists>r. L_lost tid r \<in> set log)"

definition lost_final :: "net_log list \<Rightarrow> bool" where
  "lost_final log = along (\<lambda>pre l. case speaks l of None \<Rightarrow> True | Some tid \<Rightarrow> \<not> lost_in tid pre) log"

lemma wire_snoc [simp]: "wire (log @ [l]) = wire_step (wire log) l"
  by (simp add: wire_def)

lemma in_kernel_Nil [simp]: "in_kernel [] = (\<lambda>_. None)" "sent tid [] = []" "written tid [] = []"
  by (simp_all add: in_kernel_def sent_def wire_def written_def)

lemma in_kernel_snoc:
  "in_kernel (log @ [l]) = (case l of L_send tid op sl \<Rightarrow> (in_kernel log)(op := Some (tid, concat sl))
     | L_done op n err \<Rightarrow> (in_kernel log)(op := None) | _ \<Rightarrow> in_kernel log)"
  by (cases "wire log"; cases l) (simp_all add: in_kernel_def)

lemma sent_snoc:
  "sent tid (log @ [l]) = (case l of L_done op n err \<Rightarrow>
       (case in_kernel log op of None \<Rightarrow> sent tid log
        | Some (t, d) \<Rightarrow> if err = 0 \<and> t = tid then sent tid log @ take n d else sent tid log)
     | _ \<Rightarrow> sent tid log)"
  by (cases "wire log"; cases l) (auto simp: sent_def in_kernel_def split: option.splits)

lemma written_snoc:
  "written tid (log @ [l]) = written tid log @ (case l of L_write t d \<Rightarrow> if t = tid then d else [] | _ \<Rightarrow> [])"
  by (simp add: written_def)

lemma posted_snoc:
  "posted_ids (log @ [l]) = (case posts l of None \<Rightarrow> posted_ids log | Some op \<Rightarrow> insert op (posted_ids log))"
  by (auto simp: posted_ids_def split: option.splits)

lemma lost_in_snoc [simp]: "lost_in tid (log @ [l]) \<longleftrightarrow> lost_in tid log \<or> (\<exists>r. l = L_lost tid r)"
  by (auto simp: lost_in_def)

lemma lost_final_snoc:
  "lost_final (log @ [l]) \<longleftrightarrow>
     lost_final log \<and> (case speaks l of None \<Rightarrow> True | Some tid \<Rightarrow> \<not> lost_in tid log)"
  by (simp add: lost_final_def)

lemma log_fine_snoc: "log_fine (log @ [l]) \<longleftrightarrow> log_fine log \<and> fine_entry log l"
  by (simp add: log_fine_def)

lemmas log_snoc = in_kernel_snoc sent_snoc written_snoc posted_snoc lost_final_snoc

text \<open>A transport that nothing in the log concerns.\<close>

definition unheard :: "nat \<Rightarrow> net_log list \<Rightarrow> bool" where
  "unheard tid log \<longleftrightarrow> (\<forall>l\<in>set log. speaks l \<noteq> Some tid)"

lemma unheard_snoc [simp]: "unheard tid (log @ [l]) \<longleftrightarrow> unheard tid log \<and> speaks l \<noteq> Some tid"
  by (auto simp: unheard_def)

lemma unheard_in_kernel: "unheard tid log \<Longrightarrow> in_kernel log op \<noteq> Some (tid, d)"
proof (induction log arbitrary: op d rule: rev_induct)
  case (snoc l log)
  then show ?case by (cases l) (auto simp: in_kernel_snoc)
qed simp

lemma unheard_empty: "unheard tid log \<Longrightarrow> sent tid log = [] \<and> written tid log = [] \<and> \<not> lost_in tid log"
proof (induction log rule: rev_induct)
  case (snoc l log)
  then show ?case
    using unheard_in_kernel [of tid log]
    by (cases l) (auto simp: sent_snoc written_snoc split: option.splits)
qed (simp add: lost_in_def)

section \<open>The invariant\<close>

definition no_kernel :: "nat \<Rightarrow> net_log list \<Rightarrow> bool" where
  "no_kernel tid log \<longleftrightarrow> (\<forall>op d. in_kernel log op \<noteq> Some (tid, d))"

definition wq_bytes :: "write_buf list \<Rightarrow> u8 list" where
  "wq_bytes ws = concat (map wb_rest ws)"

definition resume_pending :: "nat \<Rightarrow> 'b net \<Rightarrow> bool" where
  "resume_pending tid s \<longleftrightarrow> (\<exists>pid. E_resume_writing tid pid \<in> set (n_events s))"

text \<open>The bytes of a queue: counted, none empty, and with what the kernel took all that was written.\<close>

definition queue_ok :: "net_log list \<Rightarrow> nat \<Rightarrow> transport \<Rightarrow> bool" where
  "queue_ok log tid e \<longleftrightarrow>
     t_queued e = length (wq_bytes (t_wq e)) \<and> (\<forall>w\<in>set (t_wq e). wb_rest w \<noteq> []) \<and>
     sent tid log @ wq_bytes (t_wq e) = written tid log"

text \<open>The send in flight points at the front of the queue as it still is.\<close>

definition front :: "transport \<Rightarrow> u8 list" where
  "front e = concat (map wb_slice (take (t_inflight e) (t_wq e)))"

definition flight_ok :: "'b net \<Rightarrow> nat \<Rightarrow> transport \<Rightarrow> bool" where
  "flight_ok s tid e \<longleftrightarrow>
     (case t_send_op e of
        None \<Rightarrow> t_inflight e = 0 \<and> no_kernel tid (n_log s) \<and> (\<forall>op. n_ops s op \<noteq> Some (T_send tid))
      | Some op \<Rightarrow>
          n_ops s op = Some (T_send tid) \<and> 0 < t_inflight e \<and> t_inflight e \<le> length (t_wq e) \<and>
          in_kernel (n_log s) op = Some (tid, front e) \<and> prefix (front e) (wq_bytes (t_wq e)) \<and>
          (\<forall>op' d. in_kernel (n_log s) op' = Some (tid, d) \<longrightarrow> op' = op) \<and>
          (\<forall>op'. n_ops s op' = Some (T_send tid) \<longrightarrow> op' = op))"

text \<open>
  Something will move the transport on: \<open>X\<close> are the transports whose flush is under way, \<open>R\<close> those
  whose pending shutdown is about to be looked at.
\<close>

definition moves_on :: "nat set \<Rightarrow> nat set \<Rightarrow> 'b net \<Rightarrow> nat \<Rightarrow> transport \<Rightarrow> bool" where
  "moves_on X R s tid e \<longleftrightarrow>
     (t_wq e \<noteq> [] \<longrightarrow> t_send_op e \<noteq> None \<or> tid \<in> set (n_flush_list s) \<union> X) \<and>
     (t_flush_scheduled e \<longrightarrow> tid \<in> set (n_flush_list s) \<union> X) \<and>
     (t_proto_paused e \<longrightarrow> t_wq e \<noteq> []) \<and>
     (t_closing e \<or> t_eof_wanted e \<and> \<not> t_eof_sent e \<longrightarrow>
        t_wq e \<noteq> [] \<or> resume_pending tid s \<or> tid \<in> R)"

definition drained_lost :: "nat \<Rightarrow> net_log list \<Rightarrow> bool" where
  "drained_lost tid log \<longleftrightarrow> L_lost tid Clean \<in> set log \<and> L_abort tid \<notin> set log"

definition streams_ok :: "nat set \<Rightarrow> nat set \<Rightarrow> nat set \<Rightarrow> 'b net \<Rightarrow> bool" where
  "streams_ok X R E s \<longleftrightarrow>
     (\<forall>tid e. n_transports s tid = Some e \<longrightarrow> tid \<notin> E \<longrightarrow>
        queue_ok (n_log s) tid e \<and> flight_ok s tid e \<and> moves_on X R s tid e)"

definition entries_ok :: "'b net \<Rightarrow> bool" where
  "entries_ok s \<longleftrightarrow>
     (\<forall>tid e. n_transports s tid = Some e \<longrightarrow>
        \<not> t_conn_lost e \<and> tid \<le> n_next_id s \<and> \<not> lost_in tid (n_log s)) \<and>
     (\<forall>tid. n_next_id s < tid \<longrightarrow> unheard tid (n_log s)) \<and> lost_final (n_log s)"

definition ids_ok :: "'b net \<Rightarrow> bool" where
  "ids_ok s \<longleftrightarrow>
     (\<forall>op. n_ops s op \<noteq> None \<longrightarrow> op \<in> posted_ids (n_log s)) \<and>
     (\<forall>op. in_kernel (n_log s) op \<noteq> None \<longrightarrow> op \<in> posted_ids (n_log s)) \<and>
     (\<forall>op tid. n_ops s op = Some (T_send tid) \<longrightarrow> tid \<le> n_next_id s)"

definition drained_ok :: "net_log list \<Rightarrow> bool" where
  "drained_ok log \<longleftrightarrow> (\<forall>tid. drained_lost tid log \<longrightarrow> sent tid log = written tid log \<and> no_kernel tid log)"

definition net_inv :: "nat set \<Rightarrow> nat set \<Rightarrow> nat set \<Rightarrow> 'b net \<Rightarrow> bool" where
  "net_inv X R E s \<longleftrightarrow> streams_ok X R E s \<and> entries_ok s \<and> ids_ok s \<and> drained_ok (n_log s)"

text \<open>
  \<open>s'\<close> comes after \<open>s\<close> and keeps the invariant as long as the backend keeps its promises.
\<close>

definition leads :: "('b net \<Rightarrow> bool) \<Rightarrow> 'b net \<Rightarrow> ('b net \<Rightarrow> bool) \<Rightarrow> 'b net \<Rightarrow> bool" where
  "leads I s J s' \<longleftrightarrow>
     (\<exists>ls. n_log s' = n_log s @ ls) \<and> (log_fine (n_log s') \<longrightarrow> I s \<longrightarrow> J s')"

lemma leads_refl [simp]: "leads I s I s"
  by (simp add: leads_def)

lemma leads_trans: "leads I s J s1 \<Longrightarrow> leads J s1 K s2 \<Longrightarrow> leads I s K s2"
proof -
  assume a: "leads I s J s1" "leads J s1 K s2"
  have "\<exists>ls. n_log s1 = n_log s @ ls" "\<exists>ms. n_log s2 = n_log s1 @ ms"
    using a by (simp_all add: leads_def)
  then obtain ls ms where l: "n_log s1 = n_log s @ ls" "n_log s2 = n_log s1 @ ms" by auto
  have "log_fine (n_log s2) \<Longrightarrow> log_fine (n_log s1)"
    unfolding l(2) log_fine_def by (rule along_prefix)
  with a l show ?thesis by (simp add: leads_def)
qed

section \<open>Steps that do not touch a stream\<close>

text \<open>Log entries without a part in the stream of bytes, and steps made of them.\<close>

fun mute :: "net_log \<Rightarrow> bool" where
  "mute (L_send _ _ _) = False"
| "mute (L_recv _ _ _) = False"
| "mute (L_done _ _ _) = False"
| "mute (L_write _ _) = False"
| "mute (L_input _ _) = False"
| "mute (L_deliver _ _) = False"
| "mute (L_lost _ _) = False"
| "mute (L_abort _) = False"
| "mute _ = True"

lemma mute_log:
  assumes "\<forall>l\<in>set ls. mute l"
  shows "in_kernel (log @ ls) = in_kernel log" "sent tid (log @ ls) = sent tid log"
    "written tid (log @ ls) = written tid log" "lost_in tid (log @ ls) = lost_in tid log"
    "lost_final log \<Longrightarrow> lost_final (log @ ls)" "unheard tid log \<Longrightarrow> unheard tid (log @ ls)"
    "drained_lost tid (log @ ls) = drained_lost tid log"
    "posted_ids (log @ ls) = posted_ids log \<union> {op. L_post op \<in> set ls}"
proof -
  have "in_kernel (log @ ls) = in_kernel log \<and> sent tid (log @ ls) = sent tid log \<and>
    written tid (log @ ls) = written tid log \<and> lost_in tid (log @ ls) = lost_in tid log \<and>
    (lost_final log \<longrightarrow> lost_final (log @ ls)) \<and> (unheard tid log \<longrightarrow> unheard tid (log @ ls)) \<and>
    drained_lost tid (log @ ls) = drained_lost tid log \<and>
    posted_ids (log @ ls) = posted_ids log \<union> {op. L_post op \<in> set ls}"
    using assms
  proof (induction ls rule: rev_induct)
    case (snoc l ls)
    have q: "mute l" using snoc.prems by simp
    have s: "speaks l = None" using q by (cases l) simp_all
    have IH: "in_kernel (log @ ls) = in_kernel log" "sent tid (log @ ls) = sent tid log"
      "written tid (log @ ls) = written tid log" "lost_in tid (log @ ls) = lost_in tid log"
      "lost_final log \<longrightarrow> lost_final (log @ ls)" "unheard tid log \<longrightarrow> unheard tid (log @ ls)"
      "drained_lost tid (log @ ls) = drained_lost tid log"
      "posted_ids (log @ ls) = posted_ids log \<union> {op. L_post op \<in> set ls}"
      using snoc by simp_all
    have "L_lost tid r \<noteq> l" "L_abort tid \<noteq> l" for r using q by auto
    moreover have "posts l = (case l of L_post op \<Rightarrow> Some op | _ \<Rightarrow> None)" using q by (cases l) simp_all
    ultimately show ?case
      unfolding append_assoc [symmetric] log_snoc unheard_snoc lost_in_snoc
      using q s IH by (cases l) (auto simp: drained_lost_def)
  qed simp
  then show "in_kernel (log @ ls) = in_kernel log" "sent tid (log @ ls) = sent tid log"
    "written tid (log @ ls) = written tid log" "lost_in tid (log @ ls) = lost_in tid log"
    "lost_final log \<Longrightarrow> lost_final (log @ ls)" "unheard tid log \<Longrightarrow> unheard tid (log @ ls)"
    "drained_lost tid (log @ ls) = drained_lost tid log"
    "posted_ids (log @ ls) = posted_ids log \<union> {op. L_post op \<in> set ls}" by blast+
qed

fun stream_target :: "op_target option \<Rightarrow> bool" where
  "stream_target (Some (T_send _)) = True"
| "stream_target _ = False"

definition aside :: "'b net \<Rightarrow> 'b net \<Rightarrow> bool" where
  "aside s s' \<longleftrightarrow>
     n_transports s' = n_transports s \<and> n_flush_list s' = n_flush_list s \<and>
     n_next_id s \<le> n_next_id s' \<and>
     (\<forall>tid pid. E_resume_writing tid pid \<in> set (n_events s) \<longrightarrow> E_resume_writing tid pid \<in> set (n_events s')) \<and>
     (\<exists>ls. n_log s' = n_log s @ ls \<and> (\<forall>l\<in>set ls. mute l) \<and>
       (\<forall>op. n_ops s' op = n_ops s op \<or> L_post op \<in> set ls \<and> \<not> stream_target (n_ops s' op)))"

lemma aside_refl [simp]: "aside s s"
  by (simp add: aside_def)

lemma aside_trans: "aside s s1 \<Longrightarrow> aside s1 s2 \<Longrightarrow> aside s s2"
proof -
  assume a: "aside s s1" "aside s1 s2"
  obtain ls where l: "n_log s1 = n_log s @ ls" "\<forall>l\<in>set ls. mute l"
      "\<forall>op. n_ops s1 op = n_ops s op \<or> L_post op \<in> set ls \<and> \<not> stream_target (n_ops s1 op)"
    using a(1) by (auto simp: aside_def)
  obtain ms where m: "n_log s2 = n_log s1 @ ms" "\<forall>l\<in>set ms. mute l"
      "\<forall>op. n_ops s2 op = n_ops s1 op \<or> L_post op \<in> set ms \<and> \<not> stream_target (n_ops s2 op)"
    using a(2) by (auto simp: aside_def)
  have "n_log s2 = n_log s @ (ls @ ms)" "\<forall>l\<in>set (ls @ ms). mute l" using l m by auto
  moreover have "\<forall>op. n_ops s2 op = n_ops s op \<or> L_post op \<in> set (ls @ ms) \<and> \<not> stream_target (n_ops s2 op)"
    using l(3) m(3) by (metis Un_iff set_append)
  ultimately show ?thesis using a unfolding aside_def by (metis order_trans)
qed

text \<open>A fresh identifier of another kind does not overwrite a send in flight.\<close>

lemma fresh_post:
  assumes "log_fine (log @ ls)" "L_post op \<in> set ls"
  shows "op \<notin> posted_ids log"
proof -
  from assms(2) obtain xs ys where ls: "ls = xs @ L_post op # ys" by (meson split_list)
  then have "log_fine ((log @ xs) @ [L_post op])"
    using assms(1) along_prefix [of fine_entry "(log @ xs) @ [L_post op]" ys] by (simp add: log_fine_def)
  then have "op \<notin> posted_ids (log @ xs)" unfolding log_fine_snoc by simp
  then show ?thesis by (auto simp: posted_ids_def)
qed

lemma leads_aside:
  assumes "aside s s'"
  shows "leads (net_inv X R E) s (net_inv X R E) s'"
proof -
  from assms obtain ls where l: "n_log s' = n_log s @ ls" "\<forall>l\<in>set ls. mute l"
      "\<forall>op. n_ops s' op = n_ops s op \<or> L_post op \<in> set ls \<and> \<not> stream_target (n_ops s' op)"
    and e: "n_transports s' = n_transports s" "n_flush_list s' = n_flush_list s" "n_next_id s \<le> n_next_id s'"
      "\<forall>tid pid. E_resume_writing tid pid \<in> set (n_events s) \<longrightarrow> E_resume_writing tid pid \<in> set (n_events s')"
    by (auto simp: aside_def)
  note q = mute_log [OF l(2), where log = "n_log s", folded l(1)]
  {
    assume fine: "log_fine (n_log s')" and inv: "net_inv X R E s"
    have ids: "ids_ok s" using inv by (simp add: net_inv_def)
    have old: "n_ops s' op = n_ops s op" if "n_ops s op \<noteq> None" for op
      using that l(3) fresh_post [of "n_log s" ls op] fine ids unfolding ids_ok_def l(1) by blast
    have new: "n_ops s' op = Some (T_send tid) \<longleftrightarrow> n_ops s op = Some (T_send tid)" for op tid
      using old [of op] l(3) by (metis stream_target.simps(1) option.distinct(1))
    have fl: "flight_ok s tid e \<Longrightarrow> flight_ok s' tid e" for tid e
      by (simp add: flight_ok_def no_kernel_def q new split: option.splits)
    have mo: "moves_on X R s tid e \<Longrightarrow> moves_on X R s' tid e" for tid e
      using e(4) by (auto simp: moves_on_def e(2) resume_pending_def)
    have "streams_ok X R E s'"
      using inv fl mo by (auto simp: net_inv_def streams_ok_def e(1) queue_ok_def q)
    moreover have "entries_ok s'"
      using inv e(3) q(4-6) by (auto simp: net_inv_def entries_ok_def e(1)) (meson le_trans)
    moreover have "ids_ok s'"
    proof -
      have "n_ops s' op \<noteq> None \<Longrightarrow> op \<in> posted_ids (n_log s')" for op
        using ids l(3) unfolding ids_ok_def q by (metis (mono_tags, lifting) UnI1 UnI2 mem_Collect_eq)
      moreover have "tid \<le> n_next_id s'" if "n_ops s' op = Some (T_send tid)" for op tid
        using that ids e(3) unfolding new ids_ok_def by (meson le_trans)
      ultimately show ?thesis using ids by (simp add: ids_ok_def q)
    qed
    moreover have "drained_ok (n_log s')"
      using inv by (simp add: net_inv_def drained_ok_def no_kernel_def q)
    ultimately have "net_inv X R E s'" by (simp add: net_inv_def)
  }
  then show ?thesis using l(1) by (auto simp: leads_def)
qed

end
