(* ===== verification/Stream_Keep.thy ===== *)
theory Stream_Keep
  imports Stream_Inv
begin

text \<open>
  Every in-cell operation of a stream transport keeps the invariant.  An operation that leaves the
  streams alone is \<open>aside\<close>; the others are taken apart into one step of the queue and its log.
\<close>

section \<open>What the elementary updates leave alone\<close>

lemma frame_f_upd [simp]:
  "n_transports (f_upd tid f s) = n_transports s"
  "n_flush_list (f_upd tid f s) = n_flush_list s"
  "n_next_id (f_upd tid f s) = n_next_id s"
  "n_ops (f_upd tid f s) = n_ops s"
  "n_log (f_upd tid f s) = n_log s"
  "n_events (f_upd tid f s) = n_events s"
  "n_inline_close (f_upd tid f s) = n_inline_close s"
  by (simp_all add: f_upd_def)

lemma frame_release_slot [simp]:
  "n_transports (release_slot k sl s) = n_transports s"
  "n_flush_list (release_slot k sl s) = n_flush_list s"
  "n_next_id (release_slot k sl s) = n_next_id s"
  "n_ops (release_slot k sl s) = n_ops s"
  "n_log (release_slot k sl s) = n_log s"
  "n_events (release_slot k sl s) = n_events s"
  "n_inline_close (release_slot k sl s) = n_inline_close s"
  by (simp_all add: release_slot_def)

lemma frame_release_opt [simp]:
  "n_transports (release_opt k slot s) = n_transports s"
  "n_flush_list (release_opt k slot s) = n_flush_list s"
  "n_next_id (release_opt k slot s) = n_next_id s"
  "n_ops (release_opt k slot s) = n_ops s"
  "n_log (release_opt k slot s) = n_log s"
  "n_events (release_opt k slot s) = n_events s"
  "n_inline_close (release_opt k slot s) = n_inline_close s"
  by (simp_all add: release_opt_def release_slot_def split: option.splits)

lemma frame_retain_slot [simp]:
  "n_transports (retain_slot sl s) = n_transports s"
  "n_flush_list (retain_slot sl s) = n_flush_list s"
  "n_next_id (retain_slot sl s) = n_next_id s"
  "n_ops (retain_slot sl s) = n_ops s"
  "n_log (retain_slot sl s) = n_log s"
  "n_events (retain_slot sl s) = n_events s"
  "n_inline_close (retain_slot sl s) = n_inline_close s"
  by (simp_all add: retain_slot_def)

lemma frame_ensure_buffers_registered [simp]:
  "n_transports (ensure_buffers_registered k s) = n_transports s"
  "n_flush_list (ensure_buffers_registered k s) = n_flush_list s"
  "n_next_id (ensure_buffers_registered k s) = n_next_id s"
  "n_ops (ensure_buffers_registered k s) = n_ops s"
  "n_log (ensure_buffers_registered k s) = n_log s"
  "n_events (ensure_buffers_registered k s) = n_events s"
  "n_inline_close (ensure_buffers_registered k s) = n_inline_close s"
  by (simp_all add: ensure_buffers_registered_def Let_def split: prod.splits)

lemma frame_forget_fd [simp]:
  "n_transports (forget_fd fd i s) = n_transports s"
  "n_flush_list (forget_fd fd i s) = n_flush_list s"
  "n_next_id (forget_fd fd i s) = n_next_id s"
  "n_ops (forget_fd fd i s) = n_ops s"
  "n_log (forget_fd fd i s) = n_log s"
  "n_events (forget_fd fd i s) = n_events s"
  "n_inline_close (forget_fd fd i s) = n_inline_close s"
  by (simp_all add: forget_fd_def)

lemma frame_acquire [simp]:
  "n_transports (snd (acquire_slot k c s)) = n_transports s"
  "n_flush_list (snd (acquire_slot k c s)) = n_flush_list s"
  "n_next_id (snd (acquire_slot k c s)) = n_next_id s"
  "n_ops (snd (acquire_slot k c s)) = n_ops s"
  "n_log (snd (acquire_slot k c s)) = n_log s"
  "n_events (snd (acquire_slot k c s)) = n_events s"
  "n_inline_close (snd (acquire_slot k c s)) = n_inline_close s"
  by (simp_all add: acquire_slot_def split_beta)

lemma frame_say [simp]:
  "n_transports (say l s) = n_transports s" "n_flush_list (say l s) = n_flush_list s"
  "n_next_id (say l s) = n_next_id s" "n_ops (say l s) = n_ops s" "n_log (say l s) = n_log s @ [l]"
  "n_events (say l s) = n_events s" "n_bk (say l s) = n_bk s" "n_inline_close (say l s) = n_inline_close s"
  by (simp_all add: say_def)

lemma frame_emit [simp]:
  "n_transports (emit ev s) = n_transports s" "n_flush_list (emit ev s) = n_flush_list s"
  "n_next_id (emit ev s) = n_next_id s" "n_ops (emit ev s) = n_ops s" "n_log (emit ev s) = n_log s"
  "n_events (emit ev s) = n_events s @ [ev]" "n_bk (emit ev s) = n_bk s"
  "n_inline_close (emit ev s) = n_inline_close s"
  by (simp_all add: emit_def)

lemma frame_net_cancel [simp]:
  "n_transports (net_cancel k op s) = n_transports s" "n_flush_list (net_cancel k op s) = n_flush_list s"
  "n_next_id (net_cancel k op s) = n_next_id s" "n_ops (net_cancel k op s) = n_ops s"
  "n_log (net_cancel k op s) = n_log s @ [L_cancel op]" "n_events (net_cancel k op s) = n_events s"
  "n_inline_close (net_cancel k op s) = n_inline_close s"
  by (simp_all add: net_cancel_def)

lemma frame_net_detach [simp]:
  "n_transports (net_detach k fd s) = n_transports s" "n_flush_list (net_detach k fd s) = n_flush_list s"
  "n_next_id (net_detach k fd s) = n_next_id s" "n_ops (net_detach k fd s) = n_ops s"
  "n_log (net_detach k fd s) = n_log s @ [L_detach fd]" "n_events (net_detach k fd s) = n_events s"
  "n_inline_close (net_detach k fd s) = n_inline_close s"
  by (simp_all add: net_detach_def)

lemma frame_t_upd [simp]:
  "n_transports (t_upd tid f s) = (n_transports s)(tid := map_option f (n_transports s tid))"
  "n_flush_list (t_upd tid f s) = n_flush_list s" "n_next_id (t_upd tid f s) = n_next_id s"
  "n_ops (t_upd tid f s) = n_ops s" "n_log (t_upd tid f s) = n_log s" "n_events (t_upd tid f s) = n_events s"
  "n_bk (t_upd tid f s) = n_bk s" "n_inline_close (t_upd tid f s) = n_inline_close s"
  by (simp_all add: t_upd_def)

lemma frame_add_op [simp]:
  "n_transports (add_op op t s) = n_transports s" "n_flush_list (add_op op t s) = n_flush_list s"
  "n_next_id (add_op op t s) = n_next_id s" "n_ops (add_op op t s) = (n_ops s)(op := Some t)"
  "n_log (add_op op t s) = n_log s" "n_events (add_op op t s) = n_events s"
  "n_inline_close (add_op op t s) = n_inline_close s"
  by (simp_all add: add_op_def)

text \<open>A step that only logs \<open>mute\<close> entries.\<close>

lemma asideI:
  assumes "n_transports s' = n_transports s" "n_flush_list s' = n_flush_list s"
    "n_next_id s' = n_next_id s" "n_ops s' = n_ops s" "n_log s' = n_log s @ ls" "list_all mute ls"
    "set (n_events s) \<subseteq> set (n_events s')"
  shows "aside s s'"
  using assms by (auto simp: aside_def list_all_iff)

section \<open>Teardown\<close>

lemma cancel_transport_shape:
  assumes "cancel_transport_ops k e s = (e', s')"
  obtains ls where "n_log s' = n_log s @ ls" "list_all mute ls" "n_transports s' = n_transports s"
    "n_flush_list s' = n_flush_list s" "n_next_id s' = n_next_id s" "n_ops s' = n_ops s"
    "n_events s' = n_events s" "t_owner e' = t_owner e" "t_proto e' = t_proto e"
proof (rule that [of "(case t_recv_op e of None \<Rightarrow> [] | Some op \<Rightarrow> [L_cancel op]) @
    (case t_send_op e of None \<Rightarrow> [] | Some op \<Rightarrow> [L_cancel op])"])
qed (use assms in \<open>auto simp: cancel_transport_ops_def Let_def split: option.splits if_splits\<close>)

lemma frame_release_socket [simp]:
  "n_transports (release_socket k e s) = n_transports s" "n_flush_list (release_socket k e s) = n_flush_list s"
  "n_next_id (release_socket k e s) = n_next_id s" "n_ops (release_socket k e s) = n_ops s"
  "n_log (release_socket k e s) = n_log s @ L_detach (t_socket e) #
     (if t_owner e = None then [L_close (t_socket e)] else [])"
  "n_events (release_socket k e s) = n_events s"
  by (simp_all add: release_socket_def Let_def)

lemma frame_bury [simp]:
  "n_transports (bury_entry e s) = n_transports s" "n_flush_list (bury_entry e s) = n_flush_list s"
  "n_next_id (bury_entry e s) = n_next_id s" "n_ops (bury_entry e s) = n_ops s"
  "n_log (bury_entry e s) = n_log s" "n_events (bury_entry e s) = n_events s"
  by (simp_all add: bury_entry_def retire_sockets_def)

lemma teardown_core_shape:
  assumes "teardown_core k tid e s = (e', s')"
  obtains ls where "n_log s' = n_log s @ ls" "list_all mute ls" "n_transports s' = n_transports s"
    "n_flush_list s' = n_flush_list s" "n_next_id s' = n_next_id s" "n_ops s' = n_ops s"
    "n_events s' = n_events s"
proof -
  obtain e1 s1 where c: "cancel_transport_ops k (e\<lparr>t_conn_lost := True\<rparr>) (f_upd tid mark_lost s) = (e1, s1)"
    by (cases "cancel_transport_ops k (e\<lparr>t_conn_lost := True\<rparr>) (f_upd tid mark_lost s)") auto
  from cancel_transport_shape [OF this] obtain ls where ls: "n_log s1 = n_log (f_upd tid mark_lost s) @ ls"
    "list_all mute ls" "n_transports s1 = n_transports (f_upd tid mark_lost s)"
    "n_flush_list s1 = n_flush_list (f_upd tid mark_lost s)" "n_next_id s1 = n_next_id (f_upd tid mark_lost s)"
    "n_ops s1 = n_ops (f_upd tid mark_lost s)" "n_events s1 = n_events (f_upd tid mark_lost s)" by metis
  have s': "s' = release_opt k (t_recv_slot e1) (forget_fd (t_socket e1) tid (release_socket k e1 s1))"
    using assms by (simp add: teardown_core_def Let_def c)
  show thesis
    by (rule that [of "ls @ L_detach (t_socket e1) # (if t_owner e1 = None then [L_close (t_socket e1)] else [])"])
      (simp_all add: s' ls)
qed

lemma teardown_shape:
  assumes "n_transports s tid = Some e" "\<not> t_conn_lost e"
  obtains ls ca where "n_log (teardown_lost k tid err imm s) = n_log s @ ls @ [L_lost tid err]" "list_all mute ls"
    "n_transports (teardown_lost k tid err imm s) = (n_transports s)(tid := None)"
    "n_flush_list (teardown_lost k tid err imm s) = n_flush_list s"
    "n_next_id (teardown_lost k tid err imm s) = n_next_id s" "n_ops (teardown_lost k tid err imm s) = n_ops s"
    "n_events (teardown_lost k tid err imm s) = n_events s @ [ca]" "\<And>t p. ca \<noteq> E_resume_writing t p"
proof -
  let ?s = "s\<lparr>n_transports := (n_transports s)(tid := None)\<rparr>"
  obtain e1 s1 where c: "teardown_core k tid e ?s = (e1, s1)" by (cases "teardown_core k tid e ?s") auto
  from teardown_core_shape [OF this] obtain ls where ls: "n_log s1 = n_log ?s @ ls" "list_all mute ls"
    "n_transports s1 = n_transports ?s" "n_flush_list s1 = n_flush_list ?s" "n_next_id s1 = n_next_id ?s"
    "n_ops s1 = n_ops ?s" "n_events s1 = n_events ?s" by metis
  show thesis
    by (rule that [of ls "E_conn_lost tid (p_id (t_proto e1)) err imm (close_after_of e1) (t_server e1)"])
      (simp_all add: teardown_lost_def assms Let_def c ls)
qed

text \<open>The step that removes an entry and records its loss.\<close>

lemma moves_on_cong:
  assumes "n_flush_list s' = n_flush_list s" "set (n_events s) \<subseteq> set (n_events s')" "moves_on X R s tid e"
  shows "moves_on X R s' tid e"
  using assms by (auto simp: moves_on_def resume_pending_def)

lemma entriesD:
  assumes "entries_ok s" "n_transports s tid = Some e"
  shows "\<not> t_conn_lost e" "tid \<le> n_next_id s" "\<not> lost_in tid (n_log s)"
  using assms unfolding entries_ok_def by blast+

lemma invD:
  assumes "net_inv X R E s" "n_transports s tid = Some e"
  shows "\<not> t_conn_lost e" "tid \<le> n_next_id s" "\<not> lost_in tid (n_log s)"
    "tid \<notin> E \<Longrightarrow> queue_ok (n_log s) tid e" "tid \<notin> E \<Longrightarrow> flight_ok s tid e" "tid \<notin> E \<Longrightarrow> moves_on X R s tid e"
  using assms entriesD [of s tid e] by (auto simp: net_inv_def streams_ok_def)

lemma flight_ok_cong:
  assumes "in_kernel (n_log s') = in_kernel (n_log s)" "n_ops s' = n_ops s"
  shows "flight_ok s' tid e = flight_ok s tid e"
  using assms by (simp add: flight_ok_def no_kernel_def split: option.splits)

lemma lost_step:
  assumes inv: "net_inv X R (insert tid E) s" and e: "n_transports s tid = Some e"
    and clean: "err = Clean \<longrightarrow> L_abort tid \<in> set (n_log s) \<or>
      sent tid (n_log s) = written tid (n_log s) \<and> no_kernel tid (n_log s)"
    and s': "n_transports s' = (n_transports s)(tid := None)" "n_log s' = n_log s @ [L_lost tid err]"
      "n_ops s' = n_ops s" "n_flush_list s' = n_flush_list s" "n_next_id s' = n_next_id s"
      "set (n_events s) \<subseteq> set (n_events s')"
  shows "net_inv X R E s'"
proof -
  have log: "in_kernel (n_log s') = in_kernel (n_log s)" "sent t (n_log s') = sent t (n_log s)"
    "written t (n_log s') = written t (n_log s)" "posted_ids (n_log s') = posted_ids (n_log s)" for t
    by (simp_all add: s'(2) log_snoc)
  have "streams_ok X R E s'"
    unfolding streams_ok_def
  proof (intro allI impI)
    fix t e' assume "n_transports s' t = Some e'" "t \<notin> E"
    then have "queue_ok (n_log s) t e' \<and> flight_ok s t e' \<and> moves_on X R s t e'"
      using inv by (auto simp: net_inv_def streams_ok_def s'(1) split: if_splits)
    then show "queue_ok (n_log s') t e' \<and> flight_ok s' t e' \<and> moves_on X R s' t e'"
      using moves_on_cong [OF s'(4,6)] flight_ok_cong [OF log(1) s'(3)] by (simp add: queue_ok_def log)
  qed
  moreover have "entries_ok s'"
  proof -
    have old: "entries_ok s" using inv by (simp add: net_inv_def)
    have "t \<noteq> tid" if "n_next_id s < t" for t using entriesD(2) [OF old e] that by auto
    with old e show ?thesis by (auto simp: entries_ok_def s'(1,2,5) lost_final_snoc split: if_splits)
  qed
  moreover have "ids_ok s'" using inv by (simp add: net_inv_def ids_ok_def log s'(3,5))
  moreover have "drained_ok (n_log s')"
    unfolding drained_ok_def
  proof (intro allI impI)
    fix t assume "drained_lost t (n_log s')"
    then have "drained_lost t (n_log s) \<or> t = tid \<and> err = Clean \<and> L_abort tid \<notin> set (n_log s)"
      by (auto simp: drained_lost_def s'(2))
    then have "sent t (n_log s) = written t (n_log s) \<and> no_kernel t (n_log s)"
      using inv clean by (auto simp: net_inv_def drained_ok_def)
    then show "sent t (n_log s') = written t (n_log s') \<and> no_kernel t (n_log s')"
      by (simp add: no_kernel_def log)
  qed
  ultimately show ?thesis by (simp add: net_inv_def)
qed

lemma net_inv_less:
  assumes "net_inv X R E s" "E \<subseteq> F" "R \<subseteq> Q" "X \<subseteq> Y"
  shows "net_inv Y Q F s"
proof -
  have "moves_on X R s tid e \<Longrightarrow> moves_on Y Q s tid e" for tid e
    using assms(3,4) by (auto simp: moves_on_def)
  with assms(1,2) show ?thesis unfolding net_inv_def streams_ok_def by (meson in_mono)
qed

lemma net_inv_exempt: "net_inv X (insert tid R) E s \<Longrightarrow> net_inv X R (insert tid E) s"
  unfolding net_inv_def streams_ok_def moves_on_def by auto

lemma net_inv_gone:
  assumes "net_inv X R (insert tid E) s" "n_transports s tid = None"
  shows "net_inv X R E s"
  using assms unfolding net_inv_def streams_ok_def by (metis insertE option.distinct(1))

lemma net_inv_relax:
  assumes "net_inv X Q E s"
    and "\<And>t e. n_transports s t = Some e \<Longrightarrow> t \<notin> E \<Longrightarrow> flight_ok s t e \<Longrightarrow>
      moves_on X Q s t e \<Longrightarrow> moves_on Y R s t e"
  shows "net_inv Y R E s"
  using assms by (auto simp: net_inv_def streams_ok_def)

lemma leads_weaken:
  "(I s \<Longrightarrow> J s) \<Longrightarrow> leads I s J s"
  by (simp add: leads_def)

lemma leads_fix:
  "(I s \<Longrightarrow> leads I s J s') \<Longrightarrow> \<exists>ls. n_log s' = n_log s @ ls \<Longrightarrow> leads I s J s'"
  by (auto simp: leads_def)

lemma leads_teardown:
  assumes "\<And>e. n_transports s tid = Some e \<Longrightarrow> err = Clean \<Longrightarrow> L_abort tid \<in> set (n_log s) \<or>
    sent tid (n_log s) = written tid (n_log s) \<and> no_kernel tid (n_log s)"
    and "\<And>e. n_transports s tid = Some e \<Longrightarrow> \<not> t_conn_lost e"
  shows "leads (net_inv X R (insert tid E)) s (net_inv X R E) (teardown_lost k tid err imm s)"
proof (cases "n_transports s tid")
  case None
  then have "teardown_lost k tid err imm s = s" by (simp add: teardown_lost_def)
  with None show ?thesis by (auto simp: leads_def intro: net_inv_gone)
next
  case (Some e)
  let ?s' = "teardown_lost k tid err imm s"
  from teardown_shape [OF Some assms(2) [OF Some], of k err imm] obtain ls ca where sh:
    "n_log ?s' = n_log s @ ls @ [L_lost tid err]" "list_all mute ls"
    "n_transports ?s' = (n_transports s)(tid := None)" "n_flush_list ?s' = n_flush_list s"
    "n_next_id ?s' = n_next_id s" "n_ops ?s' = n_ops s" "n_events ?s' = n_events s @ [ca]" by metis
  define s1 where "s1 = s\<lparr>n_log := n_log s @ ls\<rparr>"
  have a: "aside s s1" using sh(2) by (intro asideI [where ls = ls]) (simp_all add: s1_def)
  have q: "\<forall>l\<in>set ls. mute l" using sh(2) by (simp add: list_all_iff)
  have L: "L_abort tid \<in> set (n_log s) \<Longrightarrow> L_abort tid \<in> set (n_log s1)" by (simp add: s1_def)
  have "leads (net_inv X R (insert tid E)) s1 (net_inv X R E) ?s'"
    unfolding leads_def
  proof (intro conjI impI)
    show "\<exists>ls. n_log ?s' = n_log s1 @ ls" by (simp add: sh s1_def)
    assume "net_inv X R (insert tid E) s1"
    then show "net_inv X R E ?s'"
    proof (rule lost_step)
      show "n_transports s1 tid = Some e" by (simp add: s1_def Some)
      show "err = Clean \<longrightarrow> L_abort tid \<in> set (n_log s1) \<or>
          sent tid (n_log s1) = written tid (n_log s1) \<and> no_kernel tid (n_log s1)"
        using assms(1) [OF Some] L by (auto simp: s1_def mute_log [OF q] no_kernel_def)
    qed (use sh in \<open>auto simp: s1_def\<close>)
  qed
  with leads_aside [OF a] show ?thesis by (rule leads_trans)
qed

section \<open>Sending\<close>

text \<open>A step that changes one entry, and says nothing: its own obligations suffice.\<close>

lemma leads_t_upd:
  assumes "\<And>e. n_transports s tid = Some e \<Longrightarrow> t_conn_lost (f e) = t_conn_lost e"
    and "\<And>e. n_transports s tid = Some e \<Longrightarrow> tid \<notin> F \<Longrightarrow>
      (tid \<notin> E \<Longrightarrow> queue_ok (n_log s) tid e \<and> flight_ok s tid e \<and> moves_on X R s tid e) \<Longrightarrow>
      queue_ok (n_log s) tid (f e) \<and> flight_ok s tid (f e) \<and> moves_on Y Q s tid (f e)"
    and "E \<subseteq> insert tid F" "R \<subseteq> Q \<union> {tid}" "X \<subseteq> Y \<union> {tid}"
  shows "leads (net_inv X R E) s (net_inv Y Q F) (t_upd tid f s)"
proof -
  {
    assume inv: "net_inv X R E s"
    have "streams_ok Y Q F (t_upd tid f s)"
      unfolding streams_ok_def
    proof (intro allI impI)
      fix t e' assume a: "n_transports (t_upd tid f s) t = Some e'" "t \<notin> F"
      show "queue_ok (n_log (t_upd tid f s)) t e' \<and> flight_ok (t_upd tid f s) t e' \<and>
          moves_on Y Q (t_upd tid f s) t e'"
      proof (cases "t = tid")
        case True
        with a obtain e where e: "n_transports s tid = Some e" "e' = f e" by auto
        have "tid \<notin> E \<Longrightarrow> queue_ok (n_log s) tid e \<and> flight_ok s tid e \<and> moves_on X R s tid e"
          using inv e(1) by (simp add: net_inv_def streams_ok_def)
        from assms(2) [OF e(1) _ this] a(2) True e(2) show ?thesis
          using flight_ok_cong [of "t_upd tid f s" s] by (simp add: moves_on_def resume_pending_def)
      next
        case False
        with a have "n_transports s t = Some e'" "t \<notin> E" using assms(3) by auto
        then have "queue_ok (n_log s) t e' \<and> flight_ok s t e' \<and> moves_on X R s t e'"
          using inv by (simp add: net_inv_def streams_ok_def)
        with False assms(4,5) show ?thesis
          using flight_ok_cong [of "t_upd tid f s" s] by (auto simp: moves_on_def resume_pending_def)
      qed
    qed
    moreover have "entries_ok (t_upd tid f s)"
      using inv assms(1) by (auto simp: net_inv_def entries_ok_def)
    ultimately have "net_inv Y Q F (t_upd tid f s)"
      using inv by (simp add: net_inv_def ids_ok_def)
  }
  then show ?thesis by (simp add: leads_def)
qed

lemma flight_wq: "flight_ok s tid e \<Longrightarrow> t_send_op e \<noteq> None \<Longrightarrow> t_wq e \<noteq> []"
  by (auto simp: flight_ok_def)

lemma mark_eof_sent:
  assumes "n_transports s tid = Some e" "t_wq e = []" "t_send_op e = None" "tid \<notin> E"
    and "s1 = (if t_eof_wanted e \<and> \<not> t_eof_sent e
               then stream_shutdown_send e (t_upd tid (\<lambda>e. e\<lparr>t_eof_sent := True\<rparr>) s) else s)"
  shows "leads (net_inv X R E) s (net_inv X R E) s1"
proof (cases "t_eof_wanted e \<and> \<not> t_eof_sent e")
  case True
  let ?s = "t_upd tid (\<lambda>e. e\<lparr>t_eof_sent := True\<rparr>) s"
  have "leads (net_inv X R E) s (net_inv X R E) ?s"
    by (rule leads_t_upd) (auto simp: queue_ok_def flight_ok_def front_def moves_on_def split: option.splits)
  moreover have "aside ?s (stream_shutdown_send e ?s)"
    by (rule asideI [where ls = "[L_shutdown (t_socket e)]"]) (simp_all add: stream_shutdown_send_def)
  ultimately show ?thesis using True assms(5) leads_trans leads_aside by metis
next
  case False
  then have "s1 = s" unfolding assms(5) by (simp only: if_False)
  then show ?thesis by simp
qed

lemma leads_mfs:
  assumes "tid \<notin> E" "net_inv X (insert tid R) E s"
  shows "leads (net_inv X (insert tid R) E) s (net_inv X R E) (maybe_finish_shutdown k tid drained s)"
proof -
  have relax: "net_inv X R E s" if "\<And>e. n_transports s tid = Some e \<Longrightarrow> t_wq e \<noteq> []"
    using assms(2) by (rule net_inv_relax) (use that in \<open>auto simp: moves_on_def\<close>)
  show ?thesis
  proof (cases "n_transports s tid")
    case None
    then show ?thesis using relax by (auto simp: maybe_finish_shutdown_def intro: leads_weaken)
  next
    case (Some e)
    have ok: "queue_ok (n_log s) tid e" "flight_ok s tid e" "\<not> t_conn_lost e"
      using invD [OF assms(2) Some] assms(1) by simp_all
    show ?thesis
    proof (cases "t_send_op e \<noteq> None \<or> t_wq e \<noteq> []")
      case True
      then have "t_wq e \<noteq> []" using flight_wq [OF ok(2)] by blast
      moreover have "maybe_finish_shutdown k tid drained s = s"
        using True Some by (auto simp: maybe_finish_shutdown_def)
      ultimately show ?thesis using relax Some by (auto intro: leads_weaken)
    next
      case False
      then have idle: "t_wq e = []" "t_send_op e = None" by auto
      define s1 where "s1 = (if t_eof_wanted e \<and> \<not> t_eof_sent e
        then stream_shutdown_send e (t_upd tid (\<lambda>e. e\<lparr>t_eof_sent := True\<rparr>) s) else s)"
      note m = mark_eof_sent [OF Some idle assms(1) s1_def, of X "insert tid R"]
      have done_: "sent tid (n_log s) = written tid (n_log s)" "no_kernel tid (n_log s)"
        using ok(1,2) idle by (auto simp: queue_ok_def flight_ok_def wq_bytes_def)
      have s1: "\<exists>e1. n_transports s1 tid = Some e1 \<and> t_closing e1 = t_closing e \<and>
          \<not> (t_eof_wanted e1 \<and> \<not> t_eof_sent e1) \<and> \<not> t_conn_lost e1"
        "sent tid (n_log s1) = written tid (n_log s1)" "no_kernel tid (n_log s1)"
        using Some ok(3) done_ by (auto simp: s1_def stream_shutdown_send_def log_snoc no_kernel_def)
      have r: "maybe_finish_shutdown k tid drained s =
          (if t_closing e then teardown_lost k tid Clean (drained \<and> n_inline_close s1 \<noteq> Some tid) s1 else s1)"
        using Some idle ok(3) by (simp add: maybe_finish_shutdown_def Let_def s1_def)
      show ?thesis
      proof (cases "t_closing e")
        case True
        have "leads (net_inv X R (insert tid E)) s1 (net_inv X R E)
            (teardown_lost k tid Clean (drained \<and> n_inline_close s1 \<noteq> Some tid) s1)"
          by (rule leads_teardown) (use s1 in auto)
        moreover have "leads (net_inv X (insert tid R) E) s1 (net_inv X R (insert tid E)) s1"
          by (rule leads_weaken) (rule net_inv_exempt)
        ultimately have "leads (net_inv X (insert tid R) E) s (net_inv X R E)
            (teardown_lost k tid Clean (drained \<and> n_inline_close s1 \<noteq> Some tid) s1)"
          using leads_trans [OF m] leads_trans by blast
        with True show ?thesis unfolding r by simp
      next
        case False
        have "leads (net_inv X (insert tid R) E) s1 (net_inv X R E) s1"
          by (rule leads_weaken, erule net_inv_relax) (use s1(1) False in \<open>auto simp: moves_on_def\<close>)
        with leads_trans [OF m this] False show ?thesis unfolding r by simp
      qed
    qed
  qed
qed

section \<open>Logs grow\<close>

definition grows :: "'b net \<Rightarrow> 'b net \<Rightarrow> bool" where
  "grows s s' \<longleftrightarrow> (\<exists>ls. n_log s' = n_log s @ ls)"

lemma grows_refl [simp]: "grows s s" by (simp add: grows_def)

lemma grows_trans: "grows s s1 \<Longrightarrow> grows s1 s2 \<Longrightarrow> grows s s2" by (auto simp: grows_def)

lemma grows_same: "n_log s' = n_log s \<Longrightarrow> grows s s'" by (simp add: grows_def)

lemma grows_log: "n_log s1 = n_log s2 \<Longrightarrow> grows s s1 = grows s s2" by (simp add: grows_def)

lemma aside_grows: "aside s s' \<Longrightarrow> grows s s'" by (auto simp: aside_def grows_def)

lemma leads_grows: "leads I s J s' \<Longrightarrow> grows s s'" by (simp add: leads_def grows_def)

lemma leadsI: "grows s s' \<Longrightarrow> (log_fine (n_log s') \<Longrightarrow> I s \<Longrightarrow> J s') \<Longrightarrow> leads I s J s'"
  by (simp add: leads_def grows_def)

lemma leads_given: "grows s s' \<Longrightarrow> (I s \<Longrightarrow> leads I s J s') \<Longrightarrow> leads I s J s'"
  by (auto simp: leads_def grows_def)

lemma grows_teardown: "grows s (teardown_lost k tid err imm s)"
proof (cases "n_transports s tid")
  case (Some e)
  show ?thesis
  proof (cases "t_conn_lost e")
    case True
    then show ?thesis by (simp add: teardown_lost_def Some grows_def)
  next
    case False
    from teardown_shape [OF Some this, of k err imm] show ?thesis by (metis grows_def)
  qed
qed (simp add: teardown_lost_def)

lemma grows_mfs: "grows s (maybe_finish_shutdown k tid drained s)"
proof -
  have "grows s s1 \<Longrightarrow> grows s (teardown_lost k tid Clean i s1)" for s1 i
    using grows_teardown grows_trans by blast
  moreover have "grows s (stream_shutdown_send e (t_upd tid f s))" for e f
    by (simp add: grows_def stream_shutdown_send_def)
  ultimately show ?thesis
    by (auto simp: maybe_finish_shutdown_def Let_def split: option.splits)
qed

text \<open>The write queue's slices.\<close>

lemma gather_take:
  "gather_slices n got ws = map wb_slice (take (length (gather_slices n got ws)) ws)"
  by (induction n got ws rule: gather_slices.induct) (auto simp: Let_def)

lemma slice_cases:
  assumes "wb_rest w \<noteq> []"
  shows "wb_slice w = wb_rest w \<or> length (wb_slice w) = MAX_SEND_BYTES" "prefix (wb_slice w) (wb_rest w)"
    "wb_slice w \<noteq> []"
proof -
  have l: "wb_remaining w = length (wb_rest w)" by (cases w) simp_all
  have "min n MAX_SEND_BYTES < 2 ^ 32" for n by (simp add: MAX_SEND_BYTES_def min_def)
  then have e: "io_len n = min n MAX_SEND_BYTES" for n by (simp add: io_len_def)
  show "wb_slice w = wb_rest w \<or> length (wb_slice w) = MAX_SEND_BYTES"
    by (auto simp: wb_slice_def l e min_def)
  show "prefix (wb_slice w) (wb_rest w)" by (simp add: wb_slice_def take_is_prefix)
  show "wb_slice w \<noteq> []" using assms io_len_bounds(3) [of "wb_remaining w"] by (simp add: wb_slice_def l)
qed

text \<open>A slice that had to be cut short is the last one.\<close>

lemma gather_prefix:
  "\<forall>w\<in>set ws. wb_rest w \<noteq> [] \<Longrightarrow> prefix (concat (gather_slices n got ws)) (wq_bytes ws)"
proof (induction n got ws rule: gather_slices.induct)
  case (2 n got w ws)
  then have ne: "wb_rest w \<noteq> []" "\<forall>w\<in>set ws. wb_rest w \<noteq> []" by simp_all
  show ?case
  proof (cases "n > 0 \<and> got + length (wb_slice w) > MAX_SEND_BYTES")
    case False
    have IH: "prefix (concat (gather_slices (n + 1) (got + length (wb_slice w)) ws)) (wq_bytes ws)"
      by (rule "2.IH" [OF refl False ne(2)])
    show ?thesis
    proof (cases "wb_slice w = wb_rest w")
      case True
      with IH False show ?thesis by (auto simp: wq_bytes_def Let_def)
    next
      case full: False
      then have m: "length (wb_slice w) = MAX_SEND_BYTES" using slice_cases(1) [OF ne(1)] by simp
      have "gather_slices (n + 1) (got + length (wb_slice w)) ws = []"
        using ne(2) slice_cases(3) [of "hd ws"] m by (cases ws) (auto simp: Let_def)
      then show ?thesis
        using False slice_cases(2) [OF ne(1)] by (auto simp: wq_bytes_def Let_def intro: prefix_prefix)
    qed
  qed (auto simp: Let_def)
qed simp

lemma wq_bytes_take: "prefix (wq_bytes (take n ws)) (wq_bytes ws)"
  unfolding wq_bytes_def by (metis append_take_drop_id concat_append map_append prefixI)

lemma gather_length: "length (gather_slices n got ws) \<le> length ws"
  by (induction n got ws rule: gather_slices.induct) (auto simp: Let_def)

lemma gather_pos: "ws \<noteq> [] \<Longrightarrow> 0 < length (gather_slices 0 got ws)"
  by (cases ws) (simp_all add: Let_def)

text \<open>A send is posted.\<close>

lemma flight_ok_other:
  assumes "flight_ok s t e"
    and "\<And>op d. in_kernel (n_log s') op = Some (t, d) \<longleftrightarrow> in_kernel (n_log s) op = Some (t, d)"
    and "\<And>op. n_ops s' op = Some (T_send t) \<longleftrightarrow> n_ops s op = Some (T_send t)"
  shows "flight_ok s' t e"
  using assms by (simp add: flight_ok_def no_kernel_def split: option.splits)

lemma idsD:
  assumes "ids_ok s"
  shows "n_ops s op \<noteq> None \<Longrightarrow> op \<in> posted_ids (n_log s)"
    "in_kernel (n_log s) op \<noteq> None \<Longrightarrow> op \<in> posted_ids (n_log s)"
    "n_ops s op = Some (T_send t) \<Longrightarrow> t \<le> n_next_id s"
  using assms by (simp_all add: ids_ok_def)

lemma send_step:
  assumes inv: "net_inv X R E s" and fine: "log_fine (n_log s')"
    and e: "n_transports s tid = Some e" "t_send_op e = None" "tid \<notin> E"
    and sl: "slices = map wb_slice (take (length slices) (t_wq e))" "0 < length slices"
      "length slices \<le> length (t_wq e)" "prefix (concat slices) (wq_bytes (t_wq e))"
    and s': "n_transports s' = (n_transports s)(tid := Some (e\<lparr>t_send_op := Some op, t_inflight := length slices\<rparr>))"
      "n_log s' = n_log s @ [L_send tid op slices]" "n_ops s' = (n_ops s)(op := Some (T_send tid))"
      "n_flush_list s' = n_flush_list s" "n_next_id s' = n_next_id s" "n_events s' = n_events s"
  shows "net_inv X R E s'"
proof -
  have new: "op \<notin> posted_ids (n_log s)" using fine by (simp add: s'(2) log_fine_snoc)
  have ids: "ids_ok s" using inv by (simp add: net_inv_def)
  have fresh: "n_ops s op = None" "in_kernel (n_log s) op = None" using idsD [OF ids] new by metis+
  have log: "in_kernel (n_log s') = (in_kernel (n_log s))(op := Some (tid, concat slices))"
    "sent t (n_log s') = sent t (n_log s)" "written t (n_log s') = written t (n_log s)"
    "posted_ids (n_log s') = insert op (posted_ids (n_log s))"
    "lost_in t (n_log s') = lost_in t (n_log s)" for t
    by (simp_all add: s'(2) log_snoc)
  have old: "queue_ok (n_log s) tid e" "flight_ok s tid e" "moves_on X R s tid e"
    using invD [OF inv e(1)] e(3) by simp_all
  have "streams_ok X R E s'"
    unfolding streams_ok_def
  proof (intro allI impI)
    fix t e' assume a: "n_transports s' t = Some e'" "t \<notin> E"
    show "queue_ok (n_log s') t e' \<and> flight_ok s' t e' \<and> moves_on X R s' t e'"
    proof (cases "t = tid")
      case True
      with a have e': "e' = e\<lparr>t_send_op := Some op, t_inflight := length slices\<rparr>" by (simp add: s'(1))
      have "flight_ok s' tid e'"
        using old(2) e(2) sl by (auto simp: flight_ok_def front_def e' log s'(3) no_kernel_def)
      moreover have "moves_on X R s' tid e'"
        using old(3) by (auto simp: moves_on_def e' s'(4,6) resume_pending_def)
      ultimately show ?thesis using old(1) True by (simp add: queue_ok_def e' log)
    next
      case False
      with a have t: "n_transports s t = Some e'" by (simp add: s'(1))
      note o = invD(4-6) [OF inv t a(2)]
      have "flight_ok s' t e'"
        by (rule flight_ok_other [OF o(2)]) (use False fresh in \<open>simp_all add: log s'(3)\<close>)
      with o show ?thesis
        by (simp add: queue_ok_def log moves_on_def s'(4,6) resume_pending_def)
    qed
  qed
  moreover have "entries_ok s'"
    unfolding entries_ok_def
  proof (intro conjI allI impI)
    have "tid \<le> n_next_id s" "\<not> lost_in tid (n_log s)" using invD [OF inv e(1)] by auto
    then show "lost_final (n_log s')" "\<And>t. n_next_id s' < t \<Longrightarrow> unheard t (n_log s')"
      using inv by (auto simp: net_inv_def entries_ok_def s'(2,5) lost_final_snoc)
    fix t e' assume "n_transports s' t = Some e'"
    then obtain e0 where "n_transports s t = Some e0" "t_conn_lost e' = t_conn_lost e0"
      using e(1) by (auto simp: s'(1) split: if_splits)
    then show "\<not> t_conn_lost e'" "t \<le> n_next_id s'" "\<not> lost_in t (n_log s')"
      using invD [OF inv] by (auto simp: s'(5) log)
  qed
  moreover have "ids_ok s'"
    using ids invD(2) [OF inv e(1)] by (auto simp: ids_ok_def log s'(3,5))
  moreover have "drained_ok (n_log s')"
    unfolding drained_ok_def
  proof (intro allI impI)
    fix t assume "drained_lost t (n_log s')"
    then have d: "drained_lost t (n_log s)" by (simp add: drained_lost_def s'(2))
    then have "t \<noteq> tid" using invD(3) [OF inv e(1)] by (auto simp: drained_lost_def lost_in_def)
    with d inv show "sent t (n_log s') = written t (n_log s') \<and> no_kernel t (n_log s')"
      by (auto simp: net_inv_def drained_ok_def log no_kernel_def)
  qed
  ultimately show ?thesis by (simp add: net_inv_def)
qed

lemma leads_mfs':
  assumes "tid \<notin> E"
  shows "leads (net_inv X R E) s (net_inv X R E) (maybe_finish_shutdown k tid drained s)"
    "leads (net_inv X (insert tid R) E) s (net_inv X R E) (maybe_finish_shutdown k tid drained s)"
proof -
  show *: "leads (net_inv X (insert tid R) E) s (net_inv X R E) (maybe_finish_shutdown k tid drained s)"
    by (rule leads_given [OF grows_mfs leads_mfs [OF assms]])
  have "leads (net_inv X R E) s (net_inv X (insert tid R) E) s"
    by (rule leads_weaken) (auto elim: net_inv_less)
  from leads_trans [OF this *] show "leads (net_inv X R E) s (net_inv X R E) (maybe_finish_shutdown k tid drained s)" .
qed

lemma post_send_cases:
  assumes "n_transports s tid = Some e" "t_send_op e = None" "\<not> t_conn_lost e" "t_wq e \<noteq> []"
  obtains op b where
    "flush_pending k tid s = add_op op (T_send tid) (t_upd tid (\<lambda>e. e\<lparr>t_send_op := Some op,
        t_inflight := length (gather_slices 0 0 (take 16 (t_wq e)))\<rparr>)
      (say (L_send tid op (gather_slices 0 0 (take 16 (t_wq e))))
        ((t_upd tid (\<lambda>e. e\<lparr>t_flush_scheduled := False\<rparr>) s)\<lparr>n_bk := b,
          n_sends_posted := n_sends_posted s + 1\<rparr>)))"
  | err b where "flush_pending k tid s =
      teardown_lost k tid (Os err) False ((t_upd tid (\<lambda>e. e\<lparr>t_flush_scheduled := False\<rparr>) s)\<lparr>n_bk := b\<rparr>)"
proof -
  let ?sl = "gather_slices 0 0 (take 16 (t_wq e))"
  obtain r b where r: "sk_post_send k (t_socket e) ?sl (n_bk s) = (r, b)" by fastforce
  show thesis
  proof (cases r)
    case (Inl err)
    show thesis
      by (rule that(2) [of "os_error_or 5 err" b])
        (simp add: flush_pending_def assms Let_def r Inl teardown_err_def teardown_with_def)
  next
    case (Inr op)
    show thesis
      by (rule that(1) [of op b]) (simp add: flush_pending_def assms Let_def r Inr t_upd_def)
  qed
qed

lemma grows_flush: "grows s (flush_pending k tid s)"
proof (cases "n_transports s tid")
  case (Some e)
  let ?s = "t_upd tid (\<lambda>e. e\<lparr>t_flush_scheduled := False\<rparr>) s"
  show ?thesis
  proof (cases "t_send_op e \<noteq> None \<or> t_conn_lost e \<or> t_wq e = []")
    case True
    moreover have "grows s (maybe_finish_shutdown k tid True ?s)"
      using grows_mfs [of ?s k tid True] by (simp add: grows_def)
    ultimately show ?thesis by (auto simp: flush_pending_def Some Let_def grows_def)
  next
    case False
    then have "t_send_op e = None" "\<not> t_conn_lost e" "t_wq e \<noteq> []" by auto
    from post_send_cases [OF Some this, of k] show ?thesis
    proof cases
      case (1 op b)
      then show ?thesis by (simp add: grows_def)
    next
      case (2 err b)
      with grows_teardown [of "?s\<lparr>n_bk := b\<rparr>" k tid "Os err" False] show ?thesis by (simp add: grows_def)
    qed
  qed
qed (simp add: flush_pending_def)

lemma leads_flush:
  assumes "tid \<notin> E"
  shows "leads (net_inv (insert tid X) R E) s (net_inv X R E) (flush_pending k tid s)"
proof (rule leads_given [OF grows_flush])
  assume inv: "net_inv (insert tid X) R E s"
  let ?I = "net_inv (insert tid X) R E" and ?J = "net_inv X R E"
  let ?s = "t_upd tid (\<lambda>e. e\<lparr>t_flush_scheduled := False\<rparr>) s"
  show "leads ?I s ?J (flush_pending k tid s)"
  proof (cases "n_transports s tid")
    case None
    have "?J s" using inv by (rule net_inv_relax) (use None in \<open>auto simp: moves_on_def\<close>)
    with None show ?thesis by (auto simp: flush_pending_def intro: leads_weaken)
  next
    case (Some e)
    note old = invD [OF inv Some] 
    have lost: "\<not> t_conn_lost e" using old by simp
    show ?thesis
    proof (cases "t_send_op e = None \<and> t_wq e \<noteq> []")
      case False
      have "leads ?I s ?J ?s"
        by (rule leads_t_upd)
          (use False Some flight_wq in \<open>auto simp: queue_ok_def flight_ok_def front_def moves_on_def split: option.splits\<close>)
      moreover have "flush_pending k tid s = (if t_send_op e \<noteq> None then ?s else maybe_finish_shutdown k tid True ?s)"
        using False lost Some by (auto simp: flush_pending_def Let_def)
      ultimately show ?thesis
        using leads_trans [OF _ leads_mfs'(1) [OF assms, of X R ?s k True]] by (cases "t_send_op e = None") simp_all
    next
      case True
      then have p: "t_send_op e = None" "\<not> t_conn_lost e" "t_wq e \<noteq> []" using lost by auto
      let ?sl = "gather_slices 0 0 (take 16 (t_wq e))"
      have step: "leads ?I s (net_inv X R (insert tid E)) (?s\<lparr>n_bk := b\<rparr>)" for b
      proof -
        have "leads ?I s (net_inv X R (insert tid E)) ?s"
          by (rule leads_t_upd) (use assms in auto)
        moreover have "aside ?s (?s\<lparr>n_bk := b\<rparr>)" by (rule asideI [where ls = "[]"]) simp_all
        ultimately show ?thesis using leads_trans leads_aside by blast
      qed
      from post_send_cases [OF Some p, of k] show ?thesis
      proof cases
        case (1 op b)
        have l: "?sl = map wb_slice (take (length ?sl) (t_wq e))" "0 < length ?sl" "length ?sl \<le> length (t_wq e)"
          using gather_take [of 0 0 "take 16 (t_wq e)"] gather_length [of 0 0 "take 16 (t_wq e)"]
            gather_pos [of "take 16 (t_wq e)" 0] p(3)
          by (auto simp: take_take min_def split: if_splits)
        have pre: "prefix (concat ?sl) (wq_bytes (t_wq e))" if "tid \<notin> E"
        proof (rule prefix_order.trans [OF gather_prefix wq_bytes_take])
          show "\<forall>w\<in>set (take 16 (t_wq e)). wb_rest w \<noteq> []"
            using old(4) [OF that] in_set_takeD [of _ 16 "t_wq e"] by (auto simp: queue_ok_def)
        qed
        show ?thesis
        proof (rule leadsI [OF grows_flush])
          assume fine: "log_fine (n_log (flush_pending k tid s))"
          have "moves_on X R ?s tid (e\<lparr>t_flush_scheduled := False\<rparr>)" if "t_send_op e \<noteq> None"
            using that p by simp
          let ?e = "e\<lparr>t_flush_scheduled := False\<rparr>"
          have i: "net_inv (insert tid X) R E ?s"
          proof -
            have "leads ?I s ?I ?s"
              by (rule leads_t_upd) (auto simp: queue_ok_def flight_ok_def front_def moves_on_def split: option.splits)
            moreover have "log_fine (n_log ?s)"
              using fine 1 by (simp add: log_fine_snoc)
            ultimately show ?thesis using inv by (simp add: leads_def)
          qed
          have "net_inv (insert tid X) R E (flush_pending k tid s)"
            by (rule send_step [OF i fine, where tid = tid and e = ?e and op = op and slices = ?sl])
              (use Some p assms l pre in \<open>simp_all add: 1\<close>)
          then show "?J (flush_pending k tid s)"
            by (rule net_inv_relax) (use Some in \<open>auto simp: 1 moves_on_def split: if_splits\<close>)
        qed
      next
        case (2 err b)
        have "leads (net_inv X R (insert tid E)) (?s\<lparr>n_bk := b\<rparr>) ?J (flush_pending k tid s)"
          unfolding 2 by (rule leads_teardown) (use Some lost in auto)
        then show ?thesis using leads_trans [OF step] by blast
      qed
    qed
  qed
qed

end
