(* ===== verification/Stream_Moves.thy ===== *)
theory Stream_Moves
  imports Stream_Keep
begin

text \<open>
  Completions and the methods of a transport keep the invariant: one general step for whatever
  changes one entry, one for a completion, then the operations.
\<close>

section \<open>A step of one entry\<close>

fun own :: "nat \<Rightarrow> net_log \<Rightarrow> bool" where
  "own tid (L_recv t op sl) = (t = tid)"
| "own tid (L_write t d) = (t = tid)"
| "own tid (L_input t d) = (t = tid)"
| "own tid (L_deliver t d) = (t = tid)"
| "own tid l = mute l"

lemma own_log:
  assumes "list_all (own tid) ls"
  shows "in_kernel (log @ ls) = in_kernel log" "sent t (log @ ls) = sent t log"
    "t \<noteq> tid \<Longrightarrow> written t (log @ ls) = written t log" "lost_in t (log @ ls) = lost_in t log"
    "lost_final log \<Longrightarrow> \<not> lost_in tid log \<Longrightarrow> lost_final (log @ ls)"
    "t \<noteq> tid \<Longrightarrow> unheard t log \<Longrightarrow> unheard t (log @ ls)"
    "drained_lost t (log @ ls) = drained_lost t log"
    "posted_ids (log @ ls) = posted_ids log \<union> {op. \<exists>l\<in>set ls. posts l = Some op}"
proof -
  have "in_kernel (log @ ls) = in_kernel log \<and> sent t (log @ ls) = sent t log \<and>
    (t \<noteq> tid \<longrightarrow> written t (log @ ls) = written t log) \<and> (\<forall>t. lost_in t (log @ ls) = lost_in t log) \<and>
    (lost_final log \<longrightarrow> \<not> lost_in tid log \<longrightarrow> lost_final (log @ ls)) \<and>
    (t \<noteq> tid \<longrightarrow> unheard t log \<longrightarrow> unheard t (log @ ls)) \<and>
    drained_lost t (log @ ls) = drained_lost t log"
    using assms
  proof (induction ls rule: rev_induct)
    case (snoc l ls)
    have o: "own tid l" using snoc.prems by simp
    have s: "speaks l = None \<or> speaks l = Some tid" using o by (cases l) simp_all
    have IH: "in_kernel (log @ ls) = in_kernel log" "sent t (log @ ls) = sent t log"
      "t \<noteq> tid \<longrightarrow> written t (log @ ls) = written t log" "\<And>t. lost_in t (log @ ls) = lost_in t log"
      "lost_final log \<longrightarrow> \<not> lost_in tid log \<longrightarrow> lost_final (log @ ls)"
      "t \<noteq> tid \<longrightarrow> unheard t log \<longrightarrow> unheard t (log @ ls)"
      "drained_lost t (log @ ls) = drained_lost t log"
      using snoc by simp_all
    have "L_lost t r \<noteq> l" "L_abort t \<noteq> l" for t r using o by auto
    then show ?case
      unfolding append_assoc [symmetric] log_snoc unheard_snoc lost_in_snoc
      using o s IH by (cases l) (auto simp: drained_lost_def)
  qed simp
  then show "in_kernel (log @ ls) = in_kernel log" "sent t (log @ ls) = sent t log"
    "t \<noteq> tid \<Longrightarrow> written t (log @ ls) = written t log" "lost_in t (log @ ls) = lost_in t log"
    "lost_final log \<Longrightarrow> \<not> lost_in tid log \<Longrightarrow> lost_final (log @ ls)"
    "t \<noteq> tid \<Longrightarrow> unheard t log \<Longrightarrow> unheard t (log @ ls)"
    "drained_lost t (log @ ls) = drained_lost t log" by blast+
  show "posted_ids (log @ ls) = posted_ids log \<union> {op. \<exists>l\<in>set ls. posts l = Some op}"
    by (auto simp: posted_ids_def)
qed

lemma fresh_id:
  assumes "log_fine (log @ ls)" "l \<in> set ls" "posts l = Some op"
  shows "op \<notin> posted_ids log"
proof -
  from assms(2) obtain xs ys where ls: "ls = xs @ l # ys" by (meson split_list)
  then have "log_fine ((log @ xs) @ [l])"
    using assms(1) along_prefix [of fine_entry "(log @ xs) @ [l]" ys] by (simp add: log_fine_def)
  then have "op \<notin> posted_ids (log @ xs)" unfolding log_fine_snoc using assms(3) by (cases l) simp_all
  then show ?thesis by (auto simp: posted_ids_def)
qed

text \<open>\<open>s'\<close> differs from \<open>s\<close> in the entry of \<open>tid\<close>, which is then \<open>e\<close>, and in what is aside.\<close>

definition one_entry :: "nat \<Rightarrow> transport \<Rightarrow> 'b net \<Rightarrow> 'b net \<Rightarrow> bool" where
  "one_entry tid e s s' \<longleftrightarrow>
     n_transports s' = (n_transports s)(tid := Some e) \<and> set (n_flush_list s) \<subseteq> set (n_flush_list s') \<and>
     n_next_id s' = n_next_id s \<and> set (n_events s) \<subseteq> set (n_events s') \<and>
     (\<exists>ls. n_log s' = n_log s @ ls \<and> list_all (own tid) ls \<and>
       (\<forall>op. n_ops s' op = n_ops s op \<or>
         (\<exists>l\<in>set ls. posts l = Some op) \<and> \<not> stream_target (n_ops s' op)))"

lemma one_entryI:
  assumes "n_transports s' = (n_transports s)(tid := Some e)" "set (n_flush_list s) \<subseteq> set (n_flush_list s')"
    "n_next_id s' = n_next_id s" "set (n_events s) \<subseteq> set (n_events s')" "n_log s' = n_log s @ ls"
    "list_all (own tid) ls" "n_ops s' = n_ops s"
  shows "one_entry tid e s s'"
  using assms by (auto simp: one_entry_def)

lemma moves_on_mono:
  assumes "moves_on X R s t e" "set (n_flush_list s) \<subseteq> set (n_flush_list s')"
    "set (n_events s) \<subseteq> set (n_events s')" "t \<in> X \<longrightarrow> t \<in> Y" "t \<in> R \<longrightarrow> t \<in> Q"
  shows "moves_on Y Q s' t e"
  using assms by (auto simp: moves_on_def resume_pending_def)

lemma leads_one_entry:
  assumes one: "one_entry tid e s s'" and e0: "n_transports s tid = Some e0" and lost: "\<not> t_conn_lost e"
    and own: "net_inv X R F s \<Longrightarrow> tid \<notin> E \<Longrightarrow> queue_ok (n_log s') tid e"
      "net_inv X R F s \<Longrightarrow> tid \<notin> E \<Longrightarrow> flight_ok s tid e"
      "net_inv X R F s \<Longrightarrow> tid \<notin> E \<Longrightarrow> moves_on Y Q s' tid e"
    and sets: "F \<subseteq> insert tid E" "R \<subseteq> insert tid Q" "X \<subseteq> insert tid Y"
  shows "leads (net_inv X R F) s (net_inv Y Q E) s'"
proof -
  from one obtain ls where s': "n_transports s' = (n_transports s)(tid := Some e)"
      "set (n_flush_list s) \<subseteq> set (n_flush_list s')" "n_next_id s' = n_next_id s"
      "set (n_events s) \<subseteq> set (n_events s')" "n_log s' = n_log s @ ls" "list_all (own tid) ls"
    and ops: "\<forall>op. n_ops s' op = n_ops s op \<or>
         (\<exists>l\<in>set ls. posts l = Some op) \<and> \<not> stream_target (n_ops s' op)"
    by (auto simp: one_entry_def)
  note q = own_log [OF s'(6), where log = "n_log s", folded s'(5)]
  {
    assume fine: "log_fine (n_log s')" and inv: "net_inv X R F s"
    have ids: "ids_ok s" using inv by (simp add: net_inv_def)
    have old: "n_ops s' op = n_ops s op" if "n_ops s op \<noteq> None" for op
      using that ops fresh_id [of "n_log s" ls _ op] fine idsD(1) [OF ids, of op] unfolding s'(5) by metis
    have new: "n_ops s' op = Some (T_send t) \<longleftrightarrow> n_ops s op = Some (T_send t)" for op t
      using old [of op] ops by (metis stream_target.simps(1) option.distinct(1))
    have fl: "flight_ok s t e \<Longrightarrow> flight_ok s' t e" for t e
      by (erule flight_ok_other) (simp_all add: q new)
    have "streams_ok Y Q E s'"
      unfolding streams_ok_def
    proof (intro allI impI)
      fix t e' assume a: "n_transports s' t = Some e'" "t \<notin> E"
      show "queue_ok (n_log s') t e' \<and> flight_ok s' t e' \<and> moves_on Y Q s' t e'"
      proof (cases "t = tid")
        case True
        with a own inv fl show ?thesis by (simp add: s'(1))
      next
        case False
        with a sets have t: "n_transports s t = Some e'" "t \<notin> F" by (auto simp: s'(1))
        note o = invD(4-6) [OF inv t]
        have "moves_on Y Q s' t e'"
          by (rule moves_on_mono [OF o(3) s'(2,4)]) (use False sets in auto)
        with o(1,2) fl False show ?thesis by (simp add: queue_ok_def q)
      qed
    qed
    moreover have "entries_ok s'"
      unfolding entries_ok_def
    proof (intro conjI allI impI)
      have l: "tid \<le> n_next_id s" "\<not> lost_in tid (n_log s)" using invD [OF inv e0] by auto
      then show "lost_final (n_log s')" "\<And>t. n_next_id s' < t \<Longrightarrow> unheard t (n_log s')"
        using inv by (auto simp: net_inv_def entries_ok_def q s'(3))
      fix t e' assume "n_transports s' t = Some e'"
      then show "\<not> t_conn_lost e'" "t \<le> n_next_id s'" "\<not> lost_in t (n_log s')"
        using invD [OF inv] lost l by (auto simp: s'(1,3) q split: if_splits)
    qed
    moreover have "ids_ok s'"
    proof -
      have "n_ops s' op \<noteq> None \<Longrightarrow> op \<in> posted_ids (n_log s')" for op
        using ids ops unfolding ids_ok_def q by (metis (mono_tags, lifting) UnI1 UnI2 mem_Collect_eq)
      then show ?thesis using ids by (simp add: ids_ok_def q new s'(3))
    qed
    moreover have "drained_ok (n_log s')"
      unfolding drained_ok_def
    proof (intro allI impI)
      fix t assume "drained_lost t (n_log s')"
      then have d: "drained_lost t (n_log s)" by (simp add: q)
      then have "t \<noteq> tid" using invD(3) [OF inv e0] by (auto simp: drained_lost_def lost_in_def)
      with d inv show "sent t (n_log s') = written t (n_log s') \<and> no_kernel t (n_log s')"
        by (simp add: net_inv_def drained_ok_def no_kernel_def q)
    qed
    ultimately have "net_inv Y Q E s'" by (simp add: net_inv_def)
  }
  then show ?thesis using s'(5) by (auto simp: leads_def)
qed

text \<open>The fields of the queue; a step that keeps them keeps the entry's invariant.\<close>

definition same_queue :: "transport \<Rightarrow> transport \<Rightarrow> bool" where
  "same_queue e e' \<longleftrightarrow>
     t_wq e' = t_wq e \<and> t_queued e' = t_queued e \<and> t_send_op e' = t_send_op e \<and>
     t_inflight e' = t_inflight e \<and> t_conn_lost e' = t_conn_lost e \<and> t_closing e' = t_closing e \<and>
     t_eof_wanted e' = t_eof_wanted e \<and> t_eof_sent e' = t_eof_sent e \<and>
     (t_proto_paused e' \<longrightarrow> t_proto_paused e) \<and> t_flush_scheduled e' = t_flush_scheduled e"

lemma same_queue_refl [simp]: "same_queue e e"
  by (simp add: same_queue_def)

lemma leads_same_queue:
  assumes "one_entry tid e s s'" "n_transports s tid = Some e0" "same_queue e0 e"
    and "written tid (n_log s') = written tid (n_log s)"
  shows "leads (net_inv X R E) s (net_inv X R E) s'"
proof (rule leads_given)
  from assms(1) show g: "grows s s'" by (auto simp: one_entry_def grows_def)
  assume inv: "net_inv X R E s"
  from assms(1) obtain ls where l: "n_log s' = n_log s @ ls" "list_all (own tid) ls"
    by (auto simp: one_entry_def)
  note e0 = invD [OF inv assms(2)]
  have sq: "t_wq e = t_wq e0" "t_queued e = t_queued e0" "t_send_op e = t_send_op e0"
     "t_inflight e = t_inflight e0" "t_conn_lost e = t_conn_lost e0" "t_closing e = t_closing e0"
     "t_eof_wanted e = t_eof_wanted e0" "t_eof_sent e = t_eof_sent e0"
     "t_proto_paused e \<longrightarrow> t_proto_paused e0" "t_flush_scheduled e = t_flush_scheduled e0"
    using assms(3) by (auto simp: same_queue_def)
  show "leads (net_inv X R E) s (net_inv X R E) s'"
  proof (rule leads_one_entry [OF assms(1,2)])
    show "\<not> t_conn_lost e" using e0 sq by simp
    assume t: "tid \<notin> E"
    show "queue_ok (n_log s') tid e"
      using e0(4) [OF t] sq by (simp add: queue_ok_def l own_log(2) [OF l(2)] assms(4) [unfolded l(1)])
    show "flight_ok s tid e" using e0(5) [OF t] sq by (auto simp: flight_ok_def front_def split: option.splits)
    have "moves_on X R s tid e" using e0(6) [OF t] sq by (auto simp: moves_on_def)
    then show "moves_on X R s' tid e"
      by (rule moves_on_mono) (use assms(1) in \<open>auto simp: one_entry_def\<close>)
  qed auto
qed

section \<open>A completion\<close>

text \<open>
  The log entry of a completion, its table entry gone: nothing else is concerned, except the
  transport whose send it was.
\<close>

definition completed :: "op_id \<Rightarrow> nat \<Rightarrow> nat \<Rightarrow> 'b net \<Rightarrow> 'b net \<Rightarrow> bool" where
  "completed op n err s s' \<longleftrightarrow>
     n_transports s' = n_transports s \<and> n_flush_list s' = n_flush_list s \<and> n_next_id s' = n_next_id s \<and>
     n_events s' = n_events s \<and> n_log s' = n_log s @ [L_done op n err] \<and>
     n_ops s' = (n_ops s)(op := None)"

definition send_target :: "op_id \<Rightarrow> 'b net \<Rightarrow> nat set" where
  "send_target op s = {tid. n_ops s op = Some (T_send tid)}"

lemma in_kernel_alive:
  assumes "net_inv X R E s" "n_transports s t = Some e" "t \<notin> E" "in_kernel (n_log s) op = Some (t, d)"
  shows "n_ops s op = Some (T_send t)"
  using invD(5) [OF assms(1,2,3)] assms(4) by (auto simp: flight_ok_def no_kernel_def split: option.splits)

lemma leads_completed:
  assumes c: "completed op n err s s'"
  shows "leads (net_inv X R E) s (net_inv X R (E \<union> send_target op s)) s'"
proof -
  have s': "n_transports s' = n_transports s" "n_flush_list s' = n_flush_list s" "n_next_id s' = n_next_id s"
     "n_events s' = n_events s" "n_log s' = n_log s @ [L_done op n err]" "n_ops s' = (n_ops s)(op := None)"
    using c by (simp_all add: completed_def)
  have log: "in_kernel (n_log s') = (in_kernel (n_log s))(op := None)" "written t (n_log s') = written t (n_log s)"
    "posted_ids (n_log s') = posted_ids (n_log s)" "lost_in t (n_log s') = lost_in t (n_log s)"
    "(\<And>d. in_kernel (n_log s) op \<noteq> Some (t, d)) \<Longrightarrow> sent t (n_log s') = sent t (n_log s)" for t
    by (auto simp: s'(5) log_snoc split: option.splits)
  {
    assume inv: "net_inv X R E s"
    have "streams_ok X R (E \<union> send_target op s) s'"
      unfolding streams_ok_def
    proof (intro allI impI)
      fix t e assume a: "n_transports s' t = Some e" "t \<notin> E \<union> send_target op s"
      then have t: "n_transports s t = Some e" "t \<notin> E" and tgt: "n_ops s op \<noteq> Some (T_send t)"
        by (auto simp: s'(1) send_target_def)
      have no: "in_kernel (n_log s) op \<noteq> Some (t, d)" for d
        using in_kernel_alive [OF inv t] tgt by blast
      note o = invD(4-6) [OF inv t]
      have "flight_ok s' t e"
        by (rule flight_ok_other [OF o(2)]) (use no tgt in \<open>auto simp: log s'(6)\<close>)
      moreover have "moves_on X R s' t e"
        by (rule moves_on_mono [OF o(3)]) (simp_all add: s')
      ultimately show "queue_ok (n_log s') t e \<and> flight_ok s' t e \<and> moves_on X R s' t e"
        using o(1) log(5) [OF no] by (simp add: queue_ok_def log(2))
    qed
    moreover have "entries_ok s'"
      using inv by (auto simp: net_inv_def entries_ok_def s'(1,3,5) lost_final_snoc)
    moreover have "ids_ok s'" using inv by (auto simp: net_inv_def ids_ok_def log(1,3) s'(3,6))
    moreover have "drained_ok (n_log s')"
      unfolding drained_ok_def
    proof (intro allI impI)
      fix t assume "drained_lost t (n_log s')"
      then have d: "sent t (n_log s) = written t (n_log s)" "no_kernel t (n_log s)"
        using inv by (auto simp: net_inv_def drained_ok_def drained_lost_def s'(5))
      then show "sent t (n_log s') = written t (n_log s') \<and> no_kernel t (n_log s')"
        using log(5) [of t] by (simp add: no_kernel_def log)
    qed
    ultimately have "net_inv X R (E \<union> send_target op s) s'" by (simp add: net_inv_def)
  }
  then show ?thesis using s'(5) by (simp add: leads_def)
qed

text \<open>The transport whose send completed: the kernel is done with it.\<close>

lemma send_completed:
  assumes c: "completed op n err s s'" and inv: "net_inv X R E s" and fine: "log_fine (n_log s')"
    and e: "n_transports s tid = Some e" "tid \<notin> E" and op: "n_ops s op = Some (T_send tid)"
  shows "t_send_op e = Some op" "no_kernel tid (n_log s')" "\<And>op'. n_ops s' op' \<noteq> Some (T_send tid)"
    "err = 0 \<Longrightarrow> sent tid (n_log s') @ drop n (wq_bytes (t_wq e)) = written tid (n_log s')"
    "err = 0 \<Longrightarrow> n \<le> length (wq_bytes (t_wq e))"
    "t_queued e = length (wq_bytes (t_wq e))" "\<forall>w\<in>set (t_wq e). wb_rest w \<noteq> []"
proof -
  have s': "n_log s' = n_log s @ [L_done op n err]" "n_ops s' = (n_ops s)(op := None)"
    using c by (simp_all add: completed_def)
  have q: "t_queued e = length (wq_bytes (t_wq e))" "\<forall>w\<in>set (t_wq e). wb_rest w \<noteq> []"
      "sent tid (n_log s) @ wq_bytes (t_wq e) = written tid (n_log s)"
    using invD(4) [OF inv e] by (simp_all add: queue_ok_def)
  have f: "flight_ok s tid e" by (rule invD(5) [OF inv e])
  then show so: "t_send_op e = Some op" using op by (auto simp: flight_ok_def split: option.splits)
  then have k: "in_kernel (n_log s) op = Some (tid, front e)" "prefix (front e) (wq_bytes (t_wq e))"
      "\<And>op' d. in_kernel (n_log s) op' = Some (tid, d) \<Longrightarrow> op' = op"
      "\<And>op'. n_ops s op' = Some (T_send tid) \<Longrightarrow> op' = op"
    using f by (auto simp: flight_ok_def)
  show "no_kernel tid (n_log s')" using k(3) by (auto simp: no_kernel_def s'(1) in_kernel_snoc)
  show "\<And>op'. n_ops s' op' \<noteq> Some (T_send tid)" using k(4) by (auto simp: s'(2))
  show "t_queued e = length (wq_bytes (t_wq e))" "\<forall>w\<in>set (t_wq e). wb_rest w \<noteq> []" by (fact q)+
  assume err: "err = 0"
  have le: "n \<le> length (front e)" using fine err k(1) by (simp add: s'(1) log_fine_snoc)
  from k(2) obtain r where r: "wq_bytes (t_wq e) = front e @ r" by (auto elim: prefixE)
  then show "n \<le> length (wq_bytes (t_wq e))" using le by simp
  have "sent tid (n_log s') = sent tid (n_log s) @ take n (front e)"
    by (simp add: s'(1) sent_snoc k(1) err)
  moreover have "written tid (n_log s') = written tid (n_log s)" by (simp add: s'(1) written_snoc)
  moreover have "take n (front e) @ drop n (wq_bytes (t_wq e)) = wq_bytes (t_wq e)"
    using le by (simp add: r flip: append_assoc)
  ultimately show "sent tid (n_log s') @ drop n (wq_bytes (t_wq e)) = written tid (n_log s')"
    using q(3) by simp
qed

lemma wb_rest_advance: "wb_rest (wb_advance n w) = drop n (wb_rest w)"
  by (cases w) (simp_all add: add.commute)

lemma wb_remaining_rest: "wb_remaining w = length (wb_rest w)"
  by (cases w) simp_all

lemma pop_sent_drops:
  assumes "n \<le> length (wq_bytes ws)" "\<forall>w\<in>set ws. wb_rest w \<noteq> []"
  shows "wq_bytes (snd (pop_sent n ws)) = drop n (wq_bytes ws) \<and> (\<forall>w\<in>set (snd (pop_sent n ws)). wb_rest w \<noteq> [])"
  using assms
proof (induction n ws rule: pop_sent.induct)
  case (2 n w ws)
  show ?case
  proof (cases "n \<noteq> 0 \<and> n \<ge> wb_remaining w")
    case True
    then have "\<not> n = 0" "n \<ge> wb_remaining w" by auto
    note IH = "2.IH" [OF this]
    have "n - wb_remaining w \<le> length (wq_bytes ws)"
      using "2.prems"(1) by (simp add: wq_bytes_def wb_remaining_rest)
    with IH "2.prems"(2) True show ?thesis by (simp add: wq_bytes_def split_beta Let_def wb_remaining_rest)
  next
    case False
    with "2.prems" show ?thesis by (auto simp: wq_bytes_def wb_rest_advance wb_remaining_rest)
  qed
qed (simp add: wq_bytes_def)

lemma grows_same_log: "n_log s1 = n_log s \<Longrightarrow> grows s1 s2 \<Longrightarrow> grows s s2"
  by (simp add: grows_def)

lemma grows_teardown_with: "grows s (teardown_with k tid err s)"
  unfolding teardown_with_def by (rule grows_teardown)

lemma leads_teardown_with:
  assumes "\<And>e. n_transports s tid = Some e \<Longrightarrow> \<not> t_conn_lost e"
  shows "leads (net_inv X R (insert tid E)) s (net_inv X R E) (teardown_with k tid (Some c) s)"
  unfolding teardown_with_def by (rule leads_teardown) (use assms in auto)

definition sent_facts :: "nat set \<Rightarrow> nat \<Rightarrow> op_id \<Rightarrow> nat \<Rightarrow> nat \<Rightarrow> transport \<Rightarrow> 'b net \<Rightarrow> bool" where
  "sent_facts X tid op n err e s \<longleftrightarrow>
     t_send_op e = Some op \<and> no_kernel tid (n_log s) \<and> (\<forall>op'. n_ops s op' \<noteq> Some (T_send tid)) \<and>
     (err = 0 \<longrightarrow> sent tid (n_log s) @ drop n (wq_bytes (t_wq e)) = written tid (n_log s) \<and>
        n \<le> length (wq_bytes (t_wq e))) \<and>
     t_queued e = length (wq_bytes (t_wq e)) \<and> (\<forall>w\<in>set (t_wq e). wb_rest w \<noteq> []) \<and>
     (t_flush_scheduled e \<longrightarrow> tid \<in> set (n_flush_list s) \<union> X)"

lemma leads_sent_facts:
  assumes c: "completed op n err s s'" and op: "n_ops s op = Some (T_send tid)" and tid: "tid \<notin> E"
  shows "leads (net_inv X R E) s
    (\<lambda>s. net_inv X R (insert tid E) s \<and> (\<forall>e. n_transports s tid = Some e \<longrightarrow> sent_facts X tid op n err e s)) s'"
proof -
  have "send_target op s = {tid}" using op by (auto simp: send_target_def)
  then have l: "leads (net_inv X R E) s (net_inv X R (insert tid E)) s'"
    using leads_completed [OF c, of X R E] by simp
  have t: "n_transports s' = n_transports s" "n_flush_list s' = n_flush_list s"
    using c by (simp_all add: completed_def)
  {
    assume fine: "log_fine (n_log s')" and inv: "net_inv X R E s"
    fix e assume e: "n_transports s' tid = Some e"
    then have e0: "n_transports s tid = Some e" by (simp add: t)
    have "sent_facts X tid op n err e s'"
      using send_completed [OF c inv fine e0 tid op] invD(6) [OF inv e0 tid]
      by (simp add: sent_facts_def moves_on_def t)
  }
  with l show ?thesis by (auto simp: leads_def)
qed

lemma on_send_done_cases:
  assumes "n_transports s tid = Some e" "t_send_op e = Some op" "\<not> t_conn_lost e"
  obtains
    c where "err \<noteq> 0"
      "on_send_done k tid op n err s = teardown_with k tid (Some c)
         (t_upd tid (\<lambda>_. e\<lparr>t_send_op := None, t_inflight := 0\<rparr>) s)"
  | s1 e1 where "err = 0" "t_wq e1 = snd (pop_sent n (t_wq e))" "t_queued e1 = t_queued e - min n (t_queued e)"
      "t_send_op e1 = None" "t_inflight e1 = 0" "\<not> t_conn_lost e1"
      "t_proto_paused e1 \<Longrightarrow> t_low e < t_queued e1" "t_flush_scheduled e1 = t_flush_scheduled e"
      "n_transports s1 = (n_transports s)(tid := Some e1)" "n_flush_list s1 = n_flush_list s"
      "n_next_id s1 = n_next_id s" "set (n_events s) \<subseteq> set (n_events s1)" "n_log s1 = n_log s"
      "n_ops s1 = n_ops s"
      "on_send_done k tid op n err s = flush_pending k tid s1 \<and> t_wq e1 \<noteq> [] \<or>
       on_send_done k tid op n err s = maybe_finish_shutdown k tid True s1 \<and> t_wq e1 = [] \<or>
       on_send_done k tid op n err s = s1 \<and> t_wq e1 = [] \<and> resume_pending tid s1"
proof (cases "err = 0")
  case False
  with assms that(1) show thesis by (simp add: on_send_done_def Let_def)
next
  case True
  let ?e = "e\<lparr>t_send_op := None, t_inflight := 0\<rparr>"
  obtain gone rest where p: "pop_sent n (t_wq e) = (gone, rest)" by fastforce
  define e2 where "e2 = ?e\<lparr>t_queued := t_queued e - min n (t_queued e), t_wq := rest\<rparr>"
  define s2 where "s2 = f_upd tid (\<lambda>f. f\<lparr>f_queued := t_queued e2\<rparr>)
    ((t_upd tid (\<lambda>_. ?e) s)\<lparr>n_bytes_tx := n_bytes_tx s + n, n_graveyard_bufs := n_graveyard_bufs s @ gone\<rparr>)"
  define r where "r \<longleftrightarrow> t_proto_paused e2 \<and> t_queued e2 \<le> t_low e2"
  define e3 where "e3 = (if r then e2\<lparr>t_proto_paused := False\<rparr> else e2)"
  define s3 where "s3 = t_upd tid (\<lambda>_. e3) s2"
  define s4 where "s4 = (if r then emit (E_resume_writing tid (p_id (t_proto e3))) s3 else s3)"
  have a: "apply_sent n ?e = (e2, gone)" by (simp add: apply_sent_def p e2_def)
  have res: "on_send_done k tid op n err s =
      (if t_wq e3 \<noteq> [] then flush_pending k tid s4
       else if \<not> r then maybe_finish_shutdown k tid True s4 else s4)"
    unfolding on_send_done_def using assms True
    by (simp add: a Let_def split_def s2_def s3_def s4_def e3_def r_def t_upd_def)
  show thesis
  proof (rule that(2) [OF True, of e3 s4])
    show "n_transports s4 = (n_transports s)(tid := Some e3)"
      by (auto simp: s4_def s3_def s2_def assms(1))
    show "set (n_events s) \<subseteq> set (n_events s4)" by (auto simp: s4_def s3_def s2_def)
    show "on_send_done k tid op n err s = flush_pending k tid s4 \<and> t_wq e3 \<noteq> [] \<or>
       on_send_done k tid op n err s = maybe_finish_shutdown k tid True s4 \<and> t_wq e3 = [] \<or>
       on_send_done k tid op n err s = s4 \<and> t_wq e3 = [] \<and> resume_pending tid s4"
      by (auto simp: res s4_def resume_pending_def)
  qed (use assms in \<open>auto simp: e3_def e2_def r_def p s4_def s3_def s2_def\<close>)
qed

lemma grows_on_send_done_any: "grows s (on_send_done k tid op n err s)"
  by (auto simp: on_send_done_def Let_def split_beta grows_same grows_same_log [OF _ grows_flush]
      grows_same_log [OF _ grows_mfs] grows_same_log [OF _ grows_teardown_with] split: option.split)

lemma leads_on_send_done:
  assumes e: "n_transports s tid = Some e" and facts: "sent_facts X tid op n err e s" and tid: "tid \<notin> E"
    and inv: "net_inv X R (insert tid E) s"
  shows "leads (net_inv X R (insert tid E)) s (net_inv X R E) (on_send_done k tid op n err s)"
proof -
  have lost: "\<not> t_conn_lost e" by (rule invD(1) [OF inv e])
  have f: "t_send_op e = Some op" "no_kernel tid (n_log s)" "\<forall>op'. n_ops s op' \<noteq> Some (T_send tid)"
    "err = 0 \<Longrightarrow> sent tid (n_log s) @ drop n (wq_bytes (t_wq e)) = written tid (n_log s)"
    "err = 0 \<Longrightarrow> n \<le> length (wq_bytes (t_wq e))" "t_queued e = length (wq_bytes (t_wq e))"
    "\<forall>w\<in>set (t_wq e). wb_rest w \<noteq> []" "t_flush_scheduled e \<Longrightarrow> tid \<in> set (n_flush_list s) \<union> X"
    using facts by (auto simp: sent_facts_def)
  show ?thesis
  proof (rule on_send_done_cases [OF e f(1) lost, of err k n])
    fix c assume d: "on_send_done k tid op n err s = teardown_with k tid (Some c)
      (t_upd tid (\<lambda>_. e\<lparr>t_send_op := None, t_inflight := 0\<rparr>) s)"
    let ?s = "t_upd tid (\<lambda>_. e\<lparr>t_send_op := None, t_inflight := 0\<rparr>) s"
    have "leads (net_inv X R (insert tid E)) s (net_inv X R (insert tid E)) ?s"
      by (rule leads_t_upd) (use lost e in auto)
    moreover have "leads (net_inv X R (insert tid E)) ?s (net_inv X R E) (teardown_with k tid (Some c) ?s)"
      by (rule leads_teardown_with) (use lost in auto)
    ultimately show ?thesis unfolding d by (rule leads_trans)
  next
    fix s1 e1
    assume err: "err = 0" and q: "t_wq e1 = snd (pop_sent n (t_wq e))"
      "t_queued e1 = t_queued e - min n (t_queued e)"
      "t_send_op e1 = None" "t_inflight e1 = 0" "\<not> t_conn_lost e1"
      "t_proto_paused e1 \<Longrightarrow> t_low e < t_queued e1" "t_flush_scheduled e1 = t_flush_scheduled e"
    and fr: "n_transports s1 = (n_transports s)(tid := Some e1)" "n_flush_list s1 = n_flush_list s"
      "n_next_id s1 = n_next_id s" "set (n_events s) \<subseteq> set (n_events s1)" "n_log s1 = n_log s"
      "n_ops s1 = n_ops s"
    and res: "on_send_done k tid op n err s = flush_pending k tid s1 \<and> t_wq e1 \<noteq> [] \<or>
       on_send_done k tid op n err s = maybe_finish_shutdown k tid True s1 \<and> t_wq e1 = [] \<or>
       on_send_done k tid op n err s = s1 \<and> t_wq e1 = [] \<and> resume_pending tid s1"
    have wq: "wq_bytes (t_wq e1) = drop n (wq_bytes (t_wq e))" "\<forall>w\<in>set (t_wq e1). wb_rest w \<noteq> []"
      using pop_sent_drops [OF f(5) [OF err] f(7)] by (simp_all add: q(1))
    have one: "one_entry tid e1 s s1" by (rule one_entryI [where ls = "[]"]) (use fr in simp_all)
    have qok: "queue_ok (n_log s1) tid e1"
      using f(4) [OF err] f(5) [OF err] f(6) wq by (simp add: queue_ok_def fr q(2))
    have fok: "flight_ok s tid e1" using f(2,3) q(3,4) by (simp add: flight_ok_def)
    have paused: "t_wq e1 \<noteq> []" if "t_proto_paused e1"
      using q(6) [OF that] f(6) wq(1) q(2) by (cases "t_wq e1") (auto simp: wq_bytes_def)
    note step = leads_one_entry [OF one e q(5) qok fok]
    from res consider (flush) "on_send_done k tid op n err s = flush_pending k tid s1" "t_wq e1 \<noteq> []"
      | (fin) "on_send_done k tid op n err s = maybe_finish_shutdown k tid True s1" "t_wq e1 = []"
      | (res) "on_send_done k tid op n err s = s1" "t_wq e1 = []" "resume_pending tid s1" by blast
    then show ?thesis
    proof cases
      case flush
      have "leads (net_inv X R (insert tid E)) s (net_inv (insert tid X) R E) s1"
        by (rule step) (use flush(2) in \<open>auto simp: moves_on_def\<close>)
      from leads_trans [OF this leads_flush [OF tid]] show ?thesis unfolding flush(1) .
    next
      case fin
      have "leads (net_inv X R (insert tid E)) s (net_inv X (insert tid R) E) s1"
        by (rule step) (use fin(2) paused f(8) in \<open>auto simp: moves_on_def q fr\<close>)
      from leads_trans [OF this leads_mfs'(2) [OF tid]] show ?thesis unfolding fin(1) .
    next
      case res
      show ?thesis unfolding res(1)
        by (rule step) (use res paused f(8) in \<open>auto simp: moves_on_def q fr\<close>)
    qed
  qed
qed

end
