(* ===== verification/Net_Api.thy ===== *)
theory Net_Api
  imports Net_Dispatch
begin

text \<open>
  The methods of the loop object that work on the transport layer's state (\<open>coreloop.rs\<close>):
  readiness watches, connects, listeners, named pipes, and the steps of \<open>close\<close>.  What a socket
  call of the operating system answers is an argument.  A method leaves the cell through
  \<open>drain_graveyards\<close> where the source does.
\<close>

section \<open>Readiness watches\<close>

definition opt_list :: "nat option \<Rightarrow> nat list" where
  "opt_list h = (case h of None \<Rightarrow> [] | Some h \<Rightarrow> [h])"

definition bury_handles :: "nat list \<Rightarrow> 'b net \<Rightarrow> 'b net" where
  "bury_handles hs s = s\<lparr>n_graveyard_handles := n_graveyard_handles s @ hs\<rparr>"

definition add_reader :: "'b sock_ops \<Rightarrow> raw_socket \<Rightarrow> nat \<Rightarrow> 'b net \<Rightarrow> (io_error + unit) \<times> 'b net" where
  "add_reader k fd h s =
     (let displaced = n_readers s fd; s = s\<lparr>n_readers := (n_readers s)(fd := Some h)\<rparr>;
          (res, b) = sk_set_watch k fd True (n_writers s fd \<noteq> None) (n_bk s); s = s\<lparr>n_bk := b\<rparr>
      in case res of
           Inl e \<Rightarrow> (Inl e, bury_handles [h] (s\<lparr>n_readers := (n_readers s)(fd := displaced)\<rparr>))
         | Inr _ \<Rightarrow> (Inr (), drain_graveyards (bury_handles (opt_list displaced) s)))"

definition add_writer :: "'b sock_ops \<Rightarrow> raw_socket \<Rightarrow> nat \<Rightarrow> 'b net \<Rightarrow> (io_error + unit) \<times> 'b net" where
  "add_writer k fd h s =
     (let displaced = n_writers s fd; s = s\<lparr>n_writers := (n_writers s)(fd := Some h)\<rparr>;
          (res, b) = sk_set_watch k fd (n_readers s fd \<noteq> None) True (n_bk s); s = s\<lparr>n_bk := b\<rparr>
      in case res of
           Inl e \<Rightarrow> (Inl e, bury_handles [h] (s\<lparr>n_writers := (n_writers s)(fd := displaced)\<rparr>))
         | Inr _ \<Rightarrow> (Inr (), drain_graveyards (bury_handles (opt_list displaced) s)))"

definition remove_reader :: "'b sock_ops \<Rightarrow> raw_socket \<Rightarrow> 'b net \<Rightarrow> (io_error + bool) \<times> 'b net" where
  "remove_reader k fd s =
     (let removed = n_readers s fd; s = s\<lparr>n_readers := (n_readers s)(fd := None)\<rparr>; w = (n_writers s fd \<noteq> None)
      in if removed = None \<and> \<not> w then (Inr False, drain_graveyards s)
         else
           (let (res, b) = sk_set_watch k fd False w (n_bk s); s = s\<lparr>n_bk := b\<rparr>
            in case res of
                 Inl e \<Rightarrow> (Inl e, s\<lparr>n_readers := (n_readers s)(fd := removed)\<rparr>)
               | Inr _ \<Rightarrow> (Inr (removed \<noteq> None), drain_graveyards (bury_handles (opt_list removed) s))))"

definition remove_writer :: "'b sock_ops \<Rightarrow> raw_socket \<Rightarrow> 'b net \<Rightarrow> (io_error + bool) \<times> 'b net" where
  "remove_writer k fd s =
     (let removed = n_writers s fd; s = s\<lparr>n_writers := (n_writers s)(fd := None)\<rparr>; r = (n_readers s fd \<noteq> None)
      in if removed = None \<and> \<not> r then (Inr False, drain_graveyards s)
         else
           (let (res, b) = sk_set_watch k fd r False (n_bk s); s = s\<lparr>n_bk := b\<rparr>
            in case res of
                 Inl e \<Rightarrow> (Inl e, s\<lparr>n_writers := (n_writers s)(fd := removed)\<rparr>)
               | Inr _ \<Rightarrow> (Inr (removed \<noteq> None), drain_graveyards (bury_handles (opt_list removed) s))))"

text \<open>The tick takes the watches whose descriptors are ready.\<close>

definition take_ready :: "'b net \<Rightarrow> nat list \<times> 'b net" where
  "take_ready s = (n_ready_scratch s, s\<lparr>n_ready_scratch := []\<rparr>)"

text \<open>What the tick moves out of the cell to drop, and what needs \<open>drain_graveyards\<close>.\<close>

definition has_graveyards :: "'b net \<Rightarrow> bool" where
  "has_graveyards s \<longleftrightarrow> n_graveyard_entries s \<noteq> [] \<or> n_graveyard_bufs s \<noteq> []"

definition has_special_graveyards :: "'b net \<Rightarrow> bool" where
  "has_special_graveyards s \<longleftrightarrow> n_graveyard_sockets s \<noteq> [] \<or> n_graveyard_handles s \<noteq> []"

definition drop_graveyards :: "'b net \<Rightarrow> 'b net" where
  "drop_graveyards s = s\<lparr>n_graveyard_entries := [], n_graveyard_bufs := []\<rparr>"

section \<open>Connects\<close>

text \<open>
  \<open>sock\<close> is what creating the socket gave, \<open>bound\<close> what binding it to the local address gave, where
  there is one.
\<close>

definition tcp_connect ::
  "'b sock_ops \<Rightarrow> io_error + raw_socket \<Rightarrow> io_error option \<Rightarrow> u8 list \<Rightarrow> nat \<Rightarrow> 'b net \<Rightarrow>
     (io_error + op_id) \<times> 'b net" where
  "tcp_connect k sock bound sa fut s =
     (case sock of
        Inl e \<Rightarrow> (Inl e, s)
      | Inr sock \<Rightarrow>
          (case bound of
             Some e \<Rightarrow> (Inl e, say (L_close sock) s)
           | None \<Rightarrow>
               (let (res, b) = sk_register k sock (n_bk s); s = s\<lparr>n_bk := b\<rparr>
                in case res of
                     Inl e \<Rightarrow> (Inl e, say (L_close sock) s)
                   | Inr _ \<Rightarrow>
                       (let (res, b) = sk_post_connect k sock sa (n_bk s); s = s\<lparr>n_bk := b\<rparr>
                        in case res of
                             Inr op \<Rightarrow> (Inr op, add_op op (T_connect fut sock) (say (L_post op) s))
                           | Inl e \<Rightarrow> (Inl e, say (L_close sock) (net_detach k sock s))))))"

definition cancel_connect :: "'b sock_ops \<Rightarrow> op_id \<Rightarrow> 'b net \<Rightarrow> 'b net" where
  "cancel_connect k op s = net_cancel k op s"

definition discard_socket :: "'b sock_ops \<Rightarrow> raw_socket \<Rightarrow> 'b net \<Rightarrow> 'b net" where
  "discard_socket k sock s = say (L_close sock) (net_detach k sock s)"

section \<open>Named pipes\<close>

definition ERROR_BROKEN_PIPE :: nat where
  "ERROR_BROKEN_PIPE = 109"

definition pipe_register :: "'b sock_ops \<Rightarrow> nat \<Rightarrow> 'b net \<Rightarrow> (io_error + unit) \<times> 'b net" where
  "pipe_register k h s = (let (res, b) = sk_register_pipe k h (n_bk s) in (res, s\<lparr>n_bk := b\<rparr>))"

text \<open>The result tells whether the future was resolved to the empty bytes at once.\<close>

definition pipe_read :: "'b sock_ops \<Rightarrow> nat \<Rightarrow> nat \<Rightarrow> nat \<Rightarrow> 'b net \<Rightarrow> (io_error + bool) \<times> 'b net" where
  "pipe_read k h n fut s =
     (let (res, b) = sk_post_pipe_read k h n (n_bk s); s = s\<lparr>n_bk := b\<rparr>
      in case res of
           Inr op \<Rightarrow> (Inr False, add_op op (T_pipe_read fut) (say (L_post op) s))
         | Inl e \<Rightarrow> if raw_os_error e = Some ERROR_BROKEN_PIPE then (Inr True, s) else (Inl e, s))"

definition pipe_write :: "'b sock_ops \<Rightarrow> nat \<Rightarrow> u8 list \<Rightarrow> nat \<Rightarrow> 'b net \<Rightarrow> (io_error + unit) \<times> 'b net" where
  "pipe_write k h d fut s =
     (let (res, b) = sk_post_pipe_write k h d (n_bk s); s = s\<lparr>n_bk := b\<rparr>
      in case res of
           Inr op \<Rightarrow> (Inr (), add_op op (T_pipe_write fut) (say (L_post op) s))
         | Inl e \<Rightarrow> (Inl e, s))"

section \<open>Listeners\<close>

record listen_spec =
  ls_backlog :: int
  ls_reuse_addr :: bool
  ls_reuse_port :: bool
  ls_tfo :: bool

datatype listen_step = Set_v6only | Set_reuse_addr | Set_reuse_port | Set_fastopen int | Bind_step | Listen_step int

datatype listen_error = Invalid_address | Socket_failed io_error | Bind_failed io_error | Setup_failed io_error

definition listen_steps :: "bool \<Rightarrow> listen_spec \<Rightarrow> listen_step list" where
  "listen_steps v6 spec =
     (if v6 then [Set_v6only] else []) @ (if ls_reuse_addr spec then [Set_reuse_addr] else []) @
     (if ls_reuse_port spec then [Set_reuse_port] else []) @
     (if ls_tfo spec then [Set_fastopen (ls_backlog spec)] else []) @ [Bind_step, Listen_step (ls_backlog spec)]"

fun run_listen_steps :: "(listen_step \<Rightarrow> io_error option) \<Rightarrow> listen_step list \<Rightarrow> listen_error option" where
  "run_listen_steps os [] = None"
| "run_listen_steps os (st # sts) =
     (case os st of
        None \<Rightarrow> run_listen_steps os sts
      | Some e \<Rightarrow> Some (if st = Bind_step then Bind_failed e else Setup_failed e))"

text \<open>
  \<open>v6\<close>: the family of the parsed address, none where it does not parse; \<open>os\<close>: which setup call
  fails.  The second result is the socket closed on the way.
\<close>

definition bind_listen_socket ::
  "bool option \<Rightarrow> listen_spec \<Rightarrow> io_error + raw_socket \<Rightarrow> (listen_step \<Rightarrow> io_error option) \<Rightarrow>
     (listen_error + raw_socket) \<times> raw_socket option" where
  "bind_listen_socket v6 spec created os =
     (case v6 of
        None \<Rightarrow> (Inl Invalid_address, None)
      | Some v6 \<Rightarrow>
          (case created of
             Inl e \<Rightarrow> (Inl (Socket_failed e), None)
           | Inr sock \<Rightarrow>
               (case run_listen_steps os (listen_steps v6 spec) of
                  Some e \<Rightarrow> (Inl e, Some sock)
                | None \<Rightarrow> (Inr sock, None))))"

definition listen_socket ::
  "'b sock_ops \<Rightarrow> raw_socket \<Rightarrow> nat \<Rightarrow> nat option \<Rightarrow> bool \<Rightarrow> nat \<Rightarrow> 'b net \<Rightarrow> bool \<times> nat \<times> 'b net" where
  "listen_socket k sock pool owner start now_fresh s =
     (let (res, b) = sk_register k sock (n_bk s); s = s\<lparr>n_bk := b\<rparr>
      in case res of
           Inl e \<Rightarrow> (False, 0, drain_graveyards (if owner = None then say (L_close sock) s else s))
         | Inr _ \<Rightarrow>
             (let (lid, s) = listener_create sock pool owner s
              in if \<not> start then (True, lid, drain_graveyards s)
                 else
                   (let (res, s) = listener_start k lid (s\<lparr>n_now := now_fresh\<rparr>)
                    in case res of
                         Inl _ \<Rightarrow> (False, 0, drain_graveyards (listener_remove k lid False s))
                       | Inr _ \<Rightarrow> (True, lid, drain_graveyards s))))"

text \<open>\<open>tcp_listen\<close>: \<open>skip\<close> turns a family without sockets into no listener at all.\<close>

datatype listened = Listening nat | Skipped | Listen_failed listen_error | Start_failed

definition tcp_listen ::
  "'b sock_ops \<Rightarrow> bool option \<Rightarrow> listen_spec \<Rightarrow> io_error + raw_socket \<Rightarrow> (listen_step \<Rightarrow> io_error option) \<Rightarrow>
     bool \<Rightarrow> nat \<Rightarrow> bool \<Rightarrow> nat \<Rightarrow> 'b net \<Rightarrow> listened \<times> 'b net" where
  "tcp_listen k v6 spec created os skip pool start now_fresh s =
     (let (res, closed) = bind_listen_socket v6 spec created os;
          s = (case closed of None \<Rightarrow> s | Some sock \<Rightarrow> say (L_close sock) s)
      in case res of
           Inr sock \<Rightarrow>
             (let (ok, lid, s) = listen_socket k sock pool None start now_fresh s
              in (if ok then Listening lid else Start_failed, s))
         | Inl e \<Rightarrow>
             (case e of
                Socket_failed _ \<Rightarrow> (if skip then Skipped else Listen_failed e, s)
              | _ \<Rightarrow> (Listen_failed e, s)))"

definition transport_for_fd :: "raw_socket \<Rightarrow> 'b net \<Rightarrow> fd_user option" where
  "transport_for_fd fd s =
     (case n_fd_users s fd of
        None \<Rightarrow> None
      | Some (U_stream tid) \<Rightarrow> if n_transports s tid \<noteq> None \<and> n_facades s tid \<noteq> None then Some (U_stream tid) else None
      | Some (U_datagram did) \<Rightarrow> if n_datagrams s did \<noteq> None then Some (U_datagram did) else None)"

section \<open>Closing\<close>

text \<open>\<open>ops\<close> are the operations in the order the table yields them.\<close>

definition cancel_standalone :: "'b sock_ops \<Rightarrow> op_id \<Rightarrow> 'b net \<Rightarrow> 'b net" where
  "cancel_standalone k op s =
     (case n_ops s op of
        Some (T_connect fut sock) \<Rightarrow>
          say (L_close sock) (net_detach k sock ((net_cancel k op s)\<lparr>n_ops := (n_ops s)(op := None)\<rparr>))
      | Some (T_pipe_read fut) \<Rightarrow> net_cancel k op s
      | Some (T_pipe_write fut) \<Rightarrow> net_cancel k op s
      | _ \<Rightarrow> s)"

definition cancel_standalone_ops :: "'b sock_ops \<Rightarrow> op_id list \<Rightarrow> 'b net \<Rightarrow> 'b net" where
  "cancel_standalone_ops k ops s = fold (cancel_standalone k) ops s"

definition unreaped :: "op_id list \<Rightarrow> 'b net \<Rightarrow> bool" where
  "unreaped ops s \<longleftrightarrow>
     (\<exists>op\<in>set ops. n_reap_guards s op \<noteq> None) \<or>
     (\<exists>op\<in>set ops. case n_ops s op of Some (T_pipe_read _) \<Rightarrow> True | Some (T_pipe_write _) \<Rightarrow> True
        | Some (T_accept _) \<Rightarrow> True | _ \<Rightarrow> False)"

definition sweep_unreaped_pipe_ops :: "op_id list \<Rightarrow> 'b net \<Rightarrow> 'b net" where
  "sweep_unreaped_pipe_ops ops s =
     s\<lparr>n_ops := (\<lambda>op. case n_ops s op of
          Some (T_pipe_read f) \<Rightarrow> if op \<in> set ops then None else Some (T_pipe_read f)
        | Some (T_pipe_write f) \<Rightarrow> if op \<in> set ops then None else Some (T_pipe_write f)
        | t \<Rightarrow> t)\<rparr>"

text \<open>\<open>n\<close> rounds fit into the close budget; \<open>ops\<close> are the operations the two tables hold.\<close>

fun reap_rounds :: "'b sock_ops \<Rightarrow> op_id list \<Rightarrow> nat \<Rightarrow> 'b net \<Rightarrow> 'b net" where
  "reap_rounds k ops 0 s = s"
| "reap_rounds k ops (Suc n) s =
     (if \<not> unreaped ops s then s
      else
        (let (res, cs, b) = sk_try_poll k (n_bk s); s = s\<lparr>n_bk := b\<rparr>;
             s = (case res of Inr m \<Rightarrow> if m > 0 then translate k cs s else s | Inl _ \<Rightarrow> s)
         in reap_rounds k ops n s))"

definition reap_at_close :: "'b sock_ops \<Rightarrow> op_id list \<Rightarrow> nat \<Rightarrow> 'b net \<Rightarrow> 'b net" where
  "reap_at_close k ops n s = sweep_unreaped_pipe_ops ops (reap_rounds k ops n s)"

definition drop_watch :: "'b sock_ops \<Rightarrow> raw_socket \<Rightarrow> 'b net \<Rightarrow> 'b net" where
  "drop_watch k fd s = s\<lparr>n_bk := snd (sk_set_watch k fd False False (n_bk s))\<rparr>"

definition close_event_socket :: "'b sock_ops \<Rightarrow> net_event \<Rightarrow> 'b net \<Rightarrow> 'b net" where
  "close_event_socket k ev s =
     (case ev of
        E_accepted lid sock \<Rightarrow> say (L_close sock) s
      | E_connect_done fut sock err \<Rightarrow> say (L_close sock) (net_detach k sock s)
      | _ \<Rightarrow> s)"

end
