(* ===== verification/Aside.thy ===== *)
theory Aside
  imports Stream_Moves Net_Api
begin

text \<open>
  Operations that have no part in any stream of bytes: listeners, datagram endpoints, watches,
  graveyards.
\<close>

named_theorems asides

lemma aside_fields [asides]:
  assumes "aside s s1"
  shows "aside s (s1\<lparr>n_bk := b\<rparr>)" "aside s (s1\<lparr>n_datagrams := ds\<rparr>)" "aside s (s1\<lparr>n_listeners := li\<rparr>)"
    "aside s (s1\<lparr>n_buffers := bp\<rparr>)" "aside s (s1\<lparr>n_reap_guards := g\<rparr>)" "aside s (s1\<lparr>n_fd_users := u\<rparr>)"
    "aside s (s1\<lparr>n_graveyard_entries := ge\<rparr>)" "aside s (s1\<lparr>n_graveyard_bufs := gb\<rparr>)"
    "aside s (s1\<lparr>n_graveyard_handles := gh\<rparr>)" "aside s (s1\<lparr>n_graveyard_sockets := gs\<rparr>)"
    "aside s (s1\<lparr>n_any_starved := a\<rparr>)" "aside s (s1\<lparr>n_accept_starved := n\<rparr>)"
    "aside s (s1\<lparr>n_conns_accepted := n\<rparr>)" "aside s (s1\<lparr>n_bytes_rx := n\<rparr>)" "aside s (s1\<lparr>n_bytes_tx := n\<rparr>)"
    "aside s (s1\<lparr>n_readers := r\<rparr>)" "aside s (s1\<lparr>n_writers := w\<rparr>)" "aside s (s1\<lparr>n_handles := h\<rparr>)"
    "aside s (s1\<lparr>n_ready_scratch := rs\<rparr>)" "aside s (s1\<lparr>n_inline_close := ic\<rparr>)" "aside s (s1\<lparr>n_calls := cs\<rparr>)"
    "aside s (s1\<lparr>n_facades := fs\<rparr>)" "aside s (s1\<lparr>n_now := n\<rparr>)"
    "aside s (s1\<lparr>n_sends_posted := n\<rparr>)"
  using assms by (simp_all add: aside_def)

lemma aside_emit [asides]: "aside s s1 \<Longrightarrow> aside s (emit ev s1)"
  by (auto simp: aside_def)

lemma aside_say [asides]: "aside s s1 \<Longrightarrow> mute l \<Longrightarrow> aside s (say l s1)"
  by (erule aside_trans) (auto intro: asideI [where ls = "[l]"])

lemma aside_same:
  assumes "aside s s1" "n_transports s' = n_transports s1" "n_flush_list s' = n_flush_list s1"
    "n_next_id s' = n_next_id s1" "n_ops s' = n_ops s1" "n_log s' = n_log s1" "n_events s' = n_events s1"
  shows "aside s s'"
  using assms(1) by (rule aside_trans) (use assms in \<open>auto intro: asideI [where ls = "[]"]\<close>)

lemma aside_prims [asides]:
  assumes "aside s s1"
  shows "aside s (l_upd i fl s1)" "aside s (d_upd i fd s1)" "aside s (f_upd i ff s1)"
    "aside s (release_slot k sl s1)" "aside s (release_opt k slot s1)" "aside s (retain_slot sl s1)"
    "aside s (ensure_buffers_registered k s1)" "aside s (forget_fd raw i s1)" "aside s (snd (acquire_slot k c s1))"
    "aside s (starve s1)" "aside s (queue_ready h s1)" "aside s (bury_dgram ow s1)" "aside s (bury_entry e s1)"
  by (rule aside_same [OF assms]; simp add: l_upd_def d_upd_def starve_def queue_ready_def bury_dgram_def split: option.splits)+

lemma aside_cancel [asides]: "aside s s1 \<Longrightarrow> aside s (net_cancel k op s1)"
  by (erule aside_trans) (auto intro: asideI [where ls = "[L_cancel op]"])

lemma aside_detach [asides]: "aside s s1 \<Longrightarrow> aside s (net_detach k raw s1)"
  by (erule aside_trans) (auto intro: asideI [where ls = "[L_detach raw]"])

lemma aside_post [asides]:
  "aside s s1 \<Longrightarrow> \<not> stream_target (Some t) \<Longrightarrow> aside s (add_op op t (say (L_post op) s1))"
  by (erule aside_trans) (auto simp: aside_def)

lemma aside_reap_guard [asides]: "aside s s1 \<Longrightarrow> aside s (reap_guard_of k op s1)"
  by (erule aside_trans) (auto simp: reap_guard_of_def Let_def intro!: asides split: option.splits reap_guard.splits)

lemma aside_unwatch [asides]: "aside s s1 \<Longrightarrow> aside s (unwatch_cancelled k raw r w s1)"
  by (auto simp: unwatch_cancelled_def Let_def intro!: asides split: prod.splits sum.splits)

lemma aside_on_ready [asides]: "aside s s1 \<Longrightarrow> aside s (on_ready k raw r w s1)"
  by (auto simp: on_ready_def Let_def intro!: asides)

lemma aside_drain [asides]: "aside s s1 \<Longrightarrow> aside s (drain_graveyards s1)"
  by (auto simp: drain_graveyards_def intro!: asides)

lemma aside_schedule [asides]: "aside s s1 \<Longrightarrow> aside s (schedule_pending_lost s1)"
  by (auto simp: aside_def schedule_pending_lost_def)

lemma aside_leave [asides]: "aside s s1 \<Longrightarrow> aside s (leave_cell s1)"
  by (auto simp: leave_cell_def intro!: asides)

section \<open>Datagram endpoints\<close>

lemma aside_cancel_dgram:
  assumes "aside s s1" "cancel_dgram_ops k e s1 = (e', s')"
  shows "aside s s'"
  using assms by (auto simp: cancel_dgram_ops_def Let_def intro!: asides split: option.splits)

lemma aside_dgram_core [asides]: "aside s s1 \<Longrightarrow> aside s (snd (dgram_core k did e s1))"
proof -
  assume a: "aside s s1"
  obtain e1 s2 where c: "cancel_dgram_ops k e s1 = (e1, s2)" by fastforce
  with aside_cancel_dgram [OF a c] show ?thesis
    by (auto simp: dgram_core_def Let_def intro!: asides)
qed

lemma aside_dgram_post_recv [asides]: "aside s s1 \<Longrightarrow> aside s (snd (dgram_post_recv k did s1))"
  by (auto simp: dgram_post_recv_def Let_def split_beta intro!: asides split: option.splits sum.splits)

lemma aside_dgram_send_now [asides]: "aside s s1 \<Longrightarrow> aside s (dgram_send_now k did data addr s1)"
  by (auto simp: dgram_send_now_def Let_def split_beta intro!: asides split: option.splits sum.splits)

lemma aside_on_dgram_recv_done [asides]: "aside s s1 \<Longrightarrow> aside s (on_dgram_recv_done k did op n err s1)"
  by (auto simp: on_dgram_recv_done_def Let_def split_beta intro!: asides split: option.splits sum.splits)

lemma aside_udp_teardown [asides]: "aside s s1 \<Longrightarrow> aside s (udp_teardown k did err imm s1)"
  by (auto simp: udp_teardown_def Let_def split_beta intro!: asides split: option.splits)

lemma aside_udp_teardown_at_close [asides]: "aside s s1 \<Longrightarrow> aside s (udp_teardown_at_close k did s1)"
  by (auto simp: udp_teardown_at_close_def Let_def split_beta intro!: asides split: option.splits)

lemma aside_pump: "aside s (dgram_pump_send k did s)"
proof (induction k did s rule: dgram_pump_send.induct)
  case (1 k did s)
  show ?case
  proof (cases "n_datagrams s did")
    case (Some e)
    show ?thesis
    proof (cases "d_send_op e = None")
      case op: True
      show ?thesis
      proof (cases "d_send_queue e")
        case Nil
        then show ?thesis by (auto simp: dgram_pump_send.simps [of k did s] Some op intro!: asides)
      next
        case (Cons q qs)
        obtain data addr where q: "q = (data, addr)" by fastforce
        let ?s = "dgram_send_now k did data addr (d_upd did (take_queued (length data)) s)"
        have "aside ?s (dgram_pump_send k did ?s)" by (rule 1) (use Some op Cons q in auto)
        moreover have "aside s ?s" by (intro asides aside_refl)
        ultimately show ?thesis
          by (simp add: dgram_pump_send.simps [of k did s] Some op Cons q) (rule aside_trans)
      qed
    qed (simp add: dgram_pump_send.simps [of k did s] Some)
  qed (simp add: dgram_pump_send.simps [of k did s])
qed

lemma aside_pump' [asides]: "aside s s1 \<Longrightarrow> aside s (dgram_pump_send k did s1)"
  using aside_pump aside_trans by blast

lemma aside_on_dgram_send_done [asides]: "aside s s1 \<Longrightarrow> aside s (on_dgram_send_done k did err s1)"
  by (auto simp: on_dgram_send_done_def Let_def intro!: asides split: option.splits)

lemma aside_udp_sendto [asides]: "aside s s1 \<Longrightarrow> aside s (snd (udp_sendto k did data addr s1))"
  by (auto simp: udp_sendto_def Let_def intro!: asides split: option.splits)

lemma aside_udp_close [asides]: "aside s s1 \<Longrightarrow> aside s (udp_close k did ab s1)"
  by (auto simp: udp_close_def Let_def intro!: asides split: option.splits)

lemma aside_next_id: "aside s s1 \<Longrightarrow> aside s (s1\<lparr>n_next_id := Suc (n_next_id s1)\<rparr>)"
  by (auto simp: aside_def)

lemma aside_udp_wire [asides]: "aside s s1 \<Longrightarrow> aside s (snd (udp_wire k sock ow s1))"
proof -
  assume a: "aside s s1"
  obtain r b where r: "sk_register k sock (n_bk s1) = (r, b)" by fastforce
  let ?s = "s1\<lparr>n_bk := b, n_next_id := Suc (n_next_id s1), n_fd_users := (n_fd_users s1)(sock := Some (U_datagram (Suc (n_next_id s1)))),
     n_datagrams := (n_datagrams s1)(Suc (n_next_id s1) := Some (datagram_new sock ow))\<rparr>"
  have "aside s ?s" using aside_next_id [OF a] by (intro asides) (simp add: aside_def)
  have r': "snd (udp_wire k sock ow s1) = (case r of Inl e \<Rightarrow> s1\<lparr>n_bk := b\<rparr> | Inr _ \<Rightarrow>
      (let (r', s2) = dgram_post_recv k (Suc (n_next_id s1)) ?s in case r' of Inr _ \<Rightarrow> s2
        | Inl _ \<Rightarrow> (case n_datagrams s2 (Suc (n_next_id s1)) of None \<Rightarrow> s2 | Some d \<Rightarrow>
            snd (dgram_core k (Suc (n_next_id s1)) d
              (s2\<lparr>n_datagrams := (n_datagrams s2)(Suc (n_next_id s1) := None)\<rparr>)))))"
    by (auto simp: udp_wire_def r net_next_id_def Let_def split_beta split: sum.split option.split)
  obtain q s2 where p: "dgram_post_recv k (Suc (n_next_id s1)) ?s = (q, s2)" by fastforce
  have "aside s s2" using aside_dgram_post_recv [OF \<open>aside s ?s\<close>, of k "Suc (n_next_id s1)"] p by simp
  then show ?thesis
    using a unfolding r' p by (auto intro!: asides split: sum.split option.split)
qed

section \<open>Listeners\<close>

lemma aside_listener_create [asides]: "aside s s1 \<Longrightarrow> aside s (snd (listener_create sock tgt ow s1))"
  by (auto simp: listener_create_def net_next_id_def intro!: asides aside_next_id)

lemma aside_post_accepts_inner: "aside s (post_accepts_inner k lid rep s)"
proof (induction k lid rep s rule: post_accepts_inner.induct)
  case (1 k lid rep s)
  show ?case
  proof (cases "n_listeners s lid")
    case (Some l)
    show ?thesis
    proof (cases "l_closing l \<or> length (l_accept_ops l) \<ge> l_target l")
      case True
      then show ?thesis by (auto simp: post_accepts_inner.simps [of k lid rep s] Some intro!: asides)
    next
      case False
      obtain r b where r: "sk_post_accept k (l_socket l) (n_bk s) = (r, b)" by fastforce
      show ?thesis
      proof (cases r)
        case (Inl e)
        with False r show ?thesis
          by (auto simp: post_accepts_inner.simps [of k lid rep s] Some Let_def intro!: asides)
      next
        case (Inr op)
        let ?s = "add_op op (T_accept lid) (say (L_post op)
          (l_upd lid (\<lambda>l. l\<lparr>l_accept_ops := l_accept_ops l @ [op], l_starved := False\<rparr>) (s\<lparr>n_bk := b\<rparr>)))"
        have "aside ?s (post_accepts_inner k lid rep ?s)" by (rule 1) (use Some False r Inr in auto)
        moreover have "aside s ?s" by (intro asides aside_refl) simp
        ultimately show ?thesis
          using False r Inr by (simp add: post_accepts_inner.simps [of k lid rep s] Some Let_def) (rule aside_trans)
      qed
    qed
  qed (simp add: post_accepts_inner.simps [of k lid rep s])
qed

lemma aside_post_accepts [asides]:
  "aside s s1 \<Longrightarrow> aside s (post_accepts_inner k lid rep s1)"
  "aside s s1 \<Longrightarrow> aside s (post_accepts k lid s1)"
  using aside_post_accepts_inner aside_trans unfolding post_accepts_def by blast+

lemma aside_listener_start [asides]: "aside s s1 \<Longrightarrow> aside s (snd (listener_start k lid s1))"
  by (auto simp: listener_start_def Let_def intro!: asides)

lemma aside_fold_cancel: "aside s s1 \<Longrightarrow> aside s (fold (net_cancel k) ops s1)"
  by (induction ops arbitrary: s1) (auto intro: asides)

lemma aside_listener_remove [asides]: "aside s s1 \<Longrightarrow> aside s (listener_remove k lid cl s1)"
  by (auto simp: listener_remove_def Let_def intro!: asides aside_fold_cancel split: option.splits)

lemma aside_listener_teardown [asides]: "aside s s1 \<Longrightarrow> aside s (listener_teardown k lid s1)"
  unfolding listener_teardown_def by (rule asides)

lemma aside_on_accept_done [asides]: "aside s s1 \<Longrightarrow> aside s (on_accept_done k lid op err s1)"
  by (auto simp: on_accept_done_def Let_def intro!: asides split: option.splits prod.splits sum.splits)

lemma aside_retry:
  assumes "aside s s1"
  shows "aside s (retry_listener k lid s1)" "aside s (retry_dgram k did s1)"
  using assms by (auto simp: retry_listener_def retry_dgram_def split_beta Let_def intro!: asides split: sum.splits)

lemma aside_retry_starved [asides]: "aside s s1 \<Longrightarrow> aside s (retry_starved_listeners k lids dids now s1)"
proof -
  assume a: "aside s s1"
  have l: "aside s s1 \<Longrightarrow> aside s (fold (retry_listener k) xs s1)" for xs s1
    by (induction xs arbitrary: s1) (auto intro: aside_retry)
  have d: "aside s s1 \<Longrightarrow> aside s (fold (retry_dgram k) xs s1)" for xs s1
    by (induction xs arbitrary: s1) (auto intro: aside_retry)
  show ?thesis using a by (auto simp: retry_starved_listeners_def Let_def intro!: l d asides)
qed

section \<open>The loop's own methods\<close>

lemma aside_bury_handles [asides]: "aside s s1 \<Longrightarrow> aside s (bury_handles hs s1)"
  unfolding bury_handles_def by (rule asides)

lemma aside_watches [asides]:
  assumes "aside s s1"
  shows "aside s (snd (add_reader k raw h s1))" "aside s (snd (add_writer k raw h s1))"
    "aside s (snd (remove_reader k raw s1))" "aside s (snd (remove_writer k raw s1))"
  by (auto simp: add_reader_def add_writer_def remove_reader_def remove_writer_def Let_def
      intro!: asides assms split: prod.splits sum.splits)

lemma aside_tcp_connect [asides]: "aside s s1 \<Longrightarrow> aside s (snd (tcp_connect k sock bound sa fut s1))"
  by (auto simp: tcp_connect_def Let_def intro!: asides split: prod.splits sum.splits option.splits)

lemma aside_discard_socket [asides]: "aside s s1 \<Longrightarrow> aside s (discard_socket k sock s1)"
  unfolding discard_socket_def by (intro asides) simp_all

lemma aside_pipes [asides]:
  assumes "aside s s1"
  shows "aside s (snd (pipe_register k h s1))" "aside s (snd (pipe_read k h n fut s1))"
    "aside s (snd (pipe_write k h d fut s1))"
  by (auto simp: pipe_register_def pipe_read_def pipe_write_def Let_def intro!: asides assms
      split: prod.splits sum.splits)

lemma aside_listen_socket [asides]: "aside s s1 \<Longrightarrow> aside s (snd (snd (listen_socket k sock pool ow start now s1)))"
proof -
  assume a: "aside s s1"
  obtain res b where r: "sk_register k sock (n_bk s1) = (res, b)" by fastforce
  let ?s = "s1\<lparr>n_bk := b\<rparr>"
  obtain lid s2 where c: "listener_create sock pool ow ?s = (lid, s2)" by fastforce
  have "aside s ?s" using a by (rule asides)
  then have s2: "aside s s2" using aside_listener_create [of s ?s sock pool ow] c by simp
  obtain res' s3 where l: "listener_start k lid (s2\<lparr>n_now := now\<rparr>) = (res', s3)" by fastforce
  have "aside s (s2\<lparr>n_now := now\<rparr>)" using s2 by (rule asides)
  then have s3: "aside s s3" using aside_listener_start [of s "s2\<lparr>n_now := now\<rparr>" k lid] l by simp
  have "aside s (drain_graveyards (if ow = None then say (L_close sock) ?s else ?s))"
    using a by (auto intro!: asides)
  moreover have "aside s (drain_graveyards s2)" "aside s (drain_graveyards s3)"
    "aside s (drain_graveyards (listener_remove k lid False s3))"
    by (intro asides s2 s3)+
  ultimately show ?thesis
    unfolding listen_socket_def r Let_def prod.case c l by (cases res; cases start; cases res') simp_all
qed

lemma aside_tcp_listen [asides]:
  assumes a: "aside s s1"
  shows "aside s (snd (tcp_listen k v6 spec created os skip pool start now s1))"
proof -
  obtain res closed where b: "bind_listen_socket v6 spec created os = (res, closed)" by fastforce
  let ?s = "case closed of None \<Rightarrow> s1 | Some sock \<Rightarrow> say (L_close sock) s1"
  have s: "aside s ?s" using a by (auto intro!: asides split: option.split)
  obtain ok lid s2 where "listen_socket k (projr res) pool None start now ?s = (ok, lid, s2)"
    by (cases "listen_socket k (projr res) pool None start now ?s") auto
  moreover from this have "aside s s2" using aside_listen_socket [OF s, of k "projr res" pool None start now] by simp
  ultimately show ?thesis
    using s by (auto simp: tcp_listen_def b Let_def split: sum.splits listen_error.splits)
qed

end
