(* ===== verification/Stream_Methods.thy ===== *)
theory Stream_Methods
  imports Aside
begin

text \<open>
  The translation of completions and the methods a protocol calls keep \<open>net_inv\<close>.
\<close>

section \<open>Composition\<close>

text \<open>A step that keeps the invariant whatever is under way, of the streams not exempt.\<close>

definition keeps :: "nat set \<Rightarrow> nat set \<Rightarrow> nat set \<Rightarrow> 'b net \<Rightarrow> 'b net \<Rightarrow> bool" where
  "keeps X R E s s' = leads (net_inv X R E) s (net_inv X R E) s'"

lemma keeps_refl [simp]: "keeps X R E s s"
  by (simp add: keeps_def)

lemma keeps_trans: "keeps X R E s s1 \<Longrightarrow> keeps X R E s1 s2 \<Longrightarrow> keeps X R E s s2"
  unfolding keeps_def by (rule leads_trans)

lemma keeps_leads: "leads (net_inv X R E) s J s1 \<Longrightarrow> leads J s1 (net_inv X R E) s2 \<Longrightarrow> keeps X R E s s2"
  unfolding keeps_def by (rule leads_trans)

lemma keeps_aside: "aside s s' \<Longrightarrow> keeps X R E s s'"
  unfolding keeps_def by (rule leads_aside)

lemma keeps_then_aside: "keeps X R E s s1 \<Longrightarrow> aside s1 s2 \<Longrightarrow> keeps X R E s s2"
  using keeps_aside keeps_trans by blast

lemma keeps_grows: "keeps X R E s s' \<Longrightarrow> grows s s'"
  unfolding keeps_def by (rule leads_grows)

lemma keeps_given: "grows s s' \<Longrightarrow> (net_inv X R E s \<Longrightarrow> keeps X R E s s') \<Longrightarrow> keeps X R E s s'"
  unfolding keeps_def by (rule leads_given)

lemma keeps_fold: "(\<And>x s. x \<in> set xs \<Longrightarrow> keeps X R E s (f x s)) \<Longrightarrow> keeps X R E s (fold f xs s)"
proof (induction xs arbitrary: s)
  case (Cons x xs)
  then show ?case using keeps_trans [of X R E s "f x s" "fold f xs (f x s)"] by simp
qed simp

lemma leads_exempt: "leads (net_inv X R E) s (net_inv X R (insert tid E)) s"
  by (rule leads_weaken) (auto elim: net_inv_less)

lemma t_upd_none: "n_transports s tid = None \<Longrightarrow> t_upd tid f s = s"
  by (simp add: t_upd_def) (metis fun_upd_triv net.surjective net.update_convs(2))

lemma keeps_t_upd:
  assumes "\<And>e. n_transports s tid = Some e \<Longrightarrow> same_queue e (f e)"
  shows "keeps X R E s (t_upd tid f s)"
proof (cases "n_transports s tid")
  case (Some e)
  show ?thesis
    unfolding keeps_def
    by (rule leads_same_queue [of tid "f e", OF one_entryI [where ls = "[]"] Some])
      (use assms Some in simp_all)
qed (simp add: t_upd_none)

text \<open>A log entry of a live transport, other than a write.\<close>

lemma keeps_say_own:
  assumes "n_transports s tid = Some e" "own tid l" "posts l = None" "\<forall>t d. l \<noteq> L_write t d"
  shows "keeps X R E s (say l s)"
proof -
  have w: "written tid (n_log (say l s)) = written tid (n_log s)"
    using assms(4) by (cases l) (simp_all add: written_snoc)
  show ?thesis
    unfolding keeps_def
    by (rule leads_same_queue [of tid e, OF one_entryI [where ls = "[l]"] assms(1)])
      (use assms w in \<open>auto simp: fun_upd_idem\<close>)
qed

lemma keeps_teardown_with: "(\<And>e. n_transports s tid = Some e \<Longrightarrow> \<not> t_conn_lost e) \<Longrightarrow>
    keeps X R E s (teardown_with k tid (Some c) s)"
  using keeps_leads [OF leads_exempt leads_teardown_with] by blast

section \<open>Receiving\<close>

lemma keeps_stream_post_recv: "keeps X R E s (stream_post_recv k tid s)"
proof (cases "n_transports s tid")
  case (Some e)
  show ?thesis
  proof (cases "t_recv_op e \<noteq> None \<or> t_reading_paused e \<or> t_closing e \<or> t_conn_lost e")
    case False
    obtain slot s1 where a: "(case t_recv_slot e of
          Some sl \<Rightarrow> (sl, s)
        | None \<Rightarrow> (let (sl, s) = acquire_slot k (t_recv_class e) s; s = ensure_buffers_registered k s
             in (sl, t_upd tid (\<lambda>e. e\<lparr>t_recv_slot := Some sl\<rparr>) s))) = (slot, s1)" by fastforce
    obtain r b where r: "sk_post_recv k (t_socket e) (buf_slot_ptr slot (n_buffers s1))
        (class_size (bclass slot)) (n_bk s1) = (r, b)" by fastforce
    have s1: "s1 = s \<or> (\<exists>sl. s1 = t_upd tid (\<lambda>e. e\<lparr>t_recv_slot := Some sl\<rparr>)
        (ensure_buffers_registered k (snd (acquire_slot k (t_recv_class e) s))))"
      using a by (cases "t_recv_slot e") (auto simp: Let_def split_beta)
    have k1: "keeps X R E s s1"
      using s1
    proof
      assume "\<exists>sl. s1 = t_upd tid (\<lambda>e. e\<lparr>t_recv_slot := Some sl\<rparr>)
        (ensure_buffers_registered k (snd (acquire_slot k (t_recv_class e) s)))"
      then obtain sl where s1: "s1 = t_upd tid (\<lambda>e. e\<lparr>t_recv_slot := Some sl\<rparr>)
        (ensure_buffers_registered k (snd (acquire_slot k (t_recv_class e) s)))" ..
      have "aside s (ensure_buffers_registered k (snd (acquire_slot k (t_recv_class e) s)))"
        by (intro asides aside_refl)
      from keeps_trans [OF keeps_aside [OF this] keeps_t_upd] show ?thesis
        unfolding s1 by (simp add: same_queue_def)
    qed simp
    have e1: "\<exists>e1. n_transports s1 tid = Some e1" using s1 Some by auto
    have res: "stream_post_recv k tid s = (case r of
          Inr op \<Rightarrow> add_op op (T_recv tid slot) (t_upd tid (\<lambda>e. e\<lparr>t_recv_op := Some op\<rparr>)
            (say (L_recv tid op slot) (retain_slot slot (s1\<lparr>n_bk := b\<rparr>))))
        | Inl err \<Rightarrow> emit (E_recv_failed tid (os_error_or 5 err)) (s1\<lparr>n_bk := b\<rparr>))"
      unfolding stream_post_recv_def using Some False a r by (simp add: Let_def split: sum.split)
    show ?thesis
    proof (cases r)
      case (Inl err)
      have "aside s1 (emit (E_recv_failed tid (os_error_or 5 err)) (s1\<lparr>n_bk := b\<rparr>))"
        by (intro asides aside_refl)
      with k1 show ?thesis unfolding res Inl by (simp add: keeps_then_aside)
    next
      case (Inr op)
      obtain e1 where e1: "n_transports s1 tid = Some e1" using e1 by auto
      let ?s = "add_op op (T_recv tid slot) (t_upd tid (\<lambda>e. e\<lparr>t_recv_op := Some op\<rparr>)
            (say (L_recv tid op slot) (retain_slot slot (s1\<lparr>n_bk := b\<rparr>))))"
      have "one_entry tid (e1\<lparr>t_recv_op := Some op\<rparr>) s1 ?s"
        using e1 by (auto simp: one_entry_def)
      then have "keeps X R E s1 ?s"
        unfolding keeps_def
        by (rule leads_same_queue [OF _ e1]) (simp_all add: same_queue_def written_snoc)
      with k1 show ?thesis unfolding res Inr by (simp add: keeps_trans)
    qed
  qed (simp add: stream_post_recv_def Some)
qed (simp add: stream_post_recv_def)

lemma keeps_release: "keeps X R E s s1 \<Longrightarrow> keeps X R E s (release_slot k slot s1)"
  by (erule keeps_then_aside) (intro asides aside_refl)

lemma keeps_size_next_read: "keeps X R E s (size_next_read k tid slot n s)"
proof (cases "n_transports s tid")
  case (Some e)
  let ?f = "\<lambda>e. e\<lparr>t_recv_last_full := n \<ge> class_size (bclass slot),
      t_recv_class := after_read (bclass slot) n (t_recv_last_full e)\<rparr>"
  have 1: "keeps X R E s (t_upd tid (\<lambda>e'. e'\<lparr>t_recv_last_full := n \<ge> class_size (bclass slot),
      t_recv_class := after_read (bclass slot) n (t_recv_last_full e)\<rparr>) s)" (is "keeps X R E s ?s")
    by (rule keeps_t_upd) (simp add: same_queue_def)
  have "keeps X R E ?s (t_upd tid (\<lambda>e. e\<lparr>t_recv_slot := None\<rparr>) ?s)" (is "keeps X R E ?s ?t")
    by (rule keeps_t_upd) (simp add: same_queue_def)
  moreover have "aside ?t (release_slot k slot ?t)" by (intro asides aside_refl)
  ultimately have "keeps X R E s (release_slot k slot ?t)"
    using 1 keeps_trans keeps_then_aside by blast
  with 1 show ?thesis by (simp add: size_next_read_def Some Let_def)
qed (simp add: size_next_read_def)

lemma keeps_on_recv_done: "keeps X R E s (on_recv_done k tid op slot n err s)"
proof (cases "n_transports s tid")
  case (Some e0)
  let ?e = "if t_recv_op e0 = Some op then e0\<lparr>t_recv_op := None\<rparr> else e0"
  let ?s = "t_upd tid (\<lambda>_. ?e) s"
  have 1: "keeps X R E s ?s" by (rule keeps_t_upd) (use Some in \<open>simp add: same_queue_def\<close>)
  show ?thesis
  proof (cases "t_conn_lost ?e \<or> t_closing ?e")
    case True
    then have "on_recv_done k tid op slot n err s = ?s" by (simp add: on_recv_done_def Some Let_def)
    with 1 show ?thesis by simp
  next
    case live: False
    have st: "n_transports ?s tid = Some ?e" using Some by simp
    consider (err) "err \<noteq> 0" | (eof) "err = 0" "n = 0" | (data) "err = 0" "n \<noteq> 0" by blast
    then show ?thesis
    proof cases
      case err
      have "keeps X R E ?s (teardown_with k tid (Some c) ?s)" for c
        by (rule keeps_teardown_with) (use live st in simp)
      from keeps_trans [OF 1 this] err live show ?thesis
        by (simp add: on_recv_done_def Some Let_def)
    next
      case eof
      have "keeps X R E ?s (t_upd tid (\<lambda>e. e\<lparr>t_paused_eof := True\<rparr>) ?s)"
        by (rule keeps_t_upd) (simp add: same_queue_def)
      moreover have "keeps X R E ?s (emit (E_eof tid) ?s)" by (intro keeps_aside asides aside_refl)
      ultimately have "keeps X R E s (on_recv_done k tid op slot n err s)
          \<longleftrightarrow> keeps X R E s (if t_reading_paused ?e then t_upd tid (\<lambda>e. e\<lparr>t_paused_eof := True\<rparr>) ?s
            else emit (E_eof tid) ?s)"
        using eof live by (simp add: on_recv_done_def Some Let_def)
      then show ?thesis
        using keeps_trans [OF 1 \<open>keeps X R E ?s (emit (E_eof tid) ?s)\<close>]
          keeps_trans [OF 1 \<open>keeps X R E ?s (t_upd tid (\<lambda>e. e\<lparr>t_paused_eof := True\<rparr>) ?s)\<close>]
        by (simp split: if_split)
    next
      case data
      let ?a = "?s\<lparr>n_bytes_rx := n_bytes_rx ?s + n\<rparr>"
      define d where "d = sk_memory k (buf_slot_ptr slot (n_buffers ?a)) n (n_bk ?a)"
      define s2 where "s2 = say (L_input tid d) ?a"
      have "keeps X R E ?a s2"
        unfolding s2_def by (rule keeps_say_own [where tid = tid and e = ?e]) (use st in simp_all)
      moreover have "keeps X R E ?s ?a" by (intro keeps_aside asides aside_refl)
      ultimately have 2: "keeps X R E s s2" using 1 keeps_trans by blast
      have r: "on_recv_done k tid op slot n err s =
          (if t_reading_paused ?e
           then release_slot k slot (t_upd tid (\<lambda>e. (hold_bytes d e)\<lparr>t_recv_slot := None\<rparr>) s2)
           else stream_post_recv k tid (size_next_read k tid slot n
              (if p_plain (t_proto ?e) then emit (E_data tid d) s2
               else emit (E_buf_data tid slot n) (t_upd tid (\<lambda>e. e\<lparr>t_recv_slot := None\<rparr>) s2))))"
        using data live by (simp add: on_recv_done_def Some Let_def s2_def d_def)
      show ?thesis
      proof (cases "t_reading_paused ?e")
        case True
        have "keeps X R E s2 (t_upd tid (\<lambda>e. (hold_bytes d e)\<lparr>t_recv_slot := None\<rparr>) s2)"
          by (rule keeps_t_upd) (simp add: same_queue_def hold_bytes_def)
        then have "keeps X R E s (release_slot k slot (t_upd tid (\<lambda>e. (hold_bytes d e)\<lparr>t_recv_slot := None\<rparr>) s2))"
          by (rule keeps_release [OF keeps_trans [OF 2]])
        with True show ?thesis unfolding r by simp
      next
        case False
        define s3 where "s3 = (if p_plain (t_proto ?e) then emit (E_data tid d) s2
               else emit (E_buf_data tid slot n) (t_upd tid (\<lambda>e. e\<lparr>t_recv_slot := None\<rparr>) s2))"
        have "keeps X R E s2 (t_upd tid (\<lambda>e. e\<lparr>t_recv_slot := None\<rparr>) s2)"
          by (rule keeps_t_upd) (simp add: same_queue_def)
        moreover have "aside s2 (emit (E_data tid d) s2)"
          "aside (t_upd tid (\<lambda>e. e\<lparr>t_recv_slot := None\<rparr>) s2)
             (emit (E_buf_data tid slot n) (t_upd tid (\<lambda>e. e\<lparr>t_recv_slot := None\<rparr>) s2))"
          by (intro asides aside_refl)+
        ultimately have "keeps X R E s2 s3"
          unfolding s3_def using keeps_then_aside keeps_aside by (auto split: if_split)
        then have "keeps X R E s s3" using 2 keeps_trans by blast
        then have "keeps X R E s (stream_post_recv k tid (size_next_read k tid slot n s3))"
          by (rule keeps_trans [OF keeps_trans [OF _ keeps_size_next_read] keeps_stream_post_recv])
        with False show ?thesis unfolding r s3_def by simp
      qed
    qed
  qed
qed (simp add: on_recv_done_def)

section \<open>Completions\<close>

lemma keeps_on_io:
  assumes "E = {}"
  shows "keeps X R E s (on_io k op n err s)"
proof -
  define s0 where "s0 = (reap_guard_of k op (say (L_done op n err) s))"
  define s1 where "s1 = s0\<lparr>n_ops := (n_ops s0)(op := None)\<rparr>"
  have fr: "n_transports s0 = n_transports s" "n_flush_list s0 = n_flush_list s" "n_next_id s0 = n_next_id s"
    "n_events s0 = n_events s" "n_log s0 = n_log s @ [L_done op n err]" "n_ops s0 = n_ops s"
    by (simp_all add: s0_def reap_guard_of_def Let_def split: option.split reap_guard.split)
  have c: "completed op n err s s1" by (simp add: completed_def s1_def fr)
  have r: "on_io k op n err s = (case n_ops s op of
           None \<Rightarrow> s1
         | Some (T_recv tid slot) \<Rightarrow> release_slot k slot (on_recv_done k tid op slot n err s1)
         | Some (T_send tid) \<Rightarrow> on_send_done k tid op n err s1
         | Some (T_accept lid) \<Rightarrow> on_accept_done k lid op err s1
         | Some (T_connect fut sock) \<Rightarrow> emit (E_connect_done fut sock err) s1
         | Some (T_dgram_recv did) \<Rightarrow> on_dgram_recv_done k did op n err s1
         | Some (T_dgram_send did) \<Rightarrow> on_dgram_send_done k did err s1
         | Some (T_pipe_read fut) \<Rightarrow> emit (E_pipe_read_done fut n err) s1
         | Some (T_pipe_write fut) \<Rightarrow> emit (E_pipe_write_done fut n err) s1)"
    by (simp add: on_io_def Let_def s1_def fr(6) flip: s0_def split: option.split op_target.split)
  show ?thesis
  proof (cases "\<exists>tid. n_ops s op = Some (T_send tid)")
    case False
    then have "send_target op s = {}" by (auto simp: send_target_def)
    then have k1: "keeps X R E s s1" using leads_completed [OF c, of X R E] by (simp add: keeps_def)
    have a: "aside s1 (on_accept_done k lid op err s1)" "aside s1 (emit ev s1)"
      "aside s1 (on_dgram_recv_done k did op n err s1)" "aside s1 (on_dgram_send_done k did err s1)"
      for lid did ev by (intro asides aside_refl)+
    have b: "keeps X R E s (release_slot k slot (on_recv_done k tid op slot n err s1))" for tid slot
      by (rule keeps_release [OF keeps_trans [OF k1 keeps_on_recv_done]])
    show ?thesis
      unfolding r using False k1 a b
      by (auto intro: keeps_then_aside split: option.split op_target.split)
  next
    case True
    then obtain tid where op: "n_ops s op = Some (T_send tid)" by auto
    have tid: "tid \<notin> E" using assms by simp
    let ?J = "\<lambda>s. net_inv X R (insert tid E) s \<and>
      (\<forall>e. n_transports s tid = Some e \<longrightarrow> sent_facts X tid op n err e s)"
    have "leads ?J s1 (net_inv X R E) (on_send_done k tid op n err s1)"
    proof (cases "n_transports s1 tid")
      case None
      then have "on_send_done k tid op n err s1 = s1" by (simp add: on_send_done_def)
      with None show ?thesis by (auto intro: leads_weaken net_inv_gone)
    next
      case (Some e)
      show ?thesis
      proof (rule leads_given [OF grows_on_send_done_any])
        assume J: "?J s1"
        then have i: "net_inv X R (insert tid E) s1" "sent_facts X tid op n err e s1" using Some by auto
        have "leads ?J s1 (net_inv X R (insert tid E)) s1" by (rule leads_weaken) simp
        from leads_trans [OF this leads_on_send_done [OF Some i(2) tid i(1)]]
        show "leads ?J s1 (net_inv X R E) (on_send_done k tid op n err s1)" .
      qed
    qed
    from keeps_leads [OF leads_sent_facts [OF c op tid] this] show ?thesis
      unfolding r op by simp
  qed
qed

lemma keeps_translate_one: "keeps X R {} s (translate_one k c s)"
proof (cases c)
  case (Ready fd r w)
  have "aside s (on_ready k fd r w s)" by (intro asides aside_refl)
  with Ready show ?thesis by (simp add: keeps_aside)
qed (simp_all add: keeps_on_io)

lemma keeps_translate: "keeps X R {} s (translate k cs s)"
  unfolding translate_def by (rule keeps_fold) (rule keeps_translate_one)

lemma keeps_settle_rounds: "keeps X R {} s (settle_rounds k n s)"
proof (induction n arbitrary: s)
  case (Suc n)
  obtain cs b where t: "sk_take_staged k (n_bk s) = (cs, b)" by fastforce
  have "keeps X R {} s (s\<lparr>n_bk := b\<rparr>)" by (intro keeps_aside asides aside_refl)
  moreover from this have "keeps X R {} s (settle_rounds k n (translate k cs (s\<lparr>n_bk := b\<rparr>)))"
    using keeps_trans keeps_translate Suc by blast
  ultimately show ?case by (simp add: t Let_def)
qed simp

lemma keeps_settle_inline: "keeps X R {} s (settle_inline k s)"
  unfolding settle_inline_def by (rule keeps_settle_rounds)

section \<open>Writing\<close>

lemma keeps_flush: "keeps X R E s (flush_pending k tid s)" if "tid \<notin> E"
proof -
  have "leads (net_inv X R E) s (net_inv (insert tid X) R E) s"
    by (rule leads_weaken) (auto elim: net_inv_less)
  from leads_trans [OF this leads_flush [OF that]] show ?thesis by (simp add: keeps_def)
qed

lemma keeps_mfs: "tid \<notin> E \<Longrightarrow> keeps X R E s (maybe_finish_shutdown k tid d s)"
  unfolding keeps_def by (rule leads_mfs'(1))

lemma queued_wq: "queue_ok log tid e \<Longrightarrow> 0 < t_queued e \<Longrightarrow> t_wq e \<noteq> []"
  by (auto simp: queue_ok_def wq_bytes_def)

lemma keeps_pause_proto:
  assumes "tid \<notin> E" "\<And>e. n_transports s tid = Some e \<Longrightarrow> 0 < t_queued e"
  shows "keeps X R E s (t_upd tid (\<lambda>e. e\<lparr>t_proto_paused := True\<rparr>) s)"
  unfolding keeps_def
proof (rule leads_t_upd)
  fix e assume e: "n_transports s tid = Some e"
    and ok: "tid \<notin> E \<Longrightarrow> queue_ok (n_log s) tid e \<and> flight_ok s tid e \<and> moves_on X R s tid e"
  then have "t_wq e \<noteq> []" using assms queued_wq by blast
  with ok assms(1) show "queue_ok (n_log s) tid (e\<lparr>t_proto_paused := True\<rparr>) \<and>
      flight_ok s tid (e\<lparr>t_proto_paused := True\<rparr>) \<and> moves_on X R s tid (e\<lparr>t_proto_paused := True\<rparr>)"
    by (auto simp: queue_ok_def flight_ok_def front_def moves_on_def split: option.splits)
qed auto

lemma keeps_maybe_pause:
  "keeps X R {} s (snd (maybe_pause k tid s))"
proof (cases "n_transports s tid")
  case (Some e)
  show ?thesis
  proof (cases "t_proto_paused e \<or> t_queued e \<le> t_high e")
    case False
    define s1 where "s1 = (if t_send_op e = None then flush_pending k tid s else s)"
    define s2 where "s2 = settle_inline k s1"
    have 2: "keeps X R {} s s2"
      unfolding s2_def s1_def
      using keeps_trans [OF keeps_flush [of tid "{}" X R s k] keeps_settle_inline [of X R _ k]]
        keeps_settle_inline [of X R s k]
      by (simp split: if_split)
    have r: "snd (maybe_pause k tid s) = (case n_transports s2 tid of None \<Rightarrow> s2
        | Some e \<Rightarrow> if t_proto_paused e \<or> t_queued e \<le> t_high e then s2
            else t_upd tid (\<lambda>e. e\<lparr>t_proto_paused := True\<rparr>) s2)"
      using Some False
      by (simp add: maybe_pause_def Let_def s2_def s1_def split: option.split)
    show ?thesis
    proof (cases "n_transports s2 tid")
      case None
      with 2 show ?thesis unfolding r by simp
    next
      case (Some e2)
      have "keeps X R {} s2 (t_upd tid (\<lambda>e. e\<lparr>t_proto_paused := True\<rparr>) s2)" if "t_high e2 < t_queued e2"
        by (rule keeps_pause_proto) (use Some that in auto)
      with 2 Some show ?thesis unfolding r using keeps_trans by (auto split: if_split)
    qed
  qed (simp add: maybe_pause_def Some)
qed (simp add: maybe_pause_def)

text \<open>The queue after a write: its bytes, and what is in flight where it was.\<close>

lemma wq_bytes_append: "wq_bytes (xs @ ys) = wq_bytes xs @ wq_bytes ys"
  by (simp add: wq_bytes_def)

lemma enqueue_queue:
  assumes "data \<noteq> []" "t_inflight e \<le> length (t_wq e)" "\<forall>w\<in>set (t_wq e). wb_rest w \<noteq> []"
  shows "wq_bytes (t_wq (enqueue_write b data e)) = wq_bytes (t_wq e) @ data"
    "\<forall>w\<in>set (t_wq (enqueue_write b data e)). wb_rest w \<noteq> []"
    "take (t_inflight e) (t_wq (enqueue_write b data e)) = take (t_inflight e) (t_wq e)"
    "t_wq (enqueue_write b data e) \<noteq> []" "length (t_wq e) \<le> length (t_wq (enqueue_write b data e))"
proof -
  let ?wq = "t_wq (enqueue_write b data e)"
  consider (new) w where "?wq = t_wq e @ [w]" "wb_rest w = data"
    | (grown) ws tail off where "t_wq e = ws @ [Owned tail off]" "?wq = ws @ [Owned (tail @ data) off]"
        "t_inflight e < length (t_wq e)"
  proof (cases "coalesce_tail (e\<lparr>t_queued := t_queued e + length data\<rparr>) data = None \<or> b \<and> length data > COALESCE_MAX")
    case True
    then have "?wq = t_wq e @ [Bytes data 0] \<or> ?wq = t_wq e @ [Owned data 0]"
      by (auto simp: enqueue_write_def Let_def)
    then show thesis using new [of "Bytes data 0"] new [of "Owned data 0"] by auto
  next
    case False
    then obtain e' where c: "coalesce_tail (e\<lparr>t_queued := t_queued e + length data\<rparr>) data = Some e'" by auto
    then obtain tail off where l: "last (t_wq e) = Owned tail off" "t_wq e \<noteq> []" "t_inflight e < length (t_wq e)"
        "t_wq e' = butlast (t_wq e) @ [Owned (tail @ data) off]"
      by (auto simp: coalesce_tail_def split: if_splits write_buf.splits)
    have "t_wq e = butlast (t_wq e) @ [Owned tail off]" using l(1,2) append_butlast_last_id by metis
    with l c False show thesis by (intro grown) (auto simp: enqueue_write_def Let_def)
  qed
  then have "wq_bytes ?wq = wq_bytes (t_wq e) @ data \<and> (\<forall>w\<in>set ?wq. wb_rest w \<noteq> []) \<and>
      take (t_inflight e) ?wq = take (t_inflight e) (t_wq e) \<and> ?wq \<noteq> [] \<and> length (t_wq e) \<le> length ?wq"
  proof cases
    case (grown ws tail off)
    then have "off < length tail" using assms(3) by simp
    with grown assms show ?thesis by (auto simp: wq_bytes_def)
  qed (use assms in \<open>auto simp: wq_bytes_def\<close>)
  then show "wq_bytes ?wq = wq_bytes (t_wq e) @ data" "\<forall>w\<in>set ?wq. wb_rest w \<noteq> []"
    "take (t_inflight e) ?wq = take (t_inflight e) (t_wq e)" "?wq \<noteq> []" "length (t_wq e) \<le> length ?wq"
    by simp_all
qed

lemma enqueue_fields [simp]:
  "t_queued (enqueue_write b data e) = t_queued e + length data"
  "t_send_op (enqueue_write b data e) = t_send_op e" "t_inflight (enqueue_write b data e) = t_inflight e"
  "t_conn_lost (enqueue_write b data e) = t_conn_lost e" "t_closing (enqueue_write b data e) = t_closing e"
  "t_eof_wanted (enqueue_write b data e) = t_eof_wanted e" "t_eof_sent (enqueue_write b data e) = t_eof_sent e"
  "t_proto_paused (enqueue_write b data e) = t_proto_paused e"
  "t_flush_scheduled (enqueue_write b data e) = t_flush_scheduled e"
  "t_high (enqueue_write b data e) = t_high e" "t_low (enqueue_write b data e) = t_low e"
  by (auto simp: enqueue_write_def Let_def coalesce_tail_def split: option.splits if_splits write_buf.splits)

lemma leads_enqueue:
  assumes one: "one_entry tid e2 s s'" and e: "n_transports s tid = Some e" and data: "data \<noteq> []"
    and e2: "e2 = (enqueue_write b data e)\<lparr>t_flush_scheduled := fl\<rparr>"
    and log: "n_log s' = n_log s @ [L_write tid data]"
    and go: "t_send_op e \<noteq> None \<or> tid \<in> set (n_flush_list s') \<union> Y \<or> t_flush_scheduled e"
    and fl: "fl \<longrightarrow> t_flush_scheduled e \<or> tid \<in> set (n_flush_list s') \<union> Y" and X: "X \<subseteq> Y"
  shows "leads (net_inv X R {}) s (net_inv Y R {}) s'"
proof (rule leads_given)
  show "grows s s'" by (simp add: grows_def log)
  assume inv: "net_inv X R {} s"
  note o = invD [OF inv e, simplified]
  have f: "t_inflight e \<le> length (t_wq e)" "\<forall>w\<in>set (t_wq e). wb_rest w \<noteq> []"
    using o(4,5) by (auto simp: flight_ok_def queue_ok_def split: option.splits)
  note q = enqueue_queue [OF data f, of b]
  have m: "set (n_flush_list s) \<subseteq> set (n_flush_list s')" using one by (simp add: one_entry_def)
  show "leads (net_inv X R {}) s (net_inv Y R {}) s'"
  proof (rule leads_one_entry [OF one e])
    show "\<not> t_conn_lost e2" using o(1) by (simp add: e2)
    show "queue_ok (n_log s') tid e2"
      using o(4) q(1,2) by (simp add: queue_ok_def e2 log sent_snoc written_snoc flip: append_assoc)
    have "prefix (front e) (wq_bytes (t_wq e)) \<Longrightarrow> prefix (front e) (wq_bytes (t_wq e) @ data)" by simp
    then show "flight_ok s tid e2"
      using o(5) q(1,3,5) by (auto simp: flight_ok_def front_def e2 split: option.splits)
    have "tid \<in> set (n_flush_list s) \<union> X \<Longrightarrow> tid \<in> set (n_flush_list s') \<union> Y" using m X by blast
    then have "t_flush_scheduled e \<longrightarrow> tid \<in> set (n_flush_list s') \<union> Y" using o(6) by (simp add: moves_on_def)
    then show "moves_on Y R s' tid e2"
      using q(4) go fl unfolding moves_on_def e2 by simp blast
  qed (use X in auto)
qed

lemma keeps_write_cork:
  fixes s :: "'b net" and b :: bool
  assumes e: "n_transports s tid = Some e" and data: "data \<noteq> []"
  defines "s1 \<equiv> f_upd tid (\<lambda>f. f\<lparr>f_queued := t_queued (enqueue_write b data e)\<rparr>)
    (say (L_write tid data) (t_upd tid (\<lambda>_. enqueue_write b data e) s))"
  shows "keeps X R {} s (cork k tid (enqueue_write b data e) s1)"
proof -
  let ?e = "enqueue_write b data e"
  have s1: "n_transports s1 = (n_transports s)(tid := Some ?e)" "n_flush_list s1 = n_flush_list s"
    "n_next_id s1 = n_next_id s" "n_events s1 = n_events s" "n_log s1 = n_log s @ [L_write tid data]"
    "n_ops s1 = n_ops s" by (simp_all add: s1_def e)
  have same: "?e = ?e\<lparr>t_flush_scheduled := t_flush_scheduled e\<rparr>"
    by (rule transport.equality) simp_all
  have one: "one_entry tid ?e s s1" by (rule one_entryI [where ls = "[L_write tid data]"]) (simp_all add: s1)
  note step = leads_enqueue [OF one e data same s1(5)]
  consider (busy) "t_send_op e \<noteq> None" | (big) "t_send_op e = None" "t_queued ?e \<ge> CORK_FLUSH_BYTES"
    | (has) "t_send_op e = None" "t_queued ?e < CORK_FLUSH_BYTES" "t_flush_scheduled e"
    | (new) "t_send_op e = None" "t_queued ?e < CORK_FLUSH_BYTES" "\<not> t_flush_scheduled e"
    by (meson not_le)
  then show ?thesis
  proof cases
    case big
    have "leads (net_inv X R {}) s (net_inv (insert tid X) R {}) s1" by (rule step) auto
    then have "keeps X R {} s (flush_pending k tid s1)" by (rule keeps_leads [OF _ leads_flush]) simp
    with big show ?thesis by (simp add: cork_def)
  next
    case new
    let ?s = "(t_upd tid (\<lambda>e. e\<lparr>t_flush_scheduled := True\<rparr>) s1)\<lparr>n_flush_list := n_flush_list s1 @ [tid]\<rparr>"
    have "one_entry tid (?e\<lparr>t_flush_scheduled := True\<rparr>) s ?s"
      by (rule one_entryI [where ls = "[L_write tid data]"]) (auto simp: s1)
    then have "leads (net_inv X R {}) s (net_inv X R {}) ?s"
      by (rule leads_enqueue [OF _ e data refl]) (auto simp: s1)
    with new show ?thesis by (simp add: cork_def keeps_def)
  next
    case busy
    have "leads (net_inv X R {}) s (net_inv X R {}) s1" by (rule step) (use busy in auto)
    with busy show ?thesis by (simp add: cork_def keeps_def)
  next
    case has
    have "leads (net_inv X R {}) s (net_inv X R {}) s1" by (rule step) (use has in auto)
    with has show ?thesis by (simp add: cork_def keeps_def)
  qed
qed

lemma keeps_write_in_cell:
  assumes "data \<noteq> []"
  shows "keeps X R {} s (snd (write_in_cell k tid b data s))"
proof (cases "n_transports s tid")
  case None
  have "aside s (snd (write_in_cell k tid b data s))"
    using None by (auto simp: write_in_cell_def intro!: asides)
  then show ?thesis by (rule keeps_aside)
next
  case (Some e)
  show ?thesis
    using keeps_trans [OF keeps_write_cork [OF Some assms, where b = b and k = k] keeps_maybe_pause]
    by (simp add: write_in_cell_def Some Let_def)
qed

lemma aside_call_pause [asides]: "aside s s1 \<Longrightarrow> aside s (call_pause tid p s1)"
  by (auto simp: call_pause_def intro!: asides split: option.split)

lemma keeps_transport_write: "keeps X R {} s (snd (transport_write k tid b data s))"
proof -
  have a: "aside s1 (call_pause tid p (if c then leave_cell s1 else s1))" for s1 :: "'a net" and c p
    by (auto intro!: asides)
  obtain p s1 where w: "write_in_cell k tid b data s = (p, s1)" by fastforce
  have "keeps X R {} s (call_pause tid p (if c then leave_cell s1 else s1))" if "data \<noteq> []" for c
  proof -
    have "keeps X R {} s s1" using keeps_write_in_cell [OF that, of X R s k tid b] w by simp
    then show ?thesis by (rule keeps_then_aside [OF _ a])
  qed
  then show ?thesis by (auto simp: transport_write_def w Let_def split: option.split)
qed

lemma keeps_write_items: "keeps X R {} s (snd (write_items k tid items s))"
proof (induction k tid items s rule: write_items.induct)
  case (2 k tid b d items s)
  obtain r s1 where w: "transport_write k tid b d s = (r, s1)" by fastforce
  have 1: "keeps X R {} s s1" using keeps_transport_write [of X R s k tid b d] w by simp
  show ?case
  proof (cases r)
    case (Inl e)
    with 1 w show ?thesis by simp
  next
    case (Inr u)
    have "keeps X R {} s1 (snd (write_items k tid items s1))" using 2 w Inr by metis
    with 1 w Inr show ?thesis using keeps_trans by auto
  qed
qed simp

lemma keeps_writelines: "keeps X R {} s (snd (writelines k tid items s))"
  by (simp add: writelines_def keeps_transport_write keeps_write_items)

lemma keeps_set_limits: "keeps X R {} s (snd (set_write_buffer_limits k tid high low s))"
proof -
  have same: "keeps X R {} s (t_upd tid (\<lambda>e. e\<lparr>t_high := h, t_low := l\<rparr>) s)" for h l
    by (rule keeps_t_upd) (simp add: same_queue_def)
  have "keeps X R {} s (snd (maybe_pause k tid (t_upd tid (\<lambda>e. e\<lparr>t_high := h, t_low := l\<rparr>) s)))" for h l
    by (rule keeps_trans [OF same keeps_maybe_pause])
  moreover have "aside s1 (call_pause tid p (leave_cell s1))" for s1 :: "'a net" and p
    by (intro asides aside_refl)
  ultimately have "keeps X R {} s (call_pause tid p (leave_cell (snd
      (maybe_pause k tid (t_upd tid (\<lambda>e. e\<lparr>t_high := h, t_low := l\<rparr>) s)))))" for h l p
    using keeps_then_aside by blast
  moreover have "keeps X R {} s (call_pause tid p (leave_cell s))" for p
    by (intro keeps_aside asides aside_refl)
  ultimately show ?thesis
    by (simp add: set_write_buffer_limits_def Let_def split_beta)
qed

end
