(* ===== verification/Stream_Run.thy ===== *)
theory Stream_Run
  imports Stream_Methods
begin

text \<open>
  Closing, wiring and dispatch keep \<open>net_inv\<close>; then a loop that runs them all: \<open>net_do\<close> is one
  action of the loop or of the application, a run is a fold of it.
\<close>

section \<open>Closing\<close>

lemma leads_eof_wanted:
  "leads (net_inv X R {}) s (net_inv X (insert tid R) {}) (t_upd tid (\<lambda>e. e\<lparr>t_eof_wanted := True\<rparr>) s)"
  by (rule leads_t_upd) (auto simp: queue_ok_def flight_ok_def front_def moves_on_def split: option.splits)

lemma keeps_write_eof: "keeps X R {} s (write_eof k tid s)"
proof -
  let ?m = "maybe_finish_shutdown k tid False (t_upd tid (\<lambda>e. e\<lparr>t_eof_wanted := True\<rparr>) s)"
  have "keeps X R {} s ?m" by (rule keeps_leads [OF leads_eof_wanted leads_mfs'(2)]) simp
  then have "keeps X R {} s (leave_cell (f_upd tid (\<lambda>f. f\<lparr>f_eof := True\<rparr>) ?m))"
    by (rule keeps_then_aside) (intro asides aside_refl)
  moreover have "keeps X R {} s (leave_cell s)" by (intro keeps_aside asides aside_refl)
  ultimately show ?thesis by (auto simp: write_eof_def split: option.split)
qed

lemma keeps_send_corked: "keeps X R {} s (snd (send_corked k tid s))"
  by (auto simp: send_corked_def keeps_flush split: option.split)

lemma keeps_settle_corked: "keeps X R {} s (settle_corked k tid s)"
proof -
  obtain b s1 where c: "send_corked k tid s = (b, s1)" by fastforce
  have 1: "keeps X R {} s s1" using keeps_send_corked [of X R s k tid] c by simp
  have "keeps X R {} s1 (s1\<lparr>n_inline_close := Some tid\<rparr>)" by (intro keeps_aside asides aside_refl)
  then have 2: "keeps X R {} s (settle_inline k (s1\<lparr>n_inline_close := Some tid\<rparr>))"
    by (intro keeps_trans [OF keeps_trans [OF 1] keeps_settle_inline])
  have "aside s2 (s2\<lparr>n_inline_close := None\<rparr>)" for s2 :: "'a net" by (intro asides aside_refl)
  from keeps_then_aside [OF 2 this] 1 show ?thesis by (simp add: settle_corked_def c)
qed

lemma leads_closing:
  "leads (net_inv X R {}) s (net_inv X (insert tid R) {})
     (t_upd tid (\<lambda>e. e\<lparr>t_closing := True, t_recv_op := None\<rparr>) s)"
  by (rule leads_t_upd) (auto simp: queue_ok_def flight_ok_def front_def moves_on_def split: option.splits)

lemma keeps_close: "keeps X R {} s (transport_close k tid s)"
proof -
  have "keeps X R {} s (close_in_cell k tid s)"
  proof (cases "n_transports s tid")
    case (Some e)
    let ?s = "t_upd tid (\<lambda>e. e\<lparr>t_closing := True, t_recv_op := None\<rparr>) s"
    let ?c = "case t_recv_op e of None \<Rightarrow> f_upd tid (\<lambda>f. f\<lparr>f_closing := True\<rparr>) ?s
      | Some op \<Rightarrow> net_cancel k op (f_upd tid (\<lambda>f. f\<lparr>f_closing := True\<rparr>) ?s)"
    have "aside ?s ?c" by (cases "t_recv_op e") (auto intro!: asides)
    then have "keeps X (insert tid R) {} ?s (settle_corked k tid ?c)"
      by (rule keeps_trans [OF keeps_aside keeps_settle_corked])
    then have "leads (net_inv X R {}) s (net_inv X (insert tid R) {}) (settle_corked k tid ?c)"
      unfolding keeps_def by (rule leads_trans [OF leads_closing])
    then have "keeps X R {} s (maybe_finish_shutdown k tid False (settle_corked k tid ?c))"
      by (rule keeps_leads [OF _ leads_mfs'(2)]) simp
    then show ?thesis by (auto simp: close_in_cell_def Some Let_def)
  qed (simp add: close_in_cell_def)
  then show ?thesis unfolding transport_close_def by (rule keeps_then_aside) (intro asides aside_refl)
qed

lemma leads_abort:
  "leads (net_inv X R E) s (\<lambda>s. net_inv X R E s \<and> L_abort tid \<in> set (n_log s)) (say (L_abort tid) s)"
proof -
  let ?s = "say (L_abort tid) s"
  have log: "in_kernel (n_log ?s) = in_kernel (n_log s)" "sent t (n_log ?s) = sent t (n_log s)"
    "written t (n_log ?s) = written t (n_log s)" "posted_ids (n_log ?s) = posted_ids (n_log s)"
    "drained_lost t (n_log ?s) \<Longrightarrow> drained_lost t (n_log s)" for t
    by (auto simp: log_snoc drained_lost_def)
  {
    assume inv: "net_inv X R E s"
    have "streams_ok X R E ?s"
      unfolding streams_ok_def
    proof (intro allI impI)
      fix t e assume "n_transports ?s t = Some e" "t \<notin> E"
      then have "queue_ok (n_log s) t e \<and> flight_ok s t e \<and> moves_on X R s t e"
        using invD [OF inv] by simp
      then show "queue_ok (n_log ?s) t e \<and> flight_ok ?s t e \<and> moves_on X R ?s t e"
        using flight_ok_cong [of ?s s t e, OF log(1)] by (simp add: queue_ok_def log_snoc moves_on_def resume_pending_def)
    qed
    moreover have "entries_ok ?s" using inv by (simp add: net_inv_def entries_ok_def lost_final_snoc)
    moreover have "ids_ok ?s" using inv unfolding net_inv_def ids_ok_def log by simp
    moreover have "drained_ok (n_log ?s)"
      using inv log(5) unfolding net_inv_def drained_ok_def no_kernel_def log(1-3) by blast
    ultimately have "net_inv X R E ?s" by (simp add: net_inv_def)
  }
  then show ?thesis by (simp add: leads_def)
qed

lemma keeps_force_close: "keeps X R {} s (force_close k tid exc s)"
proof -
  let ?J = "\<lambda>s. net_inv X R {} s \<and> L_abort tid \<in> set (n_log s)"
  define s1 where "s1 = snd (send_corked k tid (say (L_abort tid) s))"
  define err where "err = (case exc of None \<Rightarrow> Clean | Some x \<Rightarrow> Exc x)"
  have "leads ?J (say (L_abort tid) s) ?J s1"
    using keeps_send_corked [of X R "say (L_abort tid) s" k tid] by (auto simp: keeps_def leads_def s1_def)
  from leads_trans [OF leads_abort this] have 1: "leads (net_inv X R {}) s ?J s1" .
  have 2: "leads ?J s1 (net_inv X R {}) (teardown_lost k tid err False s1)"
  proof (rule leads_given [OF grows_teardown])
    assume J: "?J s1"
    have "leads ?J s1 (net_inv X R (insert tid {})) s1"
      by (rule leads_weaken) (auto elim: net_inv_less)
    moreover have "leads (net_inv X R (insert tid {})) s1 (net_inv X R {}) (teardown_lost k tid err False s1)"
      by (rule leads_teardown) (use J invD(1) [of X R "{}" s1] in auto)
    ultimately show "leads ?J s1 (net_inv X R {}) (teardown_lost k tid err False s1)" by (rule leads_trans)
  qed
  have a: "aside (teardown_lost k tid err False s1) (force_close k tid exc s)"
    unfolding force_close_def s1_def err_def by (intro asides aside_refl)
  show ?thesis by (rule keeps_then_aside [OF keeps_leads [OF 1 2] a])
qed

text \<open>An entry that goes without a word: the loop is closing.\<close>

lemma leads_drop:
  "leads (net_inv X R E) s (net_inv X R E) (s\<lparr>n_transports := (n_transports s)(tid := None)\<rparr>)"
proof -
  let ?s = "s\<lparr>n_transports := (n_transports s)(tid := None)\<rparr>"
  {
    assume inv: "net_inv X R E s"
    have "streams_ok X R E ?s"
      unfolding streams_ok_def
    proof (intro allI impI)
      fix t e assume "n_transports ?s t = Some e" "t \<notin> E"
      then have "queue_ok (n_log s) t e \<and> flight_ok s t e \<and> moves_on X R s t e"
        using invD [OF inv] by (simp split: if_splits)
      then show "queue_ok (n_log ?s) t e \<and> flight_ok ?s t e \<and> moves_on X R ?s t e"
        using flight_ok_cong [of ?s s t e] by (simp add: moves_on_def resume_pending_def)
    qed
    moreover have "entries_ok ?s" using inv by (simp add: net_inv_def entries_ok_def)
    ultimately have "net_inv X R E ?s" using inv by (simp add: net_inv_def ids_ok_def)
  }
  then show ?thesis by (simp add: leads_def)
qed

lemma keeps_teardown_at_close: "keeps X R E s (teardown_at_close k tid s)"
proof (cases "n_transports s tid")
  case (Some e)
  let ?s = "s\<lparr>n_transports := (n_transports s)(tid := None)\<rparr>"
  obtain e1 s1 where c: "teardown_core k tid e ?s = (e1, s1)" by fastforce
  from teardown_core_shape [OF c] obtain ls where "n_log s1 = n_log ?s @ ls" "list_all mute ls"
    "n_transports s1 = n_transports ?s" "n_flush_list s1 = n_flush_list ?s" "n_next_id s1 = n_next_id ?s"
    "n_ops s1 = n_ops ?s" "n_events s1 = n_events ?s" by metis
  then have "aside ?s s1" by (intro asideI [where ls = ls]) simp_all
  then have "aside ?s (bury_entry e1 s1)" by (intro asides)
  from keeps_then_aside [OF _ this] show ?thesis
    by (simp add: teardown_at_close_def Some c Let_def keeps_def leads_drop)
qed (simp add: teardown_at_close_def)

section \<open>Reading, protocols, new transports\<close>

lemma keeps_pause_reading: "keeps X R E s (pause_reading tid s)"
  unfolding pause_reading_def by (rule keeps_t_upd) (simp add: same_queue_def)

lemma keeps_flush_paused_recv: "keeps X R E s (snd (flush_paused_recv tid s))"
proof (cases "n_transports s tid")
  case (Some e)
  let ?s = "t_upd tid (\<lambda>e. e\<lparr>t_paused_recv := None, t_paused_eof := False\<rparr>) s"
  have 1: "keeps X R E s ?s" by (rule keeps_t_upd) (simp add: same_queue_def)
  have "aside ?s (snd (flush_paused_recv tid s))"
    by (auto simp: flush_paused_recv_def Some Let_def intro!: asides split: option.split)
  with 1 show ?thesis by (rule keeps_then_aside)
qed (simp add: flush_paused_recv_def)

lemma keeps_resume_reading: "keeps X R E s (resume_reading k tid s)"
proof -
  have "keeps X R E s (resume_in_cell k tid s)"
  proof (cases "n_transports s tid")
    case (Some e)
    have 1: "keeps X R E s (t_upd tid (\<lambda>e. e\<lparr>t_reading_paused := False\<rparr>) s)"
      by (rule keeps_t_upd) (simp add: same_queue_def)
    obtain eof s2 where f: "flush_paused_recv tid (t_upd tid (\<lambda>e. e\<lparr>t_reading_paused := False\<rparr>) s) = (eof, s2)"
      by fastforce
    have 2: "keeps X R E s s2"
      using keeps_trans [OF 1 keeps_flush_paused_recv [of X R E _ tid]] f by (metis snd_conv)
    then show ?thesis
      using keeps_trans [OF 2 keeps_stream_post_recv [of X R E s2 k tid]]
      by (auto simp: resume_in_cell_def Some f)
  qed (simp add: resume_in_cell_def)
  then show ?thesis unfolding resume_reading_def by (rule keeps_then_aside) (intro asides aside_refl)
qed

lemma keeps_set_protocol: "keeps X R E s (set_protocol tid refs s)"
proof -
  have "keeps X R E s (t_upd tid (\<lambda>e. e\<lparr>t_proto := refs, t_proto_paused := False\<rparr>) s)"
    by (rule keeps_t_upd) (simp add: same_queue_def)
  then show ?thesis unfolding set_protocol_def by (rule keeps_then_aside) (intro asides aside_refl)
qed

lemma leads_new_entry:
  assumes "t_wq e = []" "t_queued e = 0" "t_send_op e = None" "t_inflight e = 0" "\<not> t_conn_lost e"
    "\<not> t_closing e" "\<not> t_eof_wanted e" "\<not> t_flush_scheduled e" "\<not> t_proto_paused e"
  shows "leads (net_inv X R E) s (net_inv X R E)
    (s\<lparr>n_next_id := Suc (n_next_id s), n_transports := (n_transports s)(Suc (n_next_id s) := Some e)\<rparr>)"
    (is "leads _ s _ ?s")
proof -
  let ?i = "Suc (n_next_id s)"
  {
    assume inv: "net_inv X R E s"
    have un: "unheard t (n_log s)" if "n_next_id s < t" for t
      using inv that by (simp add: net_inv_def entries_ok_def)
    have ids: "n_ops s op \<noteq> Some (T_send ?i)" for op
      using inv idsD(3) [of s op ?i] by (auto simp: net_inv_def)
    have "streams_ok X R E ?s"
      unfolding streams_ok_def
    proof (intro allI impI)
      fix t e' assume a: "n_transports ?s t = Some e'" "t \<notin> E"
      show "queue_ok (n_log ?s) t e' \<and> flight_ok ?s t e' \<and> moves_on X R ?s t e'"
      proof (cases "t = ?i")
        case True
        with a have "e' = e" by simp
        then show ?thesis
          using assms unheard_empty [OF un [of ?i]] unheard_in_kernel [OF un [of ?i]] ids True
          by (simp add: queue_ok_def wq_bytes_def flight_ok_def no_kernel_def moves_on_def)
      next
        case False
        then have "queue_ok (n_log s) t e' \<and> flight_ok s t e' \<and> moves_on X R s t e'"
          using invD [OF inv] a by simp
        then show ?thesis
          using flight_ok_cong [of ?s s t e'] by (simp add: moves_on_def resume_pending_def)
      qed
    qed
    moreover have "entries_ok ?s"
      using inv un [of ?i] assms(5) unheard_empty [of ?i "n_log s"]
      by (auto simp: net_inv_def entries_ok_def) (meson le_SucI)
    moreover have "ids_ok ?s" using inv by (auto simp: net_inv_def ids_ok_def) (meson le_SucI)
    ultimately have "net_inv X R E ?s" using inv by (simp add: net_inv_def)
  }
  then show ?thesis by (simp add: leads_def)
qed

lemma keeps_wire_begin: "keeps X R E s (snd (wire_begin k sock proto ow server high low s))"
proof -
  obtain r b where r: "sk_register k sock (n_bk s) = (r, b)" by fastforce
  let ?b = "s\<lparr>n_bk := b\<rparr>"
  have a: "aside s ?b" by (intro asides aside_refl)
  show ?thesis
  proof (cases r)
    case (Inl e)
    have "aside s (if ow = None then say (L_close sock) ?b else ?b)" using a by (auto intro: asides)
    then show ?thesis by (simp add: wire_begin_def r Inl Let_def keeps_aside)
  next
    case (Inr u)
    let ?e = "transport_new sock proto ow server high low"
    let ?n = "?b\<lparr>n_next_id := Suc (n_next_id ?b), n_transports := (n_transports ?b)(Suc (n_next_id ?b) := Some ?e)\<rparr>"
    have "leads (net_inv X R E) ?b (net_inv X R E) ?n"
      by (rule leads_new_entry) (simp_all add: transport_new_def)
    then have k: "keeps X R E s ?n" using keeps_leads leads_aside [OF a] by blast
    have "aside ?n (snd (wire_begin k sock proto ow server high low s))"
      by (rule asideI [where ls = "[]"]) (simp_all add: wire_begin_def r Inr net_next_id_def)
    with k show ?thesis by (rule keeps_then_aside)
  qed
qed

lemma keeps_wire_end: "keeps X R E s (wire_end k tid s)"
  unfolding wire_end_def
  by (rule keeps_then_aside [OF keeps_stream_post_recv [of X R E s k tid]]) (intro asides aside_refl)

end
