(* ===== verification/Net_World.thy ===== *)
theory Net_World
  imports Stream_Run
begin

text \<open>
  The transport layer under a loop and an application: the events a tick took
  (\<open>coreloop.rs\<close>: \<open>tick\<close>, \<open>requeue_events\<close>; \<open>net.rs\<close>: \<open>dispatch_events\<close>), the protocol call under way,
  and every method the application may call at any moment.  \<open>net_do\<close> is one action; a run folds it.
\<close>

record 'b world =
  w_net :: "'b net"
  w_batch :: "net_event list"
  w_call :: "py_call option"

definition world_new :: "'b \<Rightarrow> nat hstore \<Rightarrow> 'b world" where
  "world_new b hs = \<lparr>w_net = net_new b hs, w_batch = [], w_call = None\<rparr>"

text \<open>
  \<open>A_poll\<close>: the backend has polled, its completions are translated; \<open>A_retry\<close>: what ran dry;
  \<open>A_flush\<close>: corked writes; \<open>A_take\<close>, \<open>A_requeue\<close>: a tick takes its events, or hands back those it
  did not dispatch; \<open>A_dispatch\<close>: the next event, up to the protocol call it makes; \<open>A_return\<close>: that
  call returns; \<open>A_take_ready\<close>, \<open>A_drain\<close>: the tick takes ready watches, empties graveyards; \<open>A_env\<close>:
  handles and backend as the rest of the program leaves them.  The others are calls of the application.
\<close>

datatype 'b action =
    A_poll nat 'b "completion list"
  | A_retry "nat list" "nat list" nat
  | A_flush
  | A_take
  | A_requeue
  | A_dispatch "nat \<Rightarrow> bool"
  | A_return py_reply
  | A_write nat bool "u8 list"
  | A_writelines nat "(bool \<times> u8 list) list"
  | A_write_eof nat
  | A_limits nat "int option" "int option"
  | A_pause nat
  | A_resume nat
  | A_close nat
  | A_abort nat "nat option"
  | A_protocol nat proto_refs
  | A_wire raw_socket proto_refs "nat option" "nat option" nat nat
  | A_wired nat
  | A_udp_open raw_socket "nat option"
  | A_sendto nat "u8 list" "u8 list option"
  | A_udp_close nat bool
  | A_listen raw_socket nat "nat option" bool nat
  | A_tcp_listen "bool option" listen_spec "io_error + raw_socket" "listen_step \<Rightarrow> io_error option" bool nat bool nat
  | A_accept nat nat
  | A_unlisten nat bool
  | A_shut_stream nat
  | A_shut_dgram nat
  | A_add_reader raw_socket nat
  | A_remove_reader raw_socket
  | A_add_writer raw_socket nat
  | A_remove_writer raw_socket
  | A_connect "io_error + raw_socket" "io_error option" "u8 list" nat
  | A_cancel_connect op_id
  | A_discard raw_socket
  | A_pipe_register nat
  | A_pipe_read nat nat nat
  | A_pipe_write nat "u8 list" nat
  | A_take_ready
  | A_drain
  | A_drop
  | A_env "nat hstore" 'b

definition take_events :: "'b world \<Rightarrow> 'b world" where
  "take_events w =
     (if w_batch w = [] \<and> w_call w = None
      then w\<lparr>w_batch := n_events (w_net w), w_net := (w_net w)\<lparr>n_events := []\<rparr>\<rparr> else w)"

definition requeue_events :: "'b world \<Rightarrow> 'b world" where
  "requeue_events w =
     (if w_call w = None
      then w\<lparr>w_batch := [], w_net := (w_net w)\<lparr>n_events := w_batch w @ n_events (w_net w)\<rparr>\<rparr> else w)"

definition dispatch_next :: "'b sock_ops \<Rightarrow> (nat \<Rightarrow> bool) \<Rightarrow> 'b world \<Rightarrow> 'b world" where
  "dispatch_next k gone w =
     (case w_batch w of
        [] \<Rightarrow> w
      | ev # evs \<Rightarrow>
          if w_call w \<noteq> None then w
          else (let (c, s) = dispatch_begin k gone ev (w_net w)
                in w\<lparr>w_batch := evs, w_call := c, w_net := s\<rparr>))"

definition call_returns :: "'b sock_ops \<Rightarrow> py_reply \<Rightarrow> 'b world \<Rightarrow> 'b world" where
  "call_returns k r w =
     (case w_call w of None \<Rightarrow> w | Some c \<Rightarrow> w\<lparr>w_call := None, w_net := dispatch_end k c r (w_net w)\<rparr>)"

definition on_net :: "('b net \<Rightarrow> 'b net) \<Rightarrow> 'b world \<Rightarrow> 'b world" where
  "on_net f w = w\<lparr>w_net := f (w_net w)\<rparr>"

fun net_do :: "'b sock_ops \<Rightarrow> 'b action \<Rightarrow> 'b world \<Rightarrow> 'b world" where
  "net_do k (A_poll now b cs) w = on_net (\<lambda>s. translate k cs (s\<lparr>n_bk := b, n_now := now\<rparr>)) w"
| "net_do k (A_retry lids dids now) w = on_net (retry_starved_listeners k lids dids now) w"
| "net_do k A_flush w = on_net (flush_all k) w"
| "net_do k A_take w = take_events w"
| "net_do k A_requeue w = requeue_events w"
| "net_do k (A_dispatch gone) w = dispatch_next k gone w"
| "net_do k (A_return r) w = call_returns k r w"
| "net_do k (A_write tid b d) w = on_net (\<lambda>s. snd (transport_write k tid b d s)) w"
| "net_do k (A_writelines tid items) w = on_net (\<lambda>s. snd (writelines k tid items s)) w"
| "net_do k (A_write_eof tid) w = on_net (write_eof k tid) w"
| "net_do k (A_limits tid high low) w = on_net (\<lambda>s. snd (set_write_buffer_limits k tid high low s)) w"
| "net_do k (A_pause tid) w = on_net (pause_reading tid) w"
| "net_do k (A_resume tid) w = on_net (resume_reading k tid) w"
| "net_do k (A_close tid) w = on_net (transport_close k tid) w"
| "net_do k (A_abort tid exc) w = on_net (force_close k tid exc) w"
| "net_do k (A_protocol tid p) w = on_net (set_protocol tid p) w"
| "net_do k (A_wire sock p ow server high low) w = on_net (\<lambda>s. snd (wire_begin k sock p ow server high low s)) w"
| "net_do k (A_wired tid) w = on_net (wire_end k tid) w"
| "net_do k (A_udp_open sock ow) w = on_net (\<lambda>s. snd (udp_wire k sock ow s)) w"
| "net_do k (A_sendto did d addr) w = on_net (\<lambda>s. snd (udp_sendto k did d addr s)) w"
| "net_do k (A_udp_close did ab) w = on_net (\<lambda>s. leave_cell (udp_close k did ab s)) w"
| "net_do k (A_listen sock pool ow start now) w =
     on_net (\<lambda>s. snd (snd (listen_socket k sock pool ow start now s))) w"
| "net_do k (A_tcp_listen v6 spec created os skip pool start now) w =
     on_net (\<lambda>s. snd (tcp_listen k v6 spec created os skip pool start now s)) w"
| "net_do k (A_accept lid now) w = on_net (\<lambda>s. snd (listener_start k lid (s\<lparr>n_now := now\<rparr>))) w"
| "net_do k (A_unlisten lid cl) w = on_net (\<lambda>s. drain_graveyards (listener_remove k lid cl s)) w"
| "net_do k (A_shut_stream tid) w = on_net (teardown_at_close k tid) w"
| "net_do k (A_shut_dgram did) w = on_net (udp_teardown_at_close k did) w"
| "net_do k (A_add_reader fd h) w = on_net (\<lambda>s. snd (add_reader k fd h s)) w"
| "net_do k (A_remove_reader fd) w = on_net (\<lambda>s. snd (remove_reader k fd s)) w"
| "net_do k (A_add_writer fd h) w = on_net (\<lambda>s. snd (add_writer k fd h s)) w"
| "net_do k (A_remove_writer fd) w = on_net (\<lambda>s. snd (remove_writer k fd s)) w"
| "net_do k (A_connect sock bound sa fut) w = on_net (\<lambda>s. snd (tcp_connect k sock bound sa fut s)) w"
| "net_do k (A_cancel_connect op) w = on_net (cancel_connect k op) w"
| "net_do k (A_discard sock) w = on_net (discard_socket k sock) w"
| "net_do k (A_pipe_register h) w = on_net (\<lambda>s. snd (pipe_register k h s)) w"
| "net_do k (A_pipe_read h n fut) w = on_net (\<lambda>s. snd (pipe_read k h n fut s)) w"
| "net_do k (A_pipe_write h d fut) w = on_net (\<lambda>s. snd (pipe_write k h d fut s)) w"
| "net_do k A_take_ready w = on_net (\<lambda>s. snd (take_ready s)) w"
| "net_do k A_drain w = on_net drain_graveyards w"
| "net_do k A_drop w = on_net drop_graveyards w"
| "net_do k (A_env hs b) w = on_net (\<lambda>s. s\<lparr>n_handles := hs, n_bk := b\<rparr>) w"

definition net_run :: "'b sock_ops \<Rightarrow> 'b action list \<Rightarrow> 'b world \<Rightarrow> 'b world" where
  "net_run k acts w = fold (net_do k) acts w"

section \<open>The invariant of a run\<close>

text \<open>The transports that a resumption taken by the tick will look at.\<close>

definition resuming :: "'b world \<Rightarrow> nat set" where
  "resuming w = {tid. (\<exists>pid. E_resume_writing tid pid \<in> set (w_batch w)) \<or> w_call w = Some (C_resume tid)}"

definition world_inv :: "'b world \<Rightarrow> bool" where
  "world_inv w \<longleftrightarrow> net_inv {} (resuming w) {} (w_net w)"

lemma leads_flush_list:
  "leads (net_inv (X \<union> set tids) R {}) s (net_inv X R {}) (fold (flush_pending k) tids s)"
proof (induction tids arbitrary: s)
  case (Cons t ts)
  have "leads (net_inv (X \<union> set (t # ts)) R {}) s (net_inv (X \<union> set ts) R {}) (flush_pending k t s)"
    using leads_flush [of t "{}" "X \<union> set ts" R s k] by simp
  from leads_trans [OF this Cons.IH] show ?case by simp
qed simp

lemma keeps_flush_all: "keeps X R {} s (flush_all k s)"
proof -
  let ?s = "s\<lparr>n_flush_list := []\<rparr>"
  have "net_inv X R {} s \<Longrightarrow> net_inv (X \<union> set (n_flush_list s)) R {} ?s"
    unfolding net_inv_def streams_ok_def
    using flight_ok_cong [of ?s s] by (fastforce simp: entries_ok_def ids_ok_def moves_on_def resume_pending_def)
  then have "leads (net_inv X R {}) s (net_inv (X \<union> set (n_flush_list s)) R {}) ?s" by (simp add: leads_def)
  from keeps_leads [OF this leads_flush_list] show ?thesis by (simp add: flush_all_def)
qed

lemma leads_finish_after_resume:
  "leads (net_inv X (insert tid R) {}) s (net_inv X R {}) (finish_after_resume k tid s)"
proof -
  have stay: "leads (net_inv X (insert tid R) {}) s (net_inv X R {}) s"
    if "\<And>e. n_transports s tid = Some e \<Longrightarrow> t_wq e \<noteq> [] \<or> t_send_op e \<noteq> None"
  proof (rule leads_weaken, erule net_inv_relax)
    fix t e assume "n_transports s t = Some e" "flight_ok s t e" "moves_on X (insert tid R) s t e"
    then show "moves_on X R s t e"
      using that [of e] flight_wq [of s t e] by (cases "t = tid") (auto simp: moves_on_def)
  qed
  show ?thesis
  proof (cases "n_transports s tid")
    case None
    with stay show ?thesis by (simp add: finish_after_resume_def)
  next
    case (Some e)
    then show ?thesis using stay leads_mfs'(2) [of tid "{}" X R s k True]
      by (auto simp: finish_after_resume_def split: if_split)
  qed
qed

lemma leads_resume_drain:
  "leads (net_inv X (insert tid R) {}) s (net_inv X R {}) (drain_graveyards (finish_after_resume k tid s))"
proof -
  have "aside (finish_after_resume k tid s) (drain_graveyards (finish_after_resume k tid s))"
    by (intro asides aside_refl)
  from leads_trans [OF leads_finish_after_resume leads_aside [OF this]] show ?thesis .
qed

lemma keeps_begin_data: "keeps X R E s (snd (begin_data k tid data slot s))"
proof (cases "n_transports s tid")
  case None
  have "aside s (snd (begin_data k tid data slot s))"
    by (auto simp: begin_data_def route_inbound_def None intro!: asides)
  then show ?thesis by (rule keeps_aside)
next
  case (Some e)
  have h: "keeps X R E s (t_upd tid (hold_bytes data) s)"
    by (rule keeps_t_upd) (simp add: same_queue_def hold_bytes_def)
  have "aside (t_upd tid (hold_bytes data) s) (release_opt k slot (t_upd tid (hold_bytes data) s))"
    by (intro asides aside_refl)
  from keeps_then_aside [OF h this] have 1: "keeps X R E s (release_opt k slot (t_upd tid (hold_bytes data) s))" .
  have 2: "keeps X R E s (say (L_deliver tid data) s)"
    by (rule keeps_say_own [where tid = tid and e = e]) (use Some in simp_all)
  have 3: "keeps X R E s (release_opt k slot s)" by (intro keeps_aside asides aside_refl)
  from 1 2 3 show ?thesis by (simp add: begin_data_def route_inbound_def Some)
qed

lemma keeps_route_eof: "keeps X R E s (snd (route_eof tid s))"
proof (cases "n_transports s tid")
  case (Some e)
  have "keeps X R E s (t_upd tid (\<lambda>e. e\<lparr>t_paused_eof := True\<rparr>) s)"
    by (rule keeps_t_upd) (simp add: same_queue_def)
  then show ?thesis by (simp add: route_eof_def Some)
qed (simp add: route_eof_def)

lemma keeps_teardown_drain:
  assumes "err \<noteq> Clean"
  shows "keeps X R E s (drain_graveyards (teardown_lost k tid err imm s))"
proof -
  have "leads (net_inv X R E) s (net_inv X R E) (teardown_lost k tid err imm s)"
  proof (rule leads_given [OF grows_teardown])
    assume inv: "net_inv X R E s"
    show "leads (net_inv X R E) s (net_inv X R E) (teardown_lost k tid err imm s)"
      by (rule leads_trans [OF leads_exempt leads_teardown]) (use assms invD(1) [OF inv] in auto)
  qed
  then have "keeps X R E s (teardown_lost k tid err imm s)" by (simp add: keeps_def)
  then show ?thesis by (rule keeps_then_aside) (intro asides aside_refl)
qed

text \<open>An event and the call it makes; \<open>R\<close> are the resumptions still to come after it.\<close>

definition event_resumes :: "net_event \<Rightarrow> nat set" where
  "event_resumes ev = (case ev of E_resume_writing tid pid \<Rightarrow> {tid} | _ \<Rightarrow> {})"

definition call_resumes :: "py_call option \<Rightarrow> nat set" where
  "call_resumes c = (case c of Some (C_resume tid) \<Rightarrow> {tid} | _ \<Rightarrow> {})"

lemma leads_dispatch_begin:
  "leads (net_inv X (event_resumes ev \<union> R) {}) s
     (net_inv X (call_resumes (fst (dispatch_begin k gone ev s)) \<union> R) {}) (snd (dispatch_begin k gone ev s))"
proof -
  have keep: ?thesis if "event_resumes ev = {}" "call_resumes (fst (dispatch_begin k gone ev s)) = {}"
    "keeps X R {} s (snd (dispatch_begin k gone ev s))"
    using that by (simp add: keeps_def)
  have data: "call_resumes (fst (begin_data k tid d slot s)) = {}" for tid d slot
    by (auto simp: begin_data_def call_resumes_def split: prod.split inbound.split)
  show ?thesis
  proof (cases ev)
    case (E_resume_writing tid pid)
    have a: "keeps X (insert tid R) {} s (say (L_resume tid pid) s)" by (intro keeps_aside asides aside_refl) simp
    from a show ?thesis
      by (simp add: leads_resume_drain E_resume_writing event_resumes_def call_resumes_def keeps_def)
  next
    case (E_data tid d)
    show ?thesis by (rule keep) (simp_all add: E_data event_resumes_def data keeps_begin_data)
  next
    case (E_held_data tid d)
    show ?thesis by (rule keep) (simp_all add: E_held_data event_resumes_def data keeps_begin_data)
  next
    case (E_buf_data tid slot n)
    show ?thesis by (rule keep) (simp_all add: E_buf_data event_resumes_def data keeps_begin_data)
  next
    case (E_recv_failed tid c)
    show ?thesis
      by (rule keep) (simp_all add: E_recv_failed event_resumes_def call_resumes_def teardown_with_def keeps_teardown_drain)
  next
    case (E_eof tid)
    obtain c s' where r: "route_eof tid s = (c, s')" by fastforce
    show ?thesis
      by (rule keep) (use keeps_route_eof [of X R "{}" s tid] in
        \<open>simp_all add: E_eof event_resumes_def call_resumes_def r\<close>)
  next
    case (E_conn_lost tid pid c imm ca server)
    show ?thesis
      by (rule keep) (auto simp: E_conn_lost event_resumes_def call_resumes_def intro!: keeps_aside asides)
  next
    case (E_connect_done fut sock c)
    show ?thesis
      by (rule keep) (auto simp: E_connect_done event_resumes_def call_resumes_def intro!: keeps_aside asides)
  next
    case (E_accepted lid sock)
    show ?thesis
      by (rule keep) (auto simp: E_accepted event_resumes_def call_resumes_def intro!: keeps_aside asides)
  next
    case (E_dgram_lost did c imm ca)
    show ?thesis
      by (rule keep) (auto simp: E_dgram_lost event_resumes_def call_resumes_def intro!: keeps_aside asides)
  qed (auto intro!: keep simp: event_resumes_def call_resumes_def)
qed

lemma leads_dispatch_end:
  "leads (net_inv X (call_resumes (Some c) \<union> R) {}) s (net_inv X R {}) (dispatch_end k c r s)"
proof -
  have keep: ?thesis if "call_resumes (Some c) = {}" "keeps X R {} s (dispatch_end k c r s)"
    using that by (simp add: keeps_def)
  have f: "keeps X R {} s (fatal_protocol_error k tid x s)" for tid x
    unfolding fatal_protocol_error_def by (rule keeps_teardown_drain) simp
  have rel: "aside s1 (release_opt k slot s1)" for s1 :: "'a net" and slot by (intro asides aside_refl)
  show ?thesis
  proof (cases c)
    case (C_resume tid)
    show ?thesis
      by (simp add: C_resume call_resumes_def leads_resume_drain)
  next
    case (C_data tid slot)
    show ?thesis
      by (rule keep) (cases r; simp add: C_data call_resumes_def keeps_aside [OF rel] keeps_then_aside [OF f rel])+
  next
    case (C_eof tid)
    show ?thesis by (rule keep) (cases r; simp add: C_eof call_resumes_def keeps_close f)+
  next
    case (C_accept lid sock)
    show ?thesis
      by (rule keep) (cases r; auto simp: C_accept call_resumes_def intro!: keeps_aside asides)+
  next
    case C_other
    show ?thesis by (rule keep) (simp_all add: C_other call_resumes_def)
  qed
qed

lemma resuming_eq: "resuming w = (\<Union>ev\<in>set (w_batch w). event_resumes ev) \<union> call_resumes (w_call w)"
  by (auto simp: resuming_def event_resumes_def call_resumes_def split: net_event.splits option.splits py_call.splits)

text \<open>Every action keeps the invariant, as long as the backend keeps its promises.\<close>

definition steps :: "'b world \<Rightarrow> 'b world \<Rightarrow> bool" where
  "steps w w' \<longleftrightarrow>
     grows (w_net w) (w_net w') \<and> (log_fine (n_log (w_net w')) \<longrightarrow> world_inv w \<longrightarrow> world_inv w')"

lemma steps_refl: "steps w w"
  by (simp add: steps_def)

lemma steps_on_net:
  assumes "keeps {} (resuming w) {} (w_net w) (f (w_net w))"
  shows "steps w (on_net f w)"
proof -
  have "resuming (on_net f w) = resuming w" by (simp add: resuming_def on_net_def)
  with assms show ?thesis
    by (auto simp: steps_def world_inv_def on_net_def keeps_def leads_def grows_def)
qed

lemma steps_leads:
  assumes "leads (net_inv {} (resuming w) {}) (w_net w) (net_inv {} (resuming w') {}) (w_net w')"
  shows "steps w w'"
  using assms by (auto simp: steps_def world_inv_def leads_def grows_def)

lemma steps_take: "steps w (take_events w)"
proof (cases "w_batch w = [] \<and> w_call w = None")
  case True
  let ?s = "w_net w" and ?w = "take_events w"
  have fr: "n_transports (w_net ?w) = n_transports ?s" "n_log (w_net ?w) = n_log ?s" "n_ops (w_net ?w) = n_ops ?s"
    "n_flush_list (w_net ?w) = n_flush_list ?s" "n_next_id (w_net ?w) = n_next_id ?s"
    using True by (simp_all add: take_events_def)
  have "resuming w = {}" using True by (simp add: resuming_def)
  moreover have r: "resume_pending t ?s \<Longrightarrow> t \<in> resuming ?w" for t
    using True by (auto simp: take_events_def resuming_def resume_pending_def)
  have "net_inv {} (resuming ?w) {} (w_net ?w)" if "net_inv {} {} {} ?s"
    using that flight_ok_cong [of "w_net ?w" ?s, OF _ fr(3)] r
    unfolding net_inv_def streams_ok_def entries_ok_def ids_ok_def fr moves_on_def by simp
  ultimately show ?thesis by (intro steps_leads) (simp add: leads_def fr)
qed (auto simp: take_events_def steps_refl)

lemma steps_requeue: "steps w (requeue_events w)"
proof (cases "w_call w = None")
  case True
  let ?s = "w_net w" and ?w = "requeue_events w"
  have fr: "n_transports (w_net ?w) = n_transports ?s" "n_log (w_net ?w) = n_log ?s" "n_ops (w_net ?w) = n_ops ?s"
    "n_flush_list (w_net ?w) = n_flush_list ?s" "n_next_id (w_net ?w) = n_next_id ?s"
    using True by (simp_all add: requeue_events_def)
  have r: "resume_pending t ?s \<or> t \<in> resuming w \<Longrightarrow> resume_pending t (w_net ?w)" for t
    using True by (auto simp: requeue_events_def resuming_def resume_pending_def)
  have "net_inv {} (resuming ?w) {} (w_net ?w)" if "net_inv {} (resuming w) {} ?s"
    using that flight_ok_cong [of "w_net ?w" ?s, OF _ fr(3)] r
    unfolding net_inv_def streams_ok_def entries_ok_def ids_ok_def fr moves_on_def by simp
  then show ?thesis by (intro steps_leads) (simp add: leads_def fr)
qed (auto simp: requeue_events_def steps_refl)

lemma steps_dispatch: "steps w (dispatch_next k gone w)"
proof (cases "w_batch w = [] \<or> w_call w \<noteq> None")
  case False
  then obtain ev evs where b: "w_batch w = ev # evs" and c: "w_call w = None" by (cases "w_batch w") auto
  obtain c' s' where d: "dispatch_begin k gone ev (w_net w) = (c', s')" by fastforce
  let ?R = "\<Union>ev\<in>set evs. event_resumes ev"
  have "resuming w = event_resumes ev \<union> ?R" by (simp add: resuming_eq b c call_resumes_def)
  moreover have "resuming (dispatch_next k gone w) = call_resumes c' \<union> ?R"
    by (simp add: resuming_eq dispatch_next_def b c d Un_commute)
  moreover have "w_net (dispatch_next k gone w) = s'" by (simp add: dispatch_next_def b c d)
  ultimately show ?thesis
    using leads_dispatch_begin [of "{}" ev ?R "w_net w" k gone] by (intro steps_leads) (simp add: d)
qed (auto simp: dispatch_next_def steps_refl split: list.split)

lemma steps_return: "steps w (call_returns k r w)"
proof (cases "w_call w")
  case (Some c)
  let ?R = "\<Union>ev\<in>set (w_batch w). event_resumes ev"
  have "resuming w = call_resumes (Some c) \<union> ?R" by (simp add: resuming_eq Some Un_commute)
  moreover have "resuming (call_returns k r w) = ?R"
    by (simp add: resuming_eq call_returns_def Some call_resumes_def)
  moreover have "w_net (call_returns k r w) = dispatch_end k c r (w_net w)" by (simp add: call_returns_def Some)
  ultimately show ?thesis
    using leads_dispatch_end [of "{}" c ?R "w_net w" k r] by (intro steps_leads) simp
qed (simp add: call_returns_def steps_refl)

lemma keeps_poll: "keeps X R {} s (translate k cs (s\<lparr>n_bk := b, n_now := now\<rparr>))"
proof -
  have "aside s (s\<lparr>n_bk := b, n_now := now\<rparr>)" by (intro asides aside_refl)
  from keeps_trans [OF keeps_aside [OF this] keeps_translate] show ?thesis .
qed

text \<open>The actions that have no part in a stream.\<close>

lemma steps_aside: "(\<And>s. aside s (f s)) \<Longrightarrow> steps w (on_net f w)"
  by (intro steps_on_net keeps_aside)

lemma steps_do: "steps w (net_do k a w)"
proof (cases a)
  case (A_udp_close did ab)
  show ?thesis unfolding A_udp_close net_do.simps by (intro steps_aside asides aside_refl)
next
  case (A_unlisten lid cl)
  show ?thesis unfolding A_unlisten net_do.simps by (intro steps_aside asides aside_refl)
next
  case (A_retry lids dids now)
  show ?thesis unfolding A_retry net_do.simps by (intro steps_aside asides aside_refl)
next
  case (A_udp_open sock ow)
  show ?thesis unfolding A_udp_open net_do.simps by (intro steps_aside asides aside_refl)
next
  case (A_sendto did d addr)
  show ?thesis unfolding A_sendto net_do.simps by (intro steps_aside asides aside_refl)
next
  case (A_listen sock pool ow start now)
  show ?thesis unfolding A_listen net_do.simps by (intro steps_aside asides aside_refl)
next
  case (A_tcp_listen v6 spec created os skip pool start now)
  show ?thesis unfolding A_tcp_listen net_do.simps by (intro steps_aside asides aside_refl)
next
  case (A_accept lid now)
  show ?thesis unfolding A_accept net_do.simps by (intro steps_aside asides aside_refl)
next
  case (A_shut_dgram did)
  show ?thesis unfolding A_shut_dgram net_do.simps by (intro steps_aside asides aside_refl)
next
  case (A_add_reader fd h)
  show ?thesis unfolding A_add_reader net_do.simps by (intro steps_aside asides aside_refl)
next
  case (A_remove_reader fd)
  show ?thesis unfolding A_remove_reader net_do.simps by (intro steps_aside asides aside_refl)
next
  case (A_add_writer fd h)
  show ?thesis unfolding A_add_writer net_do.simps by (intro steps_aside asides aside_refl)
next
  case (A_remove_writer fd)
  show ?thesis unfolding A_remove_writer net_do.simps by (intro steps_aside asides aside_refl)
next
  case (A_connect sock bound sa fut)
  show ?thesis unfolding A_connect net_do.simps by (intro steps_aside asides aside_refl)
next
  case (A_cancel_connect op)
  show ?thesis unfolding A_cancel_connect net_do.simps cancel_connect_def by (intro steps_aside asides aside_refl)
next
  case (A_discard sock)
  show ?thesis unfolding A_discard net_do.simps by (intro steps_aside asides aside_refl)
next
  case (A_pipe_register h)
  show ?thesis unfolding A_pipe_register net_do.simps by (intro steps_aside asides aside_refl)
next
  case (A_pipe_read h n fut)
  show ?thesis unfolding A_pipe_read net_do.simps by (intro steps_aside asides aside_refl)
next
  case (A_pipe_write h d fut)
  show ?thesis unfolding A_pipe_write net_do.simps by (intro steps_aside asides aside_refl)
next
  case A_take_ready
  show ?thesis unfolding A_take_ready net_do.simps take_ready_def snd_conv by (intro steps_aside asides aside_refl)
next
  case A_drain
  show ?thesis unfolding A_drain net_do.simps by (intro steps_aside asides aside_refl)
next
  case A_drop
  show ?thesis unfolding A_drop net_do.simps drop_graveyards_def by (intro steps_aside asides aside_refl)
next
  case (A_env hs b)
  show ?thesis unfolding A_env net_do.simps by (intro steps_aside asides aside_refl)
qed (simp_all add: steps_on_net steps_take steps_requeue steps_dispatch steps_return keeps_poll keeps_flush_all
  keeps_transport_write keeps_writelines keeps_write_eof keeps_set_limits keeps_pause_reading keeps_resume_reading
  keeps_close keeps_force_close keeps_set_protocol keeps_wire_begin keeps_wire_end keeps_teardown_at_close)

lemma log_fine_grows: "grows s s' \<Longrightarrow> log_fine (n_log s') \<Longrightarrow> log_fine (n_log s)"
  by (auto simp: grows_def log_fine_def intro: along_prefix)

lemma net_run_snoc: "net_run k (acts @ [a]) w = net_do k a (net_run k acts w)"
  by (simp add: net_run_def)

lemma world_new_inv: "world_inv (world_new b hs)"
  by (simp add: world_inv_def world_new_def net_new_def net_inv_def streams_ok_def entries_ok_def ids_ok_def
      drained_ok_def drained_lost_def unheard_def lost_final_def)

lemma run_inv:
  "log_fine (n_log (w_net (net_run k acts (world_new b hs)))) \<Longrightarrow> world_inv (net_run k acts (world_new b hs))"
proof (induction acts rule: rev_induct)
  case Nil
  show ?case by (simp add: net_run_def world_new_inv)
next
  case (snoc a acts)
  let ?w = "net_run k acts (world_new b hs)"
  have s: "steps ?w (net_do k a ?w)" by (rule steps_do)
  then have "log_fine (n_log (w_net ?w))"
    using snoc.prems log_fine_grows unfolding net_run_snoc steps_def by blast
  from snoc.IH [OF this] s snoc.prems show ?case unfolding net_run_snoc steps_def by blast
qed

end
