(* ===== verification/Net_Theorems.thy ===== *)
theory Net_Theorems
  imports Net_World
begin

text \<open>
  What holds of every run of the transport layer, whatever the application calls and in whatever
  order the kernel completes, as long as the backend keeps its promises (\<open>log_fine\<close>); with runs on
  a concrete backend that hands out operation ids in order and completes nothing by itself.
\<close>

section \<open>A backend to run on\<close>

definition demo_op :: "nat \<Rightarrow> op_id" where
  "demo_op n = \<lparr>op_index = n, op_gen = 0\<rparr>"

definition demo_post :: "nat \<Rightarrow> (io_error + op_id) \<times> nat" where
  "demo_post b = (Inr (demo_op b), b + 1)"

definition demo_ops :: "nat sock_ops" where
  "demo_ops = \<lparr>sk_target = On_linux, sk_platform = Linux,
     sk_post_send = (\<lambda>_ _. demo_post), sk_post_recv = (\<lambda>_ _ _. demo_post),
     sk_post_recv_from = (\<lambda>_ _ _. demo_post), sk_post_send_to = (\<lambda>_ _ _. demo_post),
     sk_post_accept = (\<lambda>_. demo_post), sk_take_accept = (\<lambda>_ b. (Inr 9, b)),
     sk_take_addr = (\<lambda>_ b. (None, b)), sk_cancel = (\<lambda>_ b. b), sk_detach = (\<lambda>_ b. b),
     sk_register = (\<lambda>_ b. (Inr (), b)), sk_set_watch = (\<lambda>_ _ _ b. (Inr (), b)),
     sk_take_staged = (\<lambda>b. ([], b)), sk_memory = (\<lambda>_ n b. replicate n (of_nat b)),
     sk_region = (\<lambda>_ _. \<lparr>rptr = 4096, rio_buffer_id = None, large_pages = False, fresh_held = False\<rparr>),
     sk_paged = (\<lambda>_ _. False), sk_cookie = (\<lambda>_ _. None), sk_post_connect = (\<lambda>_ _. demo_post),
     sk_register_pipe = (\<lambda>_ b. (Inr (), b)), sk_post_pipe_read = (\<lambda>_ _. demo_post),
     sk_post_pipe_write = (\<lambda>_ _. demo_post), sk_try_poll = (\<lambda>b. (Inr 0, [], b)),
     sk_release_poller = (\<lambda>b. b)\<rparr>"

definition demo_proto :: proto_refs where
  "demo_proto = \<lparr>p_id = 7, p_plain = True, p_buffered = False\<rparr>"

definition demo_handles :: "nat hstore" where
  "demo_handles = \<lparr>cancelled = (\<lambda>_. False), scheduled = (\<lambda>_. False), refs_held = (\<lambda>_. True),
     cancel_counter = 0\<rparr>"

definition demo_run :: "nat action list \<Rightarrow> nat world" where
  "demo_run acts = net_run demo_ops acts (world_new 0 demo_handles)"

lemma settle_idle:
  assumes "sk_take_staged k (n_bk s) = ([], n_bk s)"
  shows "settle_inline k s = s"
proof -
  have "settle_rounds k (Suc n) s = s" for n using assms by (simp add: Let_def)
  then show ?thesis unfolding settle_inline_def by (metis numeral_eq_Suc)
qed

lemmas demo_defs = demo_run_def demo_op_def demo_post_def demo_ops_def demo_proto_def demo_handles_def
lemmas run_steps = net_run_def on_net_def world_new_def net_new_def wire_begin_def net_next_id_def
  transport_new_def facade_new_def Let_def net_prims
lemmas run_writes = transport_write_def write_in_cell_def enqueue_write_def coalesce_tail_def
  COALESCE_MAX_def CORK_FLUSH_BYTES_def cork_def maybe_pause_def settle_idle call_pause_def
  flush_all_def flush_pending_def wb_slice_def io_len_def MAX_SEND_BYTES_def as_u32_def
lemmas run_sends = translate_def on_io_def reap_guard_of_def on_send_done_def apply_sent_def
  maybe_finish_shutdown_def
lemmas run_closes = transport_close_def close_in_cell_def settle_corked_def send_corked_def
  leave_cell_def drain_graveyards_def schedule_pending_lost_def teardown_lost_def teardown_core_def
  cancel_transport_ops_def release_socket_def net_detach_def net_cancel_def forget_fd_def release_opt_def
  close_after_of_def bury_entry_def retire_sockets_def mark_lost_def
lemmas run_fine = log_fine_def along_def in_kernel_def wire_def posted_ids_def

definition demo_partial :: "nat action list" where
  "demo_partial = [A_wire 5 demo_proto None None 65536 16384, A_write 1 True [1, 2, 3], A_flush,
     A_poll 0 1 [Io (demo_op 0) 2 0]]"

lemma demo_partial_log:
  "n_log (w_net (demo_run demo_partial)) = [L_write 1 [1, 2, 3], L_send 1 (demo_op 0) [[1, 2, 3]],
     L_done (demo_op 0) 2 0, L_send 1 (demo_op 1) [[3]]]"
  "\<exists>e. n_transports (w_net (demo_run demo_partial)) 1 = Some e \<and> t_wq e = [Owned [1, 2, 3] 2] \<and>
     t_send_op e = Some (demo_op 1) \<and> \<not> t_closing e \<and> \<not> t_eof_wanted e \<and> \<not> t_proto_paused e"
  by (simp_all add: demo_partial_def demo_defs run_steps run_writes run_sends)

lemma demo_partial_fine: "log_fine (n_log (w_net (demo_run demo_partial)))"
  unfolding demo_partial_log by (simp add: run_fine demo_op_def)

definition demo_close :: "nat action list" where
  "demo_close = [A_wire 5 demo_proto None None 65536 16384, A_write 1 True [1, 2, 3], A_close 1,
     A_poll 0 1 [Io (demo_op 0) 3 0]]"

lemma demo_close_log:
  "n_log (w_net (demo_run demo_close)) = [L_write 1 [1, 2, 3], L_send 1 (demo_op 0) [[1, 2, 3]],
     L_done (demo_op 0) 3 0, L_detach 5, L_close 5, L_lost 1 Clean]"
  by (simp add: demo_close_def demo_defs run_steps run_writes run_sends run_closes)

text \<open>Receives, with the buffer pool left as it is.\<close>

lemma bk_frames [simp]:
  "n_bk (release_slot k sl s) = n_bk s" "n_bk (retain_slot sl s) = n_bk s"
  "n_bk (ensure_buffers_registered k s) = n_bk s" "n_bk (snd (acquire_slot k c s)) = n_bk s"
  "n_reap_guards (release_slot k sl s) = n_reap_guards s" "n_reap_guards (retain_slot sl s) = n_reap_guards s"
  "n_reap_guards (ensure_buffers_registered k s) = n_reap_guards s"
  "n_reap_guards (snd (acquire_slot k c s)) = n_reap_guards s" "n_bk (add_op op t s) = n_bk s"
  by (simp_all add: add_op_def release_slot_def retain_slot_def ensure_buffers_registered_def acquire_slot_def split_beta Let_def)

lemmas run_reads = wire_end_def stream_post_recv_def on_recv_done_def hold_bytes_def resume_reading_def
  resume_in_cell_def flush_paused_recv_def pause_reading_def
lemmas run_events = take_events_def dispatch_next_def begin_data_def route_inbound_def call_returns_def

definition flow :: "net_log \<Rightarrow> bool" where
  "flow l = (case l of L_input _ _ \<Rightarrow> True | L_deliver _ _ \<Rightarrow> True | L_pause _ _ \<Rightarrow> True | L_resume _ _ \<Rightarrow> True | _ \<Rightarrow> False)"

section \<open>What every run keeps\<close>

lemma run_net_inv:
  assumes "log_fine (n_log (w_net (net_run k acts (world_new b hs))))"
  shows "net_inv {} (resuming (net_run k acts (world_new b hs))) {} (w_net (net_run k acts (world_new b hs)))"
  using run_inv [OF assms] by (simp add: world_inv_def)

lemma in_flight:
  assumes "flight_ok s tid e" "in_kernel (n_log s) op = Some (tid, d)"
  shows "t_send_op e = Some op" "d = front e" "prefix d (wq_bytes (t_wq e))"
proof -
  have "t_send_op e \<noteq> None" using assms by (cases "t_send_op e") (auto simp: flight_ok_def no_kernel_def)
  then obtain op' where o: "t_send_op e = Some op'" by auto
  then have k: "in_kernel (n_log s) op' = Some (tid, front e)" "prefix (front e) (wq_bytes (t_wq e))"
      "\<forall>op d. in_kernel (n_log s) op = Some (tid, d) \<longrightarrow> op = op'"
    using assms(1) by (simp_all add: flight_ok_def)
  from k(3) assms(2) have "op = op'" by blast
  with o k(1,2) assms(2) have "t_send_op e = Some op \<and> d = front e \<and> prefix d (wq_bytes (t_wq e))" by simp
  then show "t_send_op e = Some op" "d = front e" "prefix d (wq_bytes (t_wq e))" by blast+
qed

text \<open>
  C1: the bytes of a stream.  In every run, whatever the application calls and however the kernel
  splits and orders its completions, what the kernel has taken of a live transport followed by
  what is queued is exactly what was written, in order; the size it reports is the queue's; and a
  send in flight points at the front of the queue as it is now, so no byte the kernel may still
  read has moved.
\<close>

theorem written_bytes_kept_in_order:
  assumes "log_fine (n_log (w_net (net_run k acts (world_new b hs))))"
    and "n_transports (w_net (net_run k acts (world_new b hs))) tid = Some e"
  shows "sent tid (n_log (w_net (net_run k acts (world_new b hs)))) @ wq_bytes (t_wq e) =
      written tid (n_log (w_net (net_run k acts (world_new b hs)))) \<and>
    get_write_buffer_size tid (w_net (net_run k acts (world_new b hs))) = length (wq_bytes (t_wq e)) \<and>
    (\<forall>op d. in_kernel (n_log (w_net (net_run k acts (world_new b hs)))) op = Some (tid, d) \<longrightarrow>
       t_send_op e = Some op \<and> d = front e \<and> prefix d (wq_bytes (t_wq e)))"
proof -
  have q: "queue_ok (n_log (w_net (net_run k acts (world_new b hs)))) tid e"
    and f: "flight_ok (w_net (net_run k acts (world_new b hs))) tid e"
    using invD(4,5) [OF run_net_inv [OF assms(1)] assms(2)] by simp_all
  show ?thesis
    using q in_flight [OF f] by (simp add: queue_ok_def get_write_buffer_size_def assms(2))
qed

theorem written_bytes_kept_in_order_witness:
  "case n_transports (w_net (demo_run demo_partial)) 1 of None \<Rightarrow> False
   | Some e \<Rightarrow> sent 1 (n_log (w_net (demo_run demo_partial))) @ wq_bytes (t_wq e) = [1, 2, 3] \<and>
       get_write_buffer_size 1 (w_net (demo_run demo_partial)) = 1"
proof -
  obtain e where e: "n_transports (w_net (demo_run demo_partial)) 1 = Some e" "t_wq e = [Owned [1, 2, 3] 2]"
    using demo_partial_log(2) by auto
  show ?thesis
    using written_bytes_kept_in_order [OF demo_partial_fine [unfolded demo_run_def] e(1) [unfolded demo_run_def]] e
    by (simp add: demo_partial_log(1) written_def wq_bytes_def flip: demo_run_def)
qed

text \<open>
  C2: a graceful close loses nothing.  When a transport that was never aborted reports its loss
  without an error, the kernel has taken every byte that was ever written to it, and holds no
  buffer of it.
\<close>

theorem close_drains_everything:
  assumes "log_fine (n_log (w_net (net_run k acts (world_new b hs))))"
    and "L_lost tid Clean \<in> set (n_log (w_net (net_run k acts (world_new b hs))))"
    and "L_abort tid \<notin> set (n_log (w_net (net_run k acts (world_new b hs))))"
  shows "sent tid (n_log (w_net (net_run k acts (world_new b hs)))) =
      written tid (n_log (w_net (net_run k acts (world_new b hs)))) \<and>
    (\<forall>op d. in_kernel (n_log (w_net (net_run k acts (world_new b hs)))) op \<noteq> Some (tid, d))"
proof -
  have "drained_ok (n_log (w_net (net_run k acts (world_new b hs))))"
    using run_net_inv [OF assms(1)] by (simp add: net_inv_def)
  then show ?thesis using assms(2,3) by (simp add: drained_ok_def drained_lost_def no_kernel_def)
qed

lemma demo_close_fine: "log_fine (n_log (w_net (demo_run demo_close)))"
  unfolding demo_close_log by (simp add: run_fine demo_op_def)

theorem close_drains_everything_witness:
  "sent 1 (n_log (w_net (demo_run demo_close))) = [1, 2, 3]"
  using close_drains_everything [of demo_ops demo_close 0 demo_handles 1] demo_close_fine
  unfolding demo_run_def [symmetric] by (simp add: demo_close_log written_def)




text \<open>
  C8: output always moves.  Between any two actions a live transport with unsent bytes has a send
  in flight or is on the list the tick flushes; a protocol told to pause has bytes queued, so its
  resumption is still to come; and one that is closing, or owes the peer an end of file, has
  output left or a resumption whose dispatch will finish it.  A close can thus not be forgotten.
\<close>

theorem output_always_moves:
  assumes "log_fine (n_log (w_net (net_run k acts (world_new b hs))))"
    and "n_transports (w_net (net_run k acts (world_new b hs))) tid = Some e"
  shows "(t_wq e = [] \<or> t_send_op e \<noteq> None \<or>
        tid \<in> set (n_flush_list (w_net (net_run k acts (world_new b hs))))) \<and>
    (t_proto_paused e \<longrightarrow> t_wq e \<noteq> []) \<and>
    (t_closing e \<or> t_eof_wanted e \<and> \<not> t_eof_sent e \<longrightarrow>
      t_wq e \<noteq> [] \<or> resume_pending tid (w_net (net_run k acts (world_new b hs))) \<or>
      tid \<in> resuming (net_run k acts (world_new b hs)))"
  using invD(6) [OF run_net_inv [OF assms(1)] assms(2)] by (auto simp: moves_on_def)

theorem output_always_moves_witness:
  "case n_transports (w_net (demo_run demo_partial)) 1 of None \<Rightarrow> False
   | Some e \<Rightarrow> t_send_op e \<noteq> None \<or> 1 \<in> set (n_flush_list (w_net (demo_run demo_partial)))"
proof -
  obtain e where e: "n_transports (w_net (demo_run demo_partial)) 1 = Some e" "t_wq e = [Owned [1, 2, 3] 2]"
    using demo_partial_log(2) by auto
  show ?thesis
    using output_always_moves [OF demo_partial_fine [unfolded demo_run_def] e(1) [unfolded demo_run_def]] e
    by (simp flip: demo_run_def)
qed

section \<open>Two flaws\<close>

definition demo_pause_twice :: "nat action list" where
  "demo_pause_twice = [A_wire 5 demo_proto None None 4 1, A_write 1 True [1, 2, 3, 4, 5],
     A_poll 0 1 [Io (demo_op 0) 5 0], A_take, A_write 1 True [6, 7, 8, 9, 10], A_dispatch (\<lambda>_. False)]"

text \<open>
  C17: \<open>pause_writing\<close> is not always answered by \<open>resume_writing\<close> before the next.  The queue drains
  while completions are translated, which clears the paused flag and queues the resumption as an
  event; a callback of the same tick's batch runs before that event and may fill the queue again:
  the protocol is paused twice in a row, and then resumed while the transport counts it as paused.
\<close>

theorem pause_writing_twice:
  "log_fine (n_log (w_net (demo_run demo_pause_twice))) \<and>
   filter flow (n_log (w_net (demo_run demo_pause_twice))) = [L_pause 1 7, L_pause 1 7, L_resume 1 7] \<and>
   (case n_transports (w_net (demo_run demo_pause_twice)) 1 of None \<Rightarrow> False | Some e \<Rightarrow> t_proto_paused e)"
proof -
  have "n_log (w_net (demo_run demo_pause_twice)) = [L_write 1 [1, 2, 3, 4, 5],
      L_send 1 (demo_op 0) [[1, 2, 3, 4, 5]], L_pause 1 7, L_done (demo_op 0) 5 0,
      L_write 1 [6, 7, 8, 9, 10], L_send 1 (demo_op 1) [[6, 7, 8, 9, 10]], L_pause 1 7, L_resume 1 7]"
    "\<exists>e. n_transports (w_net (demo_run demo_pause_twice)) 1 = Some e \<and> t_proto_paused e"
    by (simp_all add: demo_pause_twice_def demo_defs run_steps run_writes run_sends run_events leave_cell_def
      drain_graveyards_def schedule_pending_lost_def)
  then show ?thesis by (auto simp: run_fine demo_op_def flow_def)
qed

text \<open>Receives step by step: what a run shows of one transport, whatever its buffers are.\<close>

definition shows_as :: "nat \<Rightarrow> transport \<Rightarrow> (op_id \<Rightarrow> op_target option) \<Rightarrow> net_event list \<Rightarrow> net_log list \<Rightarrow> nat \<Rightarrow> nat net \<Rightarrow> bool" where
  "shows_as tid e ops evs log b s \<longleftrightarrow>
     n_transports s tid = Some e \<and> n_ops s = ops \<and> n_events s = evs \<and> n_log s = log \<and> n_bk s = b"

lemma shows_post:
  assumes "shows_as tid e ops evs log b s" "t_recv_op e = None" "\<not> t_reading_paused e" "\<not> t_closing e" "\<not> t_conn_lost e"
  shows "\<exists>sl. shows_as tid (e\<lparr>t_recv_slot := Some sl, t_recv_op := Some (demo_op b)\<rparr>)
    (ops(demo_op b := Some (T_recv tid sl))) evs (log @ [L_recv tid (demo_op b) sl]) (b + 1)
    (stream_post_recv demo_ops tid s)"
proof -
  have d: "sk_post_recv demo_ops f p c b = (Inr (demo_op b), b + 1)" for f p c b
    by (simp add: demo_ops_def demo_post_def)
  show ?thesis
  proof (cases "t_recv_slot e")
    case None
    then show ?thesis
      using assms
      by (intro exI [of _ "fst (acquire_slot demo_ops (t_recv_class e) s)"])
        (simp add: shows_as_def stream_post_recv_def d split_beta Let_def)
  next
    case (Some sl)
    then have "e\<lparr>t_recv_slot := Some sl\<rparr> = e" by (metis transport.surjective transport.update_convs(3))
    with Some show ?thesis
      using assms by (intro exI [of _ sl]) (simp add: shows_as_def stream_post_recv_def d)
  qed
qed

lemma shows_paused_input:
  assumes "shows_as tid e ops evs log b s" "t_recv_op e = Some op" "ops op = Some (T_recv tid sl)" "0 < n"
    "t_reading_paused e" "\<not> t_closing e" "\<not> t_conn_lost e"
  shows "shows_as tid ((hold_bytes (replicate n (of_nat b)) (e\<lparr>t_recv_op := None\<rparr>))\<lparr>t_recv_slot := None\<rparr>)
    (ops(op := None)) evs (log @ [L_done op n 0, L_input tid (replicate n (of_nat b))]) b
    (on_io demo_ops op n 0 s)"
proof -
  define s0 where "s0 = reap_guard_of demo_ops op (say (L_done op n 0) s)"
  have fr: "n_transports s0 = n_transports s" "n_ops s0 = n_ops s" "n_events s0 = n_events s"
      "n_log s0 = n_log s @ [L_done op n 0]" "n_bk s0 = n_bk s"
    by (simp_all add: s0_def reap_guard_of_def Let_def split: option.split reap_guard.split)
  have m: "sk_memory demo_ops p n b = replicate n (of_nat b)" for p b by (simp add: demo_ops_def)
  show ?thesis
    using assms
    by (simp add: on_io_def Let_def fr shows_as_def on_recv_done_def m hold_bytes_def flip: s0_def)
qed

lemma shows_leave:
  assumes "shows_as tid e ops evs log b s" "\<forall>ev\<in>set evs. \<not> deferred ev"
  shows "shows_as tid e ops evs log b (leave_cell s)"
proof -
  have "filter (\<lambda>ev. \<not> deferred ev) evs = evs" using assms(2) by (simp add: filter_id_conv)
  with assms(1) show ?thesis
    by (simp add: leave_cell_def schedule_pending_lost_def drain_graveyards_def shows_as_def)
qed

lemma shows_resume:
  assumes "shows_as tid e ops evs log b s" "t_recv_op e = None" "t_reading_paused e" "\<not> t_closing e" "\<not> t_conn_lost e"
    "t_paused_recv e = Some d" "\<not> t_paused_eof e" "\<forall>ev\<in>set evs. \<not> deferred ev"
  shows "\<exists>sl. shows_as tid (e\<lparr>t_reading_paused := False, t_paused_recv := None, t_recv_slot := Some sl,
      t_recv_op := Some (demo_op b)\<rparr>)
    (ops(demo_op b := Some (T_recv tid sl))) (evs @ [E_held_data tid d]) (log @ [L_recv tid (demo_op b) sl]) (b + 1)
    (resume_reading demo_ops tid s)"
proof -
  obtain s1 where f: "flush_paused_recv tid (t_upd tid (\<lambda>e. e\<lparr>t_reading_paused := False\<rparr>) s) = (False, s1)"
    and s1: "shows_as tid (e\<lparr>t_reading_paused := False, t_paused_recv := None\<rparr>) ops (evs @ [E_held_data tid d]) log b s1"
    using assms by (simp add: flush_paused_recv_def shows_as_def)
  have r: "resume_in_cell demo_ops tid s = stream_post_recv demo_ops tid s1"
    using assms(1-4) f by (simp add: resume_in_cell_def shows_as_def)
  obtain sl where "shows_as tid (e\<lparr>t_reading_paused := False, t_paused_recv := None, t_recv_slot := Some sl,
      t_recv_op := Some (demo_op b)\<rparr>)
    (ops(demo_op b := Some (T_recv tid sl))) (evs @ [E_held_data tid d]) (log @ [L_recv tid (demo_op b) sl]) (b + 1)
    (resume_in_cell demo_ops tid s)"
    using shows_post [OF s1] assms(2-5) unfolding r by auto
  then have "shows_as tid (e\<lparr>t_reading_paused := False, t_paused_recv := None, t_recv_slot := Some sl,
      t_recv_op := Some (demo_op b)\<rparr>)
    (ops(demo_op b := Some (T_recv tid sl))) (evs @ [E_held_data tid d]) (log @ [L_recv tid (demo_op b) sl]) (b + 1)
    (resume_reading demo_ops tid s)"
    unfolding resume_reading_def by (rule shows_leave) (use assms(8) in auto)
  then show ?thesis ..
qed

lemma shows_pause:
  assumes "shows_as tid e ops evs log b s" "\<not> t_closing e"
  shows "shows_as tid (e\<lparr>t_reading_paused := True\<rparr>) ops evs log b (pause_reading tid s)"
  using assms by (simp add: shows_as_def pause_reading_def)

definition demo_reorder :: "nat action list" where
  "demo_reorder = [A_wire 5 demo_proto None None 65536 16384, A_wired 1, A_pause 1,
     A_poll 0 1 [Io (demo_op 0) 1 0], A_resume 1, A_pause 1, A_poll 0 2 [Io (demo_op 1) 1 0],
     A_take, A_dispatch (\<lambda>_. False), A_resume 1, A_take, A_dispatch (\<lambda>_. False)]"

lemma shows_poll:
  assumes "shows_as tid e ops evs log b s" "t_recv_op e = Some op" "ops op = Some (T_recv tid sl)" "0 < n"
    "t_reading_paused e" "\<not> t_closing e" "\<not> t_conn_lost e"
  shows "shows_as tid ((hold_bytes (replicate n (of_nat b')) (e\<lparr>t_recv_op := None\<rparr>))\<lparr>t_recv_slot := None\<rparr>)
    (ops(op := None)) evs (log @ [L_done op n 0, L_input tid (replicate n (of_nat b'))]) b'
    (translate demo_ops [Io op n 0] (s\<lparr>n_bk := b', n_now := now\<rparr>))"
proof -
  have "shows_as tid e ops evs log b' (s\<lparr>n_bk := b', n_now := now\<rparr>)" using assms(1) by (simp add: shows_as_def)
  from shows_paused_input [OF this assms(2-7)] show ?thesis by (simp add: translate_def)
qed

text \<open>
  C16: received bytes can change their order.  \<open>resume_reading\<close> turns the bytes held while reading was
  paused into an event and posts a receive; if the application pauses again before that event is
  dispatched, what the receive brings is held first, and the event, finding the transport paused,
  appends the older bytes behind the newer.  The peer sent 1 and then 2; the protocol gets 2, 1.
\<close>

theorem held_bytes_reordered:
  "log_fine (n_log (w_net (demo_run demo_reorder))) \<and>
   filter flow (n_log (w_net (demo_run demo_reorder))) = [L_input 1 [1], L_input 1 [2], L_deliver 1 [2, 1]]"
proof -
  let ?w = "world_new 0 demo_handles"
  let ?e = "transport_new 5 demo_proto None None 65536 16384"
  define s1 where "s1 = snd (wire_begin demo_ops 5 demo_proto None None 65536 16384 (net_new 0 demo_handles))"
  define s2 where "s2 = wire_end demo_ops 1 s1"
  define s3 where "s3 = translate demo_ops [Io (demo_op 0) 1 0] ((pause_reading 1 s2)\<lparr>n_bk := 1, n_now := 0\<rparr>)"
  define s4 where "s4 = pause_reading 1 (resume_reading demo_ops 1 s3)"
  define s5 where "s5 = translate demo_ops [Io (demo_op 1) 1 0] (s4\<lparr>n_bk := 2, n_now := 0\<rparr>)"
  have 1: "shows_as 1 ?e (\<lambda>_. None) [] [] 0 s1"
    by (simp add: s1_def shows_as_def wire_begin_def net_new_def net_next_id_def demo_ops_def Let_def)
  obtain sl1 where "shows_as 1 (?e\<lparr>t_recv_slot := Some sl1, t_recv_op := Some (demo_op 0)\<rparr>)
      [demo_op 0 \<mapsto> T_recv 1 sl1] [] [L_recv 1 (demo_op 0) sl1] 1 (stream_post_recv demo_ops 1 s1)"
    using shows_post [OF 1] by (auto simp: transport_new_def)
  from shows_leave [OF this] have 2: "shows_as 1 (?e\<lparr>t_recv_slot := Some sl1, t_recv_op := Some (demo_op 0)\<rparr>)
      [demo_op 0 \<mapsto> T_recv 1 sl1] [] [L_recv 1 (demo_op 0) sl1] 1 s2" by (simp add: s2_def wire_end_def)
  have 3: "shows_as 1 (?e\<lparr>t_reading_paused := True, t_paused_recv := Some [1]\<rparr>) (\<lambda>_. None) []
      [L_recv 1 (demo_op 0) sl1, L_done (demo_op 0) 1 0, L_input 1 [1]] 1 s3"
    using shows_poll [OF shows_pause [OF 2], of "demo_op 0" sl1 1 1 0]
    by (simp add: s3_def transport_new_def hold_bytes_def)
  obtain sl2 where "shows_as 1 (?e\<lparr>t_recv_slot := Some sl2, t_recv_op := Some (demo_op 1)\<rparr>)
      [demo_op 1 \<mapsto> T_recv 1 sl2] [E_held_data 1 [1]]
      [L_recv 1 (demo_op 0) sl1, L_done (demo_op 0) 1 0, L_input 1 [1], L_recv 1 (demo_op 1) sl2] 2
      (resume_reading demo_ops 1 s3)"
    using shows_resume [OF 3] by (auto simp: transport_new_def numeral_2_eq_2)
  from shows_pause [OF this] have 4: "shows_as 1 (?e\<lparr>t_recv_slot := Some sl2, t_recv_op := Some (demo_op 1), t_reading_paused := True\<rparr>)
      [demo_op 1 \<mapsto> T_recv 1 sl2] [E_held_data 1 [1]]
      [L_recv 1 (demo_op 0) sl1, L_done (demo_op 0) 1 0, L_input 1 [1], L_recv 1 (demo_op 1) sl2] 2 s4"
    by (simp add: s4_def transport_new_def)
  have 5: "shows_as 1 (?e\<lparr>t_reading_paused := True, t_paused_recv := Some [2]\<rparr>) (\<lambda>_. None) [E_held_data 1 [1]]
      [L_recv 1 (demo_op 0) sl1, L_done (demo_op 0) 1 0, L_input 1 [1], L_recv 1 (demo_op 1) sl2,
       L_done (demo_op 1) 1 0, L_input 1 [2]] 2 s5"
    using shows_poll [OF 4, of "demo_op 1" sl2 1 2 0]
    by (simp add: s5_def transport_new_def hold_bytes_def)
  define s6 where "s6 = t_upd 1 (hold_bytes [1]) (s5\<lparr>n_events := []\<rparr>)"
  have 6: "shows_as 1 (?e\<lparr>t_reading_paused := True, t_paused_recv := Some [2, 1]\<rparr>) (\<lambda>_. None) []
      [L_recv 1 (demo_op 0) sl1, L_done (demo_op 0) 1 0, L_input 1 [1], L_recv 1 (demo_op 1) sl2,
       L_done (demo_op 1) 1 0, L_input 1 [2]] 2 s6"
    using 5 by (simp add: s6_def shows_as_def hold_bytes_def)
  obtain sl3 where 7: "shows_as 1 (?e\<lparr>t_recv_slot := Some sl3, t_recv_op := Some (demo_op 2)\<rparr>)
      [demo_op 2 \<mapsto> T_recv 1 sl3] [E_held_data 1 [2, 1]]
      [L_recv 1 (demo_op 0) sl1, L_done (demo_op 0) 1 0, L_input 1 [1], L_recv 1 (demo_op 1) sl2,
       L_done (demo_op 1) 1 0, L_input 1 [2], L_recv 1 (demo_op 2) sl3] 3 (resume_reading demo_ops 1 s6)"
    using shows_resume [OF 6] by (auto simp: transport_new_def numeral_2_eq_2 numeral_3_eq_3)
  have w5: "net_run demo_ops (take 7 demo_reorder) ?w = ?w\<lparr>w_net := s5\<rparr>"
    by (simp add: net_run_def demo_reorder_def on_net_def world_new_def s1_def s2_def s3_def s4_def s5_def)
  have w6: "net_run demo_ops (take 9 demo_reorder) ?w = ?w\<lparr>w_net := s6\<rparr>"
    using w5 5 by (simp add: net_run_def demo_reorder_def run_events shows_as_def s6_def release_opt_def transport_new_def world_new_def)
  have "n_log (w_net (demo_run demo_reorder)) =
      [L_recv 1 (demo_op 0) sl1, L_done (demo_op 0) 1 0, L_input 1 [1], L_recv 1 (demo_op 1) sl2,
       L_done (demo_op 1) 1 0, L_input 1 [2], L_recv 1 (demo_op 2) sl3, L_deliver 1 [2, 1]]"
    using w6 7 by (simp add: demo_run_def net_run_def demo_reorder_def on_net_def world_new_def run_events
      shows_as_def release_opt_def transport_new_def demo_proto_def)
  then show ?thesis by (simp add: run_fine demo_op_def flow_def)
qed

end
