(* ===== verification/Fast_Queue.thy ===== *)
theory Fast_Queue
  imports Prelude
begin

text \<open>
  The native asyncio queue (\<open>pyshim/fastqueue.rs\<close>).  A waiter is a future, a number whose state lives
  in a store the queue, the tasks and the event loop share.  A future of a closed loop is \<open>F_dead\<close>:
  it is not done, but resolving it raises.  The awaiting side (\<open>put\<close>, \<open>get\<close>, \<open>join\<close> of the Python
  class that wraps this one) is part of the runs at the end: a task that finds no item parks a
  future, and looks again when it is resumed.
\<close>

section \<open>Futures and waiters\<close>

datatype fut_state = F_pending | F_done | F_cancelled | F_dead

type_synonym futs = "nat \<Rightarrow> fut_state"

definition fut_cancel :: "nat \<Rightarrow> futs \<Rightarrow> futs" where
  "fut_cancel f F = (if F f = F_pending \<or> F f = F_dead then F(f := F_cancelled) else F)"

text \<open>\<open>wake_next\<close>: the first waiter that accepts a result takes the wake.\<close>

fun wake_next :: "nat list \<Rightarrow> futs \<Rightarrow> nat list \<times> futs" where
  "wake_next [] F = ([], F)"
| "wake_next (f # fs) F = (if F f = F_pending then (fs, F(f := F_done)) else wake_next fs F)"

text \<open>The waiters of \<open>join()\<close>, all of them, in the order they joined.\<close>

fun wake_all :: "nat list \<Rightarrow> futs \<Rightarrow> futs" where
  "wake_all [] F = F"
| "wake_all (f # fs) F = wake_all fs (if F f = F_pending then F(f := F_done) else F)"

section \<open>The queue\<close>

record 'a fast_queue =
  q_maxsize :: int
  q_items :: "'a list"
  q_getters :: "nat list"
  q_putters :: "nat list"
  q_unfinished :: int
  q_joiners :: "nat list"

definition queue_new :: "int \<Rightarrow> 'a fast_queue" where
  "queue_new maxsize = \<lparr>q_maxsize = maxsize, q_items = [], q_getters = [], q_putters = [],
     q_unfinished = 0, q_joiners = []\<rparr>"

definition is_full :: "'a fast_queue \<Rightarrow> bool" where
  "is_full q \<longleftrightarrow> q_maxsize q > 0 \<and> int (length (q_items q)) \<ge> q_maxsize q"

definition wake_getter :: "'a fast_queue \<Rightarrow> futs \<Rightarrow> 'a fast_queue \<times> futs" where
  "wake_getter q F = (let (fs, F) = wake_next (q_getters q) F in (q\<lparr>q_getters := fs\<rparr>, F))"

definition wake_putter :: "'a fast_queue \<Rightarrow> futs \<Rightarrow> 'a fast_queue \<times> futs" where
  "wake_putter q F = (let (fs, F) = wake_next (q_putters q) F in (q\<lparr>q_putters := fs\<rparr>, F))"

definition put_now :: "'a \<Rightarrow> 'a fast_queue \<Rightarrow> futs \<Rightarrow> 'a fast_queue \<times> futs" where
  "put_now x q F = wake_getter (q\<lparr>q_items := q_items q @ [x], q_unfinished := q_unfinished q + 1\<rparr>) F"

definition get_now :: "'a fast_queue \<Rightarrow> futs \<Rightarrow> 'a option \<times> 'a fast_queue \<times> futs" where
  "get_now q F =
     (case q_items q of
        [] \<Rightarrow> (None, q, F)
      | x # xs \<Rightarrow> (Some x, wake_putter (q\<lparr>q_items := xs\<rparr>) F))"

datatype queue_error = Queue_full | Queue_empty | Too_many_done

definition put_nowait :: "'a \<Rightarrow> 'a fast_queue \<Rightarrow> futs \<Rightarrow> (queue_error + unit) \<times> 'a fast_queue \<times> futs" where
  "put_nowait x q F = (if is_full q then (Inl Queue_full, q, F) else (Inr (), put_now x q F))"

definition get_nowait :: "'a fast_queue \<Rightarrow> futs \<Rightarrow> (queue_error + 'a) \<times> 'a fast_queue \<times> futs" where
  "get_nowait q F = (case get_now q F of (Some x, qF) \<Rightarrow> (Inr x, qF) | (None, qF) \<Rightarrow> (Inl Queue_empty, qF))"

definition try_put :: "'a \<Rightarrow> 'a fast_queue \<Rightarrow> futs \<Rightarrow> bool \<times> 'a fast_queue \<times> futs" where
  "try_put x q F = (if is_full q then (False, q, F) else (True, put_now x q F))"

definition get_or :: "'a \<Rightarrow> 'a fast_queue \<Rightarrow> futs \<Rightarrow> 'a \<times> 'a fast_queue \<times> futs" where
  "get_or d q F = (case get_now q F of (Some x, qF) \<Rightarrow> (x, qF) | (None, qF) \<Rightarrow> (d, qF))"

definition park_getter :: "nat \<Rightarrow> 'a fast_queue \<Rightarrow> 'a fast_queue" where
  "park_getter f q = q\<lparr>q_getters := q_getters q @ [f]\<rparr>"

definition park_putter :: "nat \<Rightarrow> 'a fast_queue \<Rightarrow> 'a fast_queue" where
  "park_putter f q = q\<lparr>q_putters := q_putters q @ [f]\<rparr>"

definition getter_recovery :: "nat \<Rightarrow> 'a fast_queue \<Rightarrow> futs \<Rightarrow> 'a fast_queue \<times> futs" where
  "getter_recovery f q F =
     (let F = fut_cancel f F; q = q\<lparr>q_getters := remove1 f (q_getters q)\<rparr>
      in if q_items q \<noteq> [] \<and> F f \<noteq> F_cancelled then wake_getter q F else (q, F))"

definition putter_recovery :: "nat \<Rightarrow> 'a fast_queue \<Rightarrow> futs \<Rightarrow> 'a fast_queue \<times> futs" where
  "putter_recovery f q F =
     (let F = fut_cancel f F; q = q\<lparr>q_putters := remove1 f (q_putters q)\<rparr>
      in if \<not> is_full q \<and> F f \<noteq> F_cancelled then wake_putter q F else (q, F))"

definition task_done :: "'a fast_queue \<Rightarrow> futs \<Rightarrow> (queue_error + unit) \<times> 'a fast_queue \<times> futs" where
  "task_done q F =
     (let n = q_unfinished q
      in if n \<le> 0 then (Inl Too_many_done, q, F)
         else (let q = q\<lparr>q_unfinished := n - 1\<rparr>
               in if n = 1 then (Inr (), q\<lparr>q_joiners := []\<rparr>, wake_all (q_joiners q) F) else (Inr (), q, F)))"

definition park_joiner :: "nat \<Rightarrow> 'a fast_queue \<Rightarrow> 'a fast_queue" where
  "park_joiner f q = q\<lparr>q_joiners := q_joiners q @ [f]\<rparr>"

definition unjoin :: "nat \<Rightarrow> 'a fast_queue \<Rightarrow> 'a fast_queue" where
  "unjoin f q = q\<lparr>q_joiners := remove1 f (q_joiners q)\<rparr>"

section \<open>Tasks that use it\<close>

text \<open>
  \<open>w_getting\<close>: the futures tasks in \<open>get()\<close> wait on; \<open>w_putting\<close>: those in \<open>put()\<close>, with their item;
  \<open>w_joining\<close>: those in \<open>join()\<close>.  \<open>w_put\<close> and \<open>w_got\<close> record what went in and came out.
\<close>

record 'a queue_world =
  w_queue :: "'a fast_queue"
  w_futs :: futs
  w_fresh :: nat
  w_getting :: "nat list"
  w_putting :: "(nat \<times> 'a) list"
  w_joining :: "nat list"
  w_put :: "'a list"
  w_got :: "'a list"
  w_dones :: nat

definition queue_world_new :: "int \<Rightarrow> 'a queue_world" where
  "queue_world_new maxsize = \<lparr>w_queue = queue_new maxsize, w_futs = (\<lambda>_. F_pending), w_fresh = 0,
     w_getting = [], w_putting = [], w_joining = [], w_put = [], w_got = [], w_dones = 0\<rparr>"

text \<open>One round of the loops in \<open>get()\<close> and \<open>put()\<close>: an attempt, or a parked future.\<close>

definition get_round :: "'a queue_world \<Rightarrow> 'a queue_world" where
  "get_round w =
     (case get_now (w_queue w) (w_futs w) of
        (Some x, q, F) \<Rightarrow> w\<lparr>w_queue := q, w_futs := F, w_got := w_got w @ [x]\<rparr>
      | (None, q, F) \<Rightarrow> w\<lparr>w_queue := park_getter (w_fresh w) q, w_futs := F(w_fresh w := F_pending),
           w_getting := w_getting w @ [w_fresh w], w_fresh := w_fresh w + 1\<rparr>)"

definition put_round :: "'a \<Rightarrow> 'a queue_world \<Rightarrow> 'a queue_world" where
  "put_round x w =
     (case try_put x (w_queue w) (w_futs w) of
        (True, q, F) \<Rightarrow> w\<lparr>w_queue := q, w_futs := F, w_put := w_put w @ [x]\<rparr>
      | (False, q, F) \<Rightarrow> w\<lparr>w_queue := park_putter (w_fresh w) q, w_futs := F(w_fresh w := F_pending),
           w_putting := w_putting w @ [(w_fresh w, x)], w_fresh := w_fresh w + 1\<rparr>)"

text \<open>
  \<open>Q_resume\<close>: the task waiting on a resolved future runs on; \<open>Q_cancel\<close>: a pending future is
  cancelled; \<open>Q_throw\<close>: the task waiting on a future that is no longer pending gets an exception;
  \<open>Q_die\<close>: the future's loop was closed under it.
\<close>

datatype 'a queue_act =
    Q_put_nowait 'a
  | Q_get_nowait
  | Q_put 'a
  | Q_get
  | Q_resume nat
  | Q_cancel nat
  | Q_throw nat
  | Q_die nat
  | Q_task_done
  | Q_join
  | Q_joined nat

definition resume_task :: "nat \<Rightarrow> 'a queue_world \<Rightarrow> 'a queue_world" where
  "resume_task f w =
     (if w_futs w f \<noteq> F_done then w
      else if f \<in> set (w_getting w) then get_round (w\<lparr>w_getting := remove1 f (w_getting w)\<rparr>)
      else case map_of (w_putting w) f of
             Some x \<Rightarrow> put_round x (w\<lparr>w_putting := filter (\<lambda>p. fst p \<noteq> f) (w_putting w)\<rparr>)
           | None \<Rightarrow> w)"

definition throw_task :: "nat \<Rightarrow> 'a queue_world \<Rightarrow> 'a queue_world" where
  "throw_task f w =
     (if w_futs w f \<noteq> F_done \<and> w_futs w f \<noteq> F_cancelled then w
      else if f \<in> set (w_getting w)
      then (let (q, F) = getter_recovery f (w_queue w) (w_futs w)
            in w\<lparr>w_queue := q, w_futs := F, w_getting := remove1 f (w_getting w)\<rparr>)
      else if f \<in> fst ` set (w_putting w)
      then (let (q, F) = putter_recovery f (w_queue w) (w_futs w)
            in w\<lparr>w_queue := q, w_futs := F, w_putting := filter (\<lambda>p. fst p \<noteq> f) (w_putting w)\<rparr>)
      else w)"

fun queue_do :: "'a queue_act \<Rightarrow> 'a queue_world \<Rightarrow> 'a queue_world" where
  "queue_do (Q_put_nowait x) w =
     (case put_nowait x (w_queue w) (w_futs w) of
        (Inr _, q, F) \<Rightarrow> w\<lparr>w_queue := q, w_futs := F, w_put := w_put w @ [x]\<rparr>
      | (Inl _, q, F) \<Rightarrow> w)"
| "queue_do Q_get_nowait w =
     (case get_nowait (w_queue w) (w_futs w) of
        (Inr x, q, F) \<Rightarrow> w\<lparr>w_queue := q, w_futs := F, w_got := w_got w @ [x]\<rparr>
      | (Inl _, q, F) \<Rightarrow> w)"
| "queue_do (Q_put x) w = put_round x w"
| "queue_do Q_get w = get_round w"
| "queue_do (Q_resume f) w = resume_task f w"
| "queue_do (Q_cancel f) w = (if w_futs w f = F_pending then w\<lparr>w_futs := fut_cancel f (w_futs w)\<rparr> else w)"
| "queue_do (Q_throw f) w = throw_task f w"
| "queue_do (Q_die f) w = (if w_futs w f = F_pending \<and> f < w_fresh w then w\<lparr>w_futs := (w_futs w)(f := F_dead)\<rparr> else w)"
| "queue_do Q_task_done w =
     (case task_done (w_queue w) (w_futs w) of
        (Inr _, q, F) \<Rightarrow> w\<lparr>w_queue := q, w_futs := F, w_dones := w_dones w + 1\<rparr>
      | (Inl _, q, F) \<Rightarrow> w)"
| "queue_do Q_join w =
     (if q_unfinished (w_queue w) = 0 then w
      else w\<lparr>w_queue := park_joiner (w_fresh w) (w_queue w), w_futs := (w_futs w)(w_fresh w := F_pending),
             w_joining := w_joining w @ [w_fresh w], w_fresh := w_fresh w + 1\<rparr>)"
| "queue_do (Q_joined f) w =
     (if w_futs w f = F_pending \<or> f \<notin> set (w_joining w) then w
      else w\<lparr>w_queue := unjoin f (w_queue w), w_joining := remove1 f (w_joining w)\<rparr>)"

definition queue_run :: "'a queue_act list \<Rightarrow> int \<Rightarrow> 'a queue_world" where
  "queue_run acts maxsize = fold queue_do acts (queue_world_new maxsize)"

end
