(* ===== verification/Fast_Queue_Props.thy ===== *)
theory Fast_Queue_Props
  imports Fast_Queue
begin

text \<open>
  What holds of the queue under any interleaving of producers, consumers, cancellations and loops
  that close: no wake-up is lost, items come out in the order they went in, the size stays within
  its bound, and \<open>join\<close> ends exactly when every item is accounted for.
\<close>

section \<open>One side of the queue\<close>

text \<open>
  \<open>fs\<close> are the parked waiters, \<open>ws\<close> the futures tasks wait on, \<open>n\<close> the number of things to be had
  (items for getters, free places for putters): a task left waiting implies that at least \<open>n\<close>
  others have been woken and not yet run.
\<close>

definition woken :: "nat list \<Rightarrow> futs \<Rightarrow> nat" where
  "woken ws F = length (filter (\<lambda>f. F f = F_done) ws)"

definition side :: "nat list \<Rightarrow> nat list \<Rightarrow> futs \<Rightarrow> int \<Rightarrow> bool" where
  "side fs ws F n \<longleftrightarrow>
     distinct ws \<and> (\<forall>f. F f = F_pending \<longrightarrow> (f \<in> set fs \<longleftrightarrow> f \<in> set ws)) \<and>
     ((\<exists>f\<in>set fs. F f = F_pending) \<longrightarrow> n \<le> int (woken ws F))"

lemma side_less: "side fs ws F n \<Longrightarrow> m \<le> n \<Longrightarrow> side fs ws F m"
  by (auto simp: side_def)

lemma side_idle: "side fs ws F n \<Longrightarrow> m \<le> 0 \<Longrightarrow> side fs ws F m"
  by (auto simp: side_def)

lemma woken_other: "f \<notin> set ws \<Longrightarrow> woken ws (F(f := v)) = woken ws F"
  unfolding woken_def by (rule arg_cong [where f = length], rule filter_cong) auto

lemma woken_settle:
  assumes "F f \<noteq> F_done" "v \<noteq> F_done"
  shows "woken ws (F(f := v)) = woken ws F"
  unfolding woken_def by (rule arg_cong [where f = length], rule filter_cong) (use assms in auto)

lemma woken_wake: "distinct ws \<Longrightarrow> f \<in> set ws \<Longrightarrow> F f = F_pending \<Longrightarrow> woken ws (F(f := F_done)) = woken ws F + 1"
proof (induction ws)
  case (Cons w ws)
  show ?case
  proof (cases "w = f")
    case True
    then have "f \<notin> set ws" using Cons.prems by simp
    with True Cons.prems show ?thesis using woken_other [of f ws F F_done] by (simp add: woken_def)
  next
    case False
    with Cons show ?thesis by (auto simp: woken_def)
  qed
qed simp

lemma woken_remove: "f \<in> set ws \<Longrightarrow> woken ws F = woken (remove1 f ws) F + (if F f = F_done then 1 else 0)"
  by (induction ws) (auto simp: woken_def)

lemma woken_pos: "f \<in> set ws \<Longrightarrow> F f = F_done \<Longrightarrow> 0 < woken ws F"
  by (auto simp: woken_def length_greater_0_conv filter_empty_conv simp del: length_greater_0_conv)

text \<open>A future settled for somebody else does not matter.\<close>

lemma side_other: "side fs ws F n \<Longrightarrow> f \<notin> set ws \<Longrightarrow> v \<noteq> F_pending \<Longrightarrow> side fs ws (F(f := v)) n"
  by (auto simp: side_def woken_other)

lemma side_settle:
  "side fs ws F n \<Longrightarrow> F f = F_pending \<Longrightarrow> v = F_cancelled \<or> v = F_dead \<Longrightarrow> side fs ws (F(f := v)) n"
  using woken_settle [of F f v ws] by (auto simp: side_def)

lemma wake_next_cases:
  obtains "wake_next fs F = ([], F)" "\<And>f. f \<in> set fs \<Longrightarrow> F f \<noteq> F_pending"
  | f pre post where "fs = pre @ f # post" "F f = F_pending" "\<And>g. g \<in> set pre \<Longrightarrow> F g \<noteq> F_pending"
      "wake_next fs F = (post, F(f := F_done))"
proof (induction fs arbitrary: thesis)
  case (Cons g fs)
  show ?case
  proof (cases "F g = F_pending")
    case True
    then have "wake_next (g # fs) F = (fs, F(g := F_done))" by simp
    with True Cons.prems(2) [of "[]" g fs] show ?thesis by (metis append_Nil empty_iff list.set(1))
  next
    case False
    show ?thesis
    proof (rule Cons.IH)
      assume "wake_next fs F = ([], F)" "\<And>f. f \<in> set fs \<Longrightarrow> F f \<noteq> F_pending"
      with False Cons.prems(1) show ?thesis by auto
    next
      fix f pre post
      assume a: "fs = pre @ f # post" "F f = F_pending" "\<And>g. g \<in> set pre \<Longrightarrow> F g \<noteq> F_pending"
        "wake_next fs F = (post, F(f := F_done))"
      show ?thesis
      proof (rule Cons.prems(2) [of "g # pre" f post])
        show "wake_next (g # fs) F = (post, F(f := F_done))" using False a(4) by simp
      qed (use False a in auto)
    qed
  qed
qed simp

text \<open>A wake makes room for one more.\<close>

lemma side_wake:
  assumes s: "side fs ws F n" and w: "wake_next fs F = (fs', F')"
  shows "side fs' ws F' (n + 1)" "F' = F \<or> (\<exists>f. F' = F(f := F_done) \<and> f \<in> set ws \<and> F f = F_pending)"
    "set fs' \<subseteq> set fs"
proof -
  have "side fs' ws F' (n + 1) \<and> (F' = F \<or> (\<exists>f. F' = F(f := F_done) \<and> f \<in> set ws \<and> F f = F_pending)) \<and> set fs' \<subseteq> set fs"
  proof (cases rule: wake_next_cases [of fs F])
    case 1
    with s w show ?thesis by (auto simp: side_def)
  next
    case (2 f pre post)
    then have e: "fs' = post" "F' = F(f := F_done)" using w by auto
    have f: "f \<in> set ws" using s 2(1,2) by (auto simp: side_def)
    have d: "distinct ws" using s by (simp add: side_def)
    have "woken ws F' = woken ws F + 1" unfolding e using woken_wake [of ws f F] d f 2(2) by simp
    moreover have "n \<le> int (woken ws F)" using s 2(1,2) by (auto simp: side_def)
    moreover have "g \<in> set post \<longleftrightarrow> g \<in> set ws" if "F' g = F_pending" for g
      using that s 2(1,3) e(2) by (auto simp: side_def split: if_splits)
    ultimately show ?thesis using d f 2 by (auto simp: side_def e)
  qed
  then show "side fs' ws F' (n + 1)" "F' = F \<or> (\<exists>f. F' = F(f := F_done) \<and> f \<in> set ws \<and> F f = F_pending)"
    "set fs' \<subseteq> set fs" by simp_all
qed

lemma side_park:
  assumes "side fs ws F n" "f \<notin> set fs" "f \<notin> set ws" "n \<le> 0"
  shows "side (fs @ [f]) (ws @ [f]) (F(f := F_pending)) n"
  using assms by (auto simp: side_def)

lemma side_run:
  assumes "side fs ws F n" "f \<in> set ws" "F f = F_done"
  shows "side fs (remove1 f ws) F (n - 1)"
proof -
  have "woken ws F = woken (remove1 f ws) F + 1" using woken_remove [OF assms(2), of F] assms(3) by simp
  then show ?thesis using assms by (auto simp: side_def distinct_remove1)
qed

lemma side_leave:
  assumes "side fs ws F n" "f \<in> set ws" "F f = F_cancelled \<or> F f = F_done"
  shows "side (remove1 f fs) (remove1 f ws) F (if F f = F_done then n - 1 else n)"
proof -
  have "side fs (remove1 f ws) F (if F f = F_done then n - 1 else n)"
  proof (cases "F f = F_done")
    case False
    then have "woken (remove1 f ws) F = woken ws F" using woken_remove [OF assms(2), of F] by simp
    with assms False show ?thesis by (auto simp: side_def distinct_remove1)
  qed (use side_run [OF assms(1,2)] in simp)
  moreover have "g \<in> set (remove1 f fs) \<longleftrightarrow> g \<in> set fs" if "F g = F_pending" for g
    using that assms(3) by (cases "g = f") auto
  ultimately show ?thesis unfolding side_def by (metis notin_set_remove1)
qed

section \<open>The invariant\<close>

definition room :: "'a fast_queue \<Rightarrow> int" where
  "room q = (if q_maxsize q > 0 then q_maxsize q - int (length (q_items q)) else 0)"

definition parked :: "'a queue_world \<Rightarrow> nat set" where
  "parked w = set (q_getters (w_queue w)) \<union> set (q_putters (w_queue w)) \<union> set (q_joiners (w_queue w)) \<union>
     set (w_getting w) \<union> fst ` set (w_putting w) \<union> set (w_joining w)"

text \<open>
  \<open>i\<close> and \<open>j\<close> are wakes owed: to getters, to putters.  A task that was woken and leaves its wait
  owes one until it has looked at the queue.
\<close>

definition queue_but :: "int \<Rightarrow> int \<Rightarrow> 'a queue_world \<Rightarrow> bool" where
  "queue_but i j w \<longleftrightarrow>
     side (q_getters (w_queue w)) (w_getting w) (w_futs w) (int (length (q_items (w_queue w))) - i) \<and>
     side (q_putters (w_queue w)) (map fst (w_putting w)) (w_futs w) (room (w_queue w) - j) \<and>
     side (q_joiners (w_queue w)) (w_joining w) (w_futs w) 0 \<and>
     (\<forall>f\<in>parked w. f < w_fresh w) \<and>
     set (w_getting w) \<inter> fst ` set (w_putting w) = {} \<and> set (w_getting w) \<inter> set (w_joining w) = {} \<and>
     fst ` set (w_putting w) \<inter> set (w_joining w) = {} \<and>
     (q_unfinished (w_queue w) = 0 \<longrightarrow> (\<forall>f\<in>set (q_joiners (w_queue w)). w_futs w f \<noteq> F_pending)) \<and>
     w_got w @ q_items (w_queue w) = w_put w \<and>
     (q_maxsize (w_queue w) > 0 \<longrightarrow> int (length (q_items (w_queue w))) \<le> q_maxsize (w_queue w)) \<and>
     q_unfinished (w_queue w) = int (length (w_put w)) - int (w_dones w) \<and> 0 \<le> q_unfinished (w_queue w)"

definition queue_inv :: "'a queue_world \<Rightarrow> bool" where
  "queue_inv w \<longleftrightarrow> queue_but 0 0 w"

lemma butD:
  assumes "queue_but i j w"
  shows "side (q_getters (w_queue w)) (w_getting w) (w_futs w) (int (length (q_items (w_queue w))) - i)"
    "side (q_putters (w_queue w)) (map fst (w_putting w)) (w_futs w) (room (w_queue w) - j)"
    "side (q_joiners (w_queue w)) (w_joining w) (w_futs w) 0" "f \<in> parked w \<Longrightarrow> f < w_fresh w"
    "set (w_getting w) \<inter> fst ` set (w_putting w) = {}" "set (w_getting w) \<inter> set (w_joining w) = {}"
    "fst ` set (w_putting w) \<inter> set (w_joining w) = {}"
    "q_unfinished (w_queue w) = 0 \<Longrightarrow> f \<in> set (q_joiners (w_queue w)) \<Longrightarrow> w_futs w f \<noteq> F_pending"
    "w_got w @ q_items (w_queue w) = w_put w"
    "q_maxsize (w_queue w) > 0 \<Longrightarrow> int (length (q_items (w_queue w))) \<le> q_maxsize (w_queue w)"
    "q_unfinished (w_queue w) = int (length (w_put w)) - int (w_dones w)" "0 \<le> q_unfinished (w_queue w)"
  using assms by (simp_all add: queue_but_def)

lemma queue_inv_but: "queue_inv w \<Longrightarrow> 0 \<le> i \<Longrightarrow> 0 \<le> j \<Longrightarrow> queue_but i j w"
  unfolding queue_inv_def queue_but_def by (auto elim: side_less)

lemma queue_inv_new: "queue_inv (queue_world_new n)"
  by (simp add: queue_inv_def queue_but_def queue_world_new_def queue_new_def side_def parked_def)

text \<open>A put that has room, and a get that finds an item.\<close>

lemma put_now_shape:
  assumes "put_now x q F = (q', F')"
  obtains fs where "wake_next (q_getters q) F = (fs, F')"
    "q' = q\<lparr>q_items := q_items q @ [x], q_unfinished := q_unfinished q + 1, q_getters := fs\<rparr>"
  using assms by (auto simp: put_now_def wake_getter_def split: prod.splits)

lemma inv_put:
  assumes inv: "queue_but 0 1 w" and p: "put_now x (w_queue w) (w_futs w) = (q', F')" and full: "\<not> is_full (w_queue w)"
  shows "queue_inv (w\<lparr>w_queue := q', w_futs := F', w_put := w_put w @ [x]\<rparr>)"
proof -
  from p obtain fs where wk: "wake_next (q_getters (w_queue w)) (w_futs w) = (fs, F')"
    and q': "q' = (w_queue w)\<lparr>q_items := q_items (w_queue w) @ [x], q_unfinished := q_unfinished (w_queue w) + 1,
      q_getters := fs\<rparr>" by (rule put_now_shape)
  have s: "side (q_getters (w_queue w)) (w_getting w) (w_futs w) (int (length (q_items (w_queue w))))"
    using inv by (simp add: queue_but_def)
  note sw = side_wake [OF s wk]
  have o: "side ps ws F' n" if "side ps ws (w_futs w) n" "set (w_getting w) \<inter> set ws = {}" for ps ws n
    using sw(2) side_other [OF that(1), of _ F_done] that by auto
  have "side (q_putters (w_queue w)) (map fst (w_putting w)) F' (room (w_queue w) - 1)"
    "side (q_joiners (w_queue w)) (w_joining w) F' 0"
    by (rule o; use inv in \<open>simp add: queue_but_def\<close>)+
  moreover have pend: "F' f = F_pending \<Longrightarrow> w_futs w f = F_pending" for f using sw(2) by (auto split: if_splits)
  moreover have "room q' \<le> room (w_queue w) - 1 \<or> room q' \<le> 0" by (simp add: room_def q')
  ultimately have "side (q_putters (w_queue w)) (map fst (w_putting w)) F' (room q')" "side (q_joiners (w_queue w)) (w_joining w) F' 0"
    using side_less side_idle by blast+
  then show ?thesis
    using inv sw(1,3) full unfolding queue_inv_def queue_but_def parked_def by (auto simp: q' is_full_def add.commute)
qed

lemma inv_get:
  assumes inv: "queue_but 1 0 w" and g: "get_now (w_queue w) (w_futs w) = (Some x, q', F')"
  shows "queue_inv (w\<lparr>w_queue := q', w_futs := F', w_got := w_got w @ [x]\<rparr>)"
proof -
  obtain xs where it: "q_items (w_queue w) = x # xs"
    and wk': "wake_putter ((w_queue w)\<lparr>q_items := xs\<rparr>) (w_futs w) = (q', F')"
    using g by (auto simp: get_now_def split: list.splits)
  then obtain fs where wk: "wake_next (q_putters (w_queue w)) (w_futs w) = (fs, F')"
    and q': "q' = (w_queue w)\<lparr>q_items := xs, q_putters := fs\<rparr>"
    by (auto simp: wake_putter_def split: prod.splits)
  have s: "side (q_putters (w_queue w)) (map fst (w_putting w)) (w_futs w) (room (w_queue w))"
    using inv by (simp add: queue_but_def)
  note sw = side_wake [OF s wk]
  have o: "side ps ws F' n" if "side ps ws (w_futs w) n" "fst ` set (w_putting w) \<inter> set ws = {}" for ps ws n
    using sw(2) side_other [OF that(1), of _ F_done] that by auto
  have "side (q_getters (w_queue w)) (w_getting w) F' (int (length (q_items (w_queue w))) - 1)"
    "side (q_joiners (w_queue w)) (w_joining w) F' 0"
    by (rule o; use inv in \<open>auto simp: queue_but_def\<close>)+
  then have "side (q_getters (w_queue w)) (w_getting w) F' (int (length xs))" "side (q_joiners (w_queue w)) (w_joining w) F' 0"
    by (simp_all add: it)
  moreover have pend: "F' f = F_pending \<Longrightarrow> w_futs w f = F_pending" for f using sw(2) by (auto split: if_splits)
  moreover have "room q' \<le> room (w_queue w) + 1" by (simp add: room_def q' it)
  then have "side fs (map fst (w_putting w)) F' (room q')" using side_less [OF sw(1)] by simp
  ultimately show ?thesis
    using inv sw(3) it unfolding queue_inv_def queue_but_def parked_def by (auto simp: q')
qed

lemma fresh_facts:
  assumes "queue_but i j w"
  shows "w_fresh w \<notin> set (q_getters (w_queue w))" "w_fresh w \<notin> set (q_putters (w_queue w))"
    "w_fresh w \<notin> set (q_joiners (w_queue w))" "w_fresh w \<notin> set (w_getting w)"
    "w_fresh w \<notin> fst ` set (w_putting w)" "w_fresh w \<notin> set (w_joining w)"
proof -
  have "w_fresh w \<notin> parked w" using assms by (auto simp: queue_but_def)
  then show "w_fresh w \<notin> set (q_getters (w_queue w))" "w_fresh w \<notin> set (q_putters (w_queue w))"
    "w_fresh w \<notin> set (q_joiners (w_queue w))" "w_fresh w \<notin> set (w_getting w)"
    "w_fresh w \<notin> fst ` set (w_putting w)" "w_fresh w \<notin> set (w_joining w)" by (simp_all add: parked_def)
qed

lemma side_fresh:
  "side ps ws F n \<Longrightarrow> f \<notin> set ps \<Longrightarrow> f \<notin> set ws \<Longrightarrow> side ps ws (F(f := F_pending)) n"
  by (auto simp: side_def woken_other)

lemma inv_park_get:
  assumes inv: "queue_but 1 0 w" and e: "q_items (w_queue w) = []"
  shows "queue_inv (w\<lparr>w_queue := park_getter (w_fresh w) (w_queue w), w_futs := (w_futs w)(w_fresh w := F_pending),
    w_getting := w_getting w @ [w_fresh w], w_fresh := w_fresh w + 1\<rparr>)"
proof -
  note fr = fresh_facts [OF inv]
  have "side (q_getters (w_queue w)) (w_getting w) (w_futs w) 0"
    using inv side_idle by (fastforce simp: queue_but_def)
  then have "side (q_getters (w_queue w) @ [w_fresh w]) (w_getting w @ [w_fresh w]) ((w_futs w)(w_fresh w := F_pending)) 0"
    by (rule side_park) (use fr in simp_all)
  moreover have "side (q_putters (w_queue w)) (map fst (w_putting w)) ((w_futs w)(w_fresh w := F_pending)) (room (w_queue w))"
    "side (q_joiners (w_queue w)) (w_joining w) ((w_futs w)(w_fresh w := F_pending)) 0"
    by (rule side_fresh; use inv fr in \<open>simp add: queue_but_def\<close>)+
  moreover have "room (w_queue w\<lparr>q_getters := q_getters (w_queue w) @ [w_fresh w]\<rparr>) = room (w_queue w)"
    by (simp add: room_def)
  moreover have "\<forall>f\<in>set (q_joiners (w_queue w)). ((w_futs w)(w_fresh w := F_pending)) f = w_futs w f" using fr by auto
  ultimately show ?thesis
    using inv e fr unfolding queue_inv_def queue_but_def parked_def park_getter_def
    by (simp add: ball_Un less_Suc_eq)
qed

lemma inv_park_put:
  assumes inv: "queue_but 0 1 w" and e: "is_full (w_queue w)"
  shows "queue_inv (w\<lparr>w_queue := park_putter (w_fresh w) (w_queue w), w_futs := (w_futs w)(w_fresh w := F_pending),
    w_putting := w_putting w @ [(w_fresh w, x)], w_fresh := w_fresh w + 1\<rparr>)"
proof -
  note fr = fresh_facts [OF inv]
  have r: "room (w_queue w) \<le> 0" using e by (simp add: room_def is_full_def)
  have "side (q_putters (w_queue w)) (map fst (w_putting w)) (w_futs w) (room (w_queue w))"
    using inv r side_idle by (auto simp: queue_but_def)
  then have "side (q_putters (w_queue w) @ [w_fresh w]) (map fst (w_putting w) @ [w_fresh w])
      ((w_futs w)(w_fresh w := F_pending)) (room (w_queue w))"
    by (rule side_park) (use fr r in simp_all)
  moreover have "side (q_getters (w_queue w)) (w_getting w) ((w_futs w)(w_fresh w := F_pending))
      (int (length (q_items (w_queue w))))"
    "side (q_joiners (w_queue w)) (w_joining w) ((w_futs w)(w_fresh w := F_pending)) 0"
    by (rule side_fresh; use inv fr in \<open>simp add: queue_but_def\<close>)+
  moreover have "room (w_queue w\<lparr>q_putters := q_putters (w_queue w) @ [w_fresh w]\<rparr>) = room (w_queue w)"
    by (simp add: room_def)
  moreover have "\<forall>f\<in>set (q_joiners (w_queue w)). ((w_futs w)(w_fresh w := F_pending)) f = w_futs w f" using fr by auto
  ultimately show ?thesis
    using inv fr unfolding queue_inv_def queue_but_def parked_def park_putter_def
    by (simp add: ball_Un less_Suc_eq)
qed

lemma inv_park_join:
  assumes inv: "queue_inv w" and e: "q_unfinished (w_queue w) \<noteq> 0"
  shows "queue_inv (w\<lparr>w_queue := park_joiner (w_fresh w) (w_queue w), w_futs := (w_futs w)(w_fresh w := F_pending),
    w_joining := w_joining w @ [w_fresh w], w_fresh := w_fresh w + 1\<rparr>)"
proof -
  have inv: "queue_but 0 0 w" using inv by (simp add: queue_inv_def)
  note fr = fresh_facts [OF inv]
  have "side (q_joiners (w_queue w) @ [w_fresh w]) (w_joining w @ [w_fresh w])
      ((w_futs w)(w_fresh w := F_pending)) 0"
    by (rule side_park) (use inv fr in \<open>simp_all add: queue_but_def\<close>)
  moreover have "side (q_getters (w_queue w)) (w_getting w) ((w_futs w)(w_fresh w := F_pending))
      (int (length (q_items (w_queue w))))"
    "side (q_putters (w_queue w)) (map fst (w_putting w)) ((w_futs w)(w_fresh w := F_pending)) (room (w_queue w))"
    by (rule side_fresh; use inv fr in \<open>simp add: queue_but_def\<close>)+
  moreover have "room (w_queue w\<lparr>q_joiners := q_joiners (w_queue w) @ [w_fresh w]\<rparr>) = room (w_queue w)"
    by (simp add: room_def)
  ultimately show ?thesis
    using inv fr e unfolding queue_inv_def queue_but_def parked_def park_joiner_def
    by (simp add: ball_Un less_Suc_eq)
qed

text \<open>A future is cancelled, or its loop is closed.\<close>

lemma inv_settle:
  assumes inv: "queue_inv w" and f: "w_futs w f = F_pending" "v = F_cancelled \<or> v = F_dead"
  shows "queue_inv (w\<lparr>w_futs := (w_futs w)(f := v)\<rparr>)"
proof -
  have s: "side ps ws (w_futs w) n \<Longrightarrow> side ps ws ((w_futs w)(f := v)) n" for ps ws n
    using side_settle [of ps ws "w_futs w" n f v] f by blast
  have p: "((w_futs w)(f := v)) g = F_pending \<Longrightarrow> w_futs w g = F_pending" for g using f by (auto split: if_splits)
  have "side (q_getters (w_queue w)) (w_getting w) ((w_futs w)(f := v)) (int (length (q_items (w_queue w))))"
    "side (q_putters (w_queue w)) (map fst (w_putting w)) ((w_futs w)(f := v)) (room (w_queue w))"
    "side (q_joiners (w_queue w)) (w_joining w) ((w_futs w)(f := v)) 0"
    by (rule s; use inv in \<open>simp add: queue_inv_def queue_but_def\<close>)+
  note sides = this
  have b: "queue_but 0 0 w" using inv by (simp add: queue_inv_def)
  have "parked (w\<lparr>w_futs := (w_futs w)(f := v)\<rparr>) = parked w" by (simp add: parked_def)
  then show ?thesis
    using butD(4-7,9-12) [OF b] butD(8) [OF b] p sides f(2) unfolding queue_inv_def queue_but_def by simp blast
qed

text \<open>A task leaves its wait, with its place among the parked or without.\<close>

lemma map_fst_filter: "distinct (map fst ps) \<Longrightarrow> map fst (filter (\<lambda>p. fst p \<noteq> f) ps) = remove1 f (map fst ps)"
proof (induction ps)
  case (Cons p ps)
  show ?case
  proof (cases "fst p = f")
    case True
    then have "filter (\<lambda>p. fst p \<noteq> f) ps = ps" using Cons.prems by (auto simp: filter_id_conv image_iff)
    with True show ?thesis by simp
  qed (use Cons in simp)
qed simp

lemma but_getting:
  assumes inv: "queue_inv w" and f: "f \<in> set (w_getting w)"
    and g: "side gs (remove1 f (w_getting w)) (w_futs w) (int (length (q_items (w_queue w))) - i)"
      "set gs \<subseteq> set (q_getters (w_queue w))"
  shows "queue_but i 0 (w\<lparr>w_queue := (w_queue w)\<lparr>q_getters := gs\<rparr>, w_getting := remove1 f (w_getting w)\<rparr>)"
proof -
  let ?w = "w\<lparr>w_queue := (w_queue w)\<lparr>q_getters := gs\<rparr>, w_getting := remove1 f (w_getting w)\<rparr>"
  have b: "queue_but 0 0 w" using inv by (simp add: queue_inv_def)
  have sub: "set (remove1 f (w_getting w)) \<subseteq> set (w_getting w)" by (rule set_remove1_subset)
  have "parked ?w \<subseteq> parked w" using sub g(2) by (auto simp: parked_def)
  then have "\<forall>f\<in>parked ?w. f < w_fresh w" using butD(4) [OF b] by blast
  moreover have "set (remove1 f (w_getting w)) \<inter> fst ` set (w_putting w) = {}"
    "set (remove1 f (w_getting w)) \<inter> set (w_joining w) = {}" using sub butD(5,6) [OF b] by blast+
  moreover have "room ((w_queue w)\<lparr>q_getters := gs\<rparr>) = room (w_queue w)" by (simp add: room_def)
  ultimately show ?thesis
    using g(1) butD(2,3,7,9-12) [OF b] butD(8) [OF b] unfolding queue_but_def by simp
qed

lemma but_putting:
  assumes inv: "queue_inv w" and f: "f \<in> fst ` set (w_putting w)"
    and g: "side ps (remove1 f (map fst (w_putting w))) (w_futs w) (room (w_queue w) - j)"
      "set ps \<subseteq> set (q_putters (w_queue w))"
  shows "queue_but 0 j (w\<lparr>w_queue := (w_queue w)\<lparr>q_putters := ps\<rparr>,
    w_putting := filter (\<lambda>p. fst p \<noteq> f) (w_putting w)\<rparr>)"
proof -
  let ?w = "w\<lparr>w_queue := (w_queue w)\<lparr>q_putters := ps\<rparr>, w_putting := filter (\<lambda>p. fst p \<noteq> f) (w_putting w)\<rparr>"
  have b: "queue_but 0 0 w" using inv by (simp add: queue_inv_def)
  have m: "map fst (filter (\<lambda>p. fst p \<noteq> f) (w_putting w)) = remove1 f (map fst (w_putting w))"
    by (rule map_fst_filter) (use butD(2) [OF b] in \<open>simp add: side_def\<close>)
  have sub: "fst ` set (filter (\<lambda>p. fst p \<noteq> f) (w_putting w)) \<subseteq> fst ` set (w_putting w)" by auto
  have "parked ?w \<subseteq> parked w" using sub g(2) by (auto simp: parked_def)
  then have "\<forall>f\<in>parked ?w. f < w_fresh w" using butD(4) [OF b] by blast
  moreover have "set (w_getting w) \<inter> fst ` set (filter (\<lambda>p. fst p \<noteq> f) (w_putting w)) = {}"
    "fst ` set (filter (\<lambda>p. fst p \<noteq> f) (w_putting w)) \<inter> set (w_joining w) = {}" using sub butD(5,7) [OF b] by blast+
  moreover have "room ((w_queue w)\<lparr>q_putters := ps\<rparr>) = room (w_queue w)" by (simp add: room_def)
  ultimately show ?thesis
    using g(1) m butD(1,3,6,9-12) [OF b] butD(8) [OF b] unfolding queue_but_def by simp
qed

text \<open>A wake pays what is owed.\<close>

lemma pay_getter:
  assumes b: "queue_but 1 0 w" and k: "wake_getter (w_queue w) (w_futs w) = (q', F')"
  shows "queue_inv (w\<lparr>w_queue := q', w_futs := F'\<rparr>)"
proof -
  obtain fs where wk: "wake_next (q_getters (w_queue w)) (w_futs w) = (fs, F')"
    and q': "q' = (w_queue w)\<lparr>q_getters := fs\<rparr>" using k by (auto simp: wake_getter_def split: prod.splits)
  note sw = side_wake [OF butD(1) [OF b] wk]
  let ?w = "w\<lparr>w_queue := q', w_futs := F'\<rparr>"
  have o: "side ps ws F' n" if "side ps ws (w_futs w) n" "set (w_getting w) \<inter> set ws = {}" for ps ws n
    using sw(2) side_other [OF that(1), of _ F_done] that by auto
  have "side (q_putters (w_queue w)) (map fst (w_putting w)) F' (room (w_queue w))"
    "side (q_joiners (w_queue w)) (w_joining w) F' 0"
    by (rule o; use butD [OF b] in simp)+
  moreover have "F' f = F_pending \<Longrightarrow> w_futs w f = F_pending" for f using sw(2) by (auto split: if_splits)
  moreover have "parked ?w \<subseteq> parked w" using sw(3) by (auto simp: parked_def q')
  then have "\<forall>f\<in>parked ?w. f < w_fresh w" using butD(4) [OF b] by blast
  moreover have "room q' = room (w_queue w)" by (simp add: room_def q')
  ultimately show ?thesis
    using sw(1) butD(5-7,9-12) [OF b] butD(8) [OF b] unfolding queue_inv_def queue_but_def by (simp add: q') blast
qed

lemma pay_putter:
  assumes b: "queue_but 0 1 w" and k: "wake_putter (w_queue w) (w_futs w) = (q', F')"
  shows "queue_inv (w\<lparr>w_queue := q', w_futs := F'\<rparr>)"
proof -
  obtain fs where wk: "wake_next (q_putters (w_queue w)) (w_futs w) = (fs, F')"
    and q': "q' = (w_queue w)\<lparr>q_putters := fs\<rparr>" using k by (auto simp: wake_putter_def split: prod.splits)
  note sw = side_wake [OF butD(2) [OF b] wk]
  let ?w = "w\<lparr>w_queue := q', w_futs := F'\<rparr>"
  have o: "side ps ws F' n" if "side ps ws (w_futs w) n" "fst ` set (w_putting w) \<inter> set ws = {}" for ps ws n
    using sw(2) side_other [OF that(1), of _ F_done] that by auto
  have "side (q_getters (w_queue w)) (w_getting w) F' (int (length (q_items (w_queue w))))"
    "side (q_joiners (w_queue w)) (w_joining w) F' 0"
    by (rule o; use butD [OF b] in \<open>simp add: Int_commute\<close>)+
  moreover have "F' f = F_pending \<Longrightarrow> w_futs w f = F_pending" for f using sw(2) by (auto split: if_splits)
  moreover have "parked ?w \<subseteq> parked w" using sw(3) by (auto simp: parked_def q')
  then have "\<forall>f\<in>parked ?w. f < w_fresh w" using butD(4) [OF b] by blast
  moreover have "room q' = room (w_queue w)" by (simp add: room_def q')
  ultimately show ?thesis
    using sw(1) butD(5-7,9-12) [OF b] butD(8) [OF b] unfolding queue_inv_def queue_but_def by (simp add: q') blast
qed

text \<open>When there is nothing to be had, nothing is owed.\<close>

lemma owed_nothing:
  assumes "queue_but i j w" "q_items (w_queue w) = [] \<or> i = 0" "room (w_queue w) \<le> 0 \<or> j = 0"
  shows "queue_inv w"
proof -
  have "side (q_getters (w_queue w)) (w_getting w) (w_futs w) (int (length (q_items (w_queue w))))"
    using butD(1) [OF assms(1)] assms(2) side_idle [OF butD(1) [OF assms(1)]] by auto
  moreover have "side (q_putters (w_queue w)) (map fst (w_putting w)) (w_futs w) (room (w_queue w))"
    using butD(2) [OF assms(1)] assms(3) side_idle [OF butD(2) [OF assms(1)]] by auto
  ultimately show ?thesis using assms(1) by (simp add: queue_inv_def queue_but_def)
qed

lemma room_full: "\<not> is_full q \<or> room q \<le> 0"
  by (auto simp: is_full_def room_def)

lemma inv_get_round: "queue_but 1 0 w \<Longrightarrow> queue_inv (get_round w)"
proof -
  assume b: "queue_but 1 0 w"
  obtain r q F where g: "get_now (w_queue w) (w_futs w) = (r, q, F)" by (cases "get_now (w_queue w) (w_futs w)")
  show ?thesis
  proof (cases r)
    case None
    then have "q_items (w_queue w) = []" "q = w_queue w" "F = w_futs w"
      using g by (auto simp: get_now_def split: list.splits prod.splits)
    with inv_park_get [OF b] g None show ?thesis by (simp add: get_round_def)
  next
    case (Some x)
    with inv_get [OF b] g show ?thesis by (simp add: get_round_def)
  qed
qed

lemma inv_put_round: "queue_but 0 1 w \<Longrightarrow> queue_inv (put_round x w)"
proof -
  assume b: "queue_but 0 1 w"
  show ?thesis
  proof (cases "is_full (w_queue w)")
    case True
    with inv_park_put [OF b] show ?thesis by (simp add: put_round_def try_put_def)
  next
    case False
    obtain q F where p: "put_now x (w_queue w) (w_futs w) = (q, F)" by fastforce
    from inv_put [OF b p False] False p show ?thesis by (simp add: put_round_def try_put_def)
  qed
qed

lemma same_getters: "w\<lparr>w_queue := (w_queue w)\<lparr>q_getters := q_getters (w_queue w)\<rparr>, w_getting := x\<rparr> = w\<lparr>w_getting := x\<rparr>"
  "w\<lparr>w_queue := (w_queue w)\<lparr>q_putters := q_putters (w_queue w)\<rparr>, w_putting := y\<rparr> = w\<lparr>w_putting := y\<rparr>"
  by simp_all

lemma inv_resume: "queue_inv w \<Longrightarrow> queue_inv (resume_task f w)"
proof -
  assume inv: "queue_inv w"
  then have b: "queue_but 0 0 w" by (simp add: queue_inv_def)
  consider (idle) "resume_task f w = w"
    | (get) "w_futs w f = F_done" "f \<in> set (w_getting w)"
        "resume_task f w = get_round (w\<lparr>w_getting := remove1 f (w_getting w)\<rparr>)"
    | (put) x where "w_futs w f = F_done" "f \<in> fst ` set (w_putting w)"
        "resume_task f w = put_round x (w\<lparr>w_putting := filter (\<lambda>p. fst p \<noteq> f) (w_putting w)\<rparr>)"
  proof (cases "w_futs w f = F_done \<and> f \<notin> set (w_getting w)")
    case True
    then show thesis
    proof (cases "map_of (w_putting w) f")
      case None
      with True idle show thesis by (simp add: resume_task_def)
    next
      case (Some x)
      then have "f \<in> fst ` set (w_putting w)" by (metis domI dom_map_of_conv_image_fst)
      with True Some put show thesis by (simp add: resume_task_def)
    qed
  next
    case False
    then consider "w_futs w f \<noteq> F_done" | "w_futs w f = F_done" "f \<in> set (w_getting w)" by blast
    then show thesis using idle get by cases (simp_all add: resume_task_def)
  qed
  then show ?thesis
  proof cases
    case get
    have "side (q_getters (w_queue w)) (remove1 f (w_getting w)) (w_futs w) (int (length (q_items (w_queue w))) - 1)"
      using side_run [of _ _ "w_futs w", OF butD(1) [OF b] get(2,1)] by simp
    from but_getting [OF inv get(2) this] show ?thesis
      unfolding get(3) same_getters by (intro inv_get_round) simp
  next
    case (put x)
    have "side (q_putters (w_queue w)) (remove1 f (map fst (w_putting w))) (w_futs w) (room (w_queue w) - 1)"
      using side_run [of _ _ "w_futs w", OF butD(2) [OF b] _ put(1)] put(2) by simp
    from but_putting [OF inv put(2) this] show ?thesis
      unfolding put(3) same_getters by (intro inv_put_round) simp
  qed (use inv in simp)
qed

lemma inv_throw: "queue_inv w \<Longrightarrow> queue_inv (throw_task f w)"
proof -
  assume inv: "queue_inv w"
  then have b: "queue_but 0 0 w" by (simp add: queue_inv_def)
  define d :: int where "d = (if w_futs w f = F_done then 1 else 0)"
  show ?thesis
  proof (cases "w_futs w f = F_done \<or> w_futs w f = F_cancelled")
    case False
    then show ?thesis using inv by (simp add: throw_task_def)
  next
    case st: True
    then have same: "fut_cancel f (w_futs w) = w_futs w" by (auto simp: fut_cancel_def)
    consider (get) "f \<in> set (w_getting w)" | (put) "f \<notin> set (w_getting w)" "f \<in> fst ` set (w_putting w)"
      | (no) "f \<notin> set (w_getting w)" "f \<notin> fst ` set (w_putting w)" by blast
    then show ?thesis
    proof cases
      case get
      let ?w = "w\<lparr>w_queue := (w_queue w)\<lparr>q_getters := remove1 f (q_getters (w_queue w))\<rparr>,
        w_getting := remove1 f (w_getting w)\<rparr>"
      have "side (remove1 f (q_getters (w_queue w))) (remove1 f (w_getting w)) (w_futs w)
          (int (length (q_items (w_queue w))) - d)"
        using side_leave [of _ _ "w_futs w", OF butD(1) [OF b] get] st by (auto simp: d_def)
      from but_getting [OF inv get this set_remove1_subset] have o: "queue_but d 0 ?w" .
      show ?thesis
      proof (cases "q_items (w_queue w) \<noteq> [] \<and> w_futs w f \<noteq> F_cancelled")
        case True
        then have "d = 1" using st by (simp add: d_def)
        obtain q F where k: "wake_getter (w_queue ?w) (w_futs ?w) = (q, F)" by fastforce
        have "throw_task f w = ?w\<lparr>w_queue := q, w_futs := F\<rparr>"
          by (rule queue_world.equality)
            (use st get True k same in \<open>auto simp: throw_task_def getter_recovery_def\<close>)
        moreover have "queue_inv (?w\<lparr>w_queue := q, w_futs := F\<rparr>)"
          by (rule pay_getter [OF _ k]) (use o \<open>d = 1\<close> in simp)
        ultimately show ?thesis by (simp only:)
      next
        case False
        then have "queue_inv ?w" by (intro owed_nothing [OF o]) (auto simp: d_def)
        with st get False same show ?thesis by (auto simp: throw_task_def getter_recovery_def)
      qed
    next
      case put
      let ?w = "w\<lparr>w_queue := (w_queue w)\<lparr>q_putters := remove1 f (q_putters (w_queue w))\<rparr>,
        w_putting := filter (\<lambda>p. fst p \<noteq> f) (w_putting w)\<rparr>"
      have "side (remove1 f (q_putters (w_queue w))) (remove1 f (map fst (w_putting w))) (w_futs w)
          (room (w_queue w) - d)"
        using side_leave [of _ _ "w_futs w" _ f, OF butD(2) [OF b]] put(2) st by (cases "w_futs w f = F_done") (simp_all add: d_def)
      from but_putting [OF inv put(2) this set_remove1_subset] have o: "queue_but 0 d ?w" .
      show ?thesis
      proof (cases "\<not> is_full (w_queue w) \<and> w_futs w f \<noteq> F_cancelled")
        case True
        then have "d = 1" using st by (simp add: d_def)
        obtain q F where k: "wake_putter (w_queue ?w) (w_futs ?w) = (q, F)" by fastforce
        have "throw_task f w = ?w\<lparr>w_queue := q, w_futs := F\<rparr>"
          by (rule queue_world.equality)
            (use st put True k same in \<open>auto simp: throw_task_def putter_recovery_def is_full_def\<close>)
        moreover have "queue_inv (?w\<lparr>w_queue := q, w_futs := F\<rparr>)"
          by (rule pay_putter [OF _ k]) (use o \<open>d = 1\<close> in simp)
        ultimately show ?thesis by (simp only:)
      next
        case False
        then have "queue_inv ?w"
          by (intro owed_nothing [OF o]) (use room_full [of "w_queue ?w"] in \<open>auto simp: d_def is_full_def room_def\<close>)
        with st put False same show ?thesis by (auto simp: throw_task_def putter_recovery_def is_full_def)
      qed
    qed (use st inv in \<open>auto simp: throw_task_def\<close>)
  qed
qed

text \<open>\<open>task_done\<close> at zero wakes every joiner.\<close>

lemma wake_all_futs: "wake_all fs F f = (if f \<in> set fs \<and> F f = F_pending then F_done else F f)"
  by (induction fs F rule: wake_all.induct) auto

lemma woken_cong: "(\<And>f. f \<in> set ws \<Longrightarrow> F' f = F f) \<Longrightarrow> woken ws F' = woken ws F"
  unfolding woken_def by (rule arg_cong [where f = length], rule filter_cong) auto

lemma side_wake_all:
  assumes s: "side ps ws F n" and j: "side js gs F 0" and d: "set ws \<inter> set gs = {}"
  shows "side ps ws (wake_all js F) n"
proof -
  have same: "wake_all js F f = F f" if "f \<in> set ws" for f
    using that j d unfolding wake_all_futs side_def by auto
  have "f \<in> set ps \<longleftrightarrow> f \<in> set ws" "F f = F_pending" if "wake_all js F f = F_pending" for f
    using that s by (auto simp: wake_all_futs side_def split: if_splits)
  then show ?thesis using s woken_cong [of ws "wake_all js F" F, OF same] unfolding side_def by auto
qed

lemma inv_task_done:
  assumes inv: "queue_inv w" and t: "task_done (w_queue w) (w_futs w) = (Inr u, q', F')"
  shows "queue_inv (w\<lparr>w_queue := q', w_futs := F', w_dones := w_dones w + 1\<rparr>)"
proof -
  have b: "queue_but 0 0 w" using inv by (simp add: queue_inv_def)
  have n: "0 < q_unfinished (w_queue w)" using t by (auto simp: task_done_def Let_def split: if_splits)
  show ?thesis
  proof (cases "q_unfinished (w_queue w) = 1")
    case False
    then have q': "q' = (w_queue w)\<lparr>q_unfinished := q_unfinished (w_queue w) - 1\<rparr>" "F' = w_futs w"
      using t n by (auto simp: task_done_def Let_def)
    have "room q' = room (w_queue w)" by (simp add: room_def q')
    moreover have "parked (w\<lparr>w_queue := q', w_futs := F', w_dones := w_dones w + 1\<rparr>) = parked w"
      by (simp add: parked_def q')
    ultimately show ?thesis
      using butD [OF b] n False unfolding queue_inv_def queue_but_def by (simp add: q')
  next
    case True
    let ?F = "wake_all (q_joiners (w_queue w)) (w_futs w)"
    have q': "q' = (w_queue w)\<lparr>q_unfinished := 0, q_joiners := []\<rparr>" "F' = ?F"
      using t True by (auto simp: task_done_def Let_def)
    have "side (q_getters (w_queue w)) (w_getting w) ?F (int (length (q_items (w_queue w))))"
      using side_wake_all [OF butD(1) [OF b] butD(3) [OF b] butD(6) [OF b]] by simp
    moreover have "side (q_putters (w_queue w)) (map fst (w_putting w)) ?F (room (w_queue w))"
      using side_wake_all [OF butD(2) [OF b] butD(3) [OF b]] butD(7) [OF b] by simp
    moreover have "side [] (w_joining w) ?F 0"
      using butD(3) [OF b] by (auto simp: side_def wake_all_futs split: if_splits)
    moreover have "room q' = room (w_queue w)" by (simp add: room_def q')
    moreover have "parked (w\<lparr>w_queue := q', w_futs := F', w_dones := w_dones w + 1\<rparr>) \<subseteq> parked w"
      by (auto simp: parked_def q')
    then have "\<forall>f\<in>parked (w\<lparr>w_queue := q', w_futs := F', w_dones := w_dones w + 1\<rparr>). f < w_fresh w"
      using butD(4) [OF b] by blast
    ultimately show ?thesis
      using butD(5-7,9-12) [OF b] True unfolding queue_inv_def queue_but_def by (simp add: q')
  qed
qed

lemma inv_joined:
  assumes inv: "queue_inv w" and f: "w_futs w f \<noteq> F_pending" "f \<in> set (w_joining w)"
  shows "queue_inv (w\<lparr>w_queue := unjoin f (w_queue w), w_joining := remove1 f (w_joining w)\<rparr>)"
proof -
  let ?w = "w\<lparr>w_queue := unjoin f (w_queue w), w_joining := remove1 f (w_joining w)\<rparr>"
  have b: "queue_but 0 0 w" using inv by (simp add: queue_inv_def)
  have sub: "set (remove1 f (w_joining w)) \<subseteq> set (w_joining w)"
    "set (remove1 f (q_joiners (w_queue w))) \<subseteq> set (q_joiners (w_queue w))" by (rule set_remove1_subset)+
  have "g \<in> set (remove1 f ws) \<longleftrightarrow> g \<in> set ws" if "w_futs w g = F_pending" for g ws
    using that f(1) by (cases "g = f") auto
  then have "side (remove1 f (q_joiners (w_queue w))) (remove1 f (w_joining w)) (w_futs w) 0"
    using butD(3) [OF b] f(1) unfolding side_def by (metis distinct_remove1 of_nat_0_le_iff)
  moreover have "parked ?w \<subseteq> parked w" using sub by (auto simp: parked_def unjoin_def)
  then have "\<forall>f\<in>parked ?w. f < w_fresh w" using butD(4) [OF b] by blast
  moreover have "room (unjoin f (w_queue w)) = room (w_queue w)" by (simp add: room_def unjoin_def)
  moreover have "set (w_getting w) \<inter> set (remove1 f (w_joining w)) = {}"
    "fst ` set (w_putting w) \<inter> set (remove1 f (w_joining w)) = {}" using sub butD(6,7) [OF b] by blast+
  moreover have "q_unfinished (w_queue w) = 0 \<Longrightarrow> g \<in> set (remove1 f (q_joiners (w_queue w))) \<Longrightarrow> w_futs w g \<noteq> F_pending" for g
    using butD(8) [OF b] sub(2) by blast
  ultimately show ?thesis
    using butD(1,2,5,9-12) [OF b] unfolding queue_inv_def queue_but_def by (simp add: unjoin_def)
qed

lemma inv_do: "queue_inv w \<Longrightarrow> queue_inv (queue_do a w)"
proof -
  assume inv: "queue_inv w"
  then have b: "queue_but 0 1 w" "queue_but 1 0 w" using queue_inv_but [OF inv, of 0 1] queue_inv_but [OF inv, of 1 0] by simp_all
  show ?thesis
  proof (cases a)
    case (Q_put_nowait x)
    obtain q F where p: "put_now x (w_queue w) (w_futs w) = (q, F)" by fastforce
    from inv_put [OF b(1) p] inv p show ?thesis by (simp add: Q_put_nowait put_nowait_def)
  next
    case Q_get_nowait
    obtain r q F where g: "get_now (w_queue w) (w_futs w) = (r, q, F)" by (cases "get_now (w_queue w) (w_futs w)")
    show ?thesis
    proof (cases r)
      case None
      with g inv show ?thesis by (simp add: Q_get_nowait get_nowait_def)
    next
      case (Some x)
      with inv_get [OF b(2)] g show ?thesis by (simp add: Q_get_nowait get_nowait_def)
    qed
  next
    case Q_task_done
    obtain r q F where t: "task_done (w_queue w) (w_futs w) = (r, q, F)" by (cases "task_done (w_queue w) (w_futs w)")
    show ?thesis
    proof (cases r)
      case (Inl e)
      with t inv show ?thesis by (simp add: Q_task_done)
    next
      case (Inr u)
      with inv_task_done [OF inv] t show ?thesis by (simp add: Q_task_done)
    qed
  next
    case (Q_cancel f)
    then show ?thesis using inv inv_settle [OF inv, of f F_cancelled] by (simp add: fut_cancel_def)
  next
    case (Q_die f)
    then show ?thesis using inv inv_settle [OF inv, of f F_dead] by simp
  next
    case (Q_joined f)
    then show ?thesis using inv inv_joined [OF inv, of f] by simp
  next
    case Q_join
    then show ?thesis using inv inv_park_join [OF inv] by simp
  qed (use inv b in \<open>simp_all add: inv_put_round inv_get_round inv_resume inv_throw\<close>)
qed

lemma queue_run_inv: "queue_inv (queue_run acts n)"
proof -
  have "queue_inv w \<Longrightarrow> queue_inv (fold queue_do acts w)" for w :: "'a queue_world"
    by (induction acts arbitrary: w) (simp_all add: inv_do)
  then show ?thesis by (simp add: queue_run_def queue_inv_new)
qed

section \<open>The theorems\<close>

text \<open>
  C37: no wake-up is lost.  While a task is parked in \<open>get()\<close> on a live loop, at least as many getters
  have been woken and not yet run as there are items; while one is parked in \<open>put()\<close>, at least as
  many putters as there are free places.  So once the woken tasks have run, nobody waits for
  what is there, whatever was cancelled and whichever loops were closed in between.
\<close>

theorem queue_no_lost_wakeup:
  "(f \<in> set (w_getting (queue_run acts n)) \<and> w_futs (queue_run acts n) f = F_pending \<longrightarrow>
      length (q_items (w_queue (queue_run acts n))) \<le>
        length (filter (\<lambda>g. w_futs (queue_run acts n) g = F_done) (w_getting (queue_run acts n)))) \<and>
    (f \<in> fst ` set (w_putting (queue_run acts n)) \<and> w_futs (queue_run acts n) f = F_pending \<longrightarrow>
      q_maxsize (w_queue (queue_run acts n)) - int (length (q_items (w_queue (queue_run acts n)))) \<le>
        int (length (filter (\<lambda>p. w_futs (queue_run acts n) (fst p) = F_done) (w_putting (queue_run acts n)))))"
proof -
  let ?w = "queue_run acts n"
  have b: "queue_but 0 0 ?w" using queue_run_inv [of acts n] by (simp add: queue_inv_def)
  have m: "woken (map fst ps) F = length (filter (\<lambda>p. F (fst p) = F_done) ps)" for ps :: "(nat \<times> 'a) list" and F
    by (simp add: woken_def filter_map comp_def)
  have r: "q_maxsize (w_queue ?w) - int (length (q_items (w_queue ?w))) \<le> room (w_queue ?w)" by (simp add: room_def)
  have "length (q_items (w_queue ?w)) \<le> woken (w_getting ?w) (w_futs ?w)"
    if "f \<in> set (w_getting ?w)" "w_futs ?w f = F_pending"
    using butD(1) [OF b] that by (auto simp: side_def)
  moreover have "room (w_queue ?w) \<le> int (woken (map fst (w_putting ?w)) (w_futs ?w))"
    if "f \<in> fst ` set (w_putting ?w)" "w_futs ?w f = F_pending"
  proof -
    have "f \<in> set (q_putters (w_queue ?w))" using butD(2) [OF b] that by (simp add: side_def)
    then show ?thesis using butD(2) [OF b] that by (auto simp: side_def)
  qed
  ultimately show ?thesis using r unfolding m by (auto simp: woken_def intro: order_trans)
qed

theorem queue_no_lost_wakeup_witness:
  "length (q_items (w_queue (queue_run [Q_get, Q_get, Q_put_nowait (5 :: nat)] 0))) \<le>
     length (filter (\<lambda>g. w_futs (queue_run [Q_get, Q_get, Q_put_nowait (5 :: nat)] 0) g = F_done)
       (w_getting (queue_run [Q_get, Q_get, Q_put_nowait (5 :: nat)] 0)))"
proof -
  have "(1 :: nat) \<in> set (w_getting (queue_run [Q_get, Q_get, Q_put_nowait (5 :: nat)] 0))"
    "w_futs (queue_run [Q_get, Q_get, Q_put_nowait (5 :: nat)] 0) 1 = F_pending"
    by (simp_all add: queue_run_def queue_world_new_def queue_new_def get_round_def get_now_def park_getter_def
        put_nowait_def is_full_def put_now_def wake_getter_def)
  then show ?thesis using queue_no_lost_wakeup [of 1 "[Q_get, Q_get, Q_put_nowait (5 :: nat)]" 0] by blast
qed

text \<open>
  C38: a queue is a queue.  What was got followed by what it holds is what was put, in order; it
  never holds more than its bound; the unfinished count is puts minus \<open>task_done\<close>s, never negative;
  and no task is left waiting in \<open>join()\<close> when the count is zero.
\<close>

theorem queue_is_fifo:
  "w_got (queue_run acts n) @ q_items (w_queue (queue_run acts n)) = w_put (queue_run acts n) \<and>
    (q_maxsize (w_queue (queue_run acts n)) \<le> 0 \<or>
       int (length (q_items (w_queue (queue_run acts n)))) \<le> q_maxsize (w_queue (queue_run acts n))) \<and>
    q_unfinished (w_queue (queue_run acts n)) =
      int (length (w_put (queue_run acts n))) - int (w_dones (queue_run acts n)) \<and>
    0 \<le> q_unfinished (w_queue (queue_run acts n)) \<and>
    \<not> (q_unfinished (w_queue (queue_run acts n)) = 0 \<and> f \<in> set (w_joining (queue_run acts n)) \<and>
       w_futs (queue_run acts n) f = F_pending)"
proof -
  let ?w = "queue_run acts n"
  have b: "queue_but 0 0 ?w" using queue_run_inv [of acts n] by (simp add: queue_inv_def)
  have "f \<in> set (w_joining ?w) \<Longrightarrow> w_futs ?w f = F_pending \<Longrightarrow> f \<in> set (q_joiners (w_queue ?w))"
    using butD(3) [OF b] by (auto simp: side_def)
  then have "\<not> (q_unfinished (w_queue ?w) = 0 \<and> f \<in> set (w_joining ?w) \<and> w_futs ?w f = F_pending)"
    using butD(8) [OF b] by blast
  moreover have "q_maxsize (w_queue ?w) \<le> 0 \<or> int (length (q_items (w_queue ?w))) \<le> q_maxsize (w_queue ?w)"
    using butD(10) [OF b] by linarith
  ultimately show ?thesis using butD(9,11,12) [OF b] by blast
qed

end
