(* ===== verification/State_Cell.thy ===== *)
theory State_Cell
  imports Prelude
begin

text \<open>
  The cell around the loop's state (\<open>pyshim/gil_boundary.rs\<close>): an owner thread while the loop runs,
  and a flag while somebody is inside.  The cell's operations come first; then the threads that
  use it, as a step relation over who holds the GIL, who is inside the cell, and who is parked in
  the poll with the GIL released.  A thread id is a positive number.
\<close>

section \<open>The cell\<close>

record 's state_cell =
  c_state :: 's
  c_owner :: nat
  c_borrowed :: bool





definition is_claimed :: "'s state_cell \<Rightarrow> bool" where
  "is_claimed c \<longleftrightarrow> c_owner c \<noteq> 0"





definition owned_by_other_thread :: "nat \<Rightarrow> 's state_cell \<Rightarrow> bool" where
  "owned_by_other_thread me c \<longleftrightarrow> c_owner c \<noteq> 0 \<and> c_owner c \<noteq> me"


section \<open>The threads\<close>







section \<open>Properties\<close>











end
