(* ===== verification/Core_Loop.thy ===== *)
theory Core_Loop
  imports Net_World Reactor_Props
begin

text \<open>
  The loop object (\<open>pyshim/coreloop.rs\<close>): the reactor and the transport layer under one roof, the
  phases of a tick, \<open>run_forever\<close> and the scheduling methods.  The backend and the handles' flags are
  one; the reactor and the transport layer each hold a copy that every operation writes through.

  A callback is Python code, and so is a protocol method: while one runs, and whenever another
  thread holds the GIL between two steps of the loop thread, the application may call any method.
  So a tick is a sequence of steps; \<open>lp_phase\<close> says what the loop thread does next, \<open>lp_handle\<close> and
  the world's \<open>w_call\<close> which Python code it waits for.  While the loop is parked the state cannot be
  reached (\<open>State_Cell\<close>), and what other threads do then arrives through the cross-thread queue.
\<close>

section \<open>State\<close>

datatype loop_phase = P_idle | P_top | P_ready | P_events | P_timers | P_late

datatype run_exit = Stopped | Poll_failed io_error | Interrupted

text \<open>
  A handle is a number, \<open>lp_next\<close> the next one.  History: \<open>lp_scheduled\<close> the callbacks in the order
  they became ready, \<open>lp_ran\<close> those taken to be run, \<open>lp_timed\<close> the timers scheduled, \<open>lp_fired\<close> those
  taken to be run, \<open>lp_buried\<close> the cancelled ones dropped, \<open>lp_broken\<close> whether a poll failed with work from other threads in the queue.
\<close>

record 'b core_loop =
  lp_reactor :: "(nat, 'b) reactor"
  lp_world :: "'b world"
  lp_closed :: bool
  lp_stopping :: bool
  lp_claimed :: bool
  lp_debug :: bool
  lp_tick_no :: "64 word"
  lp_phase :: loop_phase
  lp_batch :: "nat list"
  lp_timers :: nat
  lp_had_events :: bool
  lp_handle :: "nat option"
  lp_persistent :: "nat \<Rightarrow> bool"
  lp_exit :: "run_exit option"
  lp_next :: nat
  lp_scheduled :: "nat list"
  lp_ran :: "nat list"
  lp_timed :: "nat list"
  lp_fired :: "nat list"
  lp_buried :: "nat list"
  lp_broken :: bool

definition loop_new :: "reactor_config \<Rightarrow> 'b \<Rightarrow> ticks \<Rightarrow> 64 word \<Rightarrow> 'b core_loop" where
  "loop_new cfg b raw off = \<lparr>lp_reactor = reactor_new cfg b raw off store_new, lp_world = world_new b store_new,
     lp_closed = False, lp_stopping = False, lp_claimed = False, lp_debug = False, lp_tick_no = 0,
     lp_phase = P_idle, lp_batch = [], lp_timers = 0, lp_had_events = False, lp_handle = None,
     lp_persistent = (\<lambda>_. False), lp_exit = None, lp_next = 0, lp_scheduled = [], lp_ran = [],
     lp_timed = [], lp_fired = [], lp_buried = [], lp_broken = False\<rparr>"

record 'b loop_ops =
  lo_sock :: "'b sock_ops"
  lo_bk :: "'b backend_ops"

text \<open>An operation of the reactor, and one of the transport layer (\<open>with_net\<close>).\<close>

definition put_reactor :: "(nat, 'b) reactor \<Rightarrow> 'b core_loop \<Rightarrow> 'b core_loop" where
  "put_reactor r l = l\<lparr>lp_reactor := r,
     lp_world := on_net (\<lambda>s. s\<lparr>n_handles := rstore r, n_bk := rbackend r\<rparr>) (lp_world l)\<rparr>"

definition on_reactor :: "((nat, 'b) reactor \<Rightarrow> (nat, 'b) reactor) \<Rightarrow> 'b core_loop \<Rightarrow> 'b core_loop" where
  "on_reactor f l = put_reactor (f (lp_reactor l)) l"

definition in_net :: "'b loop_ops \<Rightarrow> 'b action \<Rightarrow> 'b core_loop \<Rightarrow> 'b core_loop" where
  "in_net k a l =
     (let w = net_do (lo_sock k) a (lp_world l)
      in l\<lparr>lp_world := w,
           lp_reactor := (lp_reactor l)\<lparr>rstore := n_handles (w_net w), rbackend := n_bk (w_net w)\<rparr>\<rparr>)"

definition on_store :: "(nat hstore \<Rightarrow> nat hstore) \<Rightarrow> 'b core_loop \<Rightarrow> 'b core_loop" where
  "on_store f l = on_reactor (\<lambda>r. r\<lparr>rstore := f (rstore r)\<rparr>) l"

section \<open>Scheduling\<close>

definition handle_new :: "nat \<Rightarrow> nat hstore \<Rightarrow> nat hstore" where
  "handle_new h st = st\<lparr>cancelled := (cancelled st)(h := False), scheduled := (scheduled st)(h := False),
     refs_held := (refs_held st)(h := True)\<rparr>"

definition make_handle :: "bool \<Rightarrow> 'b core_loop \<Rightarrow> nat \<times> 'b core_loop" where
  "make_handle persistent l =
     (let h = lp_next l
      in (h, (on_store (handle_new h) l)\<lparr>lp_next := h + 1, lp_persistent := (lp_persistent l)(h := persistent)\<rparr>))"

text \<open>\<open>refused\<close>: the state cell refuses the caller, because the loop is parked in its poll.\<close>

definition enqueue_soon :: "bool \<Rightarrow> nat \<Rightarrow> 'b core_loop \<Rightarrow> 'b core_loop" where
  "enqueue_soon refused h l =
     (let l = l\<lparr>lp_scheduled := lp_scheduled l @ [h]\<rparr>
      in if \<not> refused then on_reactor (push_ready h) l
         else on_reactor (\<lambda>r. r\<lparr>rxthread := snd (xt_push h (rxthread r))\<rparr>) l)"

definition schedule_timer :: "bool \<Rightarrow> ticks \<Rightarrow> nat \<Rightarrow> 'b core_loop \<Rightarrow> 'b core_loop" where
  "schedule_timer refused d h l =
     (let l = on_store (mark_scheduled h) (l\<lparr>lp_timed := lp_timed l @ [h]\<rparr>)
      in if \<not> refused then on_reactor (r_schedule_timer d h) l
         else on_reactor (\<lambda>r. r\<lparr>rxthread := snd (xt_push_timer d h (rxthread r))\<rparr>) l)"

text \<open>\<open>other\<close>: the caller is not the thread that runs the loop.\<close>

definition check_thread :: "bool \<Rightarrow> 'b core_loop \<Rightarrow> bool" where
  "check_thread other l \<longleftrightarrow> \<not> (lp_debug l \<and> lp_claimed l \<and> other)"

definition call_soon_threadsafe :: "bool \<Rightarrow> 'b core_loop \<Rightarrow> 'b core_loop" where
  "call_soon_threadsafe refused l =
     (if lp_closed l then l else (let (h, l) = make_handle False l in enqueue_soon refused h l))"

definition call_soon :: "bool \<Rightarrow> bool \<Rightarrow> 'b core_loop \<Rightarrow> 'b core_loop" where
  "call_soon refused other l =
     (if lp_closed l \<or> \<not> check_thread other l then l
      else (let (h, l) = make_handle False l in enqueue_soon refused h l))"

definition call_at :: "bool \<Rightarrow> bool \<Rightarrow> ticks \<Rightarrow> 'b core_loop \<Rightarrow> 'b core_loop" where
  "call_at refused other d l =
     (if lp_closed l \<or> \<not> check_thread other l then l
      else (let (h, l) = make_handle False l in schedule_timer refused d h l))"

definition cancel_handle :: "nat \<Rightarrow> 'b core_loop \<Rightarrow> 'b core_loop" where
  "cancel_handle h l = (if h < lp_next l then on_store (timer_cancel h) l else l)"

definition loop_stop :: "'b core_loop \<Rightarrow> 'b core_loop" where
  "loop_stop l = l\<lparr>lp_stopping := True\<rparr>"

definition loop_add_reader :: "'b loop_ops \<Rightarrow> raw_socket \<Rightarrow> 'b core_loop \<Rightarrow> 'b core_loop" where
  "loop_add_reader k fd l =
     (if lp_closed l then l else (let (h, l) = make_handle True l in in_net k (A_add_reader fd h) l))"

definition loop_add_writer :: "'b loop_ops \<Rightarrow> raw_socket \<Rightarrow> 'b core_loop \<Rightarrow> 'b core_loop" where
  "loop_add_writer k fd l =
     (if lp_closed l then l else (let (h, l) = make_handle True l in in_net k (A_add_writer fd h) l))"

section \<open>The phases of a tick\<close>

text \<open>What other threads do while the loop is parked.\<close>

datatype arrival = Arr_soon bool | Arr_threadsafe | Arr_at bool ticks | Arr_cancel nat | Arr_stop

fun arrive :: "arrival \<Rightarrow> 'b core_loop \<Rightarrow> 'b core_loop" where
  "arrive (Arr_soon other) l = call_soon True other l"
| "arrive Arr_threadsafe l = call_soon_threadsafe True l"
| "arrive (Arr_at other d) l = call_at True other d l"
| "arrive (Arr_cancel h) l = cancel_handle h l"
| "arrive Arr_stop l = loop_stop l"

text \<open>
  The platform during a tick: clock readings, the looks of the spin (elapsed time, arrivals by
  then), the arrivals of the whole park, the order the hash maps yield listeners and endpoints in,
  and whether a signal handler raised.
\<close>

record tick_env =
  te_prepare :: ticks
  te_timeout :: ticks
  te_cached :: ticks
  te_poll :: ticks
  te_looks :: "(duration \<times> nat) list"
  te_spun :: duration
  te_after :: ticks
  te_arrivals :: "arrival list"
  te_finish :: ticks
  te_lids :: "nat list"
  te_dids :: "nat list"
  te_signal :: bool

definition r_time_cached :: "ticks \<Rightarrow> (nat, 'b) reactor \<Rightarrow> ticks" where
  "r_time_cached raw r = fst (clock_cached raw (rclock r))"

definition tick_timeout :: "tick_env \<Rightarrow> 'b core_loop \<Rightarrow> duration \<times> 'b core_loop" where
  "tick_timeout env l =
     (let s = w_net (lp_world l)
      in if lp_stopping l \<or> n_events s \<noteq> [] then (0, l)
         else
           (let (t, r) = poll_timeout (te_timeout env) (lp_reactor l); l = put_reactor r l
            in if n_any_starved s
               then (min t (starved_retry_in (te_lids env) (te_dids env) (unat (r_time_cached (te_cached env) r)) s), l)
               else (t, l)))"

definition tick_poll ::
  "'b loop_ops \<Rightarrow> tick_env \<Rightarrow> duration \<Rightarrow> 'b core_loop \<Rightarrow> (io_error + bool) \<times> 'b core_loop" where
  "tick_poll k env timeout l =
     (if timeout = 0 then
        (let (res, r) = r_poll (lo_bk k) \<lparr>env_raw = te_poll env, env_looks = [], env_spun = 0,
               env_xthread = rxthread (lp_reactor l), env_raw_after = te_after env\<rparr> 0 (lp_reactor l)
         in (map_sum id (\<lambda>_. False) res, put_reactor r l))
      else
        (let arrived = (\<lambda>n. fold arrive (take n (te_arrivals env)) l);
             (res, r) = r_poll (lo_bk k) \<lparr>env_raw = te_poll env,
               env_looks = map (\<lambda>(d, n). (d, rxthread (lp_reactor (arrived n)))) (te_looks env),
               env_spun = te_spun env, env_xthread = rxthread (lp_reactor (fold arrive (te_arrivals env) l)),
               env_raw_after = te_after env\<rparr> timeout (lp_reactor l);
             l = fold arrive (te_arrivals env) l
         in (map_sum id (\<lambda>_. True) res,
             put_reactor (r\<lparr>rxthread := rxthread (lp_reactor l), rstore := rstore (lp_reactor l)\<rparr>) l)))"

definition tick_translate :: "'b loop_ops \<Rightarrow> tick_env \<Rightarrow> bool \<Rightarrow> 'b core_loop \<Rightarrow> 'b core_loop" where
  "tick_translate k env parked l =
     (let (_, r) = finish_poll_after (te_finish env) parked (lp_reactor l);
          (comps, r) = drain_completions [] r;
          l = put_reactor r l;
          now = unat (r_time_cached (te_cached env) r);
          l = (if comps \<noteq> [] then in_net k (A_poll now (rbackend r) comps) l else l)
      in if n_any_starved (w_net (lp_world l)) then in_net k (A_retry (te_lids env) (te_dids env) now) l else l)"

definition tick_watches :: "'b loop_ops \<Rightarrow> 'b core_loop \<Rightarrow> 'b core_loop" where
  "tick_watches k l =
     (let hs = n_ready_scratch (w_net (lp_world l))
      in if hs = [] then l
         else (let l = in_net k A_take_ready l;
                   l = on_reactor (\<lambda>r. absorb_into_batch (fold push_ready hs r)) l
               in l\<lparr>lp_scheduled := lp_scheduled l @ hs\<rparr>))"

text \<open>The graveyards: what only has to be dropped, and \<open>drain_graveyards\<close>.\<close>

definition take_timer_graves :: "'b core_loop \<Rightarrow> 'b core_loop" where
  "take_timer_graves l =
     (let (ps, r) = r_take_graveyard (lp_reactor l) in (put_reactor r l)\<lparr>lp_buried := lp_buried l @ ps\<rparr>)"

definition drop_graves :: "'b loop_ops \<Rightarrow> 'b core_loop \<Rightarrow> 'b core_loop" where
  "drop_graves k l =
     (if has_graveyards (w_net (lp_world l)) \<or> has_graveyard (rtimers (lp_reactor l))
      then take_timer_graves (in_net k A_drop l) else l)"

definition drain_graves :: "'b loop_ops \<Rightarrow> 'b core_loop \<Rightarrow> 'b core_loop" where
  "drain_graves k l = take_timer_graves (in_net k A_drain l)"

definition tick_take :: "'b loop_ops \<Rightarrow> 'b core_loop \<Rightarrow> 'b core_loop" where
  "tick_take k l =
     (let l = in_net k A_take l;
          (batch, r) = take_batch [] (lp_reactor l);
          (timers, batch, r) = take_expired batch r;
          l = (put_reactor r l)\<lparr>lp_batch := batch, lp_timers := timers\<rparr>
      in drop_graves k l)"

definition hand_back :: "nat \<Rightarrow> 'b core_loop \<Rightarrow> 'b core_loop" where
  "hand_back timers l =
     (let batch = lp_batch l
      in if batch = [] then l
         else (let split = length batch - min timers (length batch)
               in (on_reactor (\<lambda>r. fold unpop_ready (rev (take split batch))
                     (fold unpop_expired (rev (drop split batch)) r)) l)\<lparr>lp_batch := []\<rparr>))"

definition release_token :: "nat \<Rightarrow> 'b core_loop \<Rightarrow> 'b core_loop" where
  "release_token h l = (if lp_persistent l h then l else on_store (release h) l)"

text \<open>The end of \<open>run_forever\<close>: the caller can run the loop again.\<close>

definition end_run :: "'b loop_ops \<Rightarrow> run_exit \<Rightarrow> 'b core_loop \<Rightarrow> 'b core_loop" where
  "end_run k x l =
     (let l = (fold release_token (lp_batch l) l)\<lparr>lp_stopping := False, lp_batch := []\<rparr>;
          l = in_net k A_requeue l
      in l\<lparr>lp_claimed := False, lp_phase := P_idle, lp_exit := Some x\<rparr>)"

definition tick_signals :: "'b loop_ops \<Rightarrow> tick_env \<Rightarrow> bool \<Rightarrow> 'b core_loop \<Rightarrow> 'b core_loop" where
  "tick_signals k env parked l =
     (let n = lp_tick_no l; l = l\<lparr>lp_tick_no := n + 1\<rparr>
      in if (parked \<or> n AND 63 = 0) \<and> te_signal env
         then end_run k Interrupted (in_net k A_requeue (hand_back (lp_timers l) l))
         else l\<lparr>lp_phase := P_ready\<rparr>)"

definition tick_begin :: "'b loop_ops \<Rightarrow> tick_env \<Rightarrow> 'b core_loop \<Rightarrow> 'b core_loop" where
  "tick_begin k env l =
     (let l = (if n_flush_list (w_net (lp_world l)) \<noteq> [] then in_net k A_flush l else l);
          l = on_reactor (prepare_tick (te_prepare env)) l;
          (timeout, l) = tick_timeout env l;
          (res, l) = tick_poll k env timeout l
      in case res of
           Inl e \<Rightarrow> end_run k (Poll_failed e)
             (l\<lparr>lp_broken := lp_broken l \<or> xcalls (rxthread (lp_reactor l)) \<noteq> [] \<or> wake_pending (rxthread (lp_reactor l))\<rparr>)
         | Inr parked \<Rightarrow>
             (let l = tick_translate k env parked l;
                  l = tick_watches k l;
                  l = tick_take k l;
                  l = (if has_special_graveyards (w_net (lp_world l)) \<and> w_batch (lp_world l) = []
                       then drain_graves k l else l)
              in tick_signals k env parked l))"

section \<open>Running handles and events\<close>

definition run_first :: "'b core_loop \<Rightarrow> 'b core_loop" where
  "run_first l =
     (case lp_batch l of
        [] \<Rightarrow> l
      | h # hs \<Rightarrow>
          (let l = (if lp_phase l = P_ready then l\<lparr>lp_batch := hs, lp_ran := lp_ran l @ [h]\<rparr>
                    else l\<lparr>lp_batch := hs, lp_fired := lp_fired l @ [h]\<rparr>)
           in if run_handle_calls h (rstore (lp_reactor l)) then l\<lparr>lp_handle := Some h\<rparr>
              else release_token h l))"

definition tick_end :: "'b loop_ops \<Rightarrow> 'b core_loop \<Rightarrow> 'b core_loop" where
  "tick_end k l = (if lp_stopping l then end_run k Stopped l else l\<lparr>lp_phase := P_top\<rparr>)"

text \<open>The loop thread goes on, unless it waits for Python code; \<open>gone\<close> tells of cancelled futures.\<close>

definition loop_next :: "'b loop_ops \<Rightarrow> (nat \<Rightarrow> bool) \<Rightarrow> 'b core_loop \<Rightarrow> 'b core_loop" where
  "loop_next k gone l =
     (if lp_handle l \<noteq> None \<or> w_call (lp_world l) \<noteq> None then l
      else
        (case lp_phase l of
           P_ready \<Rightarrow>
             if lp_timers l < length (lp_batch l) then run_first l
             else if w_batch (lp_world l) \<noteq> [] then l\<lparr>lp_phase := P_events, lp_had_events := True\<rparr>
             else l\<lparr>lp_phase := P_timers, lp_had_events := False\<rparr>
         | P_events \<Rightarrow>
             if w_batch (lp_world l) \<noteq> [] then in_net k (A_dispatch gone) l else l\<lparr>lp_phase := P_timers\<rparr>
         | P_timers \<Rightarrow>
             if lp_batch l \<noteq> [] then run_first l
             else if lp_had_events l
             then (drain_graves k (in_net k A_take (in_net k A_flush l)))\<lparr>lp_phase := P_late\<rparr>
             else tick_end k l
         | P_late \<Rightarrow> if w_batch (lp_world l) \<noteq> [] then in_net k (A_dispatch gone) l else tick_end k l
         | _ \<Rightarrow> l))"

text \<open>\<open>fatal\<close>: the callback, or the report of its failure, raised \<open>KeyboardInterrupt\<close> or \<open>SystemExit\<close>.\<close>

definition callback_returns :: "'b loop_ops \<Rightarrow> bool \<Rightarrow> 'b core_loop \<Rightarrow> 'b core_loop" where
  "callback_returns k fatal l =
     (case lp_handle l of
        None \<Rightarrow> l
      | Some h \<Rightarrow>
          (let l = release_token h (l\<lparr>lp_handle := None\<rparr>)
           in if \<not> fatal then l
              else if lp_phase l = P_ready
              then end_run k Interrupted (in_net k A_requeue (hand_back (lp_timers l) l))
              else end_run k Interrupted (hand_back (length (lp_batch l)) l)))"

definition protocol_returns :: "'b loop_ops \<Rightarrow> py_reply \<Rightarrow> 'b core_loop \<Rightarrow> 'b core_loop" where
  "protocol_returns k r l =
     (if w_call (lp_world l) = None then l
      else
        (let l = in_net k (A_return r) l
         in if r \<noteq> Unwound then l
            else
              (let l = in_net k A_requeue l
               in end_run k Interrupted (if lp_phase l = P_events then hand_back (lp_timers l) l else l))))"

definition run_forever :: "'b core_loop \<Rightarrow> 'b core_loop" where
  "run_forever l =
     (if lp_closed l \<or> lp_claimed l then l else l\<lparr>lp_claimed := True, lp_phase := P_top, lp_exit := None\<rparr>)"

section \<open>Actions\<close>

text \<open>The actions of the transport layer that the application may take.\<close>

fun app_action :: "'b action \<Rightarrow> bool" where
  "app_action (A_poll _ _ _) = False"
| "app_action (A_retry _ _ _) = False"
| "app_action A_flush = False"
| "app_action A_take = False"
| "app_action A_requeue = False"
| "app_action (A_dispatch _) = False"
| "app_action (A_return _) = False"
| "app_action (A_shut_stream _) = False"
| "app_action (A_shut_dgram _) = False"
| "app_action (A_add_reader _ _) = False"
| "app_action (A_add_writer _ _) = False"
| "app_action A_take_ready = False"
| "app_action A_drain = False"
| "app_action A_drop = False"
| "app_action (A_env _ _) = False"
| "app_action _ = True"

text \<open>Those that raise on a closed loop.\<close>

fun checks_closed :: "'b action \<Rightarrow> bool" where
  "checks_closed (A_wire _ _ _ _ _ _) = True"
| "checks_closed (A_udp_open _ _) = True"
| "checks_closed (A_sendto _ _ _) = True"
| "checks_closed (A_listen _ _ _ _ _) = True"
| "checks_closed (A_tcp_listen _ _ _ _ _ _ _ _) = True"
| "checks_closed (A_connect _ _ _ _) = True"
| "checks_closed (A_pipe_register _) = True"
| "checks_closed (A_pipe_read _ _ _) = True"
| "checks_closed (A_pipe_write _ _ _) = True"
| "checks_closed _ = False"

text \<open>
  Closing: the order the hash maps yield their keys in, and how many polls the reap budget allows.
\<close>

record close_env =
  ce_tids :: "nat list"
  ce_lids :: "nat list"
  ce_dids :: "nat list"
  ce_ops :: "op_id list"
  ce_rounds :: nat
  ce_read_fds :: "raw_socket list"
  ce_write_fds :: "raw_socket list"

definition close_transports :: "'b sock_ops \<Rightarrow> close_env \<Rightarrow> 'b net \<Rightarrow> 'b net" where
  "close_transports k env s =
     (let s = fold (teardown_at_close k) (ce_tids env) s;
          s = fold (listener_teardown k) (ce_lids env) s;
          s = fold (udp_teardown_at_close k) (ce_dids env) s;
          s = cancel_standalone_ops k (ce_ops env) s
      in reap_at_close k (ce_ops env) (ce_rounds env) s)"

text \<open>The watches and the events; the handles come out to be released.\<close>

definition close_watches :: "'b sock_ops \<Rightarrow> close_env \<Rightarrow> 'b net \<Rightarrow> nat list \<times> 'b net" where
  "close_watches k env s =
     (let hs = n_ready_scratch s @ concat (map (\<lambda>fd. opt_list (n_readers s fd)) (ce_read_fds env))
               @ concat (map (\<lambda>fd. opt_list (n_writers s fd)) (ce_write_fds env));
          s = s\<lparr>n_ready_scratch := [], n_readers := (\<lambda>_. None)\<rparr>;
          s = fold (drop_watch k) (ce_read_fds env) s;
          s = fold (drop_watch k) (ce_write_fds env) (s\<lparr>n_writers := (\<lambda>_. None)\<rparr>);
          s = fold (close_event_socket k) (n_events s) s
      in (hs, s\<lparr>n_bk := sk_release_poller k (n_bk s), n_events := []\<rparr>))"

definition put_net :: "'b net \<Rightarrow> 'b core_loop \<Rightarrow> 'b core_loop" where
  "put_net s l = l\<lparr>lp_world := (lp_world l)\<lparr>w_net := s\<rparr>,
     lp_reactor := (lp_reactor l)\<lparr>rstore := n_handles s, rbackend := n_bk s\<rparr>\<rparr>"

definition loop_close :: "'b loop_ops \<Rightarrow> close_env \<Rightarrow> 'b core_loop \<Rightarrow> 'b core_loop" where
  "loop_close k env l =
     (if lp_claimed l \<or> lp_closed l then l
      else
        (let l = l\<lparr>lp_closed := True\<rparr>;
             l = put_net (close_transports (lo_sock k) env (w_net (lp_world l))) l;
             (tokens, r) = clear_pending (lp_reactor l); l = put_reactor r l;
             (hs, s) = close_watches (lo_sock k) env (w_net (lp_world l)); l = put_net s l;
             l = fold (\<lambda>h. on_store (release h)) (tokens @ hs) l
         in drain_graves k l))"

datatype 'b loop_act =
    L_run
  | L_tick tick_env
  | L_next "nat \<Rightarrow> bool"
  | L_callback_returns bool
  | L_protocol_returns py_reply
  | L_call_soon bool
  | L_call_soon_threadsafe
  | L_call_at bool ticks
  | L_cancel nat
  | L_stop
  | L_debug bool
  | L_add_reader raw_socket
  | L_add_writer raw_socket
  | L_net "'b action"
  | L_close close_env

fun loop_do :: "'b loop_ops \<Rightarrow> 'b loop_act \<Rightarrow> 'b core_loop \<Rightarrow> 'b core_loop" where
  "loop_do k L_run l = run_forever l"
| "loop_do k (L_tick env) l = (if lp_phase l = P_top then tick_begin k env l else l)"
| "loop_do k (L_next gone) l = loop_next k gone l"
| "loop_do k (L_callback_returns fatal) l = callback_returns k fatal l"
| "loop_do k (L_protocol_returns r) l = protocol_returns k r l"
| "loop_do k (L_call_soon other) l = call_soon False other l"
| "loop_do k L_call_soon_threadsafe l = call_soon_threadsafe False l"
| "loop_do k (L_call_at other d) l = call_at False other d l"
| "loop_do k (L_cancel h) l = cancel_handle h l"
| "loop_do k L_stop l = loop_stop l"
| "loop_do k (L_debug on) l = l\<lparr>lp_debug := on\<rparr>"
| "loop_do k (L_add_reader fd) l = loop_add_reader k fd l"
| "loop_do k (L_add_writer fd) l = loop_add_writer k fd l"
| "loop_do k (L_net a) l =
     (if \<not> app_action a \<or> lp_closed l \<and> checks_closed a then l else in_net k a l)"
| "loop_do k (L_close env) l = loop_close k env l"

definition loop_run :: "'b loop_ops \<Rightarrow> 'b loop_act list \<Rightarrow> 'b core_loop \<Rightarrow> 'b core_loop" where
  "loop_run k acts l = fold (loop_do k) acts l"

end
