(* ===== verification/Loop_Modes.thy ===== *)
theory Loop_Modes
  imports Core_Loop
begin

text \<open>
  The modes of the loop object: in which phase it waits for which Python code, what its buffers
  hold between ticks, and that a closed loop never runs.
\<close>

declare net_do.simps [simp del]

section \<open>What a step leaves alone\<close>

definition mode :: "'b core_loop \<Rightarrow> loop_phase \<times> bool \<times> nat option \<times> py_call option \<times> net_event list \<times> bool" where
  "mode l = (lp_phase l, lp_claimed l, lp_handle l, w_call (lp_world l), w_batch (lp_world l), lp_closed l)"

fun quiet :: "'b action \<Rightarrow> bool" where
  "quiet A_take = False"
| "quiet A_requeue = False"
| "quiet (A_dispatch _) = False"
| "quiet (A_return _) = False"
| "quiet _ = True"

lemma app_quiet: "app_action a \<Longrightarrow> quiet a"
  by (cases a) simp_all

lemma net_quiet:
  assumes "quiet a"
  shows "w_call (net_do k a w) = w_call w" "w_batch (net_do k a w) = w_batch w"
  using assms by (cases a; simp add: net_do.simps on_net_def)+

lemma mode_prims [simp]:
  "mode (put_reactor r l) = mode l" "mode (on_reactor f l) = mode l" "mode (on_store g l) = mode l"
  "quiet a \<Longrightarrow> mode (in_net k a l) = mode l"
  by (simp_all add: mode_def put_reactor_def on_reactor_def on_store_def on_net_def in_net_def Let_def net_quiet)

lemma mode_fields [simp]:
  "mode (l\<lparr>lp_stopping := b\<rparr>) = mode l" "mode (l\<lparr>lp_debug := b\<rparr>) = mode l"
  "mode (l\<lparr>lp_tick_no := n\<rparr>) = mode l" "mode (l\<lparr>lp_had_events := b\<rparr>) = mode l" "mode (l\<lparr>lp_exit := ex\<rparr>) = mode l"
  "mode (l\<lparr>lp_batch := hs\<rparr>) = mode l" "mode (l\<lparr>lp_timers := n'\<rparr>) = mode l" "mode (l\<lparr>lp_scheduled := hs\<rparr>) = mode l"
  "mode (l\<lparr>lp_timed := hs\<rparr>) = mode l" "mode (l\<lparr>lp_ran := hs\<rparr>) = mode l" "mode (l\<lparr>lp_fired := hs\<rparr>) = mode l"
  "mode (l\<lparr>lp_buried := hs\<rparr>) = mode l" "mode (l\<lparr>lp_broken := b\<rparr>) = mode l" "mode (l\<lparr>lp_next := n'\<rparr>) = mode l"
  "mode (l\<lparr>lp_persistent := q\<rparr>) = mode l"
  by (simp_all add: mode_def)

lemma mode_release [simp]: "mode (release_token h l) = mode l" "mode (fold release_token hs l) = mode l"
  by (induction hs arbitrary: l) (auto simp: release_token_def)

lemma mode_queues [simp]:
  "mode (hand_back n l) = mode l" "mode (take_timer_graves l) = mode l"
  "mode (enqueue_soon rf h l) = mode l" "mode (schedule_timer rf d h l) = mode l" "mode (snd (make_handle p l)) = mode l"
  by (simp_all add: hand_back_def take_timer_graves_def enqueue_soon_def schedule_timer_def make_handle_def Let_def split_beta)

lemma mode_methods [simp]:
  "mode (call_soon_threadsafe rf l) = mode l" "mode (call_soon rf ot l) = mode l" "mode (call_at rf ot d l) = mode l"
  "mode (cancel_handle h l) = mode l" "mode (loop_stop l) = mode l"
  "mode (loop_add_reader k fd l) = mode l" "mode (loop_add_writer k fd l) = mode l"
  by (simp_all add: call_soon_threadsafe_def call_soon_def call_at_def cancel_handle_def loop_stop_def
      loop_add_reader_def loop_add_writer_def split_beta)

lemma mode_arrivals [simp]: "mode (fold arrive as l) = mode l"
proof (induction as arbitrary: l)
  case (Cons a as)
  have "mode (arrive a l) = mode l" by (cases a) simp_all
  with Cons.IH show ?case by simp
qed simp

lemma mode_steps [simp]:
  "mode (drop_graves k l) = mode l" "mode (drain_graves k l) = mode l" "mode (tick_watches k l) = mode l"
  "mode (tick_translate k env parked l) = mode l" "mode (snd (tick_timeout env l)) = mode l"
  "mode (snd (tick_poll k env t l)) = mode l"
  by (simp_all add: drop_graves_def drain_graves_def tick_watches_def tick_translate_def tick_timeout_def
      tick_poll_def Let_def split_beta)

section \<open>The modes\<close>

text \<open>The batch of events, like that of the callbacks, is empty where the code asserts it.\<close>

definition mode_fine :: "'b core_loop \<Rightarrow> bool" where
  "mode_fine l \<longleftrightarrow>
     (lp_claimed l \<longleftrightarrow> lp_phase l \<noteq> P_idle) \<and>
     (lp_closed l \<longrightarrow> lp_phase l = P_idle) \<and>
     (lp_handle l \<noteq> None \<longrightarrow> lp_phase l \<in> {P_ready, P_timers}) \<and>
     (w_call (lp_world l) \<noteq> None \<longrightarrow> lp_phase l \<in> {P_events, P_late}) \<and>
     (lp_phase l \<in> {P_idle, P_top, P_timers} \<longrightarrow> w_batch (lp_world l) = [])"

lemma mode_fine_cong: "mode l' = mode l \<Longrightarrow> mode_fine l' = mode_fine l"
  by (simp add: mode_fine_def mode_def)

lemma in_net_loud:
  "w_call (lp_world l) = None \<Longrightarrow> mode (in_net k A_requeue l) = (lp_phase l, lp_claimed l, lp_handle l, None, [], lp_closed l)"
  "w_call (lp_world l) = None \<Longrightarrow> \<exists>evs. mode (in_net k A_take l) = (lp_phase l, lp_claimed l, lp_handle l, None, evs, lp_closed l)"
  "\<exists>c evs. mode (in_net k (A_dispatch gone) l) = (lp_phase l, lp_claimed l, lp_handle l, c, evs, lp_closed l)"
  "mode (in_net k (A_return r) l) = (lp_phase l, lp_claimed l, lp_handle l, None, w_batch (lp_world l), lp_closed l)"
  by (simp_all add: mode_def in_net_def Let_def net_do.simps take_events_def requeue_events_def call_returns_def
      split: option.split)

lemma end_run_mode:
  assumes "w_call (lp_world l) = None"
  shows "mode (end_run k x l) = (P_idle, False, lp_handle l, None, [], lp_closed l)"
proof -
  let ?m = "(fold release_token (lp_batch l) l)\<lparr>lp_stopping := False, lp_batch := []\<rparr>"
  have "mode ?m = mode l" by simp
  then have "w_call (lp_world ?m) = None" "lp_handle ?m = lp_handle l" "lp_closed ?m = lp_closed l"
    using assms by (simp_all add: mode_def)
  with in_net_loud(1) [of ?m k] show ?thesis by (simp add: end_run_def Let_def mode_def)
qed

lemma end_run_modes:
  "w_call (lp_world l) = None \<Longrightarrow> lp_handle l = None \<Longrightarrow> mode_fine (end_run k x l)"
  using end_run_mode [of l k x] by (simp add: mode_def mode_fine_def)

lemma tick_end_modes:
  "mode_fine l \<Longrightarrow> w_call (lp_world l) = None \<Longrightarrow> lp_handle l = None \<Longrightarrow> w_batch (lp_world l) = [] \<Longrightarrow>
     lp_phase l \<noteq> P_idle \<Longrightarrow> mode_fine (tick_end k l)"
  using end_run_modes [of l k Stopped] by (auto simp: tick_end_def mode_fine_def)

lemma tick_take_mode:
  assumes "w_call (lp_world l) = None"
  obtains evs where "mode (tick_take k l) = (lp_phase l, lp_claimed l, lp_handle l, None, evs, lp_closed l)"
  using in_net_loud(2) [OF assms, of k] by (auto simp: tick_take_def Let_def split_beta)

lemma tick_modes:
  assumes f: "mode_fine l" and p: "lp_phase l = P_top"
  shows "mode_fine (tick_begin k env l)"
proof -
  have l: "mode l = (P_top, True, None, None, [], False)" using f p by (auto simp: mode_fine_def mode_def)
  let ?a = "on_reactor (prepare_tick (te_prepare env)) (if n_flush_list (w_net (lp_world l)) \<noteq> [] then in_net k A_flush l else l)"
  obtain t m where t: "tick_timeout env ?a = (t, m)" by fastforce
  obtain res m' where q: "tick_poll k env t m = (res, m')" by fastforce
  have m': "mode m' = mode l" using mode_steps(5) [of env ?a] mode_steps(6) [of k env t m] by (simp add: t q)
  show ?thesis
  proof (cases res)
    case (Inl e)
    let ?d = "m'\<lparr>lp_broken := lp_broken m' \<or> xcalls (rxthread (lp_reactor m')) \<noteq> [] \<or> wake_pending (rxthread (lp_reactor m'))\<rparr>"
    have "mode ?d = (P_top, True, None, None, [], False)" using m' l by simp
    then have "mode_fine (end_run k (Poll_failed e) ?d)" by (intro end_run_modes) (simp_all add: mode_def)
    then show ?thesis by (simp add: tick_begin_def Let_def t q Inl)
  next
    case (Inr parked)
    let ?w = "tick_watches k (tick_translate k env parked m')"
    have w: "mode ?w = (P_top, True, None, None, [], False)" using m' l by simp
    then have "w_call (lp_world ?w) = None" by (simp add: mode_def)
    then obtain evs where "mode (tick_take k ?w) = (lp_phase ?w, lp_claimed ?w, lp_handle ?w, None, evs, lp_closed ?w)"
      by (rule tick_take_mode)
    with w have g: "mode (tick_take k ?w) = (P_top, True, None, None, evs, False)" by (simp add: mode_def)
    let ?g = "tick_take k ?w"
    let ?h = "if has_special_graveyards (w_net (lp_world ?g)) \<and> w_batch (lp_world ?g) = [] then drain_graves k ?g else ?g"
    have h: "mode ?h = (P_top, True, None, None, evs, False)" using g by simp
    let ?n = "?h\<lparr>lp_tick_no := lp_tick_no ?h + 1\<rparr>"
    have "mode (hand_back (lp_timers ?h) ?n) = mode ?h" by simp
    with h in_net_loud(1) [of "hand_back (lp_timers ?h) ?n" k] have
      "mode (in_net k A_requeue (hand_back (lp_timers ?h) ?n)) = (P_top, True, None, None, [], False)"
      by (simp add: mode_def)
    then have 1: "mode_fine (end_run k Interrupted (in_net k A_requeue (hand_back (lp_timers ?h) ?n)))"
      by (intro end_run_modes) (simp_all add: mode_def)
    have 2: "mode_fine (?n\<lparr>lp_phase := P_ready\<rparr>)" using h by (simp add: mode_fine_def mode_def)
    from 1 2 have "mode_fine (tick_signals k env parked ?h)" by (simp add: tick_signals_def Let_def)
    then show ?thesis by (simp add: tick_begin_def Let_def t q Inr)
  qed
qed

lemma run_first_mode:
  "\<exists>x. mode (run_first l) = (lp_phase l, lp_claimed l, x, w_call (lp_world l), w_batch (lp_world l), lp_closed l) \<and>
     (lp_batch l = [] \<longrightarrow> x = lp_handle l)"
proof (cases "lp_batch l")
  case (Cons h hs)
  let ?m = "if lp_phase l = P_ready then l\<lparr>lp_batch := hs, lp_ran := lp_ran l @ [h]\<rparr>
            else l\<lparr>lp_batch := hs, lp_fired := lp_fired l @ [h]\<rparr>"
  have m: "mode ?m = mode l" by simp
  have r: "run_first l = (if run_handle_calls h (rstore (lp_reactor ?m)) then ?m\<lparr>lp_handle := Some h\<rparr> else release_token h ?m)"
    by (simp add: run_first_def Cons Let_def)
  show ?thesis
  proof (cases "run_handle_calls h (rstore (lp_reactor ?m))")
    case True
    with m r show ?thesis by (intro exI [of _ "Some h"]) (simp add: mode_def Cons split del: if_split)
  next
    case False
    with m r have "mode (run_first l) = mode l" by simp
    then show ?thesis by (intro exI [of _ "lp_handle l"]) (simp add: mode_def)
  qed
qed (simp add: run_first_def mode_def)

lemma next_modes:
  assumes f: "mode_fine l"
  shows "mode_fine (loop_next k gone l)"
proof (cases "lp_handle l \<noteq> None \<or> w_call (lp_world l) \<noteq> None")
  case False
  then have w: "lp_handle l = None" "w_call (lp_world l) = None" by simp_all
  have rf: "mode_fine (run_first l)" if "lp_phase l \<in> {P_ready, P_timers}"
    using run_first_mode [of l] f that w by (auto simp: mode_def mode_fine_def)
  have dis: "mode_fine (in_net k (A_dispatch gone) l)" if "lp_phase l \<in> {P_events, P_late}"
    using in_net_loud(3) [of k gone l] f that w by (auto simp: mode_def mode_fine_def)
  show ?thesis
  proof (cases "lp_phase l")
    case P_timers
    let ?m = "drain_graves k (in_net k A_take (in_net k A_flush l))"
    have "w_call (lp_world (in_net k A_flush l)) = None" "mode (in_net k A_flush l) = mode l"
      using w mode_prims(4) [of A_flush k l] by (simp_all add: mode_def)
    with in_net_loud(2) [of "in_net k A_flush l" k] obtain evs where
      "mode (in_net k A_take (in_net k A_flush l)) = (P_timers, lp_claimed l, None, None, evs, lp_closed l)"
      using w P_timers by (auto simp add: mode_def [of "in_net k A_flush l"] mode_def [of l])
    then have "mode ?m = (P_timers, lp_claimed l, None, None, evs, lp_closed l)" by simp
    then have "mode_fine (?m\<lparr>lp_phase := P_late\<rparr>)" using f P_timers by (auto simp: mode_fine_def mode_def)
    with rf tick_end_modes [OF f w(2,1)] f w P_timers show ?thesis by (simp add: loop_next_def mode_fine_def)
  next
    case P_late
    with dis tick_end_modes [OF f w(2,1)] w show ?thesis by (simp add: loop_next_def)
  qed (use rf dis f w in \<open>simp_all add: loop_next_def mode_fine_def\<close>)
qed (use f in \<open>auto simp: loop_next_def\<close>)

lemma callback_modes:
  assumes f: "mode_fine l"
  shows "mode_fine (callback_returns k fatal l)"
proof (cases "lp_handle l")
  case (Some h)
  let ?m = "release_token h (l\<lparr>lp_handle := None\<rparr>)"
  have p: "lp_phase l \<in> {P_ready, P_timers}" "w_call (lp_world l) = None" using f Some by (auto simp: mode_fine_def)
  have m: "mode ?m = (lp_phase l, lp_claimed l, None, None, w_batch (lp_world l), lp_closed l)"
    using p by (simp add: mode_def [of "l\<lparr>lp_handle := None\<rparr>"])
  let ?u = "hand_back (lp_timers ?m) ?m" and ?v = "hand_back (length (lp_batch ?m)) ?m"
  have "mode ?u = mode ?m" "mode ?v = mode ?m" by simp_all
  then have u: "mode (in_net k A_requeue ?u) = (lp_phase l, lp_claimed l, None, None, [], lp_closed l)"
    "w_call (lp_world ?v) = None" "lp_handle ?v = None"
    using m in_net_loud(1) [of ?u k] by (simp_all add: mode_def)
  then have "mode_fine (end_run k Interrupted (in_net k A_requeue ?u))" "mode_fine (end_run k Interrupted ?v)"
    by (auto intro!: end_run_modes simp: mode_def)
  moreover have "mode_fine ?m" using f m p by (simp add: mode_fine_def mode_def)
  ultimately show ?thesis by (simp add: callback_returns_def Some Let_def)
qed (use f in \<open>simp add: callback_returns_def\<close>)

lemma protocol_modes:
  assumes f: "mode_fine l"
  shows "mode_fine (protocol_returns k r l)"
proof (cases "w_call (lp_world l) = None")
  case False
  then obtain c where c: "w_call (lp_world l) = Some c" by auto
  let ?n = "in_net k (A_return r) l"
  have n: "mode ?n = (lp_phase l, lp_claimed l, None, None, w_batch (lp_world l), lp_closed l)"
    using f False in_net_loud(4) [of k r l] by (auto simp: mode_fine_def)
  then have fn: "mode_fine ?n" using f False by (auto simp: mode_fine_def mode_def)
  have m: "mode (in_net k A_requeue ?n) = (lp_phase l, lp_claimed l, None, None, [], lp_closed l)"
    using n in_net_loud(1) [of ?n k] by (simp add: mode_def)
  let ?m = "in_net k A_requeue ?n"
  have "mode (hand_back (lp_timers ?m) ?m) = mode ?m" by simp
  with m have "mode_fine (end_run k Interrupted ?m)" "mode_fine (end_run k Interrupted (hand_back (lp_timers ?m) ?m))"
    by (auto intro!: end_run_modes simp: mode_def)
  with fn show ?thesis by (cases "r = Unwound") (simp_all add: protocol_returns_def Let_def c)
qed (use f in \<open>simp add: protocol_returns_def\<close>)

lemma put_net_mode [simp]: "mode (put_net s l) = mode l"
  by (simp add: put_net_def mode_def)

lemma mode_store_fold [simp]: "mode (fold (\<lambda>h. on_store (release h)) hs l) = mode l"
  by (induction hs arbitrary: l) simp_all

lemma close_mode:
  "\<not> lp_claimed l \<Longrightarrow> \<not> lp_closed l \<Longrightarrow>
     mode (loop_close k env l) = (lp_phase l, False, lp_handle l, w_call (lp_world l), w_batch (lp_world l), True)"
  by (simp add: loop_close_def Let_def split_beta) (simp add: mode_def)

text \<open>The acts of the application, which leave the modes alone.\<close>

fun app_act :: "'b loop_act \<Rightarrow> bool" where
  "app_act (L_tick _) = False"
| "app_act (L_next _) = False"
| "app_act (L_callback_returns _) = False"
| "app_act (L_protocol_returns _) = False"
| "app_act L_run = False"
| "app_act (L_close _) = False"
| "app_act _ = True"

lemma app_act_mode:
  assumes "app_act act"
  shows "mode (loop_do k act l) = mode l"
proof (cases act)
  case (L_net a)
  show ?thesis
  proof (cases "app_action a")
    case True
    from mode_prims(4) [OF app_quiet [OF this]] L_net show ?thesis by simp
  qed (simp add: L_net)
qed (use assms in simp_all)

lemma modes_do:
  assumes f: "mode_fine l"
  shows "mode_fine (loop_do k act l)"
proof (cases "app_act act")
  case True
  show ?thesis using mode_fine_cong [OF app_act_mode [OF True]] f by blast
next
  case False
  then consider "act = L_run" | env where "act = L_close env" | env where "act = L_tick env"
    | gone where "act = L_next gone" | fatal where "act = L_callback_returns fatal"
    | r where "act = L_protocol_returns r" by (cases act) auto
  then show ?thesis
  proof cases
    case 1
    with f show ?thesis by (auto simp: run_forever_def mode_fine_def)
  next
    case (2 env)
    show ?thesis
    proof (cases "lp_claimed l \<or> lp_closed l")
      case False
      with close_mode [of l k env] f have "mode_fine (loop_close k env l)" by (simp add: mode_fine_def mode_def)
      with 2 show ?thesis by simp
    qed (use f 2 in \<open>auto simp: loop_close_def\<close>)
  next
    case (3 env)
    with tick_modes [OF f] f show ?thesis by simp
  next
    case (4 gone)
    with next_modes [OF f] show ?thesis by simp
  next
    case (5 fatal)
    with callback_modes [OF f] show ?thesis by simp
  next
    case (6 r)
    with protocol_modes [OF f] show ?thesis by simp
  qed
qed

lemma run_modes: "mode_fine l \<Longrightarrow> mode_fine (loop_run k acts l)"
  unfolding loop_run_def by (induction acts arbitrary: l) (simp_all add: modes_do)

lemma new_modes: "mode_fine (loop_new cfg b raw off)"
  by (simp add: mode_fine_def loop_new_def world_new_def)

end
