(* ===== verification/Loop_Queues.thy ===== *)
theory Loop_Queues
  imports Loop_Modes
begin

text \<open>
  What holds of every run of the loop object, whatever the application does between its steps: no
  callback and no timer is lost or run twice, callbacks run in the order they became ready, the
  transport layer sees a run of its own, and a tick ends.
\<close>

section \<open>The reactor's queues\<close>

text \<open>The callbacks in line, and the timers the reactor holds in any form.\<close>

definition line :: "('a, 'b) reactor \<Rightarrow> 'a list" where
  "line r = rready r @ xcalls (rxthread r)"

definition timer_mass :: "('a, 'b) reactor \<Rightarrow> 'a multiset" where
  "timer_mass r = mset (expired r) + owned (rtimers r) + image_mset snd (mset (xtimers (rxthread r)))"

definition heap_fine :: "('a, 'b) reactor \<Rightarrow> bool" where
  "heap_fine r \<longleftrightarrow> heap_ok (entries (rtimers r))"

definition tidy :: "'a xthread \<Rightarrow> bool" where
  "tidy q \<longleftrightarrow> wake_pending q \<or> q = xt_new"

text \<open>The reactor moves its items towards dispatch and loses none.\<close>

definition pours :: "('a, 'b) reactor \<Rightarrow> ('a, 'b) reactor \<Rightarrow> bool" where
  "pours r r' \<longleftrightarrow> line r' = line r \<and>
     (rxthread r' = rxthread r \<or> rxthread r' = xt_new) \<and>
     (heap_fine r \<longrightarrow> heap_fine r' \<and> timer_mass r' = timer_mass r)"

lemma pours_refl: "pours r r"
  by (simp add: pours_def)

lemma pours_trans: "pours r r1 \<Longrightarrow> pours r1 r2 \<Longrightarrow> pours r r2"
  by (auto simp: pours_def)

lemma pours_same:
  "rready r' = rready r \<Longrightarrow> expired r' = expired r \<Longrightarrow> rtimers r' = rtimers r \<Longrightarrow>
     rxthread r' = rxthread r \<Longrightarrow> pours r r'"
  by (simp add: pours_def line_def timer_mass_def heap_fine_def)

lemma owned_absorb: "owned (fst (absorb_cancellations s)) = owned (fst s)"
  by (cases s) (auto simp: absorb_cancellations_def owned_note_cancelled [OF prod.collapse [symmetric]])

lemma compact_heap_ok: "heap_ok (entries (fst (compact s)))"
  using compact_spec [of "fst s" "snd s" "fst (compact s)" "snd (compact s)"] by (metis prod.collapse)

lemma heap_ok_absorb: "heap_ok (entries (fst s)) \<Longrightarrow> heap_ok (entries (fst (absorb_cancellations s)))"
  by (cases s) (simp add: absorb_cancellations_def note_cancelled_def Let_def compact_heap_ok)

lemma pours_absorb: "pours r (r_absorb_cancellations r)"
  using owned_absorb [of "(rtimers r, rstore r)"] heap_ok_absorb [of "(rtimers r, rstore r)"]
  by (simp add: pours_def r_absorb_cancellations_def set_timers_def line_def timer_mass_def heap_fine_def)

lemma fold_schedule:
  "heap_ok (entries h) \<Longrightarrow> heap_ok (entries (fold (\<lambda>(d, x) s. schedule d x s) ts h)) \<and>
     owned (fold (\<lambda>(d, x) s. schedule d x s) ts h) = owned h + image_mset snd (mset ts)"
proof (induction ts arbitrary: h)
  case (Cons t ts)
  obtain d x where t: "t = (d, x)" by fastforce
  have "owned (schedule d x h) = owned h + {#x#}" by (simp add: owned_def entries_schedule)
  with Cons.IH [OF heap_ok_schedule [OF Cons.prems]] show ?case by (simp add: t)
qed simp

lemma pours_drain: "pours r (drain_xthread r)"
proof (cases "wake_pending (rxthread r)")
  case True
  then have "drain_xthread r = bump (\<lambda>s. s\<lparr>st_xthread := st_xthread s + (length (xcalls (rxthread r)) + length (xtimers (rxthread r)))\<rparr>)
      (r\<lparr>rready := rready r @ xcalls (rxthread r),
         rtimers := fold (\<lambda>(d, x) s. schedule d x s) (xtimers (rxthread r)) (rtimers r), rxthread := xt_new\<rparr>)"
    by (simp add: drain_xthread_def xt_drain_into_pending)
  with fold_schedule [of "rtimers r" "xtimers (rxthread r)"] show ?thesis
    by (simp add: pours_def line_def timer_mass_def heap_fine_def bump_def xt_new_def)
next
  case False
  then have "drain_xthread r = bump (\<lambda>s. s\<lparr>st_xthread := st_xthread s + 0\<rparr>) r"
    by (simp add: drain_xthread_def xt_drain_into_idle)
  then show ?thesis by (intro pours_same) (simp_all add: bump_def)
qed

lemma drained_new: "tidy (rxthread r) \<Longrightarrow> rxthread (drain_xthread r) = xt_new"
  by (cases "wake_pending (rxthread r)")
    (auto simp: drain_xthread_def xt_drain_into_pending xt_drain_into_idle bump_def tidy_def)

lemma pop_expired_owned:
  assumes ok: "heap_ok (entries h)" and p: "pop_expired now (h, st) = (r, h', st')"
  shows "owned h = owned h' + mset (case r of None \<Rightarrow> [] | Some p \<Rightarrow> [p])" "heap_ok (entries h')"
proof -
  have "owned h = owned h' + mset (case r of None \<Rightarrow> [] | Some p \<Rightarrow> [p]) \<and> heap_ok (entries h')"
  proof (cases r)
    case None
    with p obtain ds where b: "buried ds (h, st) (h', st')" by (auto elim: pop_expired_NoneD [OF ok])
    from owned_buried [OF b] buried_live(2) [OF b] None show ?thesis by simp
  next
    case (Some q)
    with p have "pop_expired now (h, st) = (Some q, h', st')" by simp
    from pop_expired_SomeD [OF ok this] obtain ds h1 st1 where
      b: "buried ds (h, st) (h1, st1)" "entries h1 \<noteq> []" "remove_top (h1, st1) = (q, h', st')" .
    note ok1 = buried_live(2) [OF b(1)]
    from owned_remove_top [OF b(2) ok1 b(3)] owned_buried [OF b(1)] remove_top_spec [OF b(2) ok1 b(3)] Some
    show ?thesis by simp
  qed
  then show "owned h = owned h' + mset (case r of None \<Rightarrow> [] | Some p \<Rightarrow> [p])" "heap_ok (entries h')" by simp_all
qed

lemma fire_loop_owned:
  "heap_ok (entries (fst s)) \<Longrightarrow> fire_loop now s exp n = (s', exp', n') \<Longrightarrow>
     mset exp' + owned (fst s') = mset exp + owned (fst s) \<and> heap_ok (entries (fst s'))"
proof (induction now s exp n arbitrary: s' exp' n' rule: fire_loop.induct)
  case (1 now s exp n)
  obtain h st where s: "s = (h, st)" by fastforce
  obtain r h1 st1 where p: "pop_expired now (h, st) = (r, h1, st1)" by (cases "pop_expired now (h, st)") auto
  have ok: "heap_ok (entries h)" using 1(2) s by simp
  note o = pop_expired_owned [OF ok p]
  show ?case
  proof (cases r)
    case None
    have "s' = (h1, st1)" "exp' = exp"
      using 1(3) unfolding s by (simp_all add: fire_loop.simps [of now "(h, st)"] p None)
    with o None s show ?thesis by simp
  next
    case (Some q)
    have "fire_loop now (h1, st1) (exp @ [q]) (n + 1) = (s', exp', n')"
      using 1(3) unfolding s by (simp add: fire_loop.simps [of now "(h, st)"] p Some)
    from 1(1) [OF p [folded s, symmetric] Some _ this] o Some s show ?thesis by simp
  qed
qed

lemma pours_fire: "pours r (fire_expired_timers raw r)"
proof -
  obtain now c where c: "clock_cached raw (rclock r) = (now, c)" by fastforce
  obtain s exp n where f: "fire_loop now (rtimers r, rstore r) (expired r) 0 = (s, exp, n)"
    by (cases "fire_loop now (rtimers r, rstore r) (expired r) 0")
  have o: "heap_fine r \<Longrightarrow> mset exp + owned (fst s) = mset (expired r) + owned (rtimers r) \<and> heap_ok (entries (fst s))"
    using fire_loop_owned [OF _ f] by (simp add: heap_fine_def)
  show ?thesis
  proof (cases "peek_deadline (rtimers r)")
    case None
    then show ?thesis by (simp add: fire_expired_timers_def pours_refl)
  next
    case (Some d)
    show ?thesis
    proof (cases "d > now")
      case True
      then show ?thesis by (intro pours_same) (simp_all add: fire_expired_timers_def Some c)
    next
      case False
      then have "fire_expired_timers raw r = bump (\<lambda>s. s\<lparr>st_timers_fired := st_timers_fired s + n\<rparr>)
          (set_timers s (r\<lparr>rclock := c, expired := exp\<rparr>))"
        by (simp add: fire_expired_timers_def Some c f)
      with o show ?thesis
        by (simp add: pours_def line_def timer_mass_def heap_fine_def bump_def set_timers_def)
    qed
  qed
qed

lemma fire_frame [simp]: "rxthread (fire_expired_timers raw r) = rxthread r" "rready (fire_expired_timers raw r) = rready r"
  by (auto simp: fire_expired_timers_def bump_def set_timers_def split_beta Let_def split: option.split)

lemma absorb_frame [simp]: "rxthread (r_absorb_cancellations r) = rxthread r"
  by (simp add: r_absorb_cancellations_def set_timers_def)

lemma pours_snapshot: "pours r (snapshot_batch r)"
  by (intro pours_same) (simp_all add: snapshot_batch_def)

lemma pours_prepare: "pours r (prepare_tick raw r)"
proof -
  have "pours r (bump (\<lambda>s. s\<lparr>st_ticks := st_ticks s + 1\<rparr>) r\<lparr>rclock := clock_invalidate (rclock r)\<rparr>)"
    by (intro pours_same) (simp_all add: bump_def)
  from pours_trans [OF pours_trans [OF pours_trans [OF pours_trans [OF this pours_absorb] pours_drain] pours_fire] pours_snapshot]
  show ?thesis by (simp add: prepare_tick_def Let_def bump_def)
qed

lemma prepare_drained: "tidy (rxthread r) \<Longrightarrow> rxthread (prepare_tick raw r) = xt_new"
  by (simp add: prepare_tick_def Let_def snapshot_batch_def drained_new bump_def)

lemma finish_poll_pours: "pours r (snd (finish_poll_after raw parked r))"
proof -
  let ?b = "bump (\<lambda>s. s\<lparr>st_completions := st_completions s + length (rcompletions r)\<rparr>) r"
  have 0: "pours r ?b" "pours r (?b\<lparr>rclock := clock_invalidate (rclock ?b)\<rparr>)"
    by (intro pours_same; simp add: bump_def)+
  from pours_trans [OF pours_trans [OF pours_trans [OF pours_trans [OF 0(2) pours_absorb] pours_drain] pours_fire] pours_snapshot] 0(1)
  show ?thesis by (auto simp: finish_poll_after_def Let_def)
qed

lemma finish_poll_drained:
  "tidy (rxthread r) \<Longrightarrow> parked \<or> rxthread r = xt_new \<Longrightarrow> rxthread (snd (finish_poll_after raw parked r)) = xt_new"
  by (auto simp: finish_poll_after_def Let_def snapshot_batch_def drained_new bump_def)

text \<open>Polling leaves the queues alone.\<close>

definition same_queues :: "('a, 'b) reactor \<Rightarrow> ('a, 'b) reactor \<Rightarrow> bool" where
  "same_queues r r' \<longleftrightarrow> rready r' = rready r \<and> expired r' = expired r \<and> rtimers r' = rtimers r"

lemma spin_looks_queues: "same_queues r (snd (spin_looks ops budget fl looks r))"
proof (induction ops budget fl looks r rule: spin_looks.induct)
  case (2 ops budget fl e xq looks r)
  obtain res cs b where t: "bk_try_poll ops (rbackend r) = (res, cs, b)" by (cases "bk_try_poll ops (rbackend r)")
  show ?case
  proof (cases "e < budget")
    case True
    from 2 [OF True t [symmetric] refl refl refl] show ?thesis
      using True t by (auto simp: same_queues_def bump_def Let_def split: sum.split)
  qed (simp add: same_queues_def)
qed (simp add: same_queues_def)

lemma poll_park_queues: "same_queues r (snd (poll_park ops env t r))"
  by (auto simp: poll_park_def same_queues_def bump_def Let_def split: prod.split sum.split)

lemma r_poll_queues: "same_queues r (snd (r_poll ops env t r))"
proof -
  have z: "same_queues r (snd (poll_zero ops env r))" for r :: "('a, 'b) reactor"
    by (auto simp: poll_zero_def same_queues_def bump_def Let_def split: prod.split sum.split)
  have tr: "same_queues a b \<Longrightarrow> same_queues b c \<Longrightarrow> same_queues a c" for a b c :: "('a, 'b) reactor"
    by (simp add: same_queues_def)
  show ?thesis
  proof (cases "t = 0")
    case True
    then show ?thesis using z [of "r\<lparr>rcompletions := []\<rparr>"] by (simp add: r_poll_def same_queues_def)
  next
    case False
    let ?r = "bump (\<lambda>s. s\<lparr>st_polls := st_polls s + 1\<rparr>) (r\<lparr>rcompletions := []\<rparr>)"
    obtain sp g where s: "(if spin_us (rcfg ?r) > 0 then if \<not> adaptive_spin (rcfg ?r) then (True, rgate ?r)
        else should_spin (rgate ?r) else (False, rgate ?r)) = (sp, g)" by fastforce
    let ?r1 = "?r\<lparr>rgate := g\<rparr>" and ?bud = "min (spin_us (rcfg ?r) * 1000) t"
    let ?r2 = "bump (\<lambda>s. s\<lparr>st_spins := st_spins s + 1\<rparr>) ?r1"
    obtain res r3 where l: "spin_looks ops ?bud True (env_looks env) ?r2 = (res, r3)" by fastforce
    have 1: "same_queues r ?r1" "same_queues r ?r2" by (simp_all add: same_queues_def bump_def)
    have 3: "same_queues r r3" using tr [OF 1(2)] spin_looks_queues [of ?r2 ops ?bud True "env_looks env"] l by simp
    then have "same_queues r (r3\<lparr>rgate := gg\<rparr>)" for gg by (simp add: same_queues_def)
    note p = poll_park_queues [THEN tr [OF 1(1)], of ops env t] poll_park_queues [THEN tr [OF 3]]
      poll_park_queues [THEN tr [OF this]]
    have "rcfg ?r1 = rcfg ?r" "rcfg ?r2 = rcfg ?r" by (simp_all add: bump_def)
    then show ?thesis
      unfolding r_poll_def Let_def using False s l p 3
      by (auto simp: bump_def split: spin_result.split prod.splits)
  qed
qed

lemma poll_zero_xthread: "rxthread (snd (r_poll ops env 0 r)) = rxthread r"
  by (auto simp: r_poll_def poll_zero_def bump_def Let_def split: prod.split sum.split)

lemma poll_timeout_queues:
  "heap_fine r \<Longrightarrow> pours r (snd (poll_timeout raw r))" "rxthread (snd (poll_timeout raw r)) = rxthread r"
proof -
  obtain nd s where n: "next_deadline (rtimers r, rstore r) = (nd, s)"
    by (cases "next_deadline (rtimers r, rstore r)")
  show "rxthread (snd (poll_timeout raw r)) = rxthread r"
    by (auto simp: poll_timeout_def Let_def n set_timers_def split: option.split prod.split)
  assume f: "heap_fine r"
  have d: "drop_cancelled_top (rtimers r, rstore r) = s"
    using n by (auto simp: next_deadline_def split_beta prod_eq_iff)
  have "owned (fst s) = owned (rtimers r) \<and> heap_ok (entries (fst s))"
    using drop_cancelled_top_spec [of "rtimers r" "rstore r"] f d
    by (cases s) (auto simp: heap_fine_def dest: owned_buried buried_live)
  then show "pours r (snd (poll_timeout raw r))" using f
    by (auto simp: pours_def line_def timer_mass_def heap_fine_def poll_timeout_def Let_def n set_timers_def
        split: option.split prod.split)
qed

section \<open>The invariant\<close>

definition ready_part :: "'b core_loop \<Rightarrow> nat list" where
  "ready_part l = take (length (lp_batch l) - lp_timers l) (lp_batch l)"

definition timer_part :: "'b core_loop \<Rightarrow> nat list" where
  "timer_part l = drop (length (lp_batch l) - lp_timers l) (lp_batch l)"

definition core_inv :: "'b core_loop \<Rightarrow> bool" where
  "core_inv l \<longleftrightarrow>
     tidy (rxthread (lp_reactor l)) \<and>
     mset (lp_ran l @ ready_part l @ line (lp_reactor l)) = mset (lp_scheduled l) \<and>
     (lp_broken l \<or> lp_ran l @ ready_part l @ line (lp_reactor l) = lp_scheduled l) \<and>
     heap_fine (lp_reactor l) \<and>
     mset (lp_timed l) = mset (lp_fired l) + mset (timer_part l) + timer_mass (lp_reactor l) + mset (lp_buried l)"

definition settled :: "'b core_loop \<Rightarrow> bool" where
  "settled l \<longleftrightarrow> lp_broken l \<or> rxthread (lp_reactor l) = xt_new"

definition phase_fine :: "'b core_loop \<Rightarrow> bool" where
  "phase_fine l \<longleftrightarrow>
     (lp_phase l \<in> {P_idle, P_top, P_late} \<longrightarrow> lp_batch l = []) \<and>
     (lp_phase l \<in> {P_events, P_timers} \<longrightarrow> length (lp_batch l) \<le> lp_timers l)"

lemmas part_defs = ready_part_def timer_part_def
lemmas queue_defs = line_def timer_mass_def heap_fine_def
lemmas loop_prims = put_reactor_def on_reactor_def in_net_def on_store_def Let_def

text \<open>What the invariant looks at.\<close>

definition same_items :: "'b core_loop \<Rightarrow> 'b core_loop \<Rightarrow> bool" where
  "same_items l l' \<longleftrightarrow>
     same_queues (lp_reactor l) (lp_reactor l') \<and> rxthread (lp_reactor l') = rxthread (lp_reactor l) \<and>
     lp_ran l' = lp_ran l \<and> lp_batch l' = lp_batch l \<and> lp_timers l' = lp_timers l \<and>
     lp_scheduled l' = lp_scheduled l \<and> lp_timed l' = lp_timed l \<and> lp_fired l' = lp_fired l \<and>
     lp_buried l' = lp_buried l \<and> lp_broken l' = lp_broken l \<and> lp_phase l' = lp_phase l \<and>
     lp_closed l' = lp_closed l"

lemma same_itemsD:
  assumes "same_items l l'"
  shows "core_inv l' = core_inv l" "settled l' = settled l" "phase_fine l' = phase_fine l"
    "lp_closed l' = lp_closed l" "lp_phase l' = lp_phase l"
  using assms by (simp_all add: same_items_def same_queues_def core_inv_def settled_def phase_fine_def part_defs queue_defs)

lemma same_items_refl: "same_items l l"
  by (simp add: same_items_def same_queues_def)

lemma same_items_trans: "same_items l l1 \<Longrightarrow> same_items l1 l2 \<Longrightarrow> same_items l l2"
  by (simp add: same_items_def same_queues_def)

lemma same_in_net: "same_items l (in_net k a l)"
  by (simp add: same_items_def same_queues_def loop_prims)

lemma same_on_store: "same_items l (on_store f l)"
  by (simp add: same_items_def same_queues_def loop_prims)

lemma same_release: "same_items l (release_token h l)"
  by (simp add: release_token_def same_on_store same_items_refl)

lemma same_releases: "same_items l (fold release_token hs l)"
  by (induction hs arbitrary: l) (auto intro: same_items_refl same_items_trans same_release)

lemma same_fields:
  "same_items l (l\<lparr>lp_handle := x\<rparr>)" "same_items l (l\<lparr>lp_stopping := b\<rparr>)" "same_items l (l\<lparr>lp_debug := b\<rparr>)"
  "same_items l (l\<lparr>lp_tick_no := n\<rparr>)" "same_items l (l\<lparr>lp_had_events := b\<rparr>)" "same_items l (l\<lparr>lp_claimed := b\<rparr>)"
  "same_items l (l\<lparr>lp_exit := ex\<rparr>)"
  by (simp_all add: same_items_def same_queues_def)

lemma same_make_handle: "same_items l (snd (make_handle p l))"
proof -
  have "same_items (on_store f l) ((on_store f l)\<lparr>lp_next := n, lp_persistent := q\<rparr>)" for f n q
    by (simp add: same_items_def same_queues_def)
  from same_items_trans [OF same_on_store this] show ?thesis by (simp add: make_handle_def Let_def)
qed

lemma same_cancel: "same_items l (cancel_handle h l)"
  by (simp add: cancel_handle_def same_on_store same_items_refl)

lemma pours_tidy: "pours r r' \<Longrightarrow> tidy (rxthread r) \<Longrightarrow> tidy (rxthread r')"
  by (auto simp: pours_def tidy_def)

lemma core_reactor: "core_inv l \<Longrightarrow> pours (lp_reactor l) r \<Longrightarrow> core_inv (put_reactor r l)"
  using pours_tidy [of "lp_reactor l" r] by (simp add: core_inv_def pours_def put_reactor_def part_defs)

section \<open>Scheduling\<close>

text \<open>New work goes to the end of the line.\<close>

definition grown :: "nat list \<Rightarrow> nat list \<Rightarrow> 'b core_loop \<Rightarrow> 'b core_loop \<Rightarrow> bool" where
  "grown hs ts l l' \<longleftrightarrow> lp_scheduled l' = lp_scheduled l @ hs \<and> lp_timed l' = lp_timed l @ ts \<and>
     lp_ran l' = lp_ran l \<and> lp_batch l' = lp_batch l \<and> lp_timers l' = lp_timers l \<and>
     lp_fired l' = lp_fired l \<and> lp_buried l' = lp_buried l \<and> lp_broken l' = lp_broken l"

lemma core_grow:
  assumes i: "core_inv l" and g: "grown hs ts l l'" and r: "lp_reactor l' = r"
    and o: "lp_broken l \<or> line r = line (lp_reactor l) @ hs"
    and m: "mset (line r) = mset (line (lp_reactor l) @ hs)" and t: "tidy (rxthread r)"
    and h: "heap_fine r" and w: "timer_mass r = timer_mass (lp_reactor l) + mset ts"
  shows "core_inv l'"
proof -
  have p: "ready_part l' = ready_part l" "timer_part l' = timer_part l"
    using g by (simp_all add: grown_def part_defs)
  have "mset (lp_ran l @ ready_part l @ line r) = mset (lp_scheduled l @ hs)"
    using i m by (simp add: core_inv_def)
  moreover have "lp_broken l \<or> lp_ran l @ ready_part l @ line r = lp_scheduled l @ hs"
    using i o by (auto simp: core_inv_def simp flip: append_assoc)
  moreover have "mset (lp_timed l @ ts) = mset (lp_fired l) + mset (timer_part l) + timer_mass r + mset (lp_buried l)"
    using i w by (simp add: core_inv_def)
  ultimately show ?thesis using t h g by (simp add: core_inv_def grown_def r p)
qed

lemma core_enqueue:
  assumes "core_inv l" "refused \<or> settled l"
  shows "core_inv (enqueue_soon refused h l)"
proof -
  let ?r = "lp_reactor l"
  have t: "tidy (rxthread ?r)" and f: "heap_fine ?r" using assms(1) by (simp_all add: core_inv_def)
  have g: "grown [h] [] l (enqueue_soon refused h l)"
    by (simp add: grown_def enqueue_soon_def loop_prims)
  show ?thesis
  proof (cases refused)
    case True
    show ?thesis
      by (rule core_grow [OF assms(1) g refl])
        (use f True in \<open>simp_all add: queue_defs xt_push_def xt_announce_def tidy_def enqueue_soon_def loop_prims\<close>)
  next
    case False
    then have r: "lp_reactor (enqueue_soon refused h l) = push_ready h ?r" by (simp add: enqueue_soon_def loop_prims)
    show ?thesis
    proof (rule core_grow [OF assms(1) g r])
      show "lp_broken l \<or> line (push_ready h ?r) = line ?r @ [h]"
        using False assms(2) by (auto simp: settled_def queue_defs push_ready_def rq_push_def xt_new_def)
    qed (use f t in \<open>simp_all add: queue_defs push_ready_def rq_push_def\<close>)
  qed
qed

lemma core_schedule:
  assumes "core_inv l"
  shows "core_inv (schedule_timer refused d h l)"
proof -
  have o: "owned (schedule d h q) = owned q + {#h#}" for q :: "nat timer_heap"
    by (simp add: owned_def entries_schedule)
  have t: "tidy (rxthread (lp_reactor l))" and f: "heap_fine (lp_reactor l)"
    using assms by (simp_all add: core_inv_def queue_defs)
  have g: "grown [] [h] l (schedule_timer refused d h l)"
    by (simp add: grown_def schedule_timer_def loop_prims)
  let ?r = "(lp_reactor l)\<lparr>rstore := mark_scheduled h (rstore (lp_reactor l))\<rparr>"
  show ?thesis
  proof (cases refused)
    case True
    then have r: "lp_reactor (schedule_timer refused d h l) = ?r\<lparr>rxthread := snd (xt_push_timer d h (rxthread ?r))\<rparr>"
      by (simp add: schedule_timer_def loop_prims)
    show ?thesis
      by (rule core_grow [OF assms g r])
        (use f in \<open>simp_all add: queue_defs xt_push_timer_def xt_announce_def tidy_def\<close>)
  next
    case False
    then have r: "lp_reactor (schedule_timer refused d h l) = r_schedule_timer d h ?r"
      by (simp add: schedule_timer_def loop_prims)
    have "heap_fine (r_schedule_timer d h ?r)"
      using heap_ok_schedule f by (simp add: heap_fine_def r_schedule_timer_def)
    then show ?thesis
      by (intro core_grow [OF assms g r]) (use t in \<open>simp_all add: queue_defs r_schedule_timer_def o\<close>)
  qed
qed

lemma scheduled_fields:
  "lp_phase (enqueue_soon rf h l) = lp_phase l" "lp_batch (enqueue_soon rf h l) = lp_batch l"
  "lp_timers (enqueue_soon rf h l) = lp_timers l" "lp_closed (enqueue_soon rf h l) = lp_closed l"
  "lp_broken (enqueue_soon rf h l) = lp_broken l"
  "lp_phase (schedule_timer rf d h l) = lp_phase l" "lp_batch (schedule_timer rf d h l) = lp_batch l"
  "lp_timers (schedule_timer rf d h l) = lp_timers l" "lp_closed (schedule_timer rf d h l) = lp_closed l"
  "lp_broken (schedule_timer rf d h l) = lp_broken l"
  "\<not> rf \<Longrightarrow> rxthread (lp_reactor (enqueue_soon rf h l)) = rxthread (lp_reactor l)"
  "\<not> rf \<Longrightarrow> rxthread (lp_reactor (schedule_timer rf d h l)) = rxthread (lp_reactor l)"
  by (simp_all add: enqueue_soon_def schedule_timer_def loop_prims push_ready_def r_schedule_timer_def)

text \<open>What a step of the application, or of another thread during a park, keeps.\<close>

definition app_keeps :: "bool \<Rightarrow> 'b core_loop \<Rightarrow> 'b core_loop \<Rightarrow> bool" where
  "app_keeps refused l l' \<longleftrightarrow>
     lp_phase l' = lp_phase l \<and> lp_batch l' = lp_batch l \<and> lp_timers l' = lp_timers l \<and>
     lp_closed l' = lp_closed l \<and> lp_broken l' = lp_broken l \<and>
     (core_inv l \<longrightarrow> refused \<or> settled l \<longrightarrow> core_inv l') \<and> (\<not> refused \<longrightarrow> settled l \<longrightarrow> settled l')"

lemma app_same:
  assumes s: "same_items l l'"
  shows "app_keeps refused l l'"
proof -
  have "lp_batch l' = lp_batch l" "lp_timers l' = lp_timers l" "lp_broken l' = lp_broken l"
    using s by (simp_all only: same_items_def)
  then show ?thesis unfolding app_keeps_def same_itemsD [OF s] by (intro conjI impI refl)
qed

lemma app_trans: "app_keeps refused l l1 \<Longrightarrow> app_keeps refused l1 l2 \<Longrightarrow> app_keeps refused l l2"
  by (auto simp: app_keeps_def)

lemma app_enqueue: "app_keeps refused l (enqueue_soon refused h l)"
  using core_enqueue [of l refused h] by (auto simp: app_keeps_def scheduled_fields settled_def)

lemma app_schedule: "app_keeps refused l (schedule_timer refused d h l)"
  using core_schedule [of l refused d h] by (auto simp: app_keeps_def scheduled_fields settled_def)

lemma app_methods:
  "app_keeps refused l (call_soon_threadsafe refused l)" "app_keeps refused l (call_soon refused other l)"
  "app_keeps refused l (call_at refused other d l)" "app_keeps refused l (cancel_handle h l)"
  "app_keeps refused l (loop_stop l)" "app_keeps refused l (l\<lparr>lp_debug := b\<rparr>)"
  "app_keeps refused l (loop_add_reader k fd l)" "app_keeps refused l (loop_add_writer k fd l)"
  "app_keeps refused l (in_net k a l)"
proof -
  obtain h1 l1 where m: "make_handle False l = (h1, l1)" by fastforce
  obtain h2 l2 where m': "make_handle True l = (h2, l2)" by fastforce
  have 1: "app_keeps refused l l1" "app_keeps refused l l2"
    using same_make_handle [of l False] same_make_handle [of l True] m m' by (auto intro: app_same)
  have r: "app_keeps refused l l" by (rule app_same [OF same_items_refl])
  note net = app_trans [OF 1(2) app_same [OF same_in_net]]
  show "app_keeps refused l (call_soon_threadsafe refused l)" "app_keeps refused l (call_soon refused other l)"
    using app_trans [OF 1(1) app_enqueue] r by (simp_all add: call_soon_threadsafe_def call_soon_def m)
  show "app_keeps refused l (call_at refused other d l)"
    using app_trans [OF 1(1) app_schedule] r by (simp add: call_at_def m)
  show "app_keeps refused l (loop_add_reader k fd l)" "app_keeps refused l (loop_add_writer k fd l)"
    using net r by (simp_all add: loop_add_reader_def loop_add_writer_def m')
  show "app_keeps refused l (cancel_handle h l)" "app_keeps refused l (loop_stop l)"
    "app_keeps refused l (l\<lparr>lp_debug := b\<rparr>)" "app_keeps refused l (in_net k a l)"
    by (auto intro!: app_same same_cancel same_fields same_in_net simp: loop_stop_def)
qed

lemma app_arrive: "app_keeps True l (arrive a l)"
  by (cases a) (simp_all add: app_methods)

lemma app_arrivals: "app_keeps True l (fold arrive as l)"
proof (induction as arbitrary: l)
  case (Cons a as)
  from app_trans [OF app_arrive Cons.IH] show ?case by simp
qed (simp add: app_same same_items_refl)

section \<open>The tick\<close>

lemma core_same: "core_inv l \<Longrightarrow> same_items l l' \<Longrightarrow> core_inv l'"
  by (simp add: same_itemsD)

lemma unpop_expired_many: "fold unpop_expired (rev ts) r = r\<lparr>expired := ts @ expired r\<rparr>"
  by (induction ts) (simp_all add: unpop_expired_def)

lemma hand_back_shape:
  assumes "n = lp_timers l \<or> n = length (lp_batch l) \<and> length (lp_batch l) \<le> lp_timers l"
  shows "lp_batch (hand_back n l) = []"
    "line (lp_reactor (hand_back n l)) = ready_part l @ line (lp_reactor l)"
    "expired (lp_reactor (hand_back n l)) = timer_part l @ expired (lp_reactor l)"
    "rtimers (lp_reactor (hand_back n l)) = rtimers (lp_reactor l)"
    "rxthread (lp_reactor (hand_back n l)) = rxthread (lp_reactor l)"
proof -
  have sp: "length (lp_batch l) - min n (length (lp_batch l)) = length (lp_batch l) - lp_timers l"
    using assms by auto
  show "lp_batch (hand_back n l) = []"
    "line (lp_reactor (hand_back n l)) = ready_part l @ line (lp_reactor l)"
    "expired (lp_reactor (hand_back n l)) = timer_part l @ expired (lp_reactor l)"
    "rtimers (lp_reactor (hand_back n l)) = rtimers (lp_reactor l)"
    "rxthread (lp_reactor (hand_back n l)) = rxthread (lp_reactor l)"
    by (simp_all add: hand_back_def Let_def sp unpop_many unpop_expired_many part_defs line_def bump_def
        on_reactor_def put_reactor_def)
qed

lemma hand_back_fields:
  "lp_ran (hand_back n l) = lp_ran l" "lp_scheduled (hand_back n l) = lp_scheduled l"
  "lp_timed (hand_back n l) = lp_timed l" "lp_fired (hand_back n l) = lp_fired l"
  "lp_buried (hand_back n l) = lp_buried l" "lp_broken (hand_back n l) = lp_broken l"
  "lp_closed (hand_back n l) = lp_closed l" "lp_phase (hand_back n l) = lp_phase l"
  by (simp_all add: hand_back_def Let_def on_reactor_def put_reactor_def)

text \<open>An unwind puts the rest of the batch back where it came from.\<close>

lemma core_hand_back:
  assumes "core_inv l" "n = lp_timers l \<or> n = length (lp_batch l) \<and> length (lp_batch l) \<le> lp_timers l"
  shows "core_inv (hand_back n l)"
proof -
  note h = hand_back_shape [OF assms(2)]
  have "ready_part (hand_back n l) = []" "timer_part (hand_back n l) = []" by (simp_all add: part_defs h(1))
  moreover have "timer_mass (lp_reactor (hand_back n l)) = mset (timer_part l) + timer_mass (lp_reactor l)"
    by (simp add: timer_mass_def h)
  moreover have "heap_fine (lp_reactor (hand_back n l)) = heap_fine (lp_reactor l)" by (simp add: heap_fine_def h)
  ultimately show ?thesis using assms(1) by (simp add: core_inv_def h hand_back_fields ac_simps)
qed

definition idle_fine :: "'b core_loop \<Rightarrow> bool" where
  "idle_fine l \<longleftrightarrow> core_inv l \<and> settled l \<and> phase_fine l"

lemma same_end_run_prefix:
  "same_items l (in_net k A_requeue ((fold release_token (lp_batch l) l)\<lparr>lp_stopping := False\<rparr>))"
  using same_items_trans [OF same_items_trans [OF same_releases same_fields(2)] same_in_net] .

lemma end_run_fine:
  assumes "core_inv l" "settled l" "lp_batch l = []"
  shows "idle_fine (end_run k x l)" "lp_closed (end_run k x l) = lp_closed l"
proof -
  let ?l = "in_net k A_requeue (l\<lparr>lp_stopping := False, lp_batch := []\<rparr>)"
  have e: "end_run k x l = ?l\<lparr>lp_claimed := False, lp_phase := P_idle, lp_exit := Some x\<rparr>"
    by (simp add: end_run_def Let_def assms(3))
  have "l\<lparr>lp_stopping := False, lp_batch := []\<rparr> = l\<lparr>lp_stopping := False\<rparr>" using assms(3) by simp
  then have s: "same_items l ?l" using same_items_trans [OF same_fields(2) same_in_net] by simp
  have b: "lp_batch ?l = []" by (simp add: in_net_def Let_def)
  have "core_inv (end_run k x l) = core_inv ?l" "settled (end_run k x l) = settled ?l"
    "lp_closed (end_run k x l) = lp_closed ?l"
    unfolding e by (simp_all add: core_inv_def settled_def part_defs)
  moreover have "phase_fine (end_run k x l)" unfolding e phase_fine_def using b by simp
  ultimately show "idle_fine (end_run k x l)" "lp_closed (end_run k x l) = lp_closed l"
    using assms(1,2) by (simp_all add: idle_fine_def same_itemsD [OF s])
qed

lemma graves_fine:
  assumes "core_inv l"
  shows "core_inv (take_timer_graves l)"
proof -
  obtain ps h where t: "take_graveyard (rtimers (lp_reactor l)) = (ps, h)" by fastforce
  then have o: "owned (rtimers (lp_reactor l)) = mset ps + owned h" "entries h = entries (rtimers (lp_reactor l))"
    by (auto simp: take_graveyard_def owned_def)
  let ?r = "(lp_reactor l)\<lparr>rtimers := h\<rparr>"
  have "timer_mass (lp_reactor l) = mset ps + timer_mass ?r" "heap_fine ?r = heap_fine (lp_reactor l)" "line ?r = line (lp_reactor l)"
    by (simp_all add: queue_defs o)
  with assms show ?thesis
    by (simp add: core_inv_def take_timer_graves_def r_take_graveyard_def t put_reactor_def part_defs ac_simps)
qed

lemma graves_fields:
  "lp_phase (take_timer_graves l) = lp_phase l" "lp_batch (take_timer_graves l) = lp_batch l"
  "lp_timers (take_timer_graves l) = lp_timers l" "lp_closed (take_timer_graves l) = lp_closed l"
  "lp_broken (take_timer_graves l) = lp_broken l"
  "rxthread (lp_reactor (take_timer_graves l)) = rxthread (lp_reactor l)"
  by (simp_all add: take_timer_graves_def r_take_graveyard_def put_reactor_def split_beta Let_def)

lemma app_graves: "app_keeps refused l (take_timer_graves l)"
  using graves_fine [of l] by (simp add: app_keeps_def graves_fields settled_def)

lemma app_drain_graves: "app_keeps refused l (drain_graves k l)" "app_keeps refused l (drop_graves k l)"
  using app_trans [OF app_methods(9) app_graves] app_same [OF same_items_refl]
  by (auto simp: drain_graves_def drop_graves_def)

lemma tick_timeout_fine:
  assumes "core_inv l"
  shows "core_inv (snd (tick_timeout env l))" "rxthread (lp_reactor (snd (tick_timeout env l))) = rxthread (lp_reactor l)"
    "lp_batch (snd (tick_timeout env l)) = lp_batch l" "lp_phase (snd (tick_timeout env l)) = lp_phase l"
    "lp_closed (snd (tick_timeout env l)) = lp_closed l" "lp_broken (snd (tick_timeout env l)) = lp_broken l"
proof -
  obtain t r where p: "poll_timeout (te_timeout env) (lp_reactor l) = (t, r)" by fastforce
  have "heap_fine (lp_reactor l)" using assms by (simp add: core_inv_def)
  note q = poll_timeout_queues(1) [OF this, of "te_timeout env", unfolded p snd_conv]
    poll_timeout_queues(2) [of "te_timeout env" "lp_reactor l", unfolded p snd_conv]
  have "snd (tick_timeout env l) = l \<or> snd (tick_timeout env l) = put_reactor r l"
    by (simp add: tick_timeout_def Let_def p)
  then show "core_inv (snd (tick_timeout env l))" "rxthread (lp_reactor (snd (tick_timeout env l))) = rxthread (lp_reactor l)"
    "lp_batch (snd (tick_timeout env l)) = lp_batch l" "lp_phase (snd (tick_timeout env l)) = lp_phase l"
    "lp_closed (snd (tick_timeout env l)) = lp_closed l" "lp_broken (snd (tick_timeout env l)) = lp_broken l"
    using core_reactor [OF assms q(1)] assms q(2) by (auto simp: put_reactor_def)
qed

lemma core_same_queues:
  "core_inv l \<Longrightarrow> same_queues (lp_reactor l) r \<Longrightarrow> rxthread r = rxthread (lp_reactor l) \<Longrightarrow> core_inv (put_reactor r l)"
  by (rule core_reactor) (auto simp: same_queues_def intro: pours_same)

lemma arrivals_queues: "same_queues (lp_reactor l) (lp_reactor (fold arrive as l))"
proof (induction as arbitrary: l)
  case Nil
  show ?case by (simp add: same_queues_def)
next
  case (Cons a as)
  have m: "lp_reactor (snd (make_handle False l)) = (lp_reactor l)\<lparr>rstore := handle_new (lp_next l) (rstore (lp_reactor l))\<rparr>"
    by (simp add: make_handle_def loop_prims)
  have "same_queues (lp_reactor l) (lp_reactor (arrive a l))"
    by (cases a)
      (auto simp: same_queues_def call_soon_def call_soon_threadsafe_def call_at_def cancel_handle_def loop_stop_def
        enqueue_soon_def schedule_timer_def make_handle_def loop_prims)
  with Cons.IH [of "arrive a l"] show ?case by (simp add: same_queues_def)
qed

lemma tick_poll_fine:
  fixes l :: "'b core_loop"
  assumes "core_inv l" "settled l"
    and p: "tick_poll k env timeout l = (res, l')"
  shows "core_inv l'" "lp_batch l' = lp_batch l" "lp_phase l' = lp_phase l" "lp_closed l' = lp_closed l"
    "lp_broken l' = lp_broken l" "res = Inr False \<Longrightarrow> rxthread (lp_reactor l') = rxthread (lp_reactor l)"
proof -
  have "core_inv l' \<and> lp_batch l' = lp_batch l \<and> lp_phase l' = lp_phase l \<and> lp_closed l' = lp_closed l \<and>
    lp_broken l' = lp_broken l \<and> (res = Inr False \<longrightarrow> rxthread (lp_reactor l') = rxthread (lp_reactor l))"
  proof (cases "timeout = 0")
    case True
    let ?env = "\<lparr>env_raw = te_poll env, env_looks = [], env_spun = 0, env_xthread = rxthread (lp_reactor l),
      env_raw_after = te_after env\<rparr>"
    obtain x r where r: "r_poll (lo_bk k) ?env 0 (lp_reactor l) = (x, r)" by fastforce
    have "same_queues (lp_reactor l) r" "rxthread r = rxthread (lp_reactor l)"
      using r_poll_queues [of "lp_reactor l" "lo_bk k" ?env 0] poll_zero_xthread [of "lo_bk k" ?env "lp_reactor l"]
      by (simp_all add: r)
    moreover from this have "core_inv (put_reactor r l)" by (rule core_same_queues [OF assms(1)])
    ultimately show ?thesis using p True r by (auto simp: tick_poll_def put_reactor_def)
  next
    case False
    let ?l = "fold arrive (te_arrivals env) l"
    have a: "app_keeps True l ?l" by (rule app_arrivals)
    then have c: "core_inv ?l" using assms by (simp add: app_keeps_def)
    obtain x :: "io_error + unit" and r :: "(nat, 'b) reactor" where r: "res = map_sum id (\<lambda>_. True) x" "same_queues (lp_reactor l) r"
      "l' = put_reactor (r\<lparr>rxthread := rxthread (lp_reactor ?l), rstore := rstore (lp_reactor ?l)\<rparr>) ?l"
    proof -
      let ?env = "\<lparr>env_raw = te_poll env,
        env_looks = map (\<lambda>(d, n). (d, rxthread (lp_reactor (fold arrive (take n (te_arrivals env)) l)))) (te_looks env),
        env_spun = te_spun env, env_xthread = rxthread (lp_reactor ?l), env_raw_after = te_after env\<rparr>"
      obtain x r where q: "r_poll (lo_bk k) ?env timeout (lp_reactor l) = (x, r)" by fastforce
      show thesis
        using p False r_poll_queues [of "lp_reactor l" "lo_bk k" ?env timeout]
        by (intro that [of x r]) (simp_all add: tick_poll_def Let_def q)
    qed
    have "same_queues (lp_reactor ?l) (r\<lparr>rxthread := rxthread (lp_reactor ?l), rstore := rstore (lp_reactor ?l)\<rparr>)"
      using arrivals_queues [of l "te_arrivals env"] r(2) by (simp add: same_queues_def)
    then have "core_inv l'" unfolding r(3) by (rule core_same_queues [OF c]) simp
    moreover have "res \<noteq> Inr False" using r(1) by (cases x) auto
    ultimately show ?thesis using a by (simp add: r(3) app_keeps_def put_reactor_def)
  qed
  then show "core_inv l'" "lp_batch l' = lp_batch l" "lp_phase l' = lp_phase l" "lp_closed l' = lp_closed l"
    "lp_broken l' = lp_broken l" "res = Inr False \<Longrightarrow> rxthread (lp_reactor l') = rxthread (lp_reactor l)" by simp_all
qed

lemma tick_translate_fine:
  assumes "core_inv l" "parked \<or> settled l"
  shows "core_inv (tick_translate k env parked l)" "settled (tick_translate k env parked l)"
    "lp_batch (tick_translate k env parked l) = lp_batch l" "lp_phase (tick_translate k env parked l) = lp_phase l"
    "lp_closed (tick_translate k env parked l) = lp_closed l"
proof -
  obtain cs r1 where f: "finish_poll_after (te_finish env) parked (lp_reactor l) = (cs, r1)" by fastforce
  let ?r = "r1\<lparr>rcompletions := []\<rparr>"
  have p: "pours (lp_reactor l) ?r"
    using finish_poll_pours [of "lp_reactor l" "te_finish env" parked]
    by (simp add: f pours_def queue_defs)
  have x: "settled (put_reactor ?r l)"
    using finish_poll_drained [of "lp_reactor l" parked "te_finish env"] assms
    by (auto simp: f settled_def core_inv_def put_reactor_def)
  let ?l = "put_reactor ?r l"
  have "same_items ?l (tick_translate k env parked l)"
    by (simp add: tick_translate_def f drain_completions_def Let_def same_in_net same_items_refl
        same_items_trans [OF same_in_net same_in_net])
  from same_itemsD [OF this] this core_reactor [OF assms(1) p] x
  show "core_inv (tick_translate k env parked l)" "settled (tick_translate k env parked l)"
    "lp_batch (tick_translate k env parked l) = lp_batch l" "lp_phase (tick_translate k env parked l) = lp_phase l"
    "lp_closed (tick_translate k env parked l) = lp_closed l"
    by (simp_all add: same_items_def put_reactor_def)
qed

lemma push_ready_frame:
  "expired (fold push_ready hs r) = expired r" "rtimers (fold push_ready hs r) = rtimers r"
  "rxthread (fold push_ready hs r) = rxthread r"
  by (induction hs arbitrary: r) (simp_all add: push_ready_def)

lemma tick_watches_fine:
  assumes "core_inv l" "settled l"
  shows "core_inv (tick_watches k l)" "settled (tick_watches k l)"
    "lp_batch (tick_watches k l) = lp_batch l" "lp_phase (tick_watches k l) = lp_phase l"
    "lp_closed (tick_watches k l) = lp_closed l"
proof -
  let ?hs = "n_ready_scratch (w_net (lp_world l))" and ?l = "in_net k A_take_ready l"
  let ?r = "absorb_into_batch (fold push_ready ?hs (lp_reactor ?l))"
  have q: "rready ?r = rready (lp_reactor l) @ ?hs" "rxthread ?r = rxthread (lp_reactor l)"
    "expired ?r = expired (lp_reactor l)" "rtimers ?r = rtimers (lp_reactor l)"
  proof -
    show "rready ?r = rready (lp_reactor l) @ ?hs" "rxthread ?r = rxthread (lp_reactor l)"
      "expired ?r = expired (lp_reactor l)" "rtimers ?r = rtimers (lp_reactor l)"
      by (simp_all add: absorb_into_batch_def snapshot_batch_def push_ready_many push_ready_frame in_net_def Let_def)
  qed
  have e: "tick_watches k l = (if ?hs = [] then l else (put_reactor ?r ?l)\<lparr>lp_scheduled := lp_scheduled l @ ?hs\<rparr>)"
    by (simp add: tick_watches_def on_reactor_def put_reactor_def in_net_def Let_def)
  have "core_inv (tick_watches k l) \<and> settled (tick_watches k l) \<and> lp_batch (tick_watches k l) = lp_batch l \<and>
      lp_phase (tick_watches k l) = lp_phase l \<and> lp_closed (tick_watches k l) = lp_closed l"
  proof (cases "?hs = []")
    case False
    then have t: "tick_watches k l = (put_reactor ?r ?l)\<lparr>lp_scheduled := lp_scheduled l @ ?hs\<rparr>" using e by simp
    have g: "grown ?hs [] l (tick_watches k l)" unfolding t by (simp add: grown_def put_reactor_def in_net_def Let_def)
    have "lp_reactor (tick_watches k l) = ?r" unfolding t by (simp add: put_reactor_def)
    from core_grow [OF assms(1) g this] assms q have "core_inv (tick_watches k l)"
      by (auto simp: queue_defs core_inv_def settled_def xt_new_def)
    with assms(2) q(2) show ?thesis unfolding t by (simp add: settled_def put_reactor_def in_net_def Let_def)
  qed (use e assms in simp)
  then show "core_inv (tick_watches k l)" "settled (tick_watches k l)"
    "lp_batch (tick_watches k l) = lp_batch l" "lp_phase (tick_watches k l) = lp_phase l"
    "lp_closed (tick_watches k l) = lp_closed l" by simp_all
qed

lemma tick_take_fine:
  assumes "core_inv l" "settled l" "lp_batch l = []"
  shows "core_inv (tick_take k l)" "settled (tick_take k l)" "lp_phase (tick_take k l) = lp_phase l"
    "lp_closed (tick_take k l) = lp_closed l"
proof -
  let ?l = "in_net k A_take l"
  note s = same_itemsD [OF same_in_net [of l k A_take]]
  define n where "n = batch_left (lp_reactor l)"
  define r where "r = (if n = 0 then lp_reactor ?l
    else bump (\<lambda>s. s\<lparr>st_dispatched := st_dispatched s + min n (length (rready (lp_reactor l)))\<rparr>)
      ((lp_reactor ?l)\<lparr>batch_left := 0, rready := drop n (rready (lp_reactor l))\<rparr>))"
  have tb: "take_batch [] (lp_reactor ?l) = (take n (rready (lp_reactor l)), r)"
    by (simp add: take_batch_eq r_def n_def in_net_def Let_def)
  have q: "rready r = drop n (rready (lp_reactor l))" "expired r = expired (lp_reactor l)"
    "rtimers r = rtimers (lp_reactor l)" "rxthread r = rxthread (lp_reactor l)"
    by (auto simp: r_def bump_def in_net_def Let_def)
  let ?r = "if expired r = [] then r else r\<lparr>expired := []\<rparr>"
  have te: "take_expired b r = (length (expired r), b @ expired r, ?r)" for b
    by (simp add: take_expired_def Let_def)
  let ?m = "(put_reactor ?r ?l)\<lparr>lp_batch := take n (rready (lp_reactor l)) @ expired r, lp_timers := length (expired r)\<rparr>"
  have t: "tick_take k l = drop_graves k ?m"
    by (simp only: tick_take_def Let_def tb te prod.case)
  have parts: "ready_part ?m = take n (rready (lp_reactor l))" "timer_part ?m = expired r"
    by (simp_all add: part_defs min_def)
  have l0: "ready_part l = []" "timer_part l = []" by (simp_all add: part_defs assms(3))
  have "core_inv ?m"
  proof -
    have m: "lp_reactor ?m = ?r" "lp_ran ?m = lp_ran l" "lp_scheduled ?m = lp_scheduled l" "lp_timed ?m = lp_timed l"
      "lp_fired ?m = lp_fired l" "lp_buried ?m = lp_buried l" "lp_broken ?m = lp_broken l"
      by (simp_all add: put_reactor_def in_net_def Let_def)
    have rr: "rxthread ?r = rxthread (lp_reactor l)" "heap_fine ?r = heap_fine (lp_reactor l)"
      "timer_mass (lp_reactor l) = mset (expired r) + timer_mass ?r"
      "line (lp_reactor l) = take n (rready (lp_reactor l)) @ line ?r"
      using q by (simp_all add: queue_defs)
    show ?thesis
      using assms(1) unfolding core_inv_def parts l0 m rr by (simp add: ac_simps)
  qed
  moreover have "settled ?m" using assms(2) by (simp add: settled_def put_reactor_def q in_net_def Let_def)
  ultimately show "core_inv (tick_take k l)" "settled (tick_take k l)" "lp_phase (tick_take k l) = lp_phase l"
    "lp_closed (tick_take k l) = lp_closed l"
    using app_drain_graves(2) [of False ?m k] unfolding t app_keeps_def
    by (simp_all add: put_reactor_def in_net_def Let_def)
qed

lemma tick_signals_fine:
  assumes "core_inv l" "settled l"
  shows "idle_fine (tick_signals k env parked l)"
proof -
  let ?n = "l\<lparr>lp_tick_no := lp_tick_no l + 1\<rparr>"
  have n: "core_inv ?n" "settled ?n" using assms same_itemsD [OF same_fields(4) [of l "lp_tick_no l + 1"]] by simp_all
  show ?thesis
  proof (cases "(parked \<or> lp_tick_no l AND 63 = 0) \<and> te_signal env")
    case True
    let ?u = "hand_back (lp_timers l) ?n"
    have u: "core_inv ?u" "lp_batch ?u = []" "settled ?u"
      using core_hand_back [OF n(1), of "lp_timers l"] hand_back_shape [of "lp_timers l" ?n] n(2)
      by (simp_all add: settled_def hand_back_fields)
    have "idle_fine (end_run k Interrupted (in_net k A_requeue ?u))"
      by (rule end_run_fine) (use u same_itemsD [OF same_in_net [of ?u k A_requeue]] in \<open>simp_all add: in_net_def Let_def\<close>)
    with True show ?thesis by (simp add: tick_signals_def Let_def)
  next
    case False
    have "core_inv (?n\<lparr>lp_phase := P_ready\<rparr>)" "settled (?n\<lparr>lp_phase := P_ready\<rparr>)"
      using n by (simp_all add: core_inv_def settled_def part_defs)
    with False show ?thesis by (auto simp: tick_signals_def Let_def idle_fine_def phase_fine_def)
  qed
qed

lemma tick_begin_fine:
  assumes "idle_fine l" "lp_phase l = P_top"
  shows "idle_fine (tick_begin k env l)"
proof -
  have i: "core_inv l" "settled l" "lp_batch l = []" using assms by (simp_all add: idle_fine_def phase_fine_def)
  let ?a = "if n_flush_list (w_net (lp_world l)) \<noteq> [] then in_net k A_flush l else l"
  have "same_items l ?a" by (simp add: same_in_net same_items_refl)
  note a = same_itemsD [OF this] this
  let ?b = "on_reactor (prepare_tick (te_prepare env)) ?a"
  have pa: "core_inv ?a" using a i by simp
  have b: "core_inv ?b" "lp_batch ?b = []" "lp_phase ?b = P_top" "rxthread (lp_reactor ?b) = xt_new"
    using core_reactor [OF pa pours_prepare, of "te_prepare env"] a(6) i(3) assms(2)
      prepare_drained [of "lp_reactor ?a" "te_prepare env"] pa
    by (simp_all add: on_reactor_def put_reactor_def same_items_def core_inv_def)
  obtain t c where c: "tick_timeout env ?b = (t, c)" by fastforce
  note c' = tick_timeout_fine [OF b(1), of env, unfolded c snd_conv]
  have sc: "settled c" by (simp add: settled_def c'(2) b(4))
  obtain res d where d: "tick_poll k env t c = (res, d)" by fastforce
  note d' = tick_poll_fine [OF c'(1) sc d]
  show ?thesis
  proof (cases res)
    case (Inl e)
    let ?d = "d\<lparr>lp_broken := lp_broken d \<or> xcalls (rxthread (lp_reactor d)) \<noteq> [] \<or> wake_pending (rxthread (lp_reactor d))\<rparr>"
    have "core_inv ?d" using d'(1) by (auto simp: core_inv_def part_defs)
    moreover have "settled ?d" using d'(1) by (auto simp: core_inv_def settled_def tidy_def)
    ultimately have "idle_fine (end_run k (Poll_failed e) ?d)"
      by (rule end_run_fine) (simp add: d' c' b)
    then show ?thesis by (simp add: tick_begin_def Let_def c d Inl)
  next
    case (Inr parked)
    have "parked \<or> settled d" using d'(5,6) c'(2) b(4) Inr by (cases parked) (simp_all add: settled_def)
    note e = tick_translate_fine [OF d'(1) this, of k env]
    note f = tick_watches_fine [OF e(1,2), of k]
    have fb: "lp_batch (tick_watches k (tick_translate k env parked d)) = []" by (simp add: f e d' c' b)
    note g = tick_take_fine [OF f(1,2) fb, of k]
    let ?g = "tick_take k (tick_watches k (tick_translate k env parked d))"
    let ?h = "if has_special_graveyards (w_net (lp_world ?g)) \<and> w_batch (lp_world ?g) = [] then drain_graves k ?g else ?g"
    have h: "core_inv ?h" "settled ?h"
      using app_drain_graves(1) [of False ?g k] g by (simp_all add: app_keeps_def)
    from h have "idle_fine (tick_signals k env parked ?h)" by (rule tick_signals_fine)
    then show ?thesis by (simp add: tick_begin_def Let_def c d Inr)
  qed
qed

section \<open>Callbacks and events\<close>

lemma run_first_fine:
  assumes i: "idle_fine l" and b: "lp_batch l = h # hs"
    and p: "if lp_phase l = P_ready then lp_timers l < length (lp_batch l) else lp_phase l = P_timers"
  shows "idle_fine (run_first l)"
proof -
  let ?m = "if lp_phase l = P_ready then l\<lparr>lp_batch := hs, lp_ran := lp_ran l @ [h]\<rparr>
            else l\<lparr>lp_batch := hs, lp_fired := lp_fired l @ [h]\<rparr>"
  have c: "core_inv l" "settled l" "phase_fine l" using i by (simp_all add: idle_fine_def)
  have "idle_fine ?m"
  proof (cases "lp_phase l = P_ready")
    case True
    then have "lp_timers l \<le> length hs" using p b by simp
    then have "ready_part l = h # ready_part ?m" "timer_part l = timer_part ?m"
      using True b by (simp_all add: part_defs Suc_diff_le)
    with c True show ?thesis by (simp add: idle_fine_def core_inv_def settled_def phase_fine_def)
  next
    case False
    then have q: "lp_phase l = P_timers" "Suc (length hs) \<le> lp_timers l"
      using p c(3) b by (simp_all add: phase_fine_def)
    then have "ready_part l = []" "ready_part ?m = []" "timer_part l = h # timer_part ?m"
      using False b by (simp_all add: part_defs)
    with c False q show ?thesis by (simp add: idle_fine_def core_inv_def settled_def phase_fine_def)
  qed
  moreover have "same_items ?m (run_first l)"
    using same_fields(1) [of ?m "Some h"] same_release [of ?m h] by (simp add: run_first_def b Let_def)
  ultimately show ?thesis by (simp add: idle_fine_def same_itemsD)
qed

lemma phase_change:
  "idle_fine l \<Longrightarrow> length (lp_batch l) \<le> lp_timers l \<Longrightarrow> p = P_events \<or> p = P_timers \<Longrightarrow>
     idle_fine (l\<lparr>lp_phase := p, lp_had_events := b\<rparr>)"
  "idle_fine l \<Longrightarrow> length (lp_batch l) \<le> lp_timers l \<Longrightarrow> idle_fine (l\<lparr>lp_phase := P_timers\<rparr>)"
  "idle_fine l \<Longrightarrow> lp_batch l = [] \<Longrightarrow> idle_fine (l\<lparr>lp_phase := q\<rparr>)"
  by (auto simp: idle_fine_def core_inv_def settled_def phase_fine_def part_defs)

lemma idle_app: "app_keeps False l l' \<Longrightarrow> idle_fine l \<Longrightarrow> idle_fine l'"
  by (simp add: app_keeps_def idle_fine_def phase_fine_def)

lemma idle_fine_same: "same_items l l' \<Longrightarrow> idle_fine l \<Longrightarrow> idle_fine l'"
  by (simp add: idle_fine_def same_itemsD)

lemma tick_end_fine: "idle_fine l \<Longrightarrow> lp_batch l = [] \<Longrightarrow> idle_fine (tick_end k l)"
  using end_run_fine [of l k Stopped] phase_change(3) [of l P_top] by (simp add: tick_end_def idle_fine_def)

lemma loop_next_fine:
  assumes i: "idle_fine l"
  shows "idle_fine (loop_next k gone l)"
proof (cases "lp_handle l \<noteq> None \<or> w_call (lp_world l) \<noteq> None")
  case False
  have net: "idle_fine (in_net k a l)" for a by (rule idle_fine_same [OF same_in_net i])
  show ?thesis
  proof (cases "lp_phase l")
    case P_ready
    show ?thesis
    proof (cases "lp_timers l < length (lp_batch l)")
      case True
      then obtain h hs where b: "lp_batch l = h # hs" by (cases "lp_batch l") auto
      have "idle_fine (run_first l)" by (rule run_first_fine [OF i b]) (simp add: P_ready True)
      with False P_ready True show ?thesis by (simp add: loop_next_def)
    next
      case F: False
      with phase_change(1) [OF i] False P_ready show ?thesis by (simp add: loop_next_def)
    qed
  next
    case P_events
    then have "length (lp_batch l) \<le> lp_timers l" using i by (simp add: idle_fine_def phase_fine_def)
    from phase_change(2) [OF i this] net False P_events show ?thesis by (simp add: loop_next_def)
  next
    case P_timers
    show ?thesis
    proof (cases "lp_batch l")
      case (Cons h hs)
      have "idle_fine (run_first l)" by (rule run_first_fine [OF i Cons]) (simp add: P_timers)
      with False P_timers Cons show ?thesis by (simp add: loop_next_def)
    next
      case Nil
      let ?m = "drain_graves k (in_net k A_take (in_net k A_flush l))"
      have a: "app_keeps False l ?m" by (intro app_trans [OF _ app_drain_graves(1)] app_trans [OF app_methods(9) app_methods(9)])
      then have "lp_batch ?m = []" using Nil by (simp add: app_keeps_def)
      with phase_change(3) [OF idle_app [OF a i]] tick_end_fine [OF i Nil] False P_timers Nil show ?thesis
        by (simp add: loop_next_def)
    qed
  next
    case P_late
    then have "lp_batch l = []" using i by (simp add: idle_fine_def phase_fine_def)
    from tick_end_fine [OF i this] net False P_late show ?thesis by (simp add: loop_next_def)
  qed (use False i in \<open>simp_all add: loop_next_def\<close>)
qed (use i in \<open>auto simp: loop_next_def\<close>)

lemma unwind_fine:
  assumes i: "idle_fine l" and n: "n = lp_timers l \<or> n = length (lp_batch l) \<and> length (lp_batch l) \<le> lp_timers l"
  shows "idle_fine (end_run k x (in_net k A_requeue (hand_back n l)))" "idle_fine (end_run k x (hand_back n l))"
proof -
  let ?u = "hand_back n l"
  have u: "core_inv ?u" "settled ?u" "lp_batch ?u = []"
    using i core_hand_back [OF _ n] hand_back_shape [OF n] by (simp_all add: idle_fine_def settled_def hand_back_fields)
  have "core_inv (in_net k A_requeue ?u)" "settled (in_net k A_requeue ?u)" "lp_batch (in_net k A_requeue ?u) = []"
    using u same_itemsD [OF same_in_net [of ?u k A_requeue]] by (simp_all add: in_net_def Let_def)
  with u show "idle_fine (end_run k x (in_net k A_requeue ?u))" "idle_fine (end_run k x ?u)"
    by (simp_all add: end_run_fine)
qed

lemma callback_returns_fine:
  assumes i: "idle_fine l"
  shows "idle_fine (callback_returns k fatal l)"
proof (cases "lp_handle l")
  case (Some h)
  let ?m = "release_token h (l\<lparr>lp_handle := None\<rparr>)"
  have s: "same_items l ?m" by (rule same_items_trans [OF same_fields(1) same_release])
  note m = idle_fine_same [OF s i]
  have "length (lp_batch ?m) \<le> lp_timers ?m" if "lp_phase l \<noteq> P_ready"
    using m that same_itemsD(5) [OF s] by (cases "lp_phase l") (simp_all add: idle_fine_def phase_fine_def)
  with unwind_fine [OF m] m Some same_itemsD(5) [OF s] show ?thesis
    by (simp add: callback_returns_def Let_def)
qed (use i in \<open>simp add: callback_returns_def\<close>)

text \<open>Whatever the phase, the rest of the batch survives the unwinding of a protocol method.\<close>

lemma protocol_returns_fine:
  assumes i: "idle_fine l" and c: "mode_fine l"
  shows "idle_fine (protocol_returns k r l)"
proof (cases "w_call (lp_world l) = None")
  case False
  let ?m = "in_net k A_requeue (in_net k (A_return r) l)"
  have s: "same_items l ?m" by (rule same_items_trans [OF same_in_net same_in_net])
  have n: "idle_fine (in_net k (A_return r) l)" by (rule idle_fine_same [OF same_in_net i])
  have m: "idle_fine ?m" by (rule idle_fine_same [OF s i])
  have "lp_phase l = P_events \<or> lp_phase l = P_late" using c False by (simp add: mode_fine_def)
  moreover have "lp_phase ?m = lp_phase l" by (rule same_itemsD(5) [OF s])
  moreover have "idle_fine (end_run k x (hand_back (lp_timers ?m) ?m))" for x by (rule unwind_fine(2) [OF m]) simp
  moreover have "idle_fine (end_run k x ?m)" if "lp_phase ?m = P_late" for x
    using m that by (intro end_run_fine(1)) (simp_all add: idle_fine_def phase_fine_def)
  ultimately show ?thesis using n False by (auto simp: protocol_returns_def Let_def)
qed (use i in \<open>simp add: protocol_returns_def\<close>)

end
