(* ===== verification/Loop_Runs.thy ===== *)
theory Loop_Runs
  imports Loop_Queues
begin

text \<open>
  Runs of the loop object: any acts of the application, of other threads and of the platform, in
  any order.  The invariants along a run, the run its transport layer sees, the measure by which a
  tick ends, and what a tick takes from its batch.
\<close>

section \<open>Runs\<close>

lemma closed_stays:
  assumes f: "mode_fine l" and c: "lp_closed l"
  shows "lp_closed (loop_do k act l)"
proof (cases "app_act act")
  case True
  from app_act_mode [OF this, of k l] c show ?thesis by (simp add: mode_def)
next
  case False
  have q: "lp_phase l = P_idle" "lp_handle l = None" "w_call (lp_world l) = None"
    using f c by (auto simp: mode_fine_def)
  from False c show ?thesis
    by (cases act) (simp_all add: run_forever_def q loop_next_def callback_returns_def protocol_returns_def loop_close_def)
qed

definition loop_good :: "'b core_loop \<Rightarrow> bool" where
  "loop_good l \<longleftrightarrow> mode_fine l \<and> (lp_closed l \<or> idle_fine l)"

lemma app_act_keeps:
  assumes "app_act act"
  shows "app_keeps False l (loop_do k act l)"
  using assms app_methods [of False l] app_same [OF same_items_refl, of False l] by (cases act) simp_all

lemma idle_do:
  assumes i: "idle_fine l" and f: "mode_fine l"
  shows "lp_closed (loop_do k act l) \<or> idle_fine (loop_do k act l)"
proof (cases "app_act act")
  case True
  from idle_app [OF app_act_keeps [OF True] i] show ?thesis by simp
next
  case False
  then consider "act = L_run" | env where "act = L_close env" | env where "act = L_tick env"
    | gone where "act = L_next gone" | fatal where "act = L_callback_returns fatal"
    | r where "act = L_protocol_returns r" by (cases act) auto
  then show ?thesis
  proof cases
    case 1
    have "idle_fine (l\<lparr>lp_claimed := True, lp_phase := P_top, lp_exit := None\<rparr>)" if "lp_phase l = P_idle"
    proof -
      have "lp_batch (l\<lparr>lp_claimed := True\<rparr>) = []" using i that by (simp add: idle_fine_def phase_fine_def)
      from idle_fine_same [OF same_fields(7) phase_change(3) [OF idle_fine_same [OF same_fields(6) i] this]] show ?thesis .
    qed
    with 1 i f show ?thesis by (auto simp: run_forever_def mode_fine_def)
  next
    case (2 env)
    show ?thesis
    proof (cases "lp_claimed l \<or> lp_closed l")
      case False
      with close_mode [of l k env] 2 show ?thesis by (simp add: mode_def)
    next
      case True
      then have "loop_do k act l = l" by (simp only: 2 loop_do.simps loop_close_def if_True)
      with i show ?thesis by simp
    qed
  next
    case (3 env)
    with tick_begin_fine [OF i] i show ?thesis by simp
  next
    case (4 gone)
    with loop_next_fine [OF i] show ?thesis by simp
  next
    case (5 fatal)
    with callback_returns_fine [OF i] show ?thesis by simp
  next
    case (6 r)
    with protocol_returns_fine [OF i f] show ?thesis by simp
  qed
qed

lemma good_run: "loop_good l \<Longrightarrow> loop_good (loop_run k acts l)"
proof (induction acts arbitrary: l)
  case (Cons a acts)
  then have "loop_good (loop_do k a l)"
    using closed_stays [of l k a] idle_do [of l k a] modes_do [of l k a] by (auto simp: loop_good_def)
  with Cons.IH show ?case by (simp add: loop_run_def)
qed (simp add: loop_run_def)

lemma new_fine: "loop_good (loop_new cfg b raw off)"
proof -
  have "idle_fine (loop_new cfg b raw off)"
    by (simp add: idle_fine_def core_inv_def settled_def phase_fine_def part_defs queue_defs
        tidy_def loop_new_def reactor_new_def heap_new_def heap_ok_short owned_def xt_new_def rq_new_def)
  with new_modes show ?thesis by (simp add: loop_good_def)
qed

lemmas good_from_new = good_run [OF new_fine]

section \<open>The transport layer's run\<close>

definition follows :: "'b loop_ops \<Rightarrow> 'b core_loop \<Rightarrow> 'b core_loop \<Rightarrow> bool" where
  "follows k l l' \<longleftrightarrow>
     (\<exists>acts. lp_world l' = net_run (lo_sock k) acts (lp_world l)) \<and>
     (rstore (lp_reactor l) = n_handles (w_net (lp_world l)) \<and> rbackend (lp_reactor l) = n_bk (w_net (lp_world l)) \<longrightarrow>
      rstore (lp_reactor l') = n_handles (w_net (lp_world l')) \<and> rbackend (lp_reactor l') = n_bk (w_net (lp_world l')))"

lemma follows_refl: "follows k l l"
  unfolding follows_def by (rule conjI, rule exI [of _ "[]"]) (simp_all add: net_run_def)

lemma net_run_trans: "net_run k bs (net_run k as w) = net_run k (as @ bs) w"
  by (simp add: net_run_def)

lemma follows_trans: "follows k l l1 \<Longrightarrow> follows k l1 l2 \<Longrightarrow> follows k l l2"
  unfolding follows_def by (metis net_run_trans)

lemma follows_step:
  assumes "lp_world l' = net_do (lo_sock k) a (lp_world l)"
    "rstore (lp_reactor l') = n_handles (w_net (lp_world l'))" "rbackend (lp_reactor l') = n_bk (w_net (lp_world l'))"
  shows "follows k l l'"
  unfolding follows_def using assms by (intro conjI exI [of _ "[a]"]) (simp_all add: net_run_def)

lemma follows_put: "follows k l (put_reactor r l)"
  by (rule follows_step [of _ _ "A_env (rstore r) (rbackend r)"]) (simp_all add: put_reactor_def net_do.simps on_net_def)

lemma follows_net: "follows k l (in_net k a l)"
  by (rule follows_step [of _ _ a]) (simp_all add: in_net_def Let_def)

lemma follows_same: "lp_world l' = lp_world l \<Longrightarrow> lp_reactor l' = lp_reactor l \<Longrightarrow> follows k l l'"
  using follows_refl [of k l] by (simp add: follows_def)

lemma follows_prims:
  "follows k l0 l \<Longrightarrow> follows k l0 (put_reactor r l)" "follows k l0 l \<Longrightarrow> follows k l0 (on_reactor f l)"
  "follows k l0 l \<Longrightarrow> follows k l0 (on_store g l)" "follows k l0 l \<Longrightarrow> follows k l0 (in_net k a l)"
  by (auto simp: on_reactor_def on_store_def intro: follows_trans [OF _ follows_put] follows_trans [OF _ follows_net])

lemma follows_fields [simp]:
  "follows k l0 (l\<lparr>lp_handle := x\<rparr>) = follows k l0 l" "follows k l0 (l\<lparr>lp_stopping := b\<rparr>) = follows k l0 l"
  "follows k l0 (l\<lparr>lp_debug := b\<rparr>) = follows k l0 l" "follows k l0 (l\<lparr>lp_tick_no := n\<rparr>) = follows k l0 l"
  "follows k l0 (l\<lparr>lp_had_events := b\<rparr>) = follows k l0 l" "follows k l0 (l\<lparr>lp_claimed := b\<rparr>) = follows k l0 l"
  "follows k l0 (l\<lparr>lp_exit := ex\<rparr>) = follows k l0 l" "follows k l0 (l\<lparr>lp_phase := p\<rparr>) = follows k l0 l"
  "follows k l0 (l\<lparr>lp_batch := hs\<rparr>) = follows k l0 l" "follows k l0 (l\<lparr>lp_timers := n'\<rparr>) = follows k l0 l"
  "follows k l0 (l\<lparr>lp_scheduled := hs\<rparr>) = follows k l0 l" "follows k l0 (l\<lparr>lp_timed := hs\<rparr>) = follows k l0 l"
  "follows k l0 (l\<lparr>lp_ran := hs\<rparr>) = follows k l0 l" "follows k l0 (l\<lparr>lp_fired := hs\<rparr>) = follows k l0 l"
  "follows k l0 (l\<lparr>lp_buried := hs\<rparr>) = follows k l0 l" "follows k l0 (l\<lparr>lp_broken := b\<rparr>) = follows k l0 l"
  "follows k l0 (l\<lparr>lp_next := n'\<rparr>) = follows k l0 l" "follows k l0 (l\<lparr>lp_persistent := q\<rparr>) = follows k l0 l"
  by (simp_all add: follows_def)

lemma follows_release: "follows k l0 l \<Longrightarrow> follows k l0 (release_token h l)"
  by (simp add: release_token_def follows_prims)

lemma follows_releases: "follows k l0 l \<Longrightarrow> follows k l0 (fold release_token hs l)"
  by (induction hs arbitrary: l) (simp_all add: follows_release)

lemma follows_queues:
  "follows k l0 l \<Longrightarrow> follows k l0 (hand_back n l)" "follows k l0 l \<Longrightarrow> follows k l0 (take_timer_graves l)"
  "follows k l0 l \<Longrightarrow> follows k l0 (enqueue_soon rf h l)" "follows k l0 l \<Longrightarrow> follows k l0 (schedule_timer rf d h l)"
  "follows k l0 l \<Longrightarrow> follows k l0 (snd (make_handle p l))"
  by (simp_all add: hand_back_def take_timer_graves_def enqueue_soon_def schedule_timer_def make_handle_def Let_def
      split_beta follows_prims)

lemma follows_methods:
  "follows k l0 l \<Longrightarrow> follows k l0 (call_soon_threadsafe rf l)" "follows k l0 l \<Longrightarrow> follows k l0 (call_soon rf ot l)"
  "follows k l0 l \<Longrightarrow> follows k l0 (call_at rf ot d l)" "follows k l0 l \<Longrightarrow> follows k l0 (cancel_handle h l)"
  "follows k l0 l \<Longrightarrow> follows k l0 (loop_stop l)" "follows k l0 l \<Longrightarrow> follows k l0 (loop_add_reader k fd l)"
  "follows k l0 l \<Longrightarrow> follows k l0 (loop_add_writer k fd l)" "follows k l0 l \<Longrightarrow> follows k l0 (run_forever l)"
  by (simp_all add: call_soon_threadsafe_def call_soon_def call_at_def cancel_handle_def loop_stop_def
      loop_add_reader_def loop_add_writer_def run_forever_def split_beta follows_prims follows_queues)

lemma follows_arrivals: "follows k l0 l \<Longrightarrow> follows k l0 (fold arrive as l)"
proof (induction as arbitrary: l)
  case (Cons a as)
  then have "follows k l0 (arrive a l)" by (cases a) (simp_all add: follows_methods)
  with Cons.IH show ?case by simp
qed simp

lemma follows_phases:
  "follows k l0 l \<Longrightarrow> follows k l0 (drop_graves k l)" "follows k l0 l \<Longrightarrow> follows k l0 (drain_graves k l)"
  "follows k l0 l \<Longrightarrow> follows k l0 (tick_watches k l)" "follows k l0 l \<Longrightarrow> follows k l0 (tick_translate k env parked l)"
  "follows k l0 l \<Longrightarrow> follows k l0 (snd (tick_timeout env l))" "follows k l0 l \<Longrightarrow> follows k l0 (snd (tick_poll k env t l))"
  "follows k l0 l \<Longrightarrow> follows k l0 (tick_take k l)" "follows k l0 l \<Longrightarrow> follows k l0 (end_run k x l)"
  by (simp_all add: drop_graves_def drain_graves_def tick_watches_def tick_translate_def tick_timeout_def tick_poll_def
      tick_take_def end_run_def Let_def split_beta follows_prims follows_queues follows_arrivals follows_releases)

lemma follows_tick:
  assumes "follows k l0 l"
  shows "follows k l0 (tick_begin k env l)"
proof -
  let ?a = "on_reactor (prepare_tick (te_prepare env)) (if n_flush_list (w_net (lp_world l)) \<noteq> [] then in_net k A_flush l else l)"
  obtain t m where t: "tick_timeout env ?a = (t, m)" by fastforce
  obtain res m' where p: "tick_poll k env t m = (res, m')" by fastforce
  have "follows k l0 ?a" using assms by (simp add: follows_prims)
  then have "follows k l0 m" using follows_phases(5) [of k l0 ?a env] by (simp add: t)
  then have "follows k l0 m'" using follows_phases(6) [of k l0 m env t] by (simp add: p)
  then show ?thesis
    by (cases res) (simp_all add: tick_begin_def Let_def t p follows_phases follows_prims follows_queues tick_signals_def)
qed

lemma follows_rest:
  "follows k l0 l \<Longrightarrow> follows k l0 (run_first l)" "follows k l0 l \<Longrightarrow> follows k l0 (tick_end k l)"
  "follows k l0 l \<Longrightarrow> follows k l0 (loop_next k gone l)" "follows k l0 l \<Longrightarrow> follows k l0 (callback_returns k fatal l)"
  "follows k l0 l \<Longrightarrow> follows k l0 (protocol_returns k r l)"
proof -
  assume f: "follows k l0 l"
  show 1: "follows k l0 (run_first l)" using f by (simp add: run_first_def Let_def follows_release split: list.split)
  show 2: "follows k l0 (tick_end k l)" using f by (simp add: tick_end_def follows_phases)
  show "follows k l0 (loop_next k gone l)"
    using f 1 2 by (simp add: loop_next_def follows_prims follows_phases split: loop_phase.split)
  show "follows k l0 (callback_returns k fatal l)" "follows k l0 (protocol_returns k r l)"
    using f by (simp_all add: callback_returns_def protocol_returns_def Let_def follows_prims follows_phases follows_queues
        follows_release split: option.split)
qed

lemma follows_do:
  assumes "follows k l0 l" "\<not> lp_closed (loop_do k act l)"
  shows "follows k l0 (loop_do k act l)"
proof (cases act)
  case (L_close env)
  show ?thesis
  proof (cases "lp_claimed l \<or> lp_closed l")
    case False
    with close_mode [of l k env] assms(2) L_close show ?thesis by (simp add: mode_def)
  next
    case True
    then have "loop_do k act l = l" by (simp only: L_close loop_do.simps loop_close_def if_True)
    with assms(1) show ?thesis by simp
  qed
qed (use assms(1) in \<open>simp_all add: follows_methods follows_tick follows_rest follows_prims\<close>)

lemma follows_run:
  "mode_fine l \<Longrightarrow> \<not> lp_closed (loop_run k acts l) \<Longrightarrow> follows k l (loop_run k acts l)"
proof (induction acts rule: rev_induct)
  case (snoc a acts)
  let ?l = "loop_run k acts l"
  have s: "loop_run k (acts @ [a]) l = loop_do k a ?l" by (simp add: loop_run_def)
  have "\<not> lp_closed ?l" using closed_stays [OF run_modes [OF snoc.prems(1)]] snoc.prems(2) s by fastforce
  with snoc.IH snoc.prems(1) have "follows k l ?l" by simp
  from follows_do [OF this] snoc.prems(2) s show ?case by simp
qed (simp add: loop_run_def follows_refl)

section \<open>The tick ends\<close>

text \<open>
  The loop thread's next step, with the answer of the Python code it waits for: which futures are
  cancelled, whether the callback unwinds, what the protocol method does.
\<close>

definition loop_step :: "'b loop_ops \<Rightarrow> (nat \<Rightarrow> bool) \<times> bool \<times> py_reply \<Rightarrow> 'b core_loop \<Rightarrow> 'b core_loop" where
  "loop_step k ans l =
     (if lp_handle l \<noteq> None then loop_do k (L_callback_returns (fst (snd ans))) l
      else if w_call (lp_world l) \<noteq> None then loop_do k (L_protocol_returns (snd (snd ans))) l
      else loop_do k (L_next (fst ans)) l)"

text \<open>Between two steps the application calls any methods; \<open>n\<close> steps of the loop thread.\<close>

fun loop_drive ::
  "'b loop_ops \<Rightarrow> (nat \<Rightarrow> 'b loop_act list) \<Rightarrow> (nat \<Rightarrow> (nat \<Rightarrow> bool) \<times> bool \<times> py_reply) \<Rightarrow> nat \<Rightarrow>
     'b core_loop \<Rightarrow> 'b core_loop" where
  "loop_drive k acts ans 0 l = l"
| "loop_drive k acts ans (Suc n) l =
     loop_drive k (\<lambda>i. acts (Suc i)) (\<lambda>i. ans (Suc i)) n (loop_step k (ans 0) (loop_run k (acts 0) l))"

fun phase_rank :: "loop_phase \<Rightarrow> nat" where
  "phase_rank P_ready = 4"
| "phase_rank P_events = 3"
| "phase_rank P_timers = 2"
| "phase_rank P_late = 1"
| "phase_rank P_idle = 0"
| "phase_rank P_top = 0"

definition tick_left :: "'b core_loop \<Rightarrow> nat \<times> nat \<times> nat" where
  "tick_left l = (phase_rank (lp_phase l), length (lp_batch l) + length (w_batch (lp_world l)),
     if lp_handle l = None \<and> w_call (lp_world l) = None then 0 else 1)"

abbreviation lex3 :: "((nat \<times> nat \<times> nat) \<times> (nat \<times> nat \<times> nat)) set" where
  "lex3 \<equiv> less_than <*lex*> less_than <*lex*> less_than"

lemma end_run_phase: "lp_phase (end_run k x l) = P_idle"
  by (simp add: end_run_def Let_def)

lemma dispatch_shrinks:
  assumes "w_batch w \<noteq> []" "w_call w = None"
  shows "length (w_batch (net_do k (A_dispatch gone) w)) < length (w_batch w)"
  using assms by (cases "w_batch w") (simp_all add: net_do.simps dispatch_next_def split_beta)

lemma step_descends:
  assumes f: "mode_fine l" and p: "lp_phase l \<notin> {P_idle, P_top}"
  shows "(tick_left (loop_step k ans l), tick_left l) \<in> lex3"
proof -
  consider h where "lp_handle l = Some h" | c where "lp_handle l = None" "w_call (lp_world l) = Some c"
    | "lp_handle l = None" "w_call (lp_world l) = None" by fastforce
  then show ?thesis
  proof cases
    case (1 h)
    let ?m = "release_token h (l\<lparr>lp_handle := None\<rparr>)"
    have w: "w_call (lp_world l) = None" using f 1 by (auto simp: mode_fine_def)
    have "mode ?m = mode (l\<lparr>lp_handle := None\<rparr>)" by simp
    moreover have "lp_batch ?m = lp_batch l" by (simp add: release_token_def loop_prims)
    ultimately have "tick_left ?m = (fst (tick_left l), fst (snd (tick_left l)), 0)" using w by (simp add: tick_left_def mode_def)
    moreover have "snd (snd (tick_left l)) = 1" using 1 by (simp add: tick_left_def)
    ultimately have "(tick_left ?m, tick_left l) \<in> lex3" by (cases "tick_left l") simp
    moreover have "(tick_left (end_run k Interrupted m'), tick_left l) \<in> lex3" for m' :: "'a core_loop"
      using p by (cases "lp_phase l") (simp_all add: tick_left_def end_run_phase)
    ultimately show ?thesis using 1 by (simp add: loop_step_def callback_returns_def Let_def)
  next
    case (2 c)
    let ?m = "in_net k (A_return (snd (snd ans))) l"
    have m: "mode ?m = (lp_phase l, lp_claimed l, lp_handle l, None, w_batch (lp_world l), lp_closed l)"
      by (rule in_net_loud(4))
    have "lp_batch ?m = lp_batch l" by (simp add: in_net_def Let_def)
    with m have "tick_left ?m = (fst (tick_left l), fst (snd (tick_left l)), 0)" using 2 by (simp add: tick_left_def mode_def)
    moreover have "snd (snd (tick_left l)) = 1" using 2 by (simp add: tick_left_def)
    ultimately have "(tick_left ?m, tick_left l) \<in> lex3" by (cases "tick_left l") simp
    moreover have "(tick_left (end_run k Interrupted m'), tick_left l) \<in> lex3" for m' :: "'a core_loop"
      using p by (cases "lp_phase l") (simp_all add: tick_left_def end_run_phase)
    ultimately show ?thesis using 2 by (simp add: loop_step_def protocol_returns_def Let_def)
  next
    case 3
    have rank: "(tick_left m', tick_left l) \<in> lex3" if "phase_rank (lp_phase m') < phase_rank (lp_phase l)" for m' :: "'a core_loop"
      using that by (simp add: tick_left_def)
    have te: "phase_rank (lp_phase (tick_end k l)) = 0" by (simp add: tick_end_def end_run_phase)
    have dis: "(tick_left (in_net k (A_dispatch (fst ans)) l), tick_left l) \<in> lex3" if "w_batch (lp_world l) \<noteq> []"
      using dispatch_shrinks [OF that 3(2), of "lo_sock k" "fst ans"] by (simp add: tick_left_def in_net_def Let_def)
    have rf: "(tick_left (run_first l), tick_left l) \<in> lex3" if b: "lp_batch l = h # hs" for h hs
    proof -
      obtain x where "mode (run_first l) = (lp_phase l, lp_claimed l, x, w_call (lp_world l), w_batch (lp_world l), lp_closed l)"
        using run_first_mode by blast
      moreover have "lp_batch (run_first l) = hs" by (simp add: run_first_def b Let_def release_token_def loop_prims)
      ultimately show ?thesis by (simp add: tick_left_def mode_def b)
    qed
    have n: "loop_step k ans l = loop_next k (fst ans) l" using 3 by (simp add: loop_step_def)
    show ?thesis
    proof (cases "lp_phase l")
      case P_ready
      with rf rank 3 show ?thesis unfolding n by (cases "lp_batch l") (auto simp: loop_next_def)
    next
      case P_events
      with dis rank 3 show ?thesis unfolding n by (simp add: loop_next_def)
    next
      case P_timers
      with rf rank te 3 show ?thesis unfolding n by (cases "lp_batch l") (simp_all add: loop_next_def)
    next
      case P_late
      with dis rank te 3 show ?thesis unfolding n by (simp add: loop_next_def)
    qed (use p in simp_all)
  qed
qed

lemma app_act_left:
  assumes "app_act act"
  shows "tick_left (loop_do k act l) = tick_left l"
  using app_act_mode [OF assms, of k l] app_act_keeps [OF assms, of l k] by (simp add: tick_left_def mode_def app_keeps_def)

lemma app_acts_left:
  "list_all app_act acts \<Longrightarrow> tick_left (loop_run k acts l) = tick_left l \<and> mode (loop_run k acts l) = mode l"
proof (induction acts arbitrary: l)
  case (Cons a acts)
  with app_act_left [of a k l] app_act_mode [of a k l] show ?case by (simp add: loop_run_def)
qed (simp add: loop_run_def)

lemma step_modes: "mode_fine l \<Longrightarrow> mode_fine (loop_step k ans l)"
  by (simp add: loop_step_def modes_do del: loop_do.simps)

lemma drive_ends:
  assumes "mode_fine l" "\<And>n. list_all app_act (acts n)"
  shows "\<exists>n. lp_phase (loop_drive k acts ans n l) \<in> {P_idle, P_top}"
proof -
  have "wf lex3" by (intro wf_lex_prod wf_less_than)
  then show ?thesis using assms
  proof (induction "tick_left l" arbitrary: l acts ans rule: wf_induct_rule)
    case less
    show ?case
    proof (cases "lp_phase l \<in> {P_idle, P_top}")
      case True
      then show ?thesis by (intro exI [of _ 0]) simp
    next
      case False
      let ?l = "loop_run k (acts 0) l"
      have a: "tick_left ?l = tick_left l" "mode ?l = mode l" using app_acts_left [OF less(3)] by simp_all
      then have "mode_fine ?l" "lp_phase ?l = lp_phase l"
        using less(2) mode_fine_cong [OF a(2)] by (simp_all add: mode_def)
      with step_descends [of ?l k "ans 0"] step_modes [of ?l k "ans 0"] False a(1)
      have "(tick_left (loop_step k (ans 0) ?l), tick_left l) \<in> lex3" "mode_fine (loop_step k (ans 0) ?l)" by simp_all
      from less(1) [OF this, of "\<lambda>i. acts (Suc i)" "\<lambda>i. ans (Suc i)"] less(3) obtain n where
        "lp_phase (loop_drive k (\<lambda>i. acts (Suc i)) (\<lambda>i. ans (Suc i)) n (loop_step k (ans 0) ?l)) \<in> {P_idle, P_top}"
        by blast
      then show ?thesis by (intro exI [of _ "Suc n"]) simp
    qed
  qed
qed

section \<open>The tick runs its batch\<close>

definition shelf :: "'b core_loop \<Rightarrow> nat list \<times> nat \<times> nat list \<times> nat list" where
  "shelf l = (lp_batch l, lp_timers l, lp_ran l, lp_fired l)"

lemma shelf_prims [simp]:
  "shelf (put_reactor r l) = shelf l" "shelf (on_reactor f l) = shelf l" "shelf (on_store g l) = shelf l"
  "shelf (in_net k a l) = shelf l"
  by (simp_all add: shelf_def put_reactor_def on_reactor_def on_store_def in_net_def Let_def)

lemma shelf_fields [simp]:
  "shelf (l\<lparr>lp_handle := x\<rparr>) = shelf l" "shelf (l\<lparr>lp_stopping := b\<rparr>) = shelf l" "shelf (l\<lparr>lp_debug := b\<rparr>) = shelf l"
  "shelf (l\<lparr>lp_had_events := b\<rparr>) = shelf l" "shelf (l\<lparr>lp_claimed := b\<rparr>) = shelf l" "shelf (l\<lparr>lp_exit := ex\<rparr>) = shelf l"
  "shelf (l\<lparr>lp_phase := p\<rparr>) = shelf l" "shelf (l\<lparr>lp_scheduled := hs\<rparr>) = shelf l" "shelf (l\<lparr>lp_timed := hs\<rparr>) = shelf l"
  "shelf (l\<lparr>lp_buried := hs\<rparr>) = shelf l" "shelf (l\<lparr>lp_next := n'\<rparr>) = shelf l" "shelf (l\<lparr>lp_persistent := q\<rparr>) = shelf l"
  "shelf (l\<lparr>lp_closed := b\<rparr>) = shelf l"
  by (simp_all add: shelf_def)

lemma shelf_queues [simp]:
  "shelf (release_token h l) = shelf l" "shelf (take_timer_graves l) = shelf l" "shelf (drain_graves k l) = shelf l"
  "shelf (enqueue_soon rf h l) = shelf l" "shelf (schedule_timer rf d h l) = shelf l" "shelf (snd (make_handle p l)) = shelf l"
  "shelf (put_net s l) = shelf l" "shelf (fold (\<lambda>h. on_store (release h)) hs l) = shelf l"
proof -
  show "shelf (fold (\<lambda>h. on_store (release h)) hs l) = shelf l" by (induction hs arbitrary: l) simp_all
  show "shelf (put_net s l) = shelf l" by (simp add: put_net_def shelf_def)
qed (simp_all add: release_token_def take_timer_graves_def drain_graves_def enqueue_soon_def schedule_timer_def
    make_handle_def Let_def split_beta)

lemma shelf_app:
  assumes "app_act act"
  shows "shelf (loop_do k act l) = shelf l"
  using assms by (cases act) (simp_all add: call_soon_threadsafe_def call_soon_def call_at_def cancel_handle_def
      loop_stop_def loop_add_reader_def loop_add_writer_def split_beta)

definition within_tick :: "'b core_loop \<Rightarrow> 'b core_loop \<Rightarrow> bool" where
  "within_tick l0 l \<longleftrightarrow> (\<exists>ys zs. lp_ran l0 @ ready_part l0 = lp_ran l @ ready_part l @ ys \<and>
     lp_fired l0 @ timer_part l0 = lp_fired l @ timer_part l @ zs \<and> (lp_phase l \<noteq> P_idle \<longrightarrow> ys = [] \<and> zs = []))"

lemma within_same:
  assumes w: "within_tick l0 l" and s: "shelf l' = shelf l" and p: "lp_phase l' = P_idle \<or> lp_phase l \<noteq> P_idle"
  shows "within_tick l0 l'"
proof -
  have "lp_ran l' = lp_ran l" "lp_fired l' = lp_fired l" "ready_part l' = ready_part l" "timer_part l' = timer_part l"
    using s by (simp_all add: shelf_def part_defs)
  with w p show ?thesis by (auto simp: within_tick_def)
qed

lemma within_move:
  assumes w: "within_tick l0 l" and e: "lp_ran m @ ready_part m = lp_ran l @ ready_part l"
    "lp_fired m @ timer_part m = lp_fired l @ timer_part l" and p: "lp_phase m = lp_phase l"
  shows "within_tick l0 m"
proof -
  from e have f: "lp_ran m @ ready_part m @ ys = lp_ran l @ ready_part l @ ys"
    "lp_fired m @ timer_part m @ ys = lp_fired l @ timer_part l @ ys" for ys by (metis append_assoc)+
  show ?thesis using w unfolding within_tick_def by (simp only: f p)
qed

lemma within_end:
  assumes w: "within_tick l0 l" and e: "lp_ran m = lp_ran l" "lp_fired m = lp_fired l"
  shows "within_tick l0 (end_run k x m)"
proof -
  have "lp_ran (fold release_token hs m') = lp_ran m' \<and> lp_fired (fold release_token hs m') = lp_fired m'" for hs and m' :: "'a core_loop"
    by (induction hs arbitrary: m') (auto simp: release_token_def loop_prims)
  with e have "lp_ran (end_run k x m) = lp_ran l" "lp_fired (end_run k x m) = lp_fired l" "lp_batch (end_run k x m) = []"
    by (simp_all add: end_run_def in_net_def Let_def)
  moreover from w obtain ys zs where "lp_ran l0 @ ready_part l0 = lp_ran l @ ready_part l @ ys"
    "lp_fired l0 @ timer_part l0 = lp_fired l @ timer_part l @ zs" by (auto simp: within_tick_def)
  ultimately show ?thesis unfolding within_tick_def
    by (intro exI [of _ "ready_part l @ ys"] exI [of _ "timer_part l @ zs"]) (simp add: part_defs end_run_phase)
qed

lemma within_first:
  assumes w: "within_tick l0 l" and b: "lp_batch l = h # hs" and i: "idle_fine l"
    and p: "if lp_phase l = P_ready then lp_timers l < length (lp_batch l) else lp_phase l = P_timers"
  shows "within_tick l0 (run_first l)"
proof -
  let ?m = "if lp_phase l = P_ready then l\<lparr>lp_batch := hs, lp_ran := lp_ran l @ [h]\<rparr>
            else l\<lparr>lp_batch := hs, lp_fired := lp_fired l @ [h]\<rparr>"
  have "shelf (run_first l) = shelf ?m" by (simp add: run_first_def b Let_def)
  moreover have "lp_phase (run_first l) = lp_phase l" using run_first_mode [of l] by (auto simp: mode_def)
  moreover have e: "lp_ran ?m @ ready_part ?m = lp_ran l @ ready_part l" "lp_fired ?m @ timer_part ?m = lp_fired l @ timer_part l"
  proof -
    have "lp_ran ?m @ ready_part ?m = lp_ran l @ ready_part l \<and> lp_fired ?m @ timer_part ?m = lp_fired l @ timer_part l"
    proof (cases "lp_phase l = P_ready")
      case True
      with p b show ?thesis by (simp add: part_defs Suc_diff_le)
    next
      case False
      with p b i have "Suc (length hs) \<le> lp_timers l" by (simp add: idle_fine_def phase_fine_def)
      with False p b show ?thesis by (simp add: part_defs)
    qed
    then show "lp_ran ?m @ ready_part ?m = lp_ran l @ ready_part l"
      "lp_fired ?m @ timer_part ?m = lp_fired l @ timer_part l" by blast+
  qed
  moreover have "within_tick l0 ?m" by (rule within_move [OF w e]) simp
  ultimately show ?thesis by (intro within_same [of l0 ?m "run_first l"]) simp_all
qed

lemma within_do:
  assumes w: "within_tick l0 l" and i: "idle_fine l" and f: "mode_fine l"
    and a: "act \<noteq> L_run" "\<forall>env. act \<noteq> L_tick env"
  shows "within_tick l0 (loop_do k act l)"
proof (cases "app_act act")
  case True
  have "lp_phase (loop_do k act l) = lp_phase l" using app_act_mode [OF True, of k l] by (simp add: mode_def)
  then show ?thesis by (intro within_same [OF w shelf_app [OF True]]) simp
next
  case False
  have hb: "within_tick l0 (end_run k x (hand_back n m))" "within_tick l0 (end_run k x (in_net k A_requeue (hand_back n m)))"
    if "shelf m = shelf l" for x n m
    using that by (intro within_end [OF w]; simp add: hand_back_fields in_net_def Let_def shelf_def)+
  from False a consider env where "act = L_close env" | gone where "act = L_next gone"
    | fatal where "act = L_callback_returns fatal" | r where "act = L_protocol_returns r" by (cases act) auto
  then show ?thesis
  proof cases
    case (1 env)
    have "shelf (loop_close k env l) = shelf l" by (simp add: loop_close_def Let_def split_beta)
    moreover have "lp_phase (loop_close k env l) = lp_phase l"
      using close_mode [of l k env] by (cases "lp_claimed l \<or> lp_closed l") (auto simp: mode_def loop_close_def)
    ultimately show ?thesis using 1 w by (intro within_same [OF w]) simp_all
  next
    case (2 gone)
    have net: "within_tick l0 (in_net k a l)" for a
      by (rule within_same [OF w shelf_prims(4)]) (simp add: in_net_def Let_def)
    have ph: "within_tick l0 (l\<lparr>lp_phase := p\<rparr>)" "within_tick l0 (l\<lparr>lp_phase := p, lp_had_events := b\<rparr>)"
      if "lp_phase l \<noteq> P_idle" for p b
      using that by (intro within_same [OF w]; simp)+
    have te: "within_tick l0 (tick_end k l)" if "lp_phase l \<noteq> P_idle"
      using ph(1) [OF that] within_end [OF w] by (simp add: tick_end_def)
    have dr: "within_tick l0 ((drain_graves k (in_net k A_take (in_net k A_flush l)))\<lparr>lp_phase := P_late\<rparr>)" if "lp_phase l \<noteq> P_idle"
      using that by (intro within_same [OF w]) simp_all
    have rf: "within_tick l0 (run_first l)"
      if "lp_batch l \<noteq> []" "if lp_phase l = P_ready then lp_timers l < length (lp_batch l) else lp_phase l = P_timers"
    proof -
      from that obtain h hs where "lp_batch l = h # hs" by (cases "lp_batch l") auto
      from within_first [OF w this i that(2)] show ?thesis .
    qed
    have "lp_timers l < length (lp_batch l) \<Longrightarrow> lp_batch l \<noteq> []" by auto
    with 2 w net ph te dr rf show ?thesis
      by (cases "lp_phase l") (simp_all add: loop_next_def)
  next
    case (3 fatal)
    show ?thesis
    proof (cases "lp_handle l")
      case (Some h)
      let ?m = "release_token h (l\<lparr>lp_handle := None\<rparr>)"
      have m: "shelf ?m = shelf l" by simp
      moreover have "lp_phase ?m = lp_phase l" by (simp add: release_token_def loop_prims)
      ultimately have "within_tick l0 ?m" by (intro within_same [OF w]) simp_all
      with 3 hb [OF m] Some show ?thesis by (simp add: callback_returns_def Let_def)
    qed (use 3 w in \<open>simp add: callback_returns_def\<close>)
  next
    case (4 r)
    show ?thesis
    proof (cases "w_call (lp_world l)")
      case (Some c)
      let ?n = "in_net k (A_return r) l" and ?m = "in_net k A_requeue (in_net k (A_return r) l)"
      have "within_tick l0 ?n" by (rule within_same [OF w shelf_prims(4)]) (simp add: in_net_def Let_def)
      moreover have "within_tick l0 (end_run k Interrupted ?m)" by (rule within_end [OF w]) (simp_all add: in_net_def Let_def)
      moreover have "shelf ?m = shelf l" by simp
      note hb(1) [OF this]
      ultimately show ?thesis using 4 Some by (cases "r = Unwound") (simp_all add: protocol_returns_def Let_def)
    qed (use 4 w in \<open>simp add: protocol_returns_def\<close>)
  qed
qed

text \<open>The acts that do not begin another tick.\<close>

fun same_tick :: "'b loop_act \<Rightarrow> bool" where
  "same_tick (L_tick _) = False"
| "same_tick L_run = False"
| "same_tick _ = True"

lemma within_run:
  assumes "loop_good l" "\<not> lp_closed (loop_run k acts l)" "list_all same_tick acts"
  shows "within_tick l (loop_run k acts l)"
  using assms(2,3)
proof (induction acts rule: rev_induct)
  case Nil
  show ?case by (simp add: loop_run_def within_tick_def)
next
  case (snoc a acts)
  let ?l = "loop_run k acts l"
  have g: "loop_good ?l" by (rule good_run [OF assms(1)])
  have s: "loop_run k (acts @ [a]) l = loop_do k a ?l" by (simp add: loop_run_def)
  have c: "\<not> lp_closed ?l" using closed_stays [of ?l k a] g snoc.prems(1) s by (auto simp: loop_good_def)
  have "a \<noteq> L_run" "\<forall>env. a \<noteq> L_tick env" using snoc.prems(2) by auto
  with within_do [of l ?l a k] snoc c g s show ?case by (simp add: loop_good_def)
qed

end
