(* ===== verification/Loop_Theorems.thy ===== *)
theory Loop_Theorems
  imports Loop_Runs Net_Theorems
begin

text \<open>
  The theorems about the loop object, over its runs from creation: modes, callbacks in order, timers
  kept, the batch of a tick, the end of a tick, the transport layer's own run, and how long a loop
  with a starved listener or endpoint parks.
\<close>

section \<open>A run\<close>

text \<open>
  A backend that never has anything to report.  Two callbacks are scheduled, the loop runs, a tick
  begins and calls the first, which schedules a third.
\<close>

definition demo_loop_ops :: "nat loop_ops" where
  "demo_loop_ops = \<lparr>lo_sock = demo_ops, lo_bk = default_ops (\<lambda>_ b. (Inr 0, [], b))\<rparr>"

definition demo_tick :: tick_env where
  "demo_tick = \<lparr>te_prepare = 0, te_timeout = 0, te_cached = 0, te_poll = 0, te_looks = [], te_spun = 0, te_after = 0,
     te_arrivals = [], te_finish = 0, te_lids = [], te_dids = [], te_signal = False\<rparr>"

definition demo_new :: "nat core_loop" where
  "demo_new = loop_new default_reactor_config 0 0 0"

definition demo_top :: "nat core_loop" where
  "demo_top = loop_run demo_loop_ops [L_call_soon False, L_call_soon_threadsafe, L_run] demo_new"

definition demo_begun :: "nat core_loop" where
  "demo_begun = on_reactor (prepare_tick 0) demo_top"

definition demo_polled :: "nat core_loop" where
  "demo_polled = snd (tick_poll demo_loop_ops demo_tick 0 demo_begun)"

definition demo_taken :: "nat core_loop" where
  "demo_taken = tick_take demo_loop_ops (tick_watches demo_loop_ops (tick_translate demo_loop_ops demo_tick False demo_polled))"

definition demo_acts :: "nat loop_act list" where
  "demo_acts = [L_call_soon False, L_call_soon_threadsafe, L_run, L_tick demo_tick]"

definition demo_mid :: "nat core_loop" where
  "demo_mid = loop_run demo_loop_ops (demo_acts @ [L_next (\<lambda>_. False), L_call_soon False]) demo_new"

lemmas loop_eval = demo_top_def demo_new_def loop_run_def loop_new_def reactor_new_def heap_new_def world_new_def
  net_new_def call_soon_def check_thread_def make_handle_def enqueue_soon_def loop_prims push_ready_def
  call_soon_threadsafe_def run_forever_def handle_new_def
lemmas tick_eval = demo_tick_def demo_loop_ops_def default_ops_def tick_timeout_def tick_poll_def
  prepare_tick_def r_absorb_cancellations_def absorb_cancellations_def drain_xthread_def fire_expired_timers_def
  snapshot_batch_def bump_def set_timers_def poll_timeout_def r_poll_def poll_zero_def xt_drain_into_idle
  peek_deadline_def note_cancelled_def next_deadline_def bk_try_poll_def drop_cancelled_top.simps loop_prims
lemmas take_eval = tick_take_def take_batch_eq take_expired_def drop_graves_def
  tick_translate_def finish_poll_after_def drain_completions_def tick_watches_def has_special_graveyards_def
  has_graveyards_def has_graveyard_def take_events_def net_do.simps take_ready_def absorb_into_batch_def
lemmas state_eval = rq_push_def rq_new_def xt_new_def store_new_def stats_new_def default_reactor_config_def
  clock_cached_def clock_invalidate_def clock_with_offset_def clock_now_def clock_refresh_def saturating_add_signed_0 on_net_def
lemmas stepwise = let_weak_cong prod.case_cong_weak

lemma poll_skipped [simp]: "word_saturating_sub 0 0 < POLL_SKIP_NS"
  by (simp add: word_saturating_sub_def POLL_SKIP_NS_def)

lemma demo_at_top: "lp_phase demo_top = P_top" "n_flush_list (w_net (lp_world demo_top)) = []"
  by (simp_all add: loop_eval on_net_def)

lemma demo_timeout: "tick_timeout demo_tick demo_begun = (0, demo_begun)"
  unfolding demo_begun_def
  by (simp add: loop_eval cong: stepwise split del: if_split)
    (simp add: tick_eval state_eval cong: stepwise split del: if_split)

lemma demo_poll: "tick_poll demo_loop_ops demo_tick 0 demo_begun = (Inr False, demo_polled)"
proof -
  have "fst (tick_poll demo_loop_ops demo_tick 0 demo_begun) = Inr False"
    unfolding demo_begun_def
    by (simp add: loop_eval cong: stepwise split del: if_split)
      (simp add: tick_eval state_eval cong: stepwise split del: if_split)
  then show ?thesis by (simp add: demo_polled_def prod_eq_iff)
qed

lemma demo_takes:
  "lp_batch demo_taken = [0, 1]" "lp_timers demo_taken = 0" "lp_handle demo_taken = None"
  "w_call (lp_world demo_taken) = None" "w_batch (lp_world demo_taken) = []"
  "\<not> has_special_graveyards (w_net (lp_world demo_taken))" "lp_tick_no demo_taken = 0" "lp_ran demo_taken = []"
  "lp_scheduled demo_taken = [0, 1]" "rready (lp_reactor demo_taken) = []" "lp_next demo_taken = 2"
  "\<not> lp_closed demo_taken" "\<not> lp_debug demo_taken" "\<not> lp_broken demo_taken" "lp_fired demo_taken = []"
  "cancelled (rstore (lp_reactor demo_taken)) 0 = False" "refs_held (rstore (lp_reactor demo_taken)) 0"
  unfolding demo_taken_def demo_polled_def demo_begun_def
  by (simp_all add: loop_eval cong: stepwise split del: if_split)
    (simp_all add: tick_eval take_eval state_eval cong: stepwise split del: if_split)

lemma demo_acts_run: "loop_run demo_loop_ops demo_acts demo_new = demo_taken\<lparr>lp_tick_no := 1, lp_phase := P_ready\<rparr>"
proof -
  have a: "on_reactor (prepare_tick (te_prepare demo_tick)) demo_top = demo_begun"
    by (simp add: demo_begun_def demo_tick_def)
  have "tick_begin demo_loop_ops demo_tick demo_top = tick_signals demo_loop_ops demo_tick False demo_taken"
    by (simp add: tick_begin_def Let_def demo_at_top a demo_timeout demo_poll demo_takes flip: demo_taken_def)
  also have "\<dots> = demo_taken\<lparr>lp_tick_no := 1, lp_phase := P_ready\<rparr>"
    by (simp add: tick_signals_def Let_def demo_tick_def demo_takes)
  finally show ?thesis using demo_at_top(1) by (simp add: demo_acts_def demo_top_def loop_run_def)
qed

lemma demo_mids:
  "lp_ran demo_mid = [0]" "lp_batch demo_mid = [1]" "lp_timers demo_mid = 0" "rready (lp_reactor demo_mid) = [2]"
  "lp_scheduled demo_mid = [0, 1, 2]" "lp_handle demo_mid = Some 0" "lp_phase demo_mid = P_ready"
  "\<not> lp_closed demo_mid" "\<not> lp_broken demo_mid"
proof -
  have n: "loop_next demo_loop_ops (\<lambda>_. False) (demo_taken\<lparr>lp_tick_no := 1, lp_phase := P_ready\<rparr>) =
      demo_taken\<lparr>lp_tick_no := 1, lp_phase := P_ready, lp_batch := [1], lp_ran := [0], lp_handle := Some 0\<rparr>"
    by (simp add: loop_next_def run_first_def demo_takes run_handle_calls_def is_cancelled_def Let_def)
  have "loop_run k (as @ [a, b]) l = loop_do k b (loop_do k a (loop_run k as l))" for k as a b and l :: "nat core_loop"
    by (simp add: loop_run_def)
  then have m: "demo_mid = loop_do demo_loop_ops (L_call_soon False)
      (loop_next demo_loop_ops (\<lambda>_. False) (demo_taken\<lparr>lp_tick_no := 1, lp_phase := P_ready\<rparr>))"
    by (simp only: demo_mid_def demo_acts_run loop_do.simps)
  show "lp_ran demo_mid = [0]" "lp_batch demo_mid = [1]" "lp_timers demo_mid = 0" "rready (lp_reactor demo_mid) = [2]"
    "lp_scheduled demo_mid = [0, 1, 2]" "lp_handle demo_mid = Some 0" "lp_phase demo_mid = P_ready"
    "\<not> lp_closed demo_mid" "\<not> lp_broken demo_mid"
    by (simp_all add: m n call_soon_def check_thread_def make_handle_def enqueue_soon_def demo_takes loop_prims
        push_ready_def rq_push_def)
qed

section \<open>Theorems\<close>

text \<open>
  C12: The modes of the loop exclude each other.  In every run from the creation of the loop: the
  state is claimed exactly while \<open>run_forever\<close> runs, a closed loop never runs, a callback is being
  called only in the two callback phases of a tick and a protocol method only in its two event
  phases; and when a tick begins, and when the loop stands still, no callback and no event is left in
  the tick's buffers, which the code asserts.
\<close>

theorem loop_modes_exclusive:
  "let l = loop_run k acts (loop_new cfg b raw off) in
     (lp_claimed l \<longleftrightarrow> lp_phase l \<noteq> P_idle) \<and>
     (lp_closed l \<longrightarrow> lp_phase l = P_idle) \<and>
     (lp_handle l \<noteq> None \<longrightarrow> lp_phase l \<in> {P_ready, P_timers}) \<and>
     (w_call (lp_world l) \<noteq> None \<longrightarrow> lp_phase l \<in> {P_events, P_late}) \<and>
     (lp_phase l \<in> {P_idle, P_top} \<longrightarrow> w_batch (lp_world l) = [] \<and> (lp_closed l \<or> lp_batch l = []))"
  using good_from_new [of k acts cfg b raw off]
  by (simp only: Let_def loop_good_def mode_fine_def idle_fine_def phase_fine_def) blast

theorem loop_modes_exclusive_witness: "lp_phase demo_mid \<in> {P_ready, P_timers} \<and> lp_claimed demo_mid"
  using loop_modes_exclusive [of demo_loop_ops "demo_acts @ [L_next (\<lambda>_. False), L_call_soon False]" default_reactor_config 0 0 0]
  by (simp add: Let_def demo_mids flip: demo_new_def demo_mid_def)

text \<open>
  C3: No callback is lost and none runs twice, and they run in the order they became ready.  In every
  run of a loop that is not closed, with \<open>call_soon\<close> from any thread, watches, unwinding callbacks
  and interrupted ticks: the callbacks taken to be run, the undispatched ready part of the batch and
  the two queues hold together exactly the callbacks scheduled; in the order they became ready, unless
  a poll failed while calls of other threads waited in the cross-thread queue.
\<close>

theorem callbacks_run_in_order:
  assumes "\<not> lp_closed (loop_run k acts (loop_new cfg b raw off))"
  shows "let l = loop_run k acts (loop_new cfg b raw off); q = lp_ran l @ ready_part l @ line (lp_reactor l) in
     mset q = mset (lp_scheduled l) \<and> (lp_broken l \<or> q = lp_scheduled l)"
  using good_from_new [of k acts cfg b raw off] assms
  by (simp only: Let_def loop_good_def idle_fine_def core_inv_def simp_thms)

theorem callbacks_run_in_order_witness:
  "lp_ran demo_mid @ ready_part demo_mid @ line (lp_reactor demo_mid) = [0, 1, 2]"
  using callbacks_run_in_order [of demo_loop_ops "demo_acts @ [L_next (\<lambda>_. False), L_call_soon False]" default_reactor_config 0 0 0]
  unfolding demo_new_def [symmetric] demo_mid_def [symmetric] Let_def using demo_mids by simp

text \<open>
  C11: No timer is lost and none fires twice.  In every run of a loop that is not closed, the timers
  scheduled, by the loop thread or by others while it is parked, are exactly: those taken to be run,
  those in the timer part of the batch, those the reactor holds (expired, in the heap, among the
  cancelled ones the heap set aside, in the cross-thread queue) and the cancelled ones dropped.
\<close>

theorem timers_kept:
  assumes "\<not> lp_closed (loop_run k acts (loop_new cfg b raw off))"
  shows "let l = loop_run k acts (loop_new cfg b raw off) in
     mset (lp_timed l) = mset (lp_fired l) + mset (timer_part l) + timer_mass (lp_reactor l) + mset (lp_buried l)"
  using good_from_new [of k acts cfg b raw off] assms
  by (simp only: Let_def loop_good_def idle_fine_def core_inv_def simp_thms)

definition demo_timed :: "nat core_loop" where
  "demo_timed = loop_run demo_loop_ops [L_call_at False 30, L_call_at False 10, L_cancel 0, L_run] demo_new"

lemma demo_timed_open: "\<not> lp_closed demo_timed \<and> lp_timed demo_timed = [0, 1] \<and> lp_fired demo_timed = [] \<and>
    timer_part demo_timed = [] \<and> lp_buried demo_timed = []"
  by (simp add: demo_timed_def loop_eval call_at_def schedule_timer_def r_schedule_timer_def cancel_handle_def part_defs)

theorem timers_kept_witness: "timer_mass (lp_reactor demo_timed) = {#0, 1#}"
  using timers_kept [of demo_loop_ops "[L_call_at False 30, L_call_at False 10, L_cancel 0, L_run]" default_reactor_config 0 0 0]
  unfolding demo_new_def [symmetric] demo_timed_def [symmetric] Let_def using demo_timed_open by simp

text \<open>
  C6: A tick runs its batch and nothing else.  From any state of a run, and whatever happens until the
  next tick: the callbacks and timers taken to be run are a prefix of those the batch held then, so
  what is scheduled meanwhile waits for a later tick; and when the loop is ready for the next tick, it
  has taken all of them.
\<close>

theorem tick_runs_its_batch:
  assumes "list_all same_tick acts" "\<not> lp_closed (loop_run k acts (loop_run k pre (loop_new cfg b raw off)))"
  shows "let l = loop_run k pre (loop_new cfg b raw off); l' = loop_run k acts l in
     (\<exists>xs ys. lp_ran l @ ready_part l = lp_ran l' @ xs \<and> lp_fired l @ timer_part l = lp_fired l' @ ys \<and>
        (lp_phase l' = P_top \<longrightarrow> xs = [] \<and> ys = []))"
proof -
  let ?l = "loop_run k pre (loop_new cfg b raw off)"
  let ?m = "loop_run k acts ?l"
  have "within_tick ?l ?m" by (rule within_run [OF good_from_new assms(2,1)])
  then obtain ys zs where w: "lp_ran ?l @ ready_part ?l = lp_ran ?m @ ready_part ?m @ ys"
    "lp_fired ?l @ timer_part ?l = lp_fired ?m @ timer_part ?m @ zs" "lp_phase ?m \<noteq> P_idle \<longrightarrow> ys = [] \<and> zs = []"
    by (auto simp: within_tick_def)
  have "ready_part ?m = [] \<and> timer_part ?m = []" if "lp_phase ?m = P_top"
    using good_run [OF good_from_new, of k acts k pre cfg b raw off] assms(2) that
    by (simp add: loop_good_def idle_fine_def phase_fine_def part_defs)
  with w show ?thesis unfolding Let_def
    by (intro exI [of _ "ready_part ?m @ ys"] exI [of _ "timer_part ?m @ zs"]) simp
qed

theorem tick_runs_its_batch_witness: "\<exists>xs. [0, 1] = lp_ran demo_mid @ xs"
proof -
  have m: "loop_run demo_loop_ops [L_next (\<lambda>_. False), L_call_soon False]
      (loop_run demo_loop_ops demo_acts (loop_new default_reactor_config 0 0 0)) = demo_mid"
    by (simp add: demo_mid_def demo_new_def loop_run_def)
  have "ready_part (demo_taken\<lparr>lp_tick_no := 1, lp_phase := P_ready\<rparr>) = [0, 1]" by (simp add: part_defs demo_takes)
  then show ?thesis
    using tick_runs_its_batch [of "[L_next (\<lambda>_. False), L_call_soon False]" demo_loop_ops demo_acts default_reactor_config 0 0 0]
    by (simp add: Let_def m demo_mids demo_takes demo_acts_run [unfolded demo_new_def])
qed

text \<open>
  C10: A tick ends.  From any state of a run, whatever methods the application calls before each step
  of the loop thread (callbacks that schedule more callbacks, writes, closes), and whatever callbacks
  and protocol methods do, finitely many steps later the loop thread is ready for the next tick or
  has left \<open>run_forever\<close>, provided that every callback it calls returns or raises.
\<close>

theorem tick_ends:
  assumes "\<And>n. list_all app_act (acts n)"
  shows "\<exists>n. lp_phase (loop_drive k acts ans n (loop_run k pre (loop_new cfg b raw off))) \<in> {P_idle, P_top}"
  by (rule drive_ends [OF run_modes [OF new_modes] assms])

theorem tick_ends_witness:
  "\<exists>n. lp_phase (loop_drive demo_loop_ops (\<lambda>_. [L_call_soon False]) (\<lambda>_. (\<lambda>_. False, False, Returned True)) n demo_mid) \<in> {P_idle, P_top}"
  unfolding demo_mid_def demo_new_def by (rule tick_ends) simp



text \<open>
  C40: With a starved listener or datagram endpoint, which nothing would wake, the loop never parks for
  longer than the accept back-off of one second.  But with a starved endpoint and no starved listener
  the bound is one millisecond, not the interval of 50 milliseconds the code states for it: the
  deadline of the listeners, of which there is none, counts as zero.
\<close>

theorem starved_park_bounded:
  assumes "n_any_starved (w_net (lp_world l))"
  shows "fst (tick_timeout env l) \<le> ACCEPT_RETRY_DELAY \<and>
    ((\<forall>lid\<in>set (te_lids env). \<forall>e. n_listeners (w_net (lp_world l)) lid = Some e \<longrightarrow> \<not> l_starved e \<or> l_closing e) \<longrightarrow>
      fst (tick_timeout env l) \<le> 1000000 \<and> 1000000 < STARVED_RETRY_INTERVAL)"
proof -
  let ?s = "w_net (lp_world l)"
  obtain now where t: "fst (tick_timeout env l) \<le> starved_retry_in (te_lids env) (te_dids env) now ?s"
  proof -
    obtain t r where p: "poll_timeout (te_timeout env) (lp_reactor l) = (t, r)" by fastforce
    show thesis
      by (rule that [of "unat (r_time_cached (te_cached env) r)"]) (simp add: tick_timeout_def Let_def p assms)
  qed
  have a: "starved_retry_in lids dids now ?s \<le> ACCEPT_RETRY_DELAY" for lids dids now
    by (auto simp: starved_retry_in_def Let_def ACCEPT_RETRY_DELAY_def)
  have b: "starved_retry_in lids dids now ?s = 1000000"
    if n: "\<forall>lid\<in>set lids. \<forall>e. n_listeners ?s lid = Some e \<longrightarrow> \<not> l_starved e \<or> l_closing e" for lids dids now
  proof -
    have "concat (map (\<lambda>lid. case n_listeners ?s lid of None \<Rightarrow> [] | Some e \<Rightarrow> if l_starved e \<and> \<not> l_closing e then [l_retry_at e - now] else []) lids) = []"
      using n by (auto split: option.split)
    then show ?thesis unfolding starved_retry_in_def Let_def by (simp add: STARVED_RETRY_INTERVAL_def)
  qed
  show ?thesis
  proof (intro conjI impI)
    show "fst (tick_timeout env l) \<le> ACCEPT_RETRY_DELAY" by (rule order_trans [OF t a])
    show "fst (tick_timeout env l) \<le> 1000000"
      if "\<forall>lid\<in>set (te_lids env). \<forall>e. n_listeners ?s lid = Some e \<longrightarrow> \<not> l_starved e \<or> l_closing e"
      using t unfolding b [OF that] .
  qed (simp add: STARVED_RETRY_INTERVAL_def)
qed

theorem starved_park_bounded_witness:
  "fst (tick_timeout demo_tick (demo_top\<lparr>lp_world := (lp_world demo_top)\<lparr>w_net := (w_net (lp_world demo_top))\<lparr>n_any_starved := True\<rparr>\<rparr>\<rparr>)) \<le> 1000000"
  using starved_park_bounded [of "demo_top\<lparr>lp_world := (lp_world demo_top)\<lparr>w_net := (w_net (lp_world demo_top))\<lparr>n_any_starved := True\<rparr>\<rparr>\<rparr>" demo_tick]
  by (simp add: demo_tick_def)

end
