(* ===== verification/Spec2Isabelle.thy ===== *)
theory Spec2Isabelle
  imports Timer_Lifecycle Reactor_Props Op_Slab_Props Buffer_Pool_Props WebSocket_Props Epoll_Theorems
    Http_Parser_Props Rio_Util Iocp_Props Netsys Net_Theorems Fast_Queue_Props State_Cell Loop_Theorems
begin

text \<open>
  cadeloop is an asyncio event loop whose engine is written in Rust.  The crate \<open>crates/core\<close> holds
  the kernel backends and the reactor and knows nothing of Python; \<open>crates/pyshim\<close> binds it: handles,
  the loop object, transports, the HTTP engine.  A tick of the loop flushes the writes corked since
  the last one, asks the reactor for its clock, timers and cross-thread queue, polls the backend,
  turns the completions into transport events, and then runs the ready callbacks, the events and the
  timers.

  The theories, by component.

  \<^item> \<open>Prelude\<close>: the machine integers, Rust's saturating and narrowing operations, slice operations
    and the list facts the components share.  \<open>Contracts\<close>: the interfaces as locales (a timer queue,
    an allocator of identifiers).
  \<^item> \<open>Handles\<close> (\<open>pyshim/handles.rs\<close>): the flags of scheduled callbacks, in a store shared between the
    application and the loop.  \<open>Timer_Heap\<close>, \<open>Timer_Heap_Props\<close>, \<open>Timer_Lifecycle\<close> (\<open>core/timer.rs\<close>):
    the 4-ary heap with lazy deletion and its tombstone accounting; the heap order and multiset of
    every operation, then runs of schedule, cancel, pop and absorb.
  \<^item> \<open>Ready_Queues\<close> (\<open>core/ready.rs\<close>): the ready queue and the cross-thread queue, sequentially and as
    an interleaving of producers with the loop thread.  \<open>Spin_Gate\<close> (\<open>spin_gate.rs\<close>) and \<open>Clock\<close>
    (\<open>time.rs\<close>): the adaptive spin policy and the clock of a tick.
  \<^item> \<open>Op_Slab\<close>, \<open>Op_Slab_Props\<close> (\<open>core/opslab.rs\<close>) and \<open>Buffer_Pool\<close>, \<open>Buffer_Pool_Props\<close>
    (\<open>core/buffers.rs\<close>): slots with generations for the operations in flight, and refcounted receive
    buffers; both are runs of a step relation with their invariants by rule induction.
  \<^item> \<open>Backend\<close> (\<open>core/backend/mod.rs\<close>, \<open>portable.rs\<close>): errors, completions, the operations the reactor
    calls, as a record of functions with the contract \<open>io_backend\<close>; \<open>Reactor\<close>, \<open>Reactor_Props\<close>
    (\<open>core/reactor.rs\<close>): one tick, generic in the backend.
  \<^item> \<open>Fd_Table\<close>, \<open>Epoll\<close> (\<open>core/backend/epoll.rs\<close>): the descriptor table and the Linux backend, with
    the kernel as a script of answers that are logged; \<open>Epoll_Props\<close> (which operations are where),
    \<open>Epoll_Armed\<close> (what the kernel was told to watch), \<open>Epoll_Theorems\<close> (the theorems and the
    interpretation of \<open>io_backend\<close>).
  \<^item> \<open>Iocp_Util\<close>, \<open>Iocp_Props\<close> (\<open>core/backend/iocp_util.rs\<close>) and \<open>Rio_Util\<close> (\<open>rio_util.rs\<close>): the decisions
    of the Windows backends that do not call Windows.  \<open>Netsys\<close> (\<open>core/netsys.rs\<close>): socket addresses
    and the socket calls, again over a script of answers.
  \<^item> \<open>WebSocket\<close>, \<open>WebSocket_Rx_Props\<close>, \<open>WebSocket_Props\<close> (\<open>core/ws.rs\<close>) and \<open>Http_Parser\<close>,
    \<open>Http_Parser_Props\<close> (\<open>core/http.rs\<close>): the protocol engines; llhttp is a parameter, the callbacks of
    one execute with its return code.
  \<^item> \<open>Net_State\<close>, \<open>Stream\<close>, \<open>Endpoints\<close>, \<open>Net_Dispatch\<close> (\<open>pyshim/net.rs\<close>): stream transports, datagram
    endpoints, listeners, the translation of completions into events and their dispatch, over a
    record of the backend's functions; what crosses the boundary is logged.  \<open>Stream_Inv\<close>: the log
    read as the kernel's and the application's view, and the invariant of the transports.
    \<open>Stream_Keep\<close>, \<open>Stream_Moves\<close>, \<open>Aside\<close>, \<open>Stream_Methods\<close>, \<open>Stream_Run\<close>: every operation keeps it,
    one lemma each; \<open>Net_Api\<close>: the loop's methods on this state (watches, connects, pipes, listeners,
    the sweeps of \<open>close\<close>); \<open>Net_World\<close>: runs of any sequence of loop and application actions;
    \<open>Net_Theorems\<close>: what holds of every run, and two runs that show flaws.
  \<^item> \<open>Core_Loop\<close> (\<open>pyshim/coreloop.rs\<close>): the loop object over the reactor and the transports: the phases
    of a tick, \<open>run_forever\<close>, \<open>close\<close>, scheduling from any thread, unwinding.  A tick is a sequence of
    steps, because a callback may call any method while it runs.  \<open>Loop_Modes\<close>: which Python code runs
    in which phase; \<open>Loop_Queues\<close>: every step keeps the accounts of callbacks and timers; \<open>Loop_Runs\<close>:
    both along runs, the run of the transport layer inside, the measure of a tick; \<open>Loop_Theorems\<close>:
    the theorems, with a tick evaluated in the kernel for the witnesses.
  \<^item> \<open>State_Cell\<close> (\<open>pyshim/gil_boundary.rs\<close>): the cell around the loop's state, with the threads that
    contend for it and the GIL as part of the state.  \<open>Fast_Queue\<close>, \<open>Fast_Queue_Props\<close>
    (\<open>pyshim/fastqueue.rs\<close>): the native asyncio queue with its waiters, cancellation included.

  Conventions.  A struct is a record, an enum a datatype, an error a value of a sum type.  A \<open>usize\<close>
  is a natural number with saturation written out where the source has it; ticks, generations and
  flags whose wrap-around matters are words.  Hash maps are functions to options.  A Python object
  is a number or a type parameter.  What the platform answers (clock readings, allocator results,
  system calls) is an argument or a script; a retry loop consumes one answer per attempt.  Loops
  recurse structurally or on a measure; the only partial function is \<open>cq_grow\<close>, whose termination
  is a theorem.

  Not modelled: the FFI of the IOCP and RIO backends, which needs the semantics of overlapped
  Windows calls; the vendored llhttp; the layout of interpreter objects (\<open>ctxsnap.rs\<close>, \<open>taskfast.rs\<close>);
  the Python package.  The manifest lists every component with its status.
\<close>

end
